(* ===== verification/Prelude.thy ===== *)
theory Prelude
  imports Main "HOL-Library.Word"
begin

text \<open>
  Shared vocabulary of the development: the machine integer types of
  \<^verbatim>\<open>src/xv6A1/types.h\<close>, the result type of kernel operations (a value, a
  \<^verbatim>\<open>panic\<close>, a process going to sleep, or an access C leaves undefined), the
  first-match scan that the kernel runs over its fixed-size tables, and the generic lemmas
  on results, lists and words that the component theories use.
\<close>

unbundle bit_operations_syntax

subsection \<open>Machine integers\<close>

type_synonym uchar = "8 word"
type_synonym ushort = "16 word"
type_synonym uint = "32 word"

text \<open>A C \<^verbatim>\<open>int\<close> is a 32 bit word that is read with \<^const>\<open>sint\<close>.\<close>

type_synonym cint = "32 word"

text \<open>
  Wait channels. The kernel uses the address of some object as a channel; distinct objects
  have distinct addresses, and the small integers that the IPC calls cast to
  \<^verbatim>\<open>void*\<close> are below \<^verbatim>\<open>KERNBASE\<close>, hence no address of a kernel object.
\<close>

datatype chan =
    ChNull                \<comment> \<open>the null pointer: not sleeping on anything\<close>
  | ChTicks               \<comment> \<open>\<^verbatim>\<open>&ticks\<close>\<close>
  | ChProc nat            \<comment> \<open>the address of a process table slot, used by \<^verbatim>\<open>wait\<close>\<close>
  | ChPid int             \<comment> \<open>\<^verbatim>\<open>(void* )pid\<close>, used by the IPC calls and the barrier\<close>
  | ChPipeR uint          \<comment> \<open>\<^verbatim>\<open>&p->nread\<close> of the pipe in the page at this address\<close>
  | ChPipeW uint          \<comment> \<open>\<^verbatim>\<open>&p->nwrite\<close>\<close>
  | ChLog                 \<comment> \<open>\<^verbatim>\<open>&log\<close>\<close>
  | ChInput               \<comment> \<open>\<^verbatim>\<open>&input.r\<close>\<close>
  | ChBufLock nat         \<comment> \<open>the sleep lock of a buffer\<close>
  | ChInodeLock nat       \<comment> \<open>the sleep lock of an inode cache entry\<close>
  | ChBuf nat             \<comment> \<open>a buffer waiting for the disk\<close>

subsection \<open>Results of kernel operations\<close>

text \<open>
  \<open>Ret\<close> is a normal return. \<open>Panic\<close> is a call of \<^verbatim>\<open>panic\<close>, which stops the
  machine. \<open>Block\<close> says that the calling process goes to sleep on a channel before the
  operation is complete. \<open>Spin\<close> says that it busy-waits for a spin lock that another
  processor holds. \<open>Fault\<close> marks an access that C leaves undefined: an index
  outside its array, a pointer that was never set, or the overflow of a signed counter.
\<close>

datatype 'a kres = Ret 'a | Panic string | Block chan | Spin | Fault string

primrec kbind :: "'a kres \<Rightarrow> ('a \<Rightarrow> 'b kres) \<Rightarrow> 'b kres" where
  "kbind (Ret x) f = f x"
| "kbind (Panic m) f = Panic m"
| "kbind (Block c) f = Block c"
| "kbind Spin f = Spin"
| "kbind (Fault m) f = Fault m"

definition kassert :: "bool \<Rightarrow> string \<Rightarrow> unit kres" where
  "kassert b m = (if b then Ret () else Panic m)"

named_theorems kres_simps \<open>inversion rules for results of kernel operations\<close>

lemma kbind_Ret_iff [kres_simps]:
  "kbind m f = Ret y \<longleftrightarrow> (\<exists>x. m = Ret x \<and> f x = Ret y)"
  by (cases m) auto

lemma kbind_Panic_iff [kres_simps]:
  "kbind m f = Panic e \<longleftrightarrow> m = Panic e \<or> (\<exists>x. m = Ret x \<and> f x = Panic e)"
  by (cases m) auto

lemma kbind_Block_iff [kres_simps]:
  "kbind m f = Block c \<longleftrightarrow> m = Block c \<or> (\<exists>x. m = Ret x \<and> f x = Block c)"
  by (cases m) auto

lemma kbind_Spin_iff [kres_simps]:
  "kbind m f = Spin \<longleftrightarrow> m = Spin \<or> (\<exists>x. m = Ret x \<and> f x = Spin)"
  by (cases m) auto

lemma kbind_Fault_iff [kres_simps]:
  "kbind m f = Fault e \<longleftrightarrow> m = Fault e \<or> (\<exists>x. m = Ret x \<and> f x = Fault e)"
  by (cases m) auto

lemma kassert_simps [kres_simps]:
  "kassert b m = Ret u \<longleftrightarrow> b"
  "kassert b m = Panic e \<longleftrightarrow> \<not> b \<and> e = m"
  "kassert b m \<noteq> Block c"
  "kassert b m \<noteq> Spin"
  "kassert b m \<noteq> Fault e"
  by (auto simp: kassert_def)

lemma kassert_True [simp]: "b \<Longrightarrow> kassert b m = Ret ()"
  by (simp add: kassert_def)

lemma kassert_False [simp]: "\<not> b \<Longrightarrow> kassert b m = Panic m"
  by (simp add: kassert_def)

lemma kbind_assoc: "kbind (kbind m f) g = kbind m (\<lambda>x. kbind (f x) g)"
  by (cases m) auto

lemma kbind_cong [fundef_cong]:
  "m = m' \<Longrightarrow> (\<And>x. m' = Ret x \<Longrightarrow> f x = f' x) \<Longrightarrow> kbind m f = kbind m' f'"
  by (cases m') auto

text \<open>
  A counter of type \<^verbatim>\<open>int\<close> that the code only steps up and down is kept as an integer. A step out of the range of
  the type, which C leaves undefined, is a \<open>Fault\<close>.
\<close>

abbreviation "INT_MAX \<equiv> (2147483647 :: int)"

definition cinc :: "int \<Rightarrow> int kres" where
  "cinc n = (if n < INT_MAX then Ret (n + 1) else Fault ''int overflow'')"

definition cdec :: "int \<Rightarrow> int kres" where
  "cdec n = (if - INT_MAX \<le> n then Ret (n - 1) else Fault ''int overflow'')"

lemma cinc_Ret [simp]: "n < INT_MAX \<Longrightarrow> cinc n = Ret (n + 1)"
  by (simp add: cinc_def)

lemma cdec_Ret [simp]: "0 \<le> n \<Longrightarrow> cdec n = Ret (n - 1)"
  by (simp add: cdec_def)

text \<open>
  Loops that may run for ever are partial functions into \<open>'a kres option\<close>, where \<open>None\<close> stands for a run without end;
  \<open>lbind\<close> is the sequence of an operation and the rest of such a loop, and \<open>lrun\<close> makes a result of the loop.
\<close>

definition lbind :: "'a kres \<Rightarrow> ('a \<Rightarrow> 'b kres option) \<Rightarrow> 'b kres option" where
  "lbind m f = (case m of Ret x \<Rightarrow> f x | Panic e \<Rightarrow> Some (Panic e) | Block c \<Rightarrow> Some (Block c) | Spin \<Rightarrow> Some Spin | Fault e \<Rightarrow> Some (Fault e))"

definition lrun :: "'a kres option \<Rightarrow> 'a kres" where
  "lrun r = (case r of None \<Rightarrow> Spin | Some m \<Rightarrow> m)"

lemma lbind_mono [partial_function_mono]:
  "(\<And>y. mono_option (\<lambda>f. C y f)) \<Longrightarrow> mono_option (\<lambda>f. lbind m (\<lambda>y. C y f))"
  by (cases m) (simp_all add: lbind_def option.const_mono)

lemma lbind_simps [simp]: "lbind (Ret x) f = f x" "lrun (Some m) = m"
  by (simp_all add: lbind_def lrun_def)

text \<open>
  The lock discipline of a spin lock as one processor sees it: whether it holds the lock.
  Theory \<open>Spinlock\<close> shows that \<^verbatim>\<open>acquire\<close> and \<^verbatim>\<open>release\<close> implement it.
\<close>

definition lock_acquire :: "bool \<Rightarrow> bool kres" where
  "lock_acquire h = (if h then Panic ''acquire'' else Ret True)"

definition lock_release :: "bool \<Rightarrow> bool kres" where
  "lock_release h = (if h then Ret False else Panic ''release'')"

lemma lock_acquire_simps [simp]:
  "lock_acquire False = Ret True" "lock_acquire True = Panic ''acquire''"
  by (simp_all add: lock_acquire_def)

lemma lock_release_simps [simp]:
  "lock_release True = Ret False" "lock_release False = Panic ''release''"
  by (simp_all add: lock_release_def)

text \<open>A run of lock operations: \<open>True\<close> acquires, \<open>False\<close> releases.\<close>

primrec lock_run :: "('s \<Rightarrow> 's kres) \<Rightarrow> ('s \<Rightarrow> 's kres) \<Rightarrow> bool list \<Rightarrow> 's \<Rightarrow> 's kres" where
  "lock_run acq rel [] s = Ret s"
| "lock_run acq rel (e # es) s = kbind (if e then acq s else rel s) (lock_run acq rel es)"

text \<open>
  What the kernel relies on in a lock: \<open>owns\<close> says whether the caller holds it, and the
  operations succeed exactly along the discipline above. Against the discipline they panic, unless a counter
  overflows first.
\<close>

locale lock_impl =
  fixes acq :: "'s \<Rightarrow> 's kres" and rel :: "'s \<Rightarrow> 's kres"
    and owns :: "'s \<Rightarrow> bool" and inv :: "'s \<Rightarrow> bool"
  assumes acq_ret: "inv s \<Longrightarrow> acq s = Ret s' \<Longrightarrow> \<not> owns s \<and> owns s' \<and> inv s'"
    and acq_again: "inv s \<Longrightarrow> owns s \<Longrightarrow> acq s = Panic ''acquire'' \<or> (\<exists>e. acq s = Fault e)"
    and rel_ret: "inv s \<Longrightarrow> owns s \<Longrightarrow> \<exists>s'. rel s = Ret s' \<and> \<not> owns s' \<and> inv s'"
    and rel_again: "inv s \<Longrightarrow> \<not> owns s \<Longrightarrow> rel s = Panic ''release'' \<or> (\<exists>e. rel s = Fault e)"
begin

lemma section_completes:
  assumes "inv s" "acq s = Ret s'"
  shows "\<exists>s''. rel s' = Ret s'' \<and> \<not> owns s'' \<and> inv s''"
  using acq_ret [OF assms] rel_ret by blast

lemma run_simulates:
  assumes "inv s" "lock_run acq rel es s = Ret s'"
  shows "lock_run lock_acquire lock_release es (owns s) = Ret (owns s') \<and> inv s'"
  using assms
proof (induction es arbitrary: s)
  case Nil
  then show ?case by simp
next
  case (Cons e es)
  from Cons.prems obtain t where t: "(if e then acq s else rel s) = Ret t" "lock_run acq rel es t = Ret s'"
    by (auto simp: kbind_Ret_iff)
  show ?case
  proof (cases e)
    case True
    with acq_ret Cons.prems(1) t have "\<not> owns s" "owns t" "inv t" by auto
    with Cons.IH [of t] t True show ?thesis by simp
  next
    case False
    have o: "owns s"
    proof (rule ccontr)
      assume "\<not> owns s"
      with rel_again [OF Cons.prems(1)] t False show False by auto
    qed
    then have "\<not> owns t" "inv t"
      using rel_ret [OF Cons.prems(1) o] t False by auto
    with Cons.IH [of t] t False o show ?thesis by simp
  qed
qed

end

interpretation flag_lock: lock_impl lock_acquire lock_release "\<lambda>h. h" "\<lambda>_. True"
  by unfold_locales (auto simp: lock_acquire_def lock_release_def split: if_splits)

text \<open>Reading and writing an array slot; an index outside the array is undefined in C.\<close>

definition aget :: "'a list \<Rightarrow> int \<Rightarrow> 'a kres" where
  "aget xs i = (if 0 \<le> i \<and> i < int (length xs) then Ret (xs ! nat i)
                else Fault ''index out of bounds'')"

definition aset :: "'a list \<Rightarrow> int \<Rightarrow> 'a \<Rightarrow> 'a list kres" where
  "aset xs i v = (if 0 \<le> i \<and> i < int (length xs) then Ret (xs[nat i := v])
                  else Fault ''index out of bounds'')"

lemma aget_Ret [kres_simps]:
  "aget xs i = Ret v \<longleftrightarrow> 0 \<le> i \<and> i < int (length xs) \<and> v = xs ! nat i"
  by (auto simp: aget_def)

lemma aset_Ret [kres_simps]:
  "aset xs i v = Ret ys \<longleftrightarrow> 0 \<le> i \<and> i < int (length xs) \<and> ys = xs[nat i := v]"
  by (auto simp: aset_def)

lemma aget_ok [simp]: "0 \<le> i \<Longrightarrow> i < int (length xs) \<Longrightarrow> aget xs i = Ret (xs ! nat i)"
  by (simp add: aget_def)

lemma aset_ok [simp]: "0 \<le> i \<Longrightarrow> i < int (length xs) \<Longrightarrow> aset xs i v = Ret (xs[nat i := v])"
  by (simp add: aset_def)

subsection \<open>Scanning a table\<close>

text \<open>
  The index of the first element that satisfies a test: the loop
  \<^verbatim>\<open>for(p = tab; p < &tab[N]; p++) if(test(p)) goto found;\<close>.
\<close>

primrec first_index :: "('a \<Rightarrow> bool) \<Rightarrow> 'a list \<Rightarrow> nat option" where
  "first_index P [] = None"
| "first_index P (x # xs) = (if P x then Some 0 else map_option Suc (first_index P xs))"

lemma first_index_None: "first_index P xs = None \<longleftrightarrow> (\<forall>x\<in>set xs. \<not> P x)"
  by (induction xs) auto

lemma first_index_Some:
  "first_index P xs = Some i \<longleftrightarrow> i < length xs \<and> P (xs ! i) \<and> (\<forall>j<i. \<not> P (xs ! j))"
proof (induction xs arbitrary: i)
  case Nil
  then show ?case by simp
next
  case (Cons x xs)
  show ?case
  proof (cases i)
    case 0
    then show ?thesis by auto
  next
    case (Suc k)
    then show ?thesis
      using Cons.IH [of k] by (simp add: All_less_Suc2)
  qed
qed

lemma first_index_ex: "x \<in> set xs \<Longrightarrow> P x \<Longrightarrow> \<exists>i. first_index P xs = Some i"
  using first_index_None [of P xs] by (cases "first_index P xs") auto

lemma first_index_cong_map:
  "first_index P (map f xs) = first_index (\<lambda>x. P (f x)) xs"
  by (induction xs) auto

subsection \<open>Lists\<close>

lemma map_eq_list_updateD:
  "map f xs = ys \<Longrightarrow> i < length xs \<Longrightarrow> f v = w \<Longrightarrow> map f (xs[i := v]) = ys[i := w]"
  by (auto simp: map_update)

lemma count_filter_update:
  assumes "i < length xs"
  shows "length (filter P (xs[i := v])) + (if P (xs ! i) then 1 else 0) =
         length (filter P xs) + (if P v then 1 else 0)"
  using assms
proof (induction xs arbitrary: i)
  case Nil
  then show ?case by simp
next
  case (Cons x xs)
  then show ?case by (cases i) auto
qed

subsection \<open>Words\<close>

lemma unat_less_32 [simp]: "unat (x :: uint) < 4294967296"
  using unsigned_less [of x] by simp

lemma unat_sub_if_32:
  "unat (x - y :: uint) = (if unat y \<le> unat x then unat x - unat y
                           else unat x + 4294967296 - unat y)"
  by (simp add: unat_sub_if')

lemma unat_add_no_wrap:
  "unat (x :: uint) + unat y < 4294967296 \<Longrightarrow> unat (x + y) = unat x + unat y"
  by (simp add: unat_word_ariths)

lemma unat_of_nat_32: "n < 4294967296 \<Longrightarrow> unat (of_nat n :: uint) = n"
  by (simp add: unat_of_nat take_bit_nat_eq_self)

lemma unat_Suc_less:
  assumes "s < (e :: uint)"
  shows "unat (s + 1) = Suc (unat s)"
proof -
  have "unat s < unat e" using assms by (simp add: word_less_nat_alt)
  then have "unat s + unat (1 :: uint) < 4294967296"
    using unat_less_32 [of e] by (simp del: unat_less_32)
  then show ?thesis using unat_add_no_wrap by fastforce
qed

lemma Suc_le_word: "s < (e :: uint) \<Longrightarrow> s + 1 \<le> x \<longleftrightarrow> s < x"
  by (simp add: word_le_nat_alt word_less_nat_alt unat_Suc_less Suc_le_eq)

lemma sint_less_32: "sint (k :: cint) < 2147483648" "- 2147483648 \<le> sint (k :: cint)"
  using signed_take_bit_int_less_exp [of 31 "uint k"] signed_take_bit_int_greater_eq_minus_exp [of 31 "uint k"]
  by (simp_all add: sint_uint)

lemma sint_nonneg:
  assumes "0 \<le> sint (k :: cint)"
  shows "sint k = uint k" "nat (sint k) = unat k" "unat k < 2147483648"
proof -
  show u: "sint k = uint k"
    unfolding uint_sint using assms sint_less_32(1) [of k] by (simp add: take_bit_int_eq_self)
  show "nat (sint k) = unat k" by (simp add: u)
  have "uint k < 2147483648" using sint_less_32(1) [of k] by (simp add: u)
  moreover have "uint k = int (unat k)" by simp
  ultimately show "unat k < 2147483648" by linarith
qed

lemma sint_unat_less:
  assumes "unat (k :: cint) < 2147483648"
  shows "sint k = int (unat k)"
proof -
  have u: "uint k = int (unat k)" by simp
  then have "uint k < 2147483648" "- 2147483648 \<le> uint k" using assms by linarith+
  then have "signed_take_bit 31 (uint k) = uint k"
    by (intro signed_take_bit_int_eq_self) simp_all
  then show ?thesis by (simp add: sint_uint)
qed

lemma sint_of_nat_small: "n < 2 ^ 31 \<Longrightarrow> sint (of_nat n :: uint) = int n"
  by (simp add: signed_of_nat signed_take_bit_int_eq_self)

end
