(* ===== verification/Kmemory.thy ===== *)
theory Kmemory
  imports Prelude
begin

text \<open>
  Byte-addressed memory: the 32 bit little-endian loads and stores that the C code performs
  through pointers, address ranges, and the lemmas that say which stores a load can see.
\<close>

type_synonym mem = "uint \<Rightarrow> uchar"

definition load32 :: "mem \<Rightarrow> uint \<Rightarrow> uint" where
  "load32 m a = ucast (m a) OR push_bit 8 (ucast (m (a + 1)))
     OR push_bit 16 (ucast (m (a + 2))) OR push_bit 24 (ucast (m (a + 3)))"

definition store32 :: "mem \<Rightarrow> uint \<Rightarrow> uint \<Rightarrow> mem" where
  "store32 m a v = m(a := ucast v, a + 1 := ucast (drop_bit 8 v),
     a + 2 := ucast (drop_bit 16 v), a + 3 := ucast (drop_bit 24 v))"

text \<open>The offset of an address in the block that starts at \<open>d\<close>; addresses wrap around.\<close>

definition in_block :: "uint \<Rightarrow> nat \<Rightarrow> uint \<Rightarrow> bool" where
  "in_block d n a \<longleftrightarrow> unat (a - d) < n"

lemma word_offsets_distinct [simp]:
  fixes a :: uint
  shows "a + 1 \<noteq> a" "a + 2 \<noteq> a" "a + 3 \<noteq> a" "a + 2 \<noteq> a + 1" "a + 3 \<noteq> a + 1" "a + 3 \<noteq> a + 2"
    "a \<noteq> a + 1" "a \<noteq> a + 2" "a \<noteq> a + 3" "a + 1 \<noteq> a + 2" "a + 1 \<noteq> a + 3" "a + 2 \<noteq> a + 3"
  by simp_all

lemma bytes_join:
  "(ucast (ucast v :: uchar) OR push_bit 8 (ucast (ucast (drop_bit 8 v) :: uchar))
     OR push_bit 16 (ucast (ucast (drop_bit 16 v) :: uchar))
     OR push_bit 24 (ucast (ucast (drop_bit 24 v) :: uchar)) :: uint) = v"
proof (rule bit_word_eqI)
  fix n assume "n < LENGTH(32)"
  then have "n < 32" by simp
  then consider "n < 8" | "8 \<le> n" "n < 16" | "16 \<le> n" "n < 24" | "24 \<le> n" "n < 32"
    by (meson not_less)
  then show "bit (ucast (ucast v :: uchar) OR push_bit 8 (ucast (ucast (drop_bit 8 v) :: uchar))
     OR push_bit 16 (ucast (ucast (drop_bit 16 v) :: uchar))
     OR push_bit 24 (ucast (ucast (drop_bit 24 v) :: uchar)) :: uint) n \<longleftrightarrow> bit v n"
    by cases (auto simp: bit_or_iff bit_push_bit_iff bit_ucast_iff bit_drop_bit_eq)
qed

lemma load32_store32_same [simp]: "load32 (store32 m a v) a = v"
  using bytes_join [of v] by (simp add: load32_def store32_def)

lemma store32_other: "\<not> in_block a 4 b \<Longrightarrow> store32 m a v b = m b"
  by (auto simp: store32_def in_block_def)

lemma load32_cong:
  assumes "\<And>b. in_block a 4 b \<Longrightarrow> m b = m' b"
  shows "load32 m a = load32 m' a"
  using assms by (simp add: load32_def in_block_def)

subsection \<open>Blocks of addresses\<close>

lemma in_block_0 [simp]: "\<not> in_block d 0 a"
  by (simp add: in_block_def)

lemma in_block_start [simp]: "in_block d n d \<longleftrightarrow> 0 < n"
  by (simp add: in_block_def)

lemma in_block_add:
  assumes "i + k \<le> 4294967296"
  shows "in_block d (i + k) a \<longleftrightarrow> in_block d i a \<or> in_block (d + of_nat i) k a"
proof (cases "k = 0")
  case True
  then show ?thesis by simp
next
  case False
  with assms have i: "unat (of_nat i :: uint) = i"
    by (simp add: unat_of_nat_32)
  have eq: "a - (d + of_nat i) = (a - d) - of_nat i"
    by simp
  have "unat (a - (d + of_nat i)) =
      (if i \<le> unat (a - d) then unat (a - d) - i else unat (a - d) + 4294967296 - i)"
    unfolding eq using unat_sub_if_32 [of "a - d" "of_nat i"] by (simp only: i)
  with assms show ?thesis
    by (auto simp: in_block_def)
qed

lemma in_block_Suc:
  assumes "k < 4294967296"
  shows "in_block d (Suc k) a \<longleftrightarrow> a = d \<or> in_block (d + 1) k a"
proof -
  have "in_block d 1 a \<longleftrightarrow> a = d"
    by (simp add: in_block_def unat_eq_0)
  with in_block_add [of 1 k d a] assms show ?thesis
    by simp
qed

lemma in_block_not_before: "n < 4294967296 \<Longrightarrow> \<not> in_block (d + 1) n d"
proof -
  have "d - (d + 1) = (-1 :: uint)" by simp
  then show "n < 4294967296 \<Longrightarrow> \<not> in_block (d + 1) n d"
    by (simp add: in_block_def unsigned_minus_1_eq_mask mask_eq_exp_minus_1)
qed

lemma unat_block_offset:
  assumes "unat s + n < 4294967296" "in_block d n a"
  shows "unat (s + (a - d)) = unat s + unat (a - d)"
  using assms by (intro unat_add_no_wrap) (simp add: in_block_def)

lemma in_block_iff:
  "unat d + n \<le> 4294967296 \<Longrightarrow> in_block d n a \<longleftrightarrow> unat d \<le> unat a \<and> unat a < unat d + n"
  using unat_less_32 [of a] by (auto simp: in_block_def unat_sub_if_32 simp del: unat_less_32)

lemma in_block_disjoint:
  assumes "unat s + n \<le> unat t \<or> unat t + k \<le> unat s"
    "unat s + n \<le> 4294967296" "unat t + k \<le> 4294967296"
  shows "in_block s n a \<Longrightarrow> \<not> in_block t k a"
  using assms by (auto simp: in_block_iff)

lemma in_block_inner:
  assumes "in_block (p + k) n a" "unat k + n \<le> N" "N < 4294967296"
  shows "in_block p N a"
proof -
  have "unat (a - (p + k)) < n" using assms(1) by (simp add: in_block_def)
  then have "unat ((a - (p + k)) + k) = unat (a - (p + k)) + unat k"
    using assms(2,3) by (intro unat_add_no_wrap) simp
  then have "unat (a - p) = unat (a - (p + k)) + unat k" by simp
  with \<open>unat (a - (p + k)) < n\<close> assms(2) show ?thesis by (simp add: in_block_def)
qed

lemma in_block_apart:
  assumes "in_block b k x" "n \<le> unat (b - a)" "k \<le> unat (a - b)"
  shows "\<not> in_block a n x"
proof -
  have x: "unat (x - b) < k" using assms(1) by (simp add: in_block_def)
  have "unat (a - b) + unat (b - a) = (if a = b then 0 else 4294967296)"
    using unat_sub_if_32 [of a b] unat_sub_if_32 [of b a] word_unat_eq_iff [of a b]
      unat_less_32 [of a] unat_less_32 [of b]
    by (auto split: if_splits simp del: unat_less_32)
  then have "unat (x - b) + unat (b - a) < 4294967296"
    using x assms(3) by (auto split: if_splits)
  then have "unat ((x - b) + (b - a)) = unat (x - b) + unat (b - a)"
    by (rule unat_add_no_wrap)
  with assms(2) show ?thesis by (simp add: in_block_def)
qed

text \<open>A load does not see a store to a word that does not overlap it.\<close>

lemma load32_store32_apart:
  assumes "4 \<le> unat (b - a)" "4 \<le> unat (a - b)"
  shows "load32 (store32 m a v) b = load32 m b"
  using assms by (intro load32_cong store32_other) (rule in_block_apart)

subsection \<open>Byte strings in memory\<close>

primrec write_bytes :: "mem \<Rightarrow> uint \<Rightarrow> uchar list \<Rightarrow> mem" where
  "write_bytes m a [] = m"
| "write_bytes m a (b # bs) = write_bytes (m(a := b)) (a + 1) bs"

definition read_bytes :: "mem \<Rightarrow> uint \<Rightarrow> nat \<Rightarrow> uchar list" where
  "read_bytes m a n = map (\<lambda>i. m (a + of_nat i)) [0..<n]"

lemma length_read_bytes [simp]: "length (read_bytes m a n) = n"
  by (simp add: read_bytes_def)

lemma nth_read_bytes [simp]: "i < n \<Longrightarrow> read_bytes m a n ! i = m (a + of_nat i)"
  by (simp add: read_bytes_def)

lemma write_bytes_eq:
  assumes "length bs < 4294967296"
  shows "write_bytes m a bs = (\<lambda>x. if in_block a (length bs) x then bs ! unat (x - a) else m x)"
  using assms
proof (induction bs arbitrary: m a)
  case Nil
  then show ?case by simp
next
  case (Cons b bs)
  then have n: "length bs < 4294967296" by simp
  show ?case
  proof
    fix x
    have nb: "\<not> in_block (a + 1) (length bs) a" using n by (rule in_block_not_before)
    show "write_bytes m a (b # bs) x = (if in_block a (length (b # bs)) x then (b # bs) ! unat (x - a) else m x)"
    proof (cases "x = a")
      case True
      with Cons.IH [OF n] nb show ?thesis by simp
    next
      case False
      have "unat (x - (a + 1)) = unat (x - a) - 1"
        using False unat_minus_one [of "x - a"] by (simp add: diff_diff_eq)
      moreover have "unat (x - a) \<noteq> 0" using False by (simp add: unat_eq_0)
      ultimately show ?thesis
        using Cons.IH [OF n] False in_block_Suc [OF n, of a x] by (simp add: nth_Cons')
    qed
  qed
qed

lemma write_bytes_other: "\<not> in_block a (length bs) x \<Longrightarrow> length bs < 4294967296 \<Longrightarrow> write_bytes m a bs x = m x"
  by (simp add: write_bytes_eq)

lemma write_bytes_nth:
  "i < length bs \<Longrightarrow> length bs < 4294967296 \<Longrightarrow> write_bytes m a bs (a + of_nat i) = bs ! i"
  by (simp add: write_bytes_eq in_block_def unat_of_nat_32)

lemma read_write_bytes: "length bs < 4294967296 \<Longrightarrow> read_bytes (write_bytes m a bs) a (length bs) = bs"
  by (intro nth_equalityI) (simp_all add: write_bytes_nth)

lemma read_bytes_cong:
  assumes "n \<le> 4294967296" "\<And>x. in_block a n x \<Longrightarrow> m x = m' x"
  shows "read_bytes m a n = read_bytes m' a n"
  using assms by (intro nth_equalityI) (simp_all add: in_block_def unat_of_nat_32)

end
