(* ===== verification/Spinlock.thy ===== *)
theory Spinlock
  imports Kmemory
begin

text \<open>
  Spin locks: \<^verbatim>\<open>src/xv6A1/spinlock.c\<close> with \<^verbatim>\<open>mycpu\<close> of \<^verbatim>\<open>proc.c\<close> and the per-CPU
  fields of \<^verbatim>\<open>proc.h\<close> that the lock code uses. The processors are told apart by their
  local APIC id; the interrupt flag belongs to a processor. The theory shows that the
  nesting count keeps interrupts off while any lock is held, that \<^verbatim>\<open>acquire\<close> and
  \<^verbatim>\<open>release\<close> are inverse, and that processors that take the lock in any interleaving
  exclude each other. An interleaving may cut \<^verbatim>\<open>acquire\<close> before and after every exchange of the spinning loop, and
  \<^verbatim>\<open>release\<close> before and after the store that frees the lock.
\<close>

subsection \<open>State\<close>

text \<open>The depth \<open>ncli\<close> is a C \<^verbatim>\<open>int\<close>: counting past its range is a \<open>Fault\<close> (\<open>cinc\<close>, \<open>cdec\<close>).\<close>

record cpu =
  apicid :: uchar
  ncli :: int
  intena :: bool

record machine =
  cpus :: "cpu list"
  eflags_IF :: "uchar \<Rightarrow> bool"

record spinlock =
  locked :: uint
  lkname :: string
  lkcpu :: "nat option"
  pcs :: "uint list"

definition initlock :: "string \<Rightarrow> spinlock \<Rightarrow> spinlock" where
  "initlock n lk = lk\<lparr>lkname := n, locked := 0, lkcpu := None\<rparr>"

subsection \<open>Operations\<close>

text \<open>\<open>a\<close> is \<^verbatim>\<open>lapicid()\<close> of the processor that executes the call.\<close>

definition cli :: "uchar \<Rightarrow> machine \<Rightarrow> machine" where
  "cli a M = M\<lparr>eflags_IF := (eflags_IF M)(a := False)\<rparr>"

definition sti :: "uchar \<Rightarrow> machine \<Rightarrow> machine" where
  "sti a M = M\<lparr>eflags_IF := (eflags_IF M)(a := True)\<rparr>"

definition mycpu :: "uchar \<Rightarrow> machine \<Rightarrow> nat kres" where
  "mycpu a M =
     (if eflags_IF M a then Panic ''mycpu called with interrupts enabled''
      else case first_index (\<lambda>c. apicid c = a) (cpus M) of
             None \<Rightarrow> Panic ''unknown apicid''
           | Some i \<Rightarrow> Ret i)"

definition upd_cpu :: "nat \<Rightarrow> (cpu \<Rightarrow> cpu) \<Rightarrow> machine \<Rightarrow> machine" where
  "upd_cpu i f M = M\<lparr>cpus := (cpus M)[i := f (cpus M ! i)]\<rparr>"

definition pushcli :: "uchar \<Rightarrow> machine \<Rightarrow> machine kres" where
  "pushcli a M =
     (let eflags = eflags_IF M a; M = cli a M
      in kbind (mycpu a M) (\<lambda>i.
           let M = (if ncli (cpus M ! i) = 0 then upd_cpu i (\<lambda>c. c\<lparr>intena := eflags\<rparr>) M else M)
           in kbind (cinc (ncli (cpus M ! i))) (\<lambda>n. Ret (upd_cpu i (\<lambda>c. c\<lparr>ncli := n\<rparr>) M))))"

definition popcli :: "uchar \<Rightarrow> machine \<Rightarrow> machine kres" where
  "popcli a M =
     (if eflags_IF M a then Panic ''popcli - interruptible''
      else kbind (mycpu a M) (\<lambda>i.
        kbind (cdec (ncli (cpus M ! i))) (\<lambda>n.
          let M = upd_cpu i (\<lambda>c. c\<lparr>ncli := n\<rparr>) M
          in if ncli (cpus M ! i) < 0 then Panic ''popcli''
             else if ncli (cpus M ! i) = 0 \<and> intena (cpus M ! i) then Ret (sti a M)
             else Ret M)))"

definition holding :: "uchar \<Rightarrow> spinlock \<Rightarrow> machine \<Rightarrow> (bool \<times> machine) kres" where
  "holding a lk M =
     kbind (pushcli a M) (\<lambda>M.
     kbind (mycpu a M) (\<lambda>i.
       let r = (locked lk \<noteq> 0 \<and> lkcpu lk = Some i)
       in kbind (popcli a M) (\<lambda>M. Ret (r, M))))"

text \<open>
  The saved call chain: at most ten return addresses, following the frame pointers from
  \<open>ebp\<close> while they point into kernel memory.
\<close>

primrec callerpcs :: "mem \<Rightarrow> uint \<Rightarrow> nat \<Rightarrow> uint list" where
  "callerpcs m ebp 0 = []"
| "callerpcs m ebp (Suc k) =
     (if ebp = 0 \<or> ebp < 0x80000000 \<or> ebp = 0xffffffff then replicate (Suc k) 0
      else load32 m (ebp + 4) # callerpcs m (load32 m ebp) k)"

definition getcallerpcs :: "mem \<Rightarrow> uint \<Rightarrow> uint list" where
  "getcallerpcs m v = callerpcs m (v - 8) 10"

text \<open>
  \<^verbatim>\<open>acquire\<close> in three parts: up to the loop, one \<^verbatim>\<open>xchg\<close>, which stores 1 and returns whether the lock was taken, and the
  rest after the loop. While the lock is taken the loop changes nothing, and the processor spins.
\<close>

definition acquire_begin :: "uchar \<Rightarrow> spinlock \<Rightarrow> machine \<Rightarrow> machine kres" where
  "acquire_begin a lk M =
     kbind (pushcli a M) (\<lambda>M.
     kbind (holding a lk M) (\<lambda>(h, M). if h then Panic ''acquire'' else Ret M))"

definition acquire_xchg :: "spinlock \<Rightarrow> bool \<times> spinlock" where
  "acquire_xchg lk = (locked lk \<noteq> 0, lk\<lparr>locked := 1\<rparr>)"

definition acquire_end :: "mem \<Rightarrow> uint \<Rightarrow> uchar \<Rightarrow> spinlock \<Rightarrow> machine \<Rightarrow> spinlock kres" where
  "acquire_end m v a lk M = kbind (mycpu a M) (\<lambda>i. Ret (lk\<lparr>lkcpu := Some i, pcs := getcallerpcs m v\<rparr>))"

definition acquire :: "mem \<Rightarrow> uint \<Rightarrow> uchar \<Rightarrow> spinlock \<Rightarrow> machine \<Rightarrow> (spinlock \<times> machine) kres" where
  "acquire m v a lk M =
     kbind (acquire_begin a lk M) (\<lambda>M.
       case acquire_xchg lk of (busy, lk) \<Rightarrow>
         if busy then Spin else kbind (acquire_end m v a lk M) (\<lambda>lk. Ret (lk, M)))"

text \<open>\<^verbatim>\<open>release\<close> up to the store that frees the lock, and the store; then \<^verbatim>\<open>popcli\<close>.\<close>

definition release_begin :: "uchar \<Rightarrow> spinlock \<Rightarrow> machine \<Rightarrow> (spinlock \<times> machine) kres" where
  "release_begin a lk M =
     kbind (holding a lk M) (\<lambda>(h, M).
       if \<not> h then Panic ''release'' else Ret (lk\<lparr>pcs := (pcs lk)[0 := 0], lkcpu := None\<rparr>, M))"

definition release_store :: "spinlock \<Rightarrow> spinlock" where
  "release_store lk = lk\<lparr>locked := 0\<rparr>"

definition release :: "uchar \<Rightarrow> spinlock \<Rightarrow> machine \<Rightarrow> (spinlock \<times> machine) kres" where
  "release a lk M =
     kbind (release_begin a lk M) (\<lambda>(lk, M).
       let lk = release_store lk in kbind (popcli a M) (\<lambda>M. Ret (lk, M)))"

subsection \<open>Invariant\<close>

text \<open>
  Every processor of the table has its own APIC id, the nesting counts are not negative, and
  a processor inside a \<^verbatim>\<open>pushcli\<close> section runs with interrupts off.
\<close>

definition machine_wf :: "machine \<Rightarrow> bool" where
  "machine_wf M \<longleftrightarrow> distinct (map apicid (cpus M)) \<and>
     (\<forall>c\<in>set (cpus M). 0 \<le> ncli c \<and> (0 < ncli c \<longrightarrow> \<not> eflags_IF M (apicid c)))"

text \<open>The index of the executing processor.\<close>

definition cpu_ix :: "uchar \<Rightarrow> machine \<Rightarrow> nat option" where
  "cpu_ix a M = first_index (\<lambda>c. apicid c = a) (cpus M)"

lemma upd_cpu_simps [simp]:
  "length (cpus (upd_cpu i f M)) = length (cpus M)"
  "eflags_IF (upd_cpu i f M) = eflags_IF M"
  "cpus (cli a M) = cpus M" "cpus (sti a M) = cpus M"
  "i < length (cpus M) \<Longrightarrow> cpus (upd_cpu i f M) ! i = f (cpus M ! i)"
  by (simp_all add: upd_cpu_def cli_def sti_def)

lemma cpu_ix_upd:
  assumes "\<And>c. apicid (f c) = apicid c"
  shows "cpu_ix a (upd_cpu i f M) = cpu_ix a M"
proof -
  have "map apicid (cpus (upd_cpu i f M)) = map apicid (cpus M)"
    using assms by (cases "i < length (cpus M)") (auto simp: upd_cpu_def map_update list_update_same_conv list_update_beyond)
  then show ?thesis
    using first_index_cong_map [of "\<lambda>x. x = a" apicid] unfolding cpu_ix_def by metis
qed

lemma cpu_ix_Some:
  "cpu_ix a M = Some i \<Longrightarrow> i < length (cpus M) \<and> apicid (cpus M ! i) = a"
  by (simp add: cpu_ix_def first_index_Some)

lemma cpu_ix_cli [simp]: "cpu_ix a (cli b M) = cpu_ix a M" "cpu_ix a (sti b M) = cpu_ix a M"
  by (simp_all add: cpu_ix_def)

lemma mycpu_eq:
  "mycpu a M = (if eflags_IF M a then Panic ''mycpu called with interrupts enabled''
     else case cpu_ix a M of None \<Rightarrow> Panic ''unknown apicid'' | Some i \<Rightarrow> Ret i)"
  by (simp add: mycpu_def cpu_ix_def)

text \<open>What \<^verbatim>\<open>pushcli\<close> and \<^verbatim>\<open>popcli\<close> do to the machine, on the processor with index \<open>i\<close>.\<close>

definition pushed :: "uchar \<Rightarrow> nat \<Rightarrow> machine \<Rightarrow> machine" where
  "pushed a i M = upd_cpu i (\<lambda>c. c\<lparr>ncli := ncli c + 1,
     intena := (if ncli c = 0 then eflags_IF M a else intena c)\<rparr>) (cli a M)"

definition popped :: "uchar \<Rightarrow> nat \<Rightarrow> machine \<Rightarrow> machine" where
  "popped a i M =
     (let M' = upd_cpu i (\<lambda>c. c\<lparr>ncli := ncli c - 1\<rparr>) M
      in if ncli (cpus M ! i) = 1 \<and> intena (cpus M ! i) then sti a M' else M')"

lemma eflags_cli_sti [simp]:
  "eflags_IF (cli a M) = (eflags_IF M)(a := False)" "eflags_IF (sti a M) = (eflags_IF M)(a := True)"
  by (simp_all add: cli_def sti_def)

lemma upd_cpu_upd_cpu: "i < length (cpus M) \<Longrightarrow> upd_cpu i f (upd_cpu i g M) = upd_cpu i (f \<circ> g) M"
  by (simp add: upd_cpu_def)

lemma upd_cpu_cong: "f (cpus M ! i) = g (cpus M ! i) \<Longrightarrow> upd_cpu i f M = upd_cpu i g M"
  by (simp add: upd_cpu_def)

lemma upd_cpu_sti: "upd_cpu i f (sti a M) = sti a (upd_cpu i f M)"
  by (simp add: upd_cpu_def sti_def)

lemma pushcli_eq:
  assumes "cpu_ix a M = Some i"
  shows "pushcli a M = (if ncli (cpus M ! i) < INT_MAX then Ret (pushed a i M) else Fault ''int overflow'')"
  using assms cpu_ix_Some [OF assms]
  by (auto simp: pushcli_def mycpu_eq pushed_def Let_def upd_cpu_upd_cpu cinc_def intro!: upd_cpu_cong)

lemma popcli_eq:
  assumes "cpu_ix a M = Some i" "\<not> eflags_IF M a" "0 < ncli (cpus M ! i)"
  shows "popcli a M = Ret (popped a i M)"
  using assms cpu_ix_Some [OF assms(1)]
  by (auto simp: popcli_def mycpu_eq popped_def Let_def upd_cpu_def)

lemma pushed_simps:
  assumes "cpu_ix a M = Some i"
  shows "cpu_ix b (pushed a i M) = cpu_ix b M" "eflags_IF (pushed a i M) = (eflags_IF M)(a := False)"
    "ncli (cpus (pushed a i M) ! i) = ncli (cpus M ! i) + 1"
    "intena (cpus (pushed a i M) ! i) =
       (if ncli (cpus M ! i) = 0 then eflags_IF M a else intena (cpus M ! i))"
  using cpu_ix_Some [OF assms] by (simp_all add: pushed_def cpu_ix_upd)

lemma popped_simps:
  assumes "cpu_ix a M = Some i"
  shows "cpu_ix b (popped a i M) = cpu_ix b M"
    "ncli (cpus (popped a i M) ! i) = ncli (cpus M ! i) - 1"
    "eflags_IF (popped a i M) =
       (if ncli (cpus M ! i) = 1 \<and> intena (cpus M ! i) then (eflags_IF M)(a := True) else eflags_IF M)"
  using cpu_ix_Some [OF assms] by (simp_all add: popped_def cpu_ix_upd Let_def)

text \<open>\<^verbatim>\<open>popcli\<close> undoes \<^verbatim>\<open>pushcli\<close>, up to the saved flag of an outermost section.\<close>

definition saved :: "uchar \<Rightarrow> nat \<Rightarrow> machine \<Rightarrow> machine" where
  "saved a i M = (if ncli (cpus M ! i) = 0 then upd_cpu i (\<lambda>c. c\<lparr>intena := eflags_IF M a\<rparr>) M else M)"

lemma machine_wf_nth:
  "machine_wf M \<Longrightarrow> cpu_ix a M = Some i \<Longrightarrow>
     0 \<le> ncli (cpus M ! i) \<and> (0 < ncli (cpus M ! i) \<longrightarrow> \<not> eflags_IF M a)"
  by (auto simp: machine_wf_def dest!: cpu_ix_Some)

lemma popped_pushed:
  assumes "machine_wf M" "cpu_ix a M = Some i"
  shows "popped a i (pushed a i M) = saved a i M"
proof -
  have ix: "i < length (cpus M)" using cpu_ix_Some [OF assms(2)] by simp
  have "0 \<le> ncli (cpus M ! i)" "0 < ncli (cpus M ! i) \<longrightarrow> \<not> eflags_IF M a"
    using machine_wf_nth [OF assms] by auto
  then show ?thesis
    using ix
    by (auto simp: popped_def pushed_def saved_def Let_def upd_cpu_upd_cpu upd_cpu_def sti_def cli_def
        fun_upd_idem list_update_same_conv)
qed

lemma apicids_upd:
  "(\<And>c. apicid (f c) = apicid c) \<Longrightarrow> map apicid (cpus (upd_cpu i f M)) = map apicid (cpus M)"
  by (cases "i < length (cpus M)")
    (auto simp: upd_cpu_def map_update list_update_same_conv list_update_beyond)

lemma machine_wf_updI:
  assumes "machine_wf M" "cpu_ix a M = Some i" "\<And>c. apicid (f c) = apicid c"
    and "0 \<le> ncli (f (cpus M ! i))" "0 < ncli (f (cpus M ! i)) \<Longrightarrow> \<not> e"
    and "cpus N = cpus (upd_cpu i f M)" "\<And>b. b \<noteq> a \<Longrightarrow> eflags_IF N b = eflags_IF M b"
    and "eflags_IF N a = e"
  shows "machine_wf N"
proof -
  have d: "distinct (map apicid (cpus M))" and ix: "i < length (cpus M)" "apicid (cpus M ! i) = a"
    using assms(1) cpu_ix_Some [OF assms(2)] by (auto simp: machine_wf_def)
  have "0 \<le> ncli c \<and> (0 < ncli c \<longrightarrow> \<not> eflags_IF N (apicid c))" if "c \<in> set (cpus N)" for c
  proof -
    from that obtain j where j: "j < length (cpus M)" "c = (if j = i then f (cpus M ! i) else cpus M ! j)"
      by (auto simp: assms(6) upd_cpu_def in_set_conv_nth nth_list_update)
    show ?thesis
    proof (cases "j = i")
      case True
      with j ix assms(3-5,8) show ?thesis by auto
    next
      case False
      with d j ix have "apicid c \<noteq> a"
        by (auto simp: distinct_conv_nth)
      moreover have "c \<in> set (cpus M)" using j False by simp
      ultimately show ?thesis
        using assms(1,7) by (auto simp: machine_wf_def)
    qed
  qed
  then show ?thesis
    using d apicids_upd [of f i M] assms(3,6) by (simp add: machine_wf_def)
qed

lemma machine_wf_pushed:
  assumes "machine_wf M" "cpu_ix a M = Some i"
  shows "machine_wf (pushed a i M)"
  by (rule machine_wf_updI [OF assms, where e = False and
        f = "\<lambda>c. c\<lparr>ncli := ncli c + 1, intena := (if ncli c = 0 then eflags_IF M a else intena c)\<rparr>"])
    (use machine_wf_nth [OF assms] in \<open>auto simp: pushed_def upd_cpu_def cli_def\<close>)

lemma machine_wf_popped:
  assumes "machine_wf M" "cpu_ix a M = Some i" "0 < ncli (cpus M ! i)"
  shows "machine_wf (popped a i M)"
  by (rule machine_wf_updI [OF assms(1,2), where e = "eflags_IF (popped a i M) a" and
        f = "\<lambda>c. c\<lparr>ncli := ncli c - 1\<rparr>"])
    (use machine_wf_nth [OF assms(1,2)] assms(3) in
      \<open>auto simp: popped_def upd_cpu_def sti_def Let_def split: if_splits\<close>)

lemma machine_wf_saved: "machine_wf M \<Longrightarrow> cpu_ix a M = Some i \<Longrightarrow> machine_wf (saved a i M)"
  using popped_pushed machine_wf_popped [of "pushed a i M" a i] machine_wf_pushed
    machine_wf_nth pushed_simps by (metis less_add_one order_le_less_trans zle_add1_eq_le)

subsection \<open>Locks\<close>

text \<open>Whether the processor with APIC id \<open>a\<close> holds the lock.\<close>

definition held :: "uchar \<Rightarrow> spinlock \<Rightarrow> machine \<Rightarrow> bool" where
  "held a lk M \<longleftrightarrow> locked lk \<noteq> 0 \<and> cpu_ix a M \<noteq> None \<and> lkcpu lk = cpu_ix a M"

lemma holding_eq:
  assumes "machine_wf M" "cpu_ix a M = Some i"
  shows "holding a lk M = (if ncli (cpus M ! i) < INT_MAX then Ret (held a lk M, saved a i M) else Fault ''int overflow'')"
proof -
  have "0 < ncli (cpus (pushed a i M) ! i)"
    using pushed_simps(3) [OF assms(2)] machine_wf_nth [OF assms] by simp
  then have "popcli a (pushed a i M) = Ret (saved a i M)"
    using popcli_eq [of a "pushed a i M" i] pushed_simps(1,2) [OF assms(2)] assms popped_pushed [OF assms]
    by simp
  then show ?thesis
    using pushcli_eq [OF assms(2)] pushed_simps [OF assms(2)] assms(2)
    by (simp add: holding_def mycpu_eq held_def)
qed

lemma saved_inside: "0 < ncli (cpus M ! i) \<Longrightarrow> saved a i M = M"
  by (simp add: saved_def)

lemma acquire_begin_eq:
  assumes "machine_wf M" "cpu_ix a M = Some i"
  shows "acquire_begin a lk M = (if ncli (cpus M ! i) + 1 < INT_MAX
    then if held a lk M then Panic ''acquire'' else Ret (pushed a i M) else Fault ''int overflow'')"
proof -
  let ?P = "pushed a i M"
  have P: "cpu_ix b ?P = cpu_ix b M" "0 < ncli (cpus ?P ! i)" "ncli (cpus ?P ! i) = ncli (cpus M ! i) + 1" for b
    using pushed_simps [OF assms(2)] machine_wf_nth [OF assms] by auto
  then have "holding a lk ?P = (if ncli (cpus M ! i) + 1 < INT_MAX then Ret (held a lk M, ?P) else Fault ''int overflow'')"
    using holding_eq [of ?P a i] machine_wf_pushed [OF assms] assms(2) saved_inside [of ?P i a]
    by (simp add: held_def)
  with P assms(2) show ?thesis
    by (simp add: acquire_begin_def pushcli_eq)
qed

lemma acquire_end_eq: "cpu_ix a M = Some i \<Longrightarrow> \<not> eflags_IF M a \<Longrightarrow>
    acquire_end m v a lk M = Ret (lk\<lparr>lkcpu := Some i, pcs := getcallerpcs m v\<rparr>)"
  by (simp add: acquire_end_def mycpu_eq)

lemma acquire_eq:
  assumes "machine_wf M" "cpu_ix a M = Some i"
  shows "acquire m v a lk M = (if ncli (cpus M ! i) + 1 < INT_MAX then
     (if held a lk M then Panic ''acquire'' else if locked lk \<noteq> 0 then Spin
      else Ret (lk\<lparr>locked := 1, lkcpu := Some i, pcs := getcallerpcs m v\<rparr>, pushed a i M))
     else Fault ''int overflow'')"
  using acquire_begin_eq [OF assms, of lk] acquire_end_eq [of a "pushed a i M" i m v "lk\<lparr>locked := 1\<rparr>"] pushed_simps(1,2) [OF assms(2)] assms(2)
  by (simp add: acquire_def acquire_xchg_def)

lemma release_begin_eq:
  assumes "machine_wf M" "cpu_ix a M = Some i" "0 < ncli (cpus M ! i)"
  shows "release_begin a lk M = (if ncli (cpus M ! i) < INT_MAX
    then if held a lk M then Ret (lk\<lparr>pcs := (pcs lk)[0 := 0], lkcpu := None\<rparr>, M) else Panic ''release'' else Fault ''int overflow'')"
  using holding_eq [OF assms(1,2)] saved_inside [OF assms(3)] by (simp add: release_begin_def)

lemma release_eq:
  assumes "machine_wf M" "cpu_ix a M = Some i" "0 < ncli (cpus M ! i)"
  shows "release a lk M = (if ncli (cpus M ! i) < INT_MAX then
     (if held a lk M then Ret (lk\<lparr>pcs := (pcs lk)[0 := 0], lkcpu := None, locked := 0\<rparr>, popped a i M)
      else Panic ''release'') else Fault ''int overflow'')"
  using release_begin_eq [OF assms, of lk] popcli_eq [OF assms(2) _ assms(3)] machine_wf_nth [OF assms(1,2)] assms(3)
  by (simp add: release_def release_store_def Let_def)

text \<open>The invariant of one lock as one processor sees it: the holder is in a section, not at the limit of nesting.\<close>

definition spin_inv :: "uchar \<Rightarrow> spinlock \<times> machine \<Rightarrow> bool" where
  "spin_inv a s \<longleftrightarrow> (case s of (lk, M) \<Rightarrow> machine_wf M \<and>
     (\<exists>i. cpu_ix a M = Some i \<and> (held a lk M \<longrightarrow> 0 < ncli (cpus M ! i) \<and> ncli (cpus M ! i) < INT_MAX)))"

definition acquire_s :: "mem \<Rightarrow> uint \<Rightarrow> uchar \<Rightarrow> spinlock \<times> machine \<Rightarrow> (spinlock \<times> machine) kres" where
  "acquire_s m v a s = acquire m v a (fst s) (snd s)"

definition release_s :: "uchar \<Rightarrow> spinlock \<times> machine \<Rightarrow> (spinlock \<times> machine) kres" where
  "release_s a s = release a (fst s) (snd s)"

lemma release_not_held:
  assumes "machine_wf M" "cpu_ix a M = Some i" "\<not> held a lk M"
  shows "release a lk M = (if ncli (cpus M ! i) < INT_MAX then Panic ''release'' else Fault ''int overflow'')"
  using holding_eq [OF assms(1,2), of lk] assms(3) by (simp add: release_def release_begin_def)

interpretation spin_lock: lock_impl "acquire_s m v a" "release_s a" "\<lambda>s. held a (fst s) (snd s)" "spin_inv a"
  for m v a
proof (unfold_locales, goal_cases)
  case (1 s s')
  then obtain lk M i where s: "s = (lk, M)" "machine_wf M" "cpu_ix a M = Some i"
    by (auto simp: spin_inv_def)
  with 1(2) have s': "\<not> held a lk M" "ncli (cpus M ! i) + 1 < INT_MAX"
    "s' = (lk\<lparr>locked := 1, lkcpu := Some i, pcs := getcallerpcs m v\<rparr>, pushed a i M)"
    using acquire_eq [OF s(2,3), of m v lk] by (auto simp: acquire_s_def split: if_splits)
  have "held a (fst s') (snd s')"
    using s s' pushed_simps [OF s(3)] by (simp add: held_def)
  moreover have "spin_inv a s'"
    using s s' pushed_simps [OF s(3)] machine_wf_pushed [OF s(2,3)] machine_wf_nth [OF s(2,3)]
    by (simp add: spin_inv_def)
  ultimately show ?case using s s' by simp
next
  case (2 s)
  then obtain lk M i where "s = (lk, M)" "machine_wf M" "cpu_ix a M = Some i" "held a lk M"
    by (auto simp: spin_inv_def split: prod.splits)
  then show ?case using acquire_eq [of M a i m v lk] by (simp add: acquire_s_def)
next
  case (3 s)
  then obtain lk M i where s: "s = (lk, M)" "machine_wf M" "cpu_ix a M = Some i"
    "0 < ncli (cpus M ! i)" "held a lk M" "ncli (cpus M ! i) < INT_MAX"
    by (auto simp: spin_inv_def split: prod.splits)
  then show ?case
    using release_eq [OF s(2-4), of lk] popped_simps [OF s(3)] machine_wf_popped [OF s(2-4)]
    by (simp add: release_s_def held_def spin_inv_def)
next
  case (4 s)
  then obtain lk M i where "s = (lk, M)" "machine_wf M" "cpu_ix a M = Some i" "\<not> held a lk M"
    by (auto simp: spin_inv_def split: prod.splits)
  then show ?case using release_not_held [of M a i lk] by (simp add: release_s_def)
qed

subsection \<open>Several processors\<close>

text \<open>
  Where a processor is with the lock: outside, in the loop of \<^verbatim>\<open>acquire\<close>, past it, returned from \<^verbatim>\<open>acquire\<close>, in
  \<^verbatim>\<open>release\<close> before the store that frees the lock, and after it. Any processor may move at any time: call \<^verbatim>\<open>acquire\<close> or
  \<^verbatim>\<open>release\<close>, go on in a call, or run a nested \<^verbatim>\<open>pushcli\<close>/\<^verbatim>\<open>popcli\<close> section (a \<^verbatim>\<open>popcli\<close> that would end the section of the lock itself is not nested).
\<close>

datatype phase = Out | Trying | Got | In | Leaving | Freed

abbreviation inside :: "phase \<Rightarrow> bool" where "inside p \<equiv> p \<in> {Got, In, Leaving}"

inductive spin_step :: "spinlock \<times> machine \<times> (uchar \<Rightarrow> phase) \<Rightarrow> spinlock \<times> machine \<times> (uchar \<Rightarrow> phase) \<Rightarrow> bool" where
  call_acquire: "ph a \<in> {Out, In} \<Longrightarrow> cpu_ix a M = Some i \<Longrightarrow> acquire_begin a lk M = Ret M' \<Longrightarrow>
     spin_step (lk, M, ph) (lk, M', ph(a := Trying))"
| exchange: "ph a = Trying \<Longrightarrow> acquire_xchg lk = (busy, lk') \<Longrightarrow>
     spin_step (lk, M, ph) (lk', M, ph(a := if busy then Trying else Got))"
| return_acquire: "ph a = Got \<Longrightarrow> acquire_end m v a lk M = Ret lk' \<Longrightarrow> spin_step (lk, M, ph) (lk', M, ph(a := In))"
| call_release: "ph a \<in> {Out, In} \<Longrightarrow> cpu_ix a M = Some i \<Longrightarrow> release_begin a lk M = Ret (lk', M') \<Longrightarrow>
     spin_step (lk, M, ph) (lk', M', ph(a := Leaving))"
| free: "ph a = Leaving \<Longrightarrow> spin_step (lk, M, ph) (release_store lk, M, ph(a := Freed))"
| return_release: "ph a = Freed \<Longrightarrow> popcli a M = Ret M' \<Longrightarrow> spin_step (lk, M, ph) (lk, M', ph(a := Out))"
| nest: "pushcli a M = Ret M' \<Longrightarrow> cpu_ix a M = Some i \<Longrightarrow> spin_step (lk, M, ph) (lk, M', ph)"
| unnest: "popcli a M = Ret M' \<Longrightarrow> cpu_ix a M = Some i \<Longrightarrow>
     (if ph a = Out then 0 else 1) < ncli (cpus M ! i) \<Longrightarrow> spin_step (lk, M, ph) (lk, M', ph)"

text \<open>The states reachable from a lock that has been initialised.\<close>

inductive spin_reach :: "machine \<Rightarrow> spinlock \<times> machine \<times> (uchar \<Rightarrow> phase) \<Rightarrow> bool" for M0 where
  start: "spin_reach M0 (initlock n lk, M0, \<lambda>_. Out)"
| step: "spin_reach M0 s \<Longrightarrow> spin_step s t \<Longrightarrow> spin_reach M0 t"

text \<open>
  Every processor in a call or a section has a nesting count above zero; the lock word is set exactly while a
  processor is inside, and \<^verbatim>\<open>lk->cpu\<close> names it exactly while it has the lock.
\<close>

definition nested :: "machine \<Rightarrow> (uchar \<Rightarrow> phase) \<Rightarrow> bool" where
  "nested M ph \<longleftrightarrow> machine_wf M \<and> (\<forall>a. ph a \<noteq> Out \<longrightarrow> (\<exists>i. cpu_ix a M = Some i \<and> 0 < ncli (cpus M ! i)))"

definition owned :: "spinlock \<Rightarrow> machine \<Rightarrow> (uchar \<Rightarrow> phase) \<Rightarrow> bool" where
  "owned lk M ph \<longleftrightarrow> (locked lk \<noteq> 0 \<longleftrightarrow> (\<exists>a. inside (ph a))) \<and> (\<forall>a b. inside (ph a) \<longrightarrow> inside (ph b) \<longrightarrow> a = b) \<and>
     (\<forall>a. ph a = In \<longrightarrow> lkcpu lk = cpu_ix a M) \<and> ((\<forall>a. ph a \<noteq> In) \<longrightarrow> lkcpu lk = None)"

definition excl_inv :: "spinlock \<times> machine \<times> (uchar \<Rightarrow> phase) \<Rightarrow> bool" where
  "excl_inv s \<longleftrightarrow> (case s of (lk, M, ph) \<Rightarrow> nested M ph \<and> owned lk M ph)"

lemma cpu_ix_inj: "cpu_ix a M = Some i \<Longrightarrow> cpu_ix b M = Some i \<Longrightarrow> a = b"
  by (auto dest!: cpu_ix_Some)

lemma nestedD:
  assumes "nested M ph" "ph a \<noteq> Out"
  shows "\<exists>i. cpu_ix a M = Some i \<and> 0 < ncli (cpus M ! i) \<and> \<not> eflags_IF M a"
  using assms machine_wf_nth unfolding nested_def by blast

lemma held_iff:
  assumes "nested M ph" "owned lk M ph" "cpu_ix a M = Some i"
  shows "held a lk M \<longleftrightarrow> ph a = In"
proof
  assume h: "held a lk M"
  then have c: "lkcpu lk = cpu_ix a M" "cpu_ix a M \<noteq> None" by (simp_all add: held_def)
  then obtain b where b: "ph b = In" using assms(2) by (auto simp: owned_def)
  then have "lkcpu lk = cpu_ix b M" using assms(2) by (simp add: owned_def)
  then show "ph a = In" using c b cpu_ix_inj assms(3) by metis
next
  assume "ph a = In"
  moreover from this have "locked lk \<noteq> 0" using assms(2) unfolding owned_def by blast
  ultimately show "held a lk M" using assms(2,3) by (simp add: held_def owned_def)
qed

lemma ncli_pushed:
  "cpu_ix a M = Some i \<Longrightarrow> ncli (cpus (pushed a i M) ! j) = ncli (cpus M ! j) + (if j = i then 1 else 0)"
  using pushed_simps(3) [of a M i] by (auto simp: pushed_def upd_cpu_def cli_def nth_list_update)

lemma ncli_popped:
  "cpu_ix a M = Some i \<Longrightarrow> ncli (cpus (popped a i M) ! j) = ncli (cpus M ! j) - (if j = i then 1 else 0)"
  using popped_simps(2) [of a M i] by (auto simp: popped_def upd_cpu_def sti_def Let_def nth_list_update)

lemma nested_pushed:
  assumes "nested M ph" "cpu_ix a M = Some i"
  shows "nested (pushed a i M) (ph(a := p))" "nested (pushed a i M) ph"
proof -
  have wf: "machine_wf M" using assms(1) by (simp add: nested_def)
  note w = machine_wf_pushed [OF wf assms(2)] machine_wf_nth [OF wf assms(2)] pushed_simps(1) [OF assms(2)] ncli_pushed [OF assms(2)]
  have "\<exists>j. cpu_ix b (pushed a i M) = Some j \<and> 0 < ncli (cpus (pushed a i M) ! j)" if "b = a \<or> ph b \<noteq> Out" for b
    using that assms w unfolding nested_def by (cases "b = a") fastforce+
  then show "nested (pushed a i M) (ph(a := p))" "nested (pushed a i M) ph" using w(1) by (auto simp: nested_def)
qed

lemma nested_popped:
  assumes "nested M ph" "cpu_ix a M = Some i" "(if p = Out then 0 else 1) < ncli (cpus M ! i)"
  shows "nested (popped a i M) (ph(a := p))"
proof -
  have wf: "machine_wf M" "0 < ncli (cpus M ! i)" using assms(1,3) by (auto simp: nested_def split: if_splits)
  note w = machine_wf_popped [OF wf(1) assms(2) wf(2)] popped_simps(1) [OF assms(2)] ncli_popped [OF assms(2)]
  have "\<exists>j. cpu_ix b (popped a i M) = Some j \<and> 0 < ncli (cpus (popped a i M) ! j)" if b: "(ph(a := p)) b \<noteq> Out" for b
  proof (cases "b = a")
    case True
    then show ?thesis using b assms(2,3) w(2,3) by auto
  next
    case False
    then obtain j where j: "cpu_ix b M = Some j" "0 < ncli (cpus M ! j)" using b assms(1) by (auto simp: nested_def)
    then have "j \<noteq> i" using False cpu_ix_inj assms(2) by blast
    then show ?thesis using j w(2,3) by auto
  qed
  then show ?thesis using w(1) unfolding nested_def by blast
qed

lemma popcli_Ret:
  assumes "machine_wf M" "cpu_ix a M = Some i" "0 < ncli (cpus M ! i)" "popcli a M = Ret M'"
  shows "M' = popped a i M"
  using popcli_eq [OF assms(2) _ assms(3)] machine_wf_nth [OF assms(1,2)] assms(3,4) by simp

lemma owned_machine: "(\<And>a. cpu_ix a M' = cpu_ix a M) \<Longrightarrow> owned lk M' ph = owned lk M ph"
  by (simp add: owned_def)

text \<open>A processor that moves between the phases outside the lock changes nothing in the ownership.\<close>

lemma owned_outside:
  assumes "owned lk M ph" "\<not> inside (ph a)" "\<not> inside p"
  shows "owned lk M (ph(a := p))"
proof -
  have "inside ((ph(a := p)) b) = inside (ph b)" "((ph(a := p)) b = In) = (ph b = In)" for b using assms(2,3) by auto
  then show ?thesis using assms(1) unfolding owned_def by simp
qed

lemma excl_inv_step: "spin_step s t \<Longrightarrow> excl_inv s \<Longrightarrow> excl_inv t"
proof (induction rule: spin_step.induct)
  case (call_acquire ph a M i lk M')
  then have n: "nested M ph" "owned lk M ph" "machine_wf M" by (auto simp: excl_inv_def nested_def)
  have M': "M' = pushed a i M" "\<not> held a lk M"
    using call_acquire.hyps(3) acquire_begin_eq [OF n(3) call_acquire.hyps(2), of lk] by (auto split: if_splits)
  then have "ph a = Out" using held_iff [OF n(1,2) call_acquire.hyps(2)] call_acquire.hyps(1) by auto
  then show ?case using owned_outside [OF n(2), of a Trying] nested_pushed(1) [OF n(1) call_acquire.hyps(2)]
      owned_machine [of M' M, OF pushed_simps(1) [OF call_acquire.hyps(2), folded M'(1)]] M'(1)
    by (simp add: excl_inv_def)
next
  case (exchange ph a lk busy lk' M)
  then have n: "nested M ph" "owned lk M ph" by (auto simp: excl_inv_def)
  have e: "busy \<longleftrightarrow> (\<exists>b. inside (ph b))" "lk' = lk\<lparr>locked := 1\<rparr>" using exchange.hyps(2) n(2) by (auto simp: acquire_xchg_def owned_def)
  have "nested M (ph(a := p))" if "p \<noteq> Out" for p using n(1) exchange.hyps(1) that by (auto simp: nested_def)
  moreover have "owned lk' M (ph(a := if busy then Trying else Got))"
  proof (cases busy)
    case True
    then have "ph(a := if busy then Trying else Got) = ph" using exchange.hyps(1) by auto
    then show ?thesis using n(2) e True unfolding owned_def by simp
  next
    case False
    then have o: "\<not> inside (ph b)" for b using e(1) by blast
    then have "inside ((ph(a := Got)) b) \<longleftrightarrow> b = a" "(ph(a := Got)) b \<noteq> In" "ph b \<noteq> In" for b using o [of b] by auto
    then show ?thesis using n(2) e(2) False unfolding owned_def by simp
  qed
  ultimately show ?case by (simp add: excl_inv_def)
next
  case (return_acquire ph a m v lk M lk')
  then have n: "nested M ph" "owned lk M ph" by (auto simp: excl_inv_def)
  obtain i where i: "cpu_ix a M = Some i" "\<not> eflags_IF M a" using nestedD [OF n(1), of a] return_acquire.hyps(1) by auto
  have lk': "lk' = lk\<lparr>lkcpu := Some i, pcs := getcallerpcs m v\<rparr>" using return_acquire.hyps(2) acquire_end_eq [OF i] by simp
  have "nested M (ph(a := In))" using n(1) return_acquire.hyps(1) by (auto simp: nested_def)
  moreover have "owned lk' M (ph(a := In))"
  proof -
    have in_a: "inside (ph b) \<longleftrightarrow> b = a" for b using n(2) return_acquire.hyps(1) unfolding owned_def by blast
    then have "inside ((ph(a := In)) b) \<longleftrightarrow> b = a" "(ph(a := In)) b = In \<longleftrightarrow> b = a" for b using in_a [of b] by auto
    then show ?thesis using n(2) in_a i(1) lk' unfolding owned_def by auto
  qed
  ultimately show ?case by (simp add: excl_inv_def)
next
  case (call_release ph a M i lk lk' M')
  then have n: "nested M ph" "owned lk M ph" "machine_wf M" by (auto simp: excl_inv_def nested_def)
  have h: "held a lk M \<longleftrightarrow> ph a = In" by (rule held_iff [OF n(1,2) call_release.hyps(2)])
  have "held a lk M"
    using call_release.hyps(3) holding_eq [OF n(3) call_release.hyps(2), of lk] by (auto simp: release_begin_def split: if_splits)
  then have p: "ph a = In" "0 < ncli (cpus M ! i)" using h nestedD [OF n(1), of a] call_release.hyps(2) by auto
  then have lk': "lk' = lk\<lparr>pcs := (pcs lk)[0 := 0], lkcpu := None\<rparr>" "M' = M"
    using call_release.hyps(3) release_begin_eq [OF n(3) call_release.hyps(2) p(2), of lk] by (auto split: if_splits)
  have "nested M (ph(a := Leaving))" using n(1) p(1) by (auto simp: nested_def)
  moreover have "owned lk' M (ph(a := Leaving))"
  proof -
    have in_a: "inside (ph b) \<longleftrightarrow> b = a" for b using n(2) p(1) unfolding owned_def by blast
    then have "inside ((ph(a := Leaving)) b) \<longleftrightarrow> b = a" "(ph(a := Leaving)) b \<noteq> In" for b using in_a [of b] by auto
    then show ?thesis using n(2) in_a lk' unfolding owned_def by auto
  qed
  ultimately show ?case using lk' by (simp add: excl_inv_def)
next
  case (free ph a lk M)
  then have n: "nested M ph" "owned lk M ph" by (auto simp: excl_inv_def)
  have "nested M (ph(a := Freed))" using n(1) free.hyps by (auto simp: nested_def)
  moreover have "owned (release_store lk) M (ph(a := Freed))"
  proof -
    have in_a: "inside (ph b) \<longleftrightarrow> b = a" for b using n(2) free.hyps unfolding owned_def by blast
    then have "\<not> inside ((ph(a := Freed)) b)" "ph b \<noteq> In" "(ph(a := Freed)) b \<noteq> In" for b using free.hyps by (cases "b = a"; force)+
    then show ?thesis using n(2) unfolding owned_def release_store_def by auto
  qed
  ultimately show ?case by (simp add: excl_inv_def)
next
  case (return_release ph a M M' lk)
  then have n: "nested M ph" "owned lk M ph" "machine_wf M" by (auto simp: excl_inv_def nested_def)
  obtain i where i: "cpu_ix a M = Some i" "0 < ncli (cpus M ! i)" using nestedD [OF n(1), of a] return_release.hyps(1) by auto
  note M' = popcli_Ret [OF n(3) i return_release.hyps(2)]
  show ?case using owned_outside [OF n(2), of a Out] nested_popped [OF n(1) i(1), of Out] i(2) return_release.hyps(1)
      owned_machine [of M' M, OF popped_simps(1) [OF i(1), folded M']] M'
    by (simp add: excl_inv_def)
next
  case (nest a M M' i lk ph)
  then have n: "nested M ph" "owned lk M ph" by (auto simp: excl_inv_def)
  have M': "M' = pushed a i M" using nest.hyps(1) pushcli_eq [OF nest.hyps(2)] by (auto split: if_splits)
  show ?case using nested_pushed(2) [OF n(1) nest.hyps(2)] owned_machine [of M' M, OF pushed_simps(1) [OF nest.hyps(2), folded M']] n(2) M'
    by (simp add: excl_inv_def)
next
  case (unnest a M M' i ph lk)
  then have n: "nested M ph" "owned lk M ph" "machine_wf M" "0 < ncli (cpus M ! i)" by (auto simp: excl_inv_def nested_def split: if_splits)
  note M' = popcli_Ret [OF n(3) unnest.hyps(2) n(4) unnest.hyps(1)]
  show ?case using nested_popped [OF n(1) unnest.hyps(2), of "ph a"] unnest.hyps(3) n(2) M'
      owned_machine [of M' M, OF popped_simps(1) [OF unnest.hyps(2), folded M']]
    by (simp add: excl_inv_def)
qed

lemma spin_reach_excl: "spin_reach M0 s \<Longrightarrow> machine_wf M0 \<Longrightarrow> excl_inv s"
proof (induction rule: spin_reach.induct)
  case (start n lk)
  then show ?case by (simp add: excl_inv_def nested_def owned_def initlock_def)
next
  case (step s t)
  then show ?case by (blast intro: excl_inv_step)
qed

lemma acquire_release_cycle:
  assumes "machine_wf M" "cpu_ix a M = Some i" "locked lk = 0" "ncli (cpus M ! i) + 1 < INT_MAX"
  shows "\<exists>lk' lk''. acquire m v a lk M = Ret (lk', pushed a i M) \<and> held a lk' (pushed a i M) \<and>
    release a lk' (pushed a i M) = Ret (lk'', saved a i M) \<and> locked lk'' = 0"
proof -
  let ?lk = "lk\<lparr>locked := 1, lkcpu := Some i, pcs := getcallerpcs m v\<rparr>" and ?P = "pushed a i M"
  have acq: "acquire m v a lk M = Ret (?lk, ?P)"
    using acquire_eq [OF assms(1,2), of m v lk] assms(3,4) by (simp add: held_def)
  have P: "machine_wf ?P" "cpu_ix a ?P = Some i" "0 < ncli (cpus ?P ! i)" "held a ?lk ?P" "ncli (cpus ?P ! i) < INT_MAX"
    using machine_wf_pushed [OF assms(1,2)] pushed_simps [OF assms(2)] machine_wf_nth [OF assms(1,2)] assms(2,4)
    by (simp_all add: held_def)
  have "release a ?lk ?P = Ret (?lk\<lparr>pcs := (pcs ?lk)[0 := 0], lkcpu := None, locked := 0\<rparr>, saved a i M)"
    using release_eq [OF P(1-3), of ?lk] P(4,5) popped_pushed [OF assms(1,2)] by simp
  with acq P(4) show ?thesis by (auto intro!: exI)
qed

subsection \<open>Properties\<close>

text \<open>
  C8. Mutual exclusion: in every interleaving of the steps of \<^verbatim>\<open>acquire\<close> and \<^verbatim>\<open>release\<close> on any number of processors, two
  processors that have come through the loop of \<^verbatim>\<open>acquire\<close> and not yet freed the lock in \<^verbatim>\<open>release\<close> are the same one.
  A processor in either call or in between runs with interrupts off.
\<close>

theorem spinlock_mutual_exclusion:
  assumes "machine_wf M0" "spin_reach M0 (lk, M, ph)"
  shows "(ph a \<in> {Got, In, Leaving} \<and> ph b \<in> {Got, In, Leaving} \<longrightarrow> a = b) \<and> (ph a \<noteq> Out \<longrightarrow> \<not> eflags_IF M a)"
proof -
  have "nested M ph" "owned lk M ph" using spin_reach_excl [OF assms(2,1)] by (simp_all add: excl_inv_def)
  then show ?thesis using nestedD unfolding owned_def by blast
qed

definition two_cpus :: machine where
  "two_cpus = \<lparr>cpus = [\<lparr>apicid = 0, ncli = 0, intena = False\<rparr>, \<lparr>apicid = 1, ncli = 0, intena = False\<rparr>],
     eflags_IF = (\<lambda>_. True)\<rparr>"

definition free_lock :: spinlock where
  "free_lock = \<lparr>locked = 0, lkname = ''ptable'', lkcpu = None, pcs = replicate 10 0\<rparr>"

lemma two_cpus_wf: "machine_wf two_cpus" "cpu_ix 1 two_cpus = Some 1" "ncli (cpus two_cpus ! 1) + 1 < INT_MAX" "cpu_ix 0 two_cpus = Some 0"
  by (simp_all add: machine_wf_def two_cpus_def cpu_ix_def)

text \<open>Both processors call \<^verbatim>\<open>acquire\<close>; processor 1 gets the lock and processor 0 finds it taken.\<close>

theorem spinlock_mutual_exclusion_witness:
  "\<exists>lk M ph. spin_reach two_cpus (lk, M, ph) \<and> ph 1 = In \<and> ph 0 = Trying \<and> locked lk = 1 \<and> \<not> eflags_IF M 1 \<and> \<not> eflags_IF M 0"
proof -
  let ?l0 = "initlock ''ptable'' free_lock" and ?P = "pushed 1 1 two_cpus" and ?Q = "pushed 0 0 (pushed 1 1 two_cpus)"
  note t = two_cpus_wf
  have p: "machine_wf ?P" "cpu_ix 0 ?P = Some 0" "ncli (cpus ?P ! 0) + 1 < INT_MAX" "cpu_ix 1 ?P = Some 1"
    using machine_wf_pushed [OF t(1,2)] pushed_simps(1) [OF t(2)] t ncli_pushed [OF t(2), of 0] by (simp_all add: two_cpus_def)
  have q: "cpu_ix 1 ?Q = Some 1" "\<not> eflags_IF ?Q 1" using pushed_simps [OF p(2)] pushed_simps [OF t(2)] p(4) by simp_all
  have "acquire_begin 1 ?l0 two_cpus = Ret ?P" using acquire_begin_eq [OF t(1,2)] t(3) by (simp add: held_def initlock_def)
  then have "spin_reach two_cpus (?l0, ?P, (\<lambda>_. Out)(1 := Trying))" using step [OF start call_acquire] t(2) by blast
  moreover have "acquire_begin 0 ?l0 ?P = Ret ?Q" using acquire_begin_eq [OF p(1,2)] p(3) by (simp add: held_def initlock_def)
  ultimately have r2: "spin_reach two_cpus (?l0, ?Q, (\<lambda>_. Out)(1 := Trying, 0 := Trying))" using step [OF _ call_acquire] p(2) by fastforce
  define ph where "ph = (\<lambda>_ :: uchar. Out)(1 := Trying, 0 := Trying)"
  have ph: "ph 1 = Trying" "ph 0 = Trying" by (simp_all add: ph_def)
  have x: "acquire_xchg ?l0 = (False, ?l0\<lparr>locked := 1\<rparr>)" by (simp add: acquire_xchg_def initlock_def)
  have r3: "spin_reach two_cpus (?l0\<lparr>locked := 1\<rparr>, ?Q, ph(1 := Got))"
    using step [OF r2 [folded ph_def] exchange [where ph = ph and a = 1, OF ph(1) x]] by (simp only: if_False)
  obtain lk where lk: "acquire_end (\<lambda>_. 0) 0 1 (?l0\<lparr>locked := 1\<rparr>) ?Q = Ret lk" "locked lk = 1" using acquire_end_eq [OF q] by simp
  have r: "spin_reach two_cpus (lk, ?Q, ph(1 := Got, 1 := In))" by (rule step [OF r3 return_acquire [where ph = "ph(1 := Got)" and a = 1, OF _ lk(1)]]) simp
  then show ?thesis
    using lk(2) ph(2) spinlock_mutual_exclusion [OF t(1) r, of 1 1] spinlock_mutual_exclusion [OF t(1) r, of 0 0]
    by (intro exI [of _ lk] exI [of _ ?Q] exI [of _ "ph(1 := Got, 1 := In)"]) simp
qed

text \<open>
  Taking a free lock and giving it back restores the processor: the nesting count and the
  interrupt flag are those before \<^verbatim>\<open>acquire\<close>; in between interrupts are off, and a second
  \<^verbatim>\<open>acquire\<close> by the same processor panics instead of deadlocking.
\<close>

theorem acquire_release_roundtrip:
  assumes "machine_wf M" "cpu_ix a M = Some i" "locked lk = 0" "ncli (cpus M ! i) + 2 < INT_MAX"
  shows "\<exists>lk' M' lk''. acquire m v a lk M = Ret (lk', M') \<and> \<not> eflags_IF M' a \<and>
    acquire m v a lk' M' = Panic ''acquire'' \<and>
    release a lk' M' = Ret (lk'', saved a i M) \<and> locked lk'' = 0 \<and>
    eflags_IF (saved a i M) = eflags_IF M \<and> ncli (cpus (saved a i M) ! i) = ncli (cpus M ! i)"
proof -
  obtain lk1 M1 lk2 where c: "acquire m v a lk M = Ret (lk1, M1)" "M1 = pushed a i M"
    "release a lk1 M1 = Ret (lk2, saved a i M)" "locked lk2 = 0" "held a lk1 M1"
    using acquire_release_cycle [OF assms(1-3), of m v] assms(4) by auto
  have "acquire m v a lk1 M1 = Panic ''acquire''"
    using acquire_eq [OF machine_wf_pushed [OF assms(1,2)], where a = a and m = m and v = v and lk = lk1] c(2,5) pushed_simps(1,3) [OF assms(2)]
      assms(2,4) by simp
  with c show ?thesis
    using pushed_simps(2) [OF assms(2)] cpu_ix_Some [OF assms(2)] by (auto simp: saved_def)
qed

theorem acquire_release_roundtrip_witness:
  "\<exists>lk' M'. acquire (\<lambda>_. 0) 0 1 free_lock two_cpus = Ret (lk', M') \<and> \<not> eflags_IF M' 1"
  using acquire_release_roundtrip [OF two_cpus_wf(1,2), of free_lock "\<lambda>_. 0" 0] by (auto simp: free_lock_def two_cpus_def)

text \<open>
  C21. Every run of \<^verbatim>\<open>acquire\<close> and \<^verbatim>\<open>release\<close> calls of one processor that completes is a
  run of the abstract lock discipline, which only records whether the lock is held.
\<close>

theorem spinlock_refines_discipline:
  assumes "spin_inv a (lk, M)" "lock_run (acquire_s m v a) (release_s a) es (lk, M) = Ret (lk', M')"
  shows "lock_run lock_acquire lock_release es (held a lk M) = Ret (held a lk' M') \<and> spin_inv a (lk', M')"
  using spin_lock.run_simulates [OF assms] by simp

theorem spinlock_refines_discipline_witness:
  "\<exists>lk' M'. lock_run (acquire_s (\<lambda>_. 0) 0 1) (release_s 1) [True, False] (free_lock, two_cpus) = Ret (lk', M') \<and>
     lock_run lock_acquire lock_release [True, False] (held 1 free_lock two_cpus) = Ret (held 1 lk' M')"
proof -
  obtain lk1 M1 lk2 where 1: "acquire (\<lambda>_. 0) 0 1 free_lock two_cpus = Ret (lk1, M1)"
    "release 1 lk1 M1 = Ret (lk2, saved 1 1 two_cpus)"
    using acquire_release_cycle [OF two_cpus_wf(1,2), of free_lock "\<lambda>_. 0" 0] two_cpus_wf(3) by (auto simp: free_lock_def)
  have "spin_inv 1 (free_lock, two_cpus)"
    using two_cpus_wf by (simp add: spin_inv_def held_def free_lock_def)
  moreover have "lock_run (acquire_s (\<lambda>_. 0) 0 1) (release_s 1) [True, False] (free_lock, two_cpus) =
      Ret (lk2, saved 1 1 two_cpus)"
    using 1 by (simp add: acquire_s_def release_s_def)
  ultimately show ?thesis
    using spinlock_refines_discipline [of 1 free_lock two_cpus "\<lambda>_. 0" 0 "[True, False]"] by blast
qed

end
