(* ===== verification/Kstring.thy ===== *)
theory Kstring
  imports Kmemory
begin

text \<open>
  The memory and string routines of \<^verbatim>\<open>src/xv6A1/string.c\<close>, over byte-addressed
  memory with C's pointer arithmetic: addresses wrap at 32 bits and source and destination
  may overlap. The reference definitions they are compared with are plain memory updates.
\<close>

subsection \<open>The routines\<close>

text \<open>\<^verbatim>\<open>stosb\<close> and \<^verbatim>\<open>stosl\<close> of \<^verbatim>\<open>x86.h\<close>: the repeated string stores.\<close>

primrec stosb :: "mem \<Rightarrow> uint \<Rightarrow> uchar \<Rightarrow> nat \<Rightarrow> mem" where
  "stosb m d v 0 = m"
| "stosb m d v (Suc k) = stosb (m(d := v)) (d + 1) v k"

primrec stosl :: "mem \<Rightarrow> uint \<Rightarrow> uint \<Rightarrow> nat \<Rightarrow> mem" where
  "stosl m d v 0 = m"
| "stosl m d v (Suc k) = stosl (store32 m d v) (d + 4) v k"

text \<open>
  \<^verbatim>\<open>(int)dst % 4 == 0\<close> tests divisibility, which does not depend on the sign.
\<close>

definition memset :: "mem \<Rightarrow> uint \<Rightarrow> cint \<Rightarrow> uint \<Rightarrow> mem" where
  "memset m dst c n =
     (if unat dst mod 4 = 0 \<and> unat n mod 4 = 0
      then (let c = c AND 0xFF
            in stosl m dst (push_bit 24 c OR push_bit 16 c OR push_bit 8 c OR c) (unat n div 4))
      else stosb m dst (ucast c) (unat n))"

primrec memcmp_loop :: "mem \<Rightarrow> uint \<Rightarrow> uint \<Rightarrow> nat \<Rightarrow> int" where
  "memcmp_loop m s1 s2 0 = 0"
| "memcmp_loop m s1 s2 (Suc n) =
     (if m s1 \<noteq> m s2 then uint (m s1) - uint (m s2)
      else memcmp_loop m (s1 + 1) (s2 + 1) n)"

definition memcmp :: "mem \<Rightarrow> uint \<Rightarrow> uint \<Rightarrow> uint \<Rightarrow> int" where
  "memcmp m v1 v2 n = memcmp_loop m v1 v2 (unat n)"

primrec copy_fwd :: "mem \<Rightarrow> uint \<Rightarrow> uint \<Rightarrow> nat \<Rightarrow> mem" where
  "copy_fwd m d s 0 = m"
| "copy_fwd m d s (Suc n) = copy_fwd (m(d := m s)) (d + 1) (s + 1) n"

primrec copy_bwd :: "mem \<Rightarrow> uint \<Rightarrow> uint \<Rightarrow> nat \<Rightarrow> mem" where
  "copy_bwd m d s 0 = m"
| "copy_bwd m d s (Suc n) = copy_bwd (m(d - 1 := m (s - 1))) (d - 1) (s - 1) n"

definition memmove :: "mem \<Rightarrow> uint \<Rightarrow> uint \<Rightarrow> uint \<Rightarrow> mem" where
  "memmove m d s n =
     (if s < d \<and> s + n > d then copy_bwd m (d + n) (s + n) (unat n)
      else copy_fwd m d s (unat n))"

definition memcpy :: "mem \<Rightarrow> uint \<Rightarrow> uint \<Rightarrow> uint \<Rightarrow> mem" where
  "memcpy m dst src n = memmove m dst src n"

primrec strncmp_loop :: "mem \<Rightarrow> uint \<Rightarrow> uint \<Rightarrow> nat \<Rightarrow> int" where
  "strncmp_loop m p q 0 = 0"
| "strncmp_loop m p q (Suc n) =
     (if m p \<noteq> 0 \<and> m p = m q then strncmp_loop m (p + 1) (q + 1) n
      else uint (m p) - uint (m q))"

definition strncmp :: "mem \<Rightarrow> uint \<Rightarrow> uint \<Rightarrow> uint \<Rightarrow> int" where
  "strncmp m p q n = strncmp_loop m p q (unat n)"

text \<open>The second loop of \<^verbatim>\<open>strncpy\<close> zero-fills what the first one left.\<close>

primrec strncpy_loop :: "mem \<Rightarrow> uint \<Rightarrow> uint \<Rightarrow> nat \<Rightarrow> mem" where
  "strncpy_loop m s t 0 = m"
| "strncpy_loop m s t (Suc n) =
     (let m' = m(s := m t)
      in if m t \<noteq> 0 then strncpy_loop m' (s + 1) (t + 1) n else stosb m' (s + 1) 0 n)"

definition strncpy :: "mem \<Rightarrow> uint \<Rightarrow> uint \<Rightarrow> cint \<Rightarrow> mem" where
  "strncpy m s t n = strncpy_loop m s t (nat (sint n))"

text \<open>\<open>k\<close> counts the characters that may still be copied before the terminator.\<close>

primrec safestrcpy_loop :: "mem \<Rightarrow> uint \<Rightarrow> uint \<Rightarrow> nat \<Rightarrow> mem" where
  "safestrcpy_loop m s t 0 = m(s := 0)"
| "safestrcpy_loop m s t (Suc k) =
     (let m' = m(s := m t)
      in if m t \<noteq> 0 then safestrcpy_loop m' (s + 1) (t + 1) k else m'(s + 1 := 0))"

definition safestrcpy :: "mem \<Rightarrow> uint \<Rightarrow> uint \<Rightarrow> cint \<Rightarrow> mem" where
  "safestrcpy m s t n = (if sint n \<le> 0 then m else safestrcpy_loop m s t (nat (sint n) - 1))"

text \<open>\<^verbatim>\<open>strlen\<close> stops only at a NUL: a string without one makes it run on.\<close>

partial_function (option) strlen_loop :: "mem \<Rightarrow> uint \<Rightarrow> nat \<Rightarrow> nat option" where
  "strlen_loop m s n = (if m (s + of_nat n) = 0 then Some n else strlen_loop m s (Suc n))"

definition strlen :: "mem \<Rightarrow> uint \<Rightarrow> nat option" where
  "strlen m s = strlen_loop m s 0"

text \<open>The C string of at most \<open>n\<close> characters at an address.\<close>

definition cstr_n :: "mem \<Rightarrow> uint \<Rightarrow> nat \<Rightarrow> uchar list" where
  "cstr_n m p n = takeWhile (\<lambda>c. c \<noteq> 0) (map (\<lambda>i. m (p + of_nat i)) [0..<n])"

subsection \<open>Filling memory\<close>

lemma stosb_eq:
  "k \<le> 4294967296 \<Longrightarrow> stosb m d v k = (\<lambda>a. if in_block d k a then v else m a)"
proof (induction k arbitrary: m d)
  case 0
  then show ?case by simp
next
  case (Suc k)
  then have "k < 4294967296" by simp
  with Suc show ?case
    by (auto simp: fun_eq_iff in_block_Suc)
qed

lemma rep_byte:
  fixes c :: uint
  defines "v \<equiv> push_bit 24 (c AND 0xFF) OR push_bit 16 (c AND 0xFF) OR push_bit 8 (c AND 0xFF) OR (c AND 0xFF)"
  shows "(ucast v :: uchar) = ucast c" "(ucast (drop_bit 8 v) :: uchar) = ucast c"
    "(ucast (drop_bit 16 v) :: uchar) = ucast c" "(ucast (drop_bit 24 v) :: uchar) = ucast c"
proof -
  have ff: "(0xFF :: uint) = mask 8" by (simp add: mask_eq_exp_minus_1)
  show "(ucast v :: uchar) = ucast c" "(ucast (drop_bit 8 v) :: uchar) = ucast c"
    "(ucast (drop_bit 16 v) :: uchar) = ucast c" "(ucast (drop_bit 24 v) :: uchar) = ucast c"
    unfolding v_def ff
    by (rule bit_word_eqI;
        simp add: bit_ucast_iff bit_or_iff bit_push_bit_iff bit_and_iff bit_mask_iff bit_drop_bit_eq)+
qed

lemma in_block_4: "in_block d 4 a \<longleftrightarrow> a = d \<or> a = d + 1 \<or> a = d + 2 \<or> a = d + 3"
proof -
  have "in_block d 4 a \<longleftrightarrow> a = d \<or> in_block (d + 1) 3 a"
    using in_block_Suc [of 3 d a] by simp
  moreover have "in_block (d + 1) 3 a \<longleftrightarrow> a = d + 1 \<or> in_block (d + 2) 2 a"
    using in_block_Suc [of 2 "d + 1" a] by (simp add: add.commute [of 2 d])
  moreover have "in_block (d + 2) 2 a \<longleftrightarrow> a = d + 2 \<or> in_block (d + 3) 1 a"
    using in_block_Suc [of 1 "d + 2" a] by (simp add: numeral_2_eq_2 add.commute [of 3 d])
  moreover have "in_block (d + 3) 1 a \<longleftrightarrow> a = d + 3"
    using in_block_Suc [of 0 "d + 3" a] by simp
  ultimately show ?thesis by blast
qed

lemma store32_rep_byte:
  "store32 m d (push_bit 24 (c AND 0xFF) OR push_bit 16 (c AND 0xFF) OR push_bit 8 (c AND 0xFF) OR (c AND 0xFF))
   = (\<lambda>a. if in_block d 4 a then ucast c else m a)"
  unfolding store32_def rep_byte by (auto simp: fun_eq_iff in_block_4)

lemma stosl_rep_byte:
  fixes c :: uint
  defines "v \<equiv> push_bit 24 (c AND 0xFF) OR push_bit 16 (c AND 0xFF) OR push_bit 8 (c AND 0xFF) OR (c AND 0xFF)"
  shows "4 * k \<le> 4294967296 \<Longrightarrow> stosl m d v k = (\<lambda>a. if in_block d (4 * k) a then ucast c else m a)"
proof (induction k arbitrary: m d)
  case 0
  then show ?case by simp
next
  case (Suc k)
  have "in_block d (4 + 4 * k) a \<longleftrightarrow> in_block d 4 a \<or> in_block (d + 4) (4 * k) a" for a
    using in_block_add [of 4 "4 * k" d a] Suc.prems by simp
  with Suc.IH [of _ "d + 4"] Suc.prems store32_rep_byte [of m d c] show ?case
    by (auto simp: v_def fun_eq_iff)
qed

lemma copy_fwd_eq:
  assumes "unat s + n < 4294967296" "unat d + n < 4294967296" "d \<le> s \<or> unat s + n \<le> unat d"
  shows "copy_fwd m d s n = (\<lambda>a. if in_block d n a then m (s + (a - d)) else m a)"
  using assms
proof (induction n arbitrary: m d s)
  case 0
  then show ?case by simp
next
  case (Suc n)
  have s1: "unat (s + 1) = unat s + 1" and d1: "unat (d + 1) = unat d + 1"
    using Suc.prems by (auto intro!: unat_add_no_wrap [of _ 1, simplified])
  let ?m = "m(d := m s)"
  have IH: "copy_fwd ?m (d + 1) (s + 1) n =
      (\<lambda>a. if in_block (d + 1) n a then ?m ((s + 1) + (a - (d + 1))) else ?m a)"
    using Suc.prems s1 d1 by (intro Suc.IH) (auto simp: word_le_nat_alt)
  have ne: "s + (a - d) \<noteq> d" if "in_block (d + 1) n a" for a
  proof
    assume eq: "s + (a - d) = d"
    have "(s + 1) + (a - (d + 1)) = s + (a - d)" by simp
    with eq have "unat ((s + 1) + (a - (d + 1))) = unat d" by metis
    moreover have "unat ((s + 1) + (a - (d + 1))) = unat s + 1 + unat (a - (d + 1))"
      using unat_block_offset [of "s + 1" n "d + 1" a] that Suc.prems s1 by simp
    ultimately show False
      using Suc.prems that by (auto simp: word_le_nat_alt in_block_def)
  qed
  show ?case
  proof (rule ext)
    fix a
    have "in_block d (Suc n) a \<longleftrightarrow> a = d \<or> in_block (d + 1) n a" "\<not> in_block (d + 1) n d"
      using Suc.prems by (simp_all add: in_block_Suc in_block_not_before)
    with IH ne [of a] show "copy_fwd m d s (Suc n) a =
        (if in_block d (Suc n) a then m (s + (a - d)) else m a)"
      by auto
  qed
qed

lemma copy_bwd_eq:
  assumes "unat s + n < 4294967296" "unat d + n < 4294967296" "s < d"
  shows "copy_bwd m (d + of_nat n) (s + of_nat n) n =
    (\<lambda>a. if in_block d n a then m (s + (a - d)) else m a)"
  using assms
proof (induction n arbitrary: m)
  case 0
  then show ?case by simp
next
  case (Suc n)
  let ?m = "m(d + of_nat n := m (s + of_nat n))"
  have n: "unat (of_nat n :: uint) = n"
    using Suc.prems by (simp add: unat_of_nat_32)
  have IH: "copy_bwd ?m (d + of_nat n) (s + of_nat n) n =
      (\<lambda>a. if in_block d n a then ?m (s + (a - d)) else ?m a)"
    using Suc.prems by (intro Suc.IH) auto
  have ne: "s + (a - d) \<noteq> d + of_nat n" if "in_block d n a" for a
  proof
    assume eq: "s + (a - d) = d + of_nat n"
    have "unat (d + of_nat n) = unat d + n"
      using unat_add_no_wrap [of d "of_nat n"] n Suc.prems by simp
    moreover have "unat (s + (a - d)) = unat s + unat (a - d)"
      using unat_block_offset [of s n d a] that Suc.prems by simp
    ultimately show False
      using Suc.prems that eq by (simp add: word_less_nat_alt in_block_def)
  qed
  have split: "in_block d (Suc n) a \<longleftrightarrow> in_block d n a \<or> a = d + of_nat n" for a
    using in_block_add [of n 1 d a] in_block_Suc [of 0 "d + of_nat n" a] Suc.prems by simp
  have "\<not> in_block d n (d + of_nat n)"
    by (simp add: in_block_def n)
  with IH ne split show ?case
    by (auto simp: fun_eq_iff add.assoc [symmetric])
qed

lemma memmove_eq:
  assumes "unat s + unat n < 4294967296" "unat d + unat n < 4294967296"
  shows "memmove m d s n = (\<lambda>a. if in_block d (unat n) a then m (s + (a - d)) else m a)"
proof -
  have sn: "unat (s + n) = unat s + unat n"
    using assms by (simp add: unat_add_no_wrap)
  show ?thesis
  proof (cases "s < d \<and> s + n > d")
    case True
    with copy_bwd_eq [of s "unat n" d m] assms show ?thesis
      by (simp add: memmove_def)
  next
    case False
    then have "d \<le> s \<or> unat s + unat n \<le> unat d"
      using sn by (auto simp: word_less_nat_alt word_le_nat_alt not_less)
    with copy_fwd_eq [of s "unat n" d m] assms False show ?thesis
      by (auto simp: memmove_def)
  qed
qed

lemma memset_eq:
  "memset m dst c n = (\<lambda>a. if in_block dst (unat n) a then ucast c else m a)"
proof (cases "unat dst mod 4 = 0 \<and> unat n mod 4 = 0")
  case True
  then have "4 * (unat n div 4) = unat n" by auto
  with stosl_rep_byte [of "unat n div 4" m dst c] True show ?thesis
    by (simp add: memset_def Let_def unat_less_32 [THEN less_imp_le])
next
  case False
  then show ?thesis
    by (auto simp: memset_def stosb_eq unat_less_32 [THEN less_imp_le])
qed

text \<open>
  C29. \<^verbatim>\<open>memmove\<close> copies: afterwards the \<open>n\<close> bytes at \<open>d\<close> are what the \<open>n\<close> bytes at
  \<open>s\<close> were before, whatever the overlap of the two blocks, and no other byte changes.
\<close>

theorem memmove_correct:
  assumes "unat s + unat n < 4294967296" "unat d + unat n < 4294967296"
  shows "memmove m d s n = (\<lambda>a. if in_block d (unat n) a then m (s + (a - d)) else m a)"
  by (rule memmove_eq [OF assms])

text \<open>A five byte block moved up by two bytes, over its own tail.\<close>

theorem memmove_correct_witness:
  "memmove (\<lambda>a. ucast a) 12 10 5 16 = 14 \<and> memmove (\<lambda>a. ucast a) 12 10 5 17 = 17"
  using memmove_correct [of 10 5 12 "\<lambda>a. ucast a"] by (simp add: in_block_def)

text \<open>
  C30. \<^verbatim>\<open>memset\<close> with its four-byte fast path is the byte-by-byte fill: the \<open>n\<close> bytes
  at \<open>dst\<close> become the low byte of \<open>c\<close>, for every alignment and length.
\<close>

theorem memset_correct:
  "memset m dst c n = (\<lambda>a. if in_block dst (unat n) a then ucast c else m a)"
  by (rule memset_eq)

subsection \<open>Comparing and copying strings\<close>

lemma cstr_n_0 [simp]: "cstr_n m p 0 = []"
  by (simp add: cstr_n_def)

lemma cstr_n_Suc [simp]:
  "cstr_n m p (Suc n) = (if m p = 0 then [] else m p # cstr_n m (p + 1) n)"
proof -
  have "map (\<lambda>i. m (p + of_nat i)) [0..<Suc n] = m p # map (\<lambda>i. m (p + 1 + of_nat i)) [0..<n]"
    by (simp add: upt_conv_Cons map_Suc_upt [symmetric] add.assoc del: upt_Suc)
  then show ?thesis by (simp add: cstr_n_def)
qed

lemma cstr_n_cong:
  "(\<And>a. in_block p n a \<Longrightarrow> m a = m' a) \<Longrightarrow> n \<le> 4294967296 \<Longrightarrow> cstr_n m p n = cstr_n m' p n"
  by (induction n arbitrary: p) (auto simp: in_block_Suc)

lemma uint_uchar_eq: "uint (x :: uchar) = uint y \<longleftrightarrow> x = y" "uint (x :: uchar) = 0 \<longleftrightarrow> x = 0"
  by (simp_all add: word_uint_eq_iff)

lemma memcmp_loop_eq_0:
  "memcmp_loop m p q n = 0 \<longleftrightarrow> (\<forall>i<n. m (p + of_nat i) = m (q + of_nat i))"
proof (induction n arbitrary: p q)
  case 0
  then show ?case by simp
next
  case (Suc n)
  show ?case
    using Suc.IH [of "p + 1" "q + 1"]
    by (auto simp: All_less_Suc2 uint_uchar_eq add.assoc)
qed

text \<open>
  \<^verbatim>\<open>strncmp\<close> returns 0 exactly when the two C strings agree, each cut off at its
  NUL or after \<open>n\<close> characters; this is the equality of directory entry names.
\<close>

theorem strncmp_eq_0: "strncmp m p q n = 0 \<longleftrightarrow> cstr_n m p (unat n) = cstr_n m q (unat n)"
proof -
  have "strncmp_loop m p q k = 0 \<longleftrightarrow> cstr_n m p k = cstr_n m q k" for k
  proof (induction k arbitrary: p q)
    case 0
    then show ?case by simp
  next
    case (Suc k)
    then show ?case by (auto simp: uint_uchar_eq)
  qed
  then show ?thesis by (simp add: strncmp_def)
qed

lemma strncpy_loop_spec:
  assumes "n < 4294967296" "\<And>a. in_block t n a \<Longrightarrow> \<not> in_block s n a"
  shows "cstr_n (strncpy_loop m s t n) s n = cstr_n m t n \<and>
         (\<forall>a. \<not> in_block s n a \<longrightarrow> strncpy_loop m s t n a = m a)"
  using assms
proof (induction n arbitrary: m s t)
  case 0
  then show ?case by simp
next
  case (Suc n)
  let ?m = "m(s := m t)"
  have blk: "in_block s (Suc n) a \<longleftrightarrow> a = s \<or> in_block (s + 1) n a"
    "in_block t (Suc n) a \<longleftrightarrow> a = t \<or> in_block (t + 1) n a" "\<not> in_block (s + 1) n s" for a
    using Suc.prems(1) by (simp_all add: in_block_Suc in_block_not_before)
  have "s \<noteq> t" using Suc.prems(2) [of t] blk by blast
  have IH: "cstr_n (strncpy_loop ?m (s + 1) (t + 1) n) (s + 1) n = cstr_n ?m (t + 1) n \<and>
      (\<forall>a. \<not> in_block (s + 1) n a \<longrightarrow> strncpy_loop ?m (s + 1) (t + 1) n a = ?m a)"
    using Suc.prems blk by (intro Suc.IH) auto
  moreover have "cstr_n ?m (t + 1) n = cstr_n m (t + 1) n"
    using Suc.prems blk by (intro cstr_n_cong) auto
  ultimately show ?case
    using blk Suc.prems(1) by (auto simp: stosb_eq Let_def)
qed

lemma safestrcpy_loop_spec:
  assumes "k < 4294967295" "\<And>a. in_block t k a \<Longrightarrow> \<not> in_block s (Suc k) a"
  shows "cstr_n (safestrcpy_loop m s t k) s (Suc k) = cstr_n m t k \<and>
         (\<forall>a. \<not> in_block s (Suc k) a \<longrightarrow> safestrcpy_loop m s t k a = m a)"
  using assms
proof (induction k arbitrary: m s t)
  case 0
  then show ?case by (auto simp: in_block_Suc)
next
  case (Suc k)
  let ?m = "m(s := m t)"
  have blk: "in_block s (Suc (Suc k)) a \<longleftrightarrow> a = s \<or> in_block (s + 1) (Suc k) a"
    "in_block t (Suc k) a \<longleftrightarrow> a = t \<or> in_block (t + 1) k a" "\<not> in_block (s + 1) (Suc k) s" for a
    using Suc.prems(1) in_block_Suc [of "Suc k" s a] in_block_Suc [of k t a]
      in_block_not_before [of "Suc k" s] by simp_all
  have IH: "cstr_n (safestrcpy_loop ?m (s + 1) (t + 1) k) (s + 1) (Suc k) = cstr_n ?m (t + 1) k \<and>
      (\<forall>a. \<not> in_block (s + 1) (Suc k) a \<longrightarrow> safestrcpy_loop ?m (s + 1) (t + 1) k a = ?m a)"
    using Suc.prems blk by (intro Suc.IH) auto
  moreover have "cstr_n ?m (t + 1) k = cstr_n m (t + 1) k"
    using Suc.prems blk by (intro cstr_n_cong) auto
  ultimately show ?case
    using blk Suc.prems(1) by (auto simp: Let_def simp del: cstr_n_Suc simp add: cstr_n_Suc [of _ s] cstr_n_Suc [of m t])
qed

text \<open>
  C31. \<^verbatim>\<open>safestrcpy\<close> into a buffer of \<open>n > 0\<close> bytes writes inside the buffer only and
  leaves the longest prefix of the source that fits, terminated by a NUL.
\<close>

theorem safestrcpy_correct:
  assumes "0 < sint n" "\<And>a. in_block t (nat (sint n)) a \<Longrightarrow> \<not> in_block s (nat (sint n)) a"
  shows "cstr_n (safestrcpy m s t n) s (nat (sint n)) = cstr_n m t (nat (sint n) - 1) \<and>
         (\<forall>a. \<not> in_block s (nat (sint n)) a \<longrightarrow> safestrcpy m s t n a = m a)"
proof -
  let ?k = "nat (sint n) - 1"
  have k: "nat (sint n) = Suc ?k" using assms(1) by simp
  have "nat (sint n) < 4294967296"
    using sint_lt [of n] by simp
  with assms(2) have "\<And>a. in_block t ?k a \<Longrightarrow> \<not> in_block s (Suc ?k) a"
    unfolding k [symmetric] by (auto simp: in_block_def)
  with \<open>nat (sint n) < 4294967296\<close> k assms(1) safestrcpy_loop_spec [of ?k t s m] show ?thesis
    by (simp add: safestrcpy_def)
qed

text \<open>Copying \<^verbatim>\<open>hi!\<close> into a three byte buffer keeps \<^verbatim>\<open>hi\<close>.\<close>

theorem safestrcpy_correct_witness:
  "cstr_n (safestrcpy ((\<lambda>_. 0)(100 := 104, 101 := 105, 102 := 33)) 200 100 3) 200 3 = [104, 105]"
proof -
  have sint3: "sint (3 :: cint) = 3" by simp
  have "\<not> in_block 200 3 a" if "in_block 100 3 a" for a
    using that by (rule in_block_disjoint [rotated -1]) simp_all
  then show ?thesis
    using safestrcpy_correct [of 3 100 200 "(\<lambda>_. 0)(100 := 104, 101 := 105, 102 := 33)"]
    by (simp add: sint3 numeral_3_eq_3)
qed

lemma strlen_loop_Some:
  assumes "n \<le> k" "m (s + of_nat k) = 0" "\<And>i. n \<le> i \<Longrightarrow> i < k \<Longrightarrow> m (s + of_nat i) \<noteq> 0"
  shows "strlen_loop m s n = Some k"
  using assms
proof (induction "k - n" arbitrary: n)
  case 0
  then show ?case by (simp add: strlen_loop.simps)
next
  case (Suc d)
  then have "strlen_loop m s (Suc n) = Some k" by auto
  moreover have "m (s + of_nat n) \<noteq> 0" using Suc by auto
  ultimately show ?case by (simp add: strlen_loop.simps [of m s n])
qed

lemma strlen_Some:
  "m (s + of_nat k) = 0 \<Longrightarrow> (\<And>i. i < k \<Longrightarrow> m (s + of_nat i) \<noteq> 0) \<Longrightarrow> strlen m s = Some k"
  by (simp add: strlen_def strlen_loop_Some)

end
