(* ===== verification/Kalloc.thy ===== *)
theory Kalloc
  imports Kstring
begin

text \<open>
  The physical page allocator of \<^verbatim>\<open>src/xv6A1/kalloc.c\<close>. The free list is threaded
  through the free pages themselves, so the model keeps it where the code does: in memory,
  with the head in \<^verbatim>\<open>kmem.freelist\<close>. \<open>flist\<close> relates memory to the list of free pages;
  the interface \<open>page_allocator\<close> states what the rest of the kernel relies on.
\<close>

subsection \<open>Layout constants of memlayout.h and mmu.h\<close>

abbreviation KERNBASE :: uint where "KERNBASE \<equiv> 0x80000000"
abbreviation PHYSTOP :: uint where "PHYSTOP \<equiv> 0xE000000"
abbreviation PGSIZE :: uint where "PGSIZE \<equiv> 4096"

definition V2P :: "uint \<Rightarrow> uint" where "V2P a = a - KERNBASE"
definition P2V :: "uint \<Rightarrow> uint" where "P2V a = a + KERNBASE"

definition PGROUNDUP :: "uint \<Rightarrow> uint" where
  "PGROUNDUP sz = (sz + PGSIZE - 1) AND NOT (PGSIZE - 1)"

definition PGROUNDDOWN :: "uint \<Rightarrow> uint" where
  "PGROUNDDOWN a = a AND NOT (PGSIZE - 1)"

subsection \<open>State and operations\<close>

text \<open>
  \<^verbatim>\<open>kmem\<close> with the memory that holds the list. \<open>kend\<close> is the linker symbol
  \<^verbatim>\<open>end\<close>, the first address after the kernel image.
\<close>

record kmem =
  kmem_lock :: bool
  use_lock :: bool
  freelist :: uint
  kmem_mem :: mem

definition kmem_acquire :: "kmem \<Rightarrow> kmem kres" where
  "kmem_acquire s = (if use_lock s then kbind (lock_acquire (kmem_lock s)) (\<lambda>h. Ret (s\<lparr>kmem_lock := h\<rparr>))
                     else Ret s)"

definition kmem_release :: "kmem \<Rightarrow> kmem kres" where
  "kmem_release s = (if use_lock s then kbind (lock_release (kmem_lock s)) (\<lambda>h. Ret (s\<lparr>kmem_lock := h\<rparr>))
                     else Ret s)"

definition kfree :: "uint \<Rightarrow> uint \<Rightarrow> kmem \<Rightarrow> kmem kres" where
  "kfree kend v s =
     (if v mod PGSIZE \<noteq> 0 \<or> v < kend \<or> V2P v \<ge> PHYSTOP then Panic ''kfree''
      else
        let s = s\<lparr>kmem_mem := memset (kmem_mem s) v 1 PGSIZE\<rparr>
        in kbind (kmem_acquire s) (\<lambda>s.
             kmem_release (s\<lparr>kmem_mem := store32 (kmem_mem s) v (freelist s), freelist := v\<rparr>)))"

definition kalloc :: "kmem \<Rightarrow> (uint \<times> kmem) kres" where
  "kalloc s =
     kbind (kmem_acquire s) (\<lambda>s.
       let r = freelist s;
           s = (if r \<noteq> 0 then s\<lparr>freelist := load32 (kmem_mem s) r\<rparr> else s)
       in kbind (kmem_release s) (\<lambda>s. Ret (r, s)))"

lemma V2P_below:
  assumes "V2P v < PHYSTOP"
  shows "0x80000000 \<le> unat v" "unat v < 0x8E000000"
proof -
  have v: "v = V2P v + KERNBASE" by (simp add: V2P_def)
  have "unat (V2P v) < 0xE000000"
    using assms by (simp add: word_less_nat_alt)
  then have "unat (V2P v + KERNBASE) = unat (V2P v) + 0x80000000"
    by (subst unat_add_no_wrap) simp_all
  with v \<open>unat (V2P v) < 0xE000000\<close> show "0x80000000 \<le> unat v" "unat v < 0x8E000000"
    by simp_all
qed

lemma kfree_Ret_below: "kfree kend v s = Ret s' \<Longrightarrow> V2P v < PHYSTOP"
  by (auto simp: kfree_def not_le split: if_splits)

text \<open>
  The loop of \<^verbatim>\<open>freerange\<close>. It stops: \<^verbatim>\<open>kfree\<close> panics before the address wraps.
\<close>

function freerange_loop :: "uint \<Rightarrow> uint \<Rightarrow> uint \<Rightarrow> kmem \<Rightarrow> kmem kres" where
  "freerange_loop kend p vend s =
     (if p + PGSIZE \<le> vend then kbind (kfree kend p s) (\<lambda>s. freerange_loop kend (p + PGSIZE) vend s)
      else Ret s)"
  by pat_completeness auto
termination
proof (relation "measure (\<lambda>(kend, p, vend, s). 4294967296 - unat p)", goal_cases)
  case 1
  then show ?case by simp
next
  case (2 kend p vend s x)
  then have "unat p < 0x8E000000" by (auto dest: kfree_Ret_below V2P_below)
  then have "unat (p + PGSIZE) = unat p + 4096"
    by (subst unat_add_no_wrap) simp_all
  with \<open>unat p < 0x8E000000\<close> show ?case by simp
qed

declare freerange_loop.simps [simp del]

definition freerange :: "uint \<Rightarrow> uint \<Rightarrow> uint \<Rightarrow> kmem \<Rightarrow> kmem kres" where
  "freerange kend vstart vend s = freerange_loop kend (PGROUNDUP vstart) vend s"

definition kinit1 :: "uint \<Rightarrow> uint \<Rightarrow> uint \<Rightarrow> kmem \<Rightarrow> kmem kres" where
  "kinit1 kend vstart vend s =
     freerange kend vstart vend (s\<lparr>kmem_lock := False, use_lock := False\<rparr>)"

definition kinit2 :: "uint \<Rightarrow> uint \<Rightarrow> uint \<Rightarrow> kmem \<Rightarrow> kmem kres" where
  "kinit2 kend vstart vend s =
     kbind (freerange kend vstart vend s) (\<lambda>s. Ret (s\<lparr>use_lock := True\<rparr>))"

subsection \<open>The free list in memory\<close>

primrec flist :: "mem \<Rightarrow> uint \<Rightarrow> uint list \<Rightarrow> bool" where
  "flist m p [] \<longleftrightarrow> p = 0"
| "flist m p (q # qs) \<longleftrightarrow> p = q \<and> p \<noteq> 0 \<and> flist m (load32 m p) qs"

definition page_ok :: "uint \<Rightarrow> uint \<Rightarrow> bool" where
  "page_ok kend v \<longleftrightarrow> v mod PGSIZE = 0 \<and> kend \<le> v \<and> V2P v < PHYSTOP"

text \<open>
  The allocator's invariant, for the list \<open>ps\<close> of free pages: they are chained from
  \<^verbatim>\<open>freelist\<close>, pairwise different, and pages of allocatable memory; the lock is free.
\<close>

definition kmem_inv :: "uint \<Rightarrow> kmem \<Rightarrow> uint list \<Rightarrow> bool" where
  "kmem_inv kend s ps \<longleftrightarrow> flist (kmem_mem s) (freelist s) ps \<and> distinct ps \<and>
     (\<forall>p\<in>set ps. page_ok kend p) \<and> \<not> kmem_lock s"

lemma flist_unique: "flist m p ps \<Longrightarrow> flist m p qs \<Longrightarrow> ps = qs"
proof (induction ps arbitrary: p qs)
  case Nil
  then show ?case by (cases qs) auto
next
  case (Cons a ps)
  then show ?case by (cases qs) auto
qed

lemma flist_cong:
  "(\<And>p. p \<in> set ps \<Longrightarrow> load32 m p = load32 m' p) \<Longrightarrow> flist m q ps \<longleftrightarrow> flist m' q ps"
  by (induction ps arbitrary: q) auto

text \<open>Different pages do not overlap.\<close>

lemma page_multiple:
  assumes "v mod PGSIZE = 0"
  shows "\<exists>k. unat v = 4096 * k"
proof -
  have "unat (v mod PGSIZE) = unat v mod 4096" by (simp add: unat_mod)
  with assms have "unat v mod 4096 = 0" by simp
  then show ?thesis by auto
qed

lemma pages_disjoint:
  assumes "page_ok kend p" "page_ok kend v" "p \<noteq> v" "in_block p 4096 a"
  shows "\<not> in_block v 4096 a"
proof -
  obtain i j where ij: "unat p = 4096 * i" "unat v = 4096 * j"
    using page_multiple [of p] page_multiple [of v] assms(1,2) unfolding page_ok_def by blast
  with \<open>p \<noteq> v\<close> have "i \<noteq> j" using word_unat_eq_iff [of p v] by auto
  then have "unat p + 4096 \<le> unat v \<or> unat v + 4096 \<le> unat p"
    using ij by auto
  moreover have "unat p + 4096 \<le> 4294967296" "unat v + 4096 \<le> 4294967296"
    using assms(1,2) V2P_below(2) [of p] V2P_below(2) [of v] by (auto simp: page_ok_def)
  ultimately show ?thesis using in_block_disjoint assms(4) by blast
qed

lemma page_nonzero: "page_ok kend p \<Longrightarrow> p \<noteq> 0"
  using V2P_below(1) [of p] by (auto simp: page_ok_def)

lemma in_block_mono: "in_block d n a \<Longrightarrow> n \<le> k \<Longrightarrow> in_block d k a"
  by (simp add: in_block_def)

text \<open>Filling a page and storing the link in it does not change the links of other pages.\<close>

lemma load32_kfree_other:
  assumes "page_ok kend p" "page_ok kend v" "p \<noteq> v"
  shows "load32 (store32 (memset m v 1 PGSIZE) v x) p = load32 m p"
proof (rule load32_cong)
  fix b assume "in_block p 4 b"
  then have "\<not> in_block v 4096 b"
    using pages_disjoint [OF assms] in_block_mono [of p 4 b 4096] by simp
  moreover from this have "\<not> in_block v 4 b"
    using in_block_mono [of v 4 b 4096] by auto
  ultimately show "store32 (memset m v 1 PGSIZE) v x b = m b"
    by (simp add: store32_other memset_eq)
qed

lemma kmem_lock_eqs:
  "\<not> kmem_lock s \<Longrightarrow> kmem_acquire s = Ret (s\<lparr>kmem_lock := use_lock s\<rparr>)"
  "kmem_lock s = use_lock s \<Longrightarrow> kmem_release s = Ret (s\<lparr>kmem_lock := False\<rparr>)"
  by (auto simp: kmem_acquire_def kmem_release_def)

lemma kfree_eq:
  assumes "page_ok kend v" "\<not> kmem_lock s"
  shows "kfree kend v s = Ret (s\<lparr>kmem_mem := store32 (memset (kmem_mem s) v 1 PGSIZE) v (freelist s),
    freelist := v\<rparr>)"
  using assms by (simp add: kfree_def page_ok_def kmem_lock_eqs not_le not_less Let_def)

lemma kalloc_eq:
  assumes "\<not> kmem_lock s"
  shows "kalloc s = Ret (freelist s,
    if freelist s \<noteq> 0 then s\<lparr>freelist := load32 (kmem_mem s) (freelist s)\<rparr> else s)"
  using assms by (simp add: kalloc_def kmem_lock_eqs Let_def)

lemma kalloc_Cons:
  assumes "kmem_inv kend s (p # ps)"
  shows "\<exists>s'. kalloc s = Ret (p, s') \<and> kmem_inv kend s' ps \<and> kmem_mem s' = kmem_mem s \<and>
    use_lock s' = use_lock s"
  using assms by (auto simp: kmem_inv_def kalloc_eq)

lemma kalloc_Nil: "kmem_inv kend s [] \<Longrightarrow> kalloc s = Ret (0, s)"
  by (simp add: kmem_inv_def kalloc_eq)

lemma kfree_Cons:
  assumes "kmem_inv kend s ps" "page_ok kend v" "v \<notin> set ps"
  shows "\<exists>s'. kfree kend v s = Ret s' \<and> kmem_inv kend s' (v # ps) \<and> use_lock s' = use_lock s \<and>
    (\<forall>a. \<not> in_block v 4096 a \<longrightarrow> kmem_mem s' a = kmem_mem s a)"
proof -
  let ?m = "store32 (memset (kmem_mem s) v 1 PGSIZE) v (freelist s)"
  have "load32 (kmem_mem s) p = load32 ?m p" if "p \<in> set ps" for p
    using load32_kfree_other [of kend p v "kmem_mem s" "freelist s", symmetric] that assms
    by (metis kmem_inv_def)
  then have "flist ?m (freelist s) ps"
    using assms flist_cong [of ps "kmem_mem s" ?m "freelist s"] by (simp add: kmem_inv_def)
  moreover have "?m a = kmem_mem s a" if a: "\<not> in_block v 4096 a" for a
  proof -
    have "\<not> in_block v 4 a" using a in_block_mono [of v 4 a 4096] by auto
    with a show ?thesis by (simp add: store32_other memset_eq)
  qed
  ultimately show ?thesis
    using assms kfree_eq [OF assms(2), of s] page_nonzero [OF assms(2)]
    by (auto simp: kmem_inv_def)
qed

text \<open>Writing to a page that is in use keeps the free list.\<close>

lemma kmem_inv_write:
  assumes "kmem_inv kend s ps" "page_ok kend v" "v \<notin> set ps"
    "\<And>a. \<not> in_block v 4096 a \<Longrightarrow> m a = kmem_mem s a"
  shows "kmem_inv kend (s\<lparr>kmem_mem := m\<rparr>) ps"
proof -
  have "load32 (kmem_mem s) p = load32 m p" if p: "p \<in> set ps" for p
  proof (rule load32_cong)
    fix b assume "in_block p 4 b"
    then have "in_block p 4096 b" by (rule in_block_mono) simp
    moreover have "page_ok kend p" "p \<noteq> v" using p assms by (auto simp: kmem_inv_def)
    ultimately have "\<not> in_block v 4096 b" using pages_disjoint assms(2) by blast
    then show "kmem_mem s b = m b" using assms(4) by simp
  qed
  then show ?thesis
    using assms(1) flist_cong [of ps "kmem_mem s" m "freelist s"] by (simp add: kmem_inv_def)
qed

subsection \<open>The interface of the allocator\<close>

datatype 'p page_op = PAlloc | PFree 'p

text \<open>
  A client that holds the set \<open>H\<close> of pages: it adds what \<open>alloc\<close> returns unless that is the
  null pointer, and gives back pages it holds.
\<close>

primrec page_run :: "('s \<Rightarrow> ('p \<times> 's) kres) \<Rightarrow> ('p \<Rightarrow> 's \<Rightarrow> 's kres) \<Rightarrow> 'p \<Rightarrow>
    'p page_op list \<Rightarrow> 'p set \<times> 's \<Rightarrow> ('p set \<times> 's) kres" where
  "page_run alloc free null [] c = Ret c"
| "page_run alloc free null (e # es) c =
     kbind (case e of
         PAlloc \<Rightarrow> kbind (alloc (snd c)) (\<lambda>(p, s). Ret (if p = null then fst c else insert p (fst c), s))
       | PFree p \<Rightarrow> if p \<in> fst c then kbind (free p (snd c)) (\<lambda>s. Ret (fst c - {p}, s)) else Ret c)
       (page_run alloc free null es)"

locale page_allocator =
  fixes alloc :: "'s \<Rightarrow> ('p \<times> 's) kres" and free :: "'p \<Rightarrow> 's \<Rightarrow> 's kres" and null :: 'p
    and pool :: "'s \<Rightarrow> 'p set \<Rightarrow> bool" and valid :: "'p \<Rightarrow> bool"
  assumes alloc_some: "pool s F \<Longrightarrow> F \<noteq> {} \<Longrightarrow>
      \<exists>p s'. alloc s = Ret (p, s') \<and> p \<in> F \<and> pool s' (F - {p})"
    and alloc_none: "pool s {} \<Longrightarrow> \<exists>s'. alloc s = Ret (null, s') \<and> pool s' {}"
    and free_ok: "pool s F \<Longrightarrow> valid p \<Longrightarrow> p \<notin> F \<Longrightarrow> \<exists>s'. free p s = Ret s' \<and> pool s' (insert p F)"
    and pool_valid: "pool s F \<Longrightarrow> p \<in> F \<Longrightarrow> valid p"
    and null_invalid: "\<not> valid null"
begin

lemma client_run:
  assumes "pool s F" "F \<inter> H = {}" "\<forall>p\<in>H. valid p"
  shows "\<exists>H' s' F'. page_run alloc free null es (H, s) = Ret (H', s') \<and> pool s' F' \<and>
    F' \<inter> H' = {} \<and> F' \<union> H' = F \<union> H"
  using assms
proof (induction es arbitrary: s F H)
  case Nil
  then show ?case by auto
next
  case (Cons e es)
  show ?case
  proof (cases e)
    case PAlloc
    show ?thesis
    proof (cases "F = {}")
      case True
      with Cons.prems obtain s' where "alloc s = Ret (null, s')" "pool s' {}"
        using alloc_none by blast
      with Cons.IH [of s' "{}" H] Cons.prems PAlloc True show ?thesis by simp
    next
      case False
      with Cons.prems obtain p s' where p: "alloc s = Ret (p, s')" "p \<in> F" "pool s' (F - {p})"
        using alloc_some by blast
      then have "valid p" "p \<noteq> null"
        using pool_valid null_invalid Cons.prems(1) by blast+
      moreover have "(F - {p}) \<inter> insert p H = {}" "(F - {p}) \<union> insert p H = F \<union> H"
        using Cons.prems(2) p(2) by auto
      ultimately show ?thesis
        using Cons.IH [of s' "F - {p}" "insert p H"] Cons.prems(3) PAlloc p by simp
    qed
  next
    case (PFree p)
    show ?thesis
    proof (cases "p \<in> H")
      case True
      then obtain s' where s': "free p s = Ret s'" "pool s' (insert p F)"
        using free_ok [OF Cons.prems(1)] Cons.prems(2,3) by blast
      moreover have "insert p F \<inter> (H - {p}) = {}" "insert p F \<union> (H - {p}) = F \<union> H"
        using Cons.prems(2) True by auto
      ultimately show ?thesis
        using Cons.IH [of s' "insert p F" "H - {p}"] Cons.prems(3) PFree True by simp
    next
      case False
      with Cons PFree show ?thesis by simp
    qed
  qed
qed

end

definition kpool :: "uint \<Rightarrow> kmem \<Rightarrow> uint set \<Rightarrow> bool" where
  "kpool kend s F \<longleftrightarrow> (\<exists>ps. kmem_inv kend s ps \<and> set ps = F)"

interpretation kmem: page_allocator kalloc "kfree kend" 0 "kpool kend" "page_ok kend" for kend
proof (unfold_locales, goal_cases)
  case (1 s F)
  then obtain p ps where ps: "kmem_inv kend s (p # ps)" "set (p # ps) = F"
    unfolding kpool_def by (metis list.set_cases neq_Nil_conv set_empty)
  moreover have "set ps = F - {p}"
    using ps by (auto simp: kmem_inv_def)
  ultimately show ?case
    using kalloc_Cons [OF ps(1)] by (auto simp: kpool_def)
next
  case (2 s)
  then show ?case using kalloc_Nil by (auto simp: kpool_def)
next
  case (3 s F p)
  then show ?case
    using kfree_Cons by (fastforce simp: kpool_def)
next
  case (4 s F p)
  then show ?case by (auto simp: kpool_def kmem_inv_def)
next
  case 5
  then show ?case using page_nonzero by blast
qed

subsection \<open>Initialisation\<close>

definition pages_from :: "uint \<Rightarrow> nat \<Rightarrow> uint list" where
  "pages_from p n = map (\<lambda>i. p + of_nat (4096 * i)) [0..<n]"

lemma pages_from_0 [simp]: "pages_from p 0 = []"
  by (simp add: pages_from_def)

lemma pages_from_Suc: "pages_from p (Suc n) = p # pages_from (p + PGSIZE) n"
  by (simp add: pages_from_def upt_conv_Cons map_Suc_upt [symmetric] add.assoc del: upt_Suc)

lemma unat_page_next:
  assumes "unat p + 4096 < 4294967296"
  shows "unat (p + PGSIZE) = unat p + 4096"
  using assms by (subst unat_add_no_wrap) simp_all

lemma V2P_belowI:
  assumes "0x80000000 \<le> unat v" "unat v < 0x8E000000"
  shows "V2P v < PHYSTOP"
  using assms by (simp add: V2P_def word_less_nat_alt unat_sub_if_32)

lemma page_next_aligned:
  assumes "p mod PGSIZE = 0" "unat p + 4096 < 4294967296"
  shows "(p + PGSIZE) mod PGSIZE = 0"
proof -
  obtain k where "unat p = 4096 * k" using page_multiple [OF assms(1)] by blast
  with unat_page_next [OF assms(2)] have "unat (p + PGSIZE) mod 4096 = 0" by simp
  then show ?thesis by (simp add: word_unat_eq_iff unat_mod)
qed

lemma pages_from_above:
  assumes "unat p + 4096 * n \<le> 4294967296" "q \<in> set (pages_from p n)"
  shows "unat p \<le> unat q"
proof -
  from assms(2) obtain i where i: "i < n" "q = p + of_nat (4096 * i)"
    by (auto simp: pages_from_def)
  have "4096 * i + 4096 \<le> 4096 * n" using i(1) by simp
  with assms(1) have "unat p + 4096 * i < 4294967296" by linarith
  moreover from this have "unat (of_nat (4096 * i) :: uint) = 4096 * i"
    by (intro unat_of_nat_32) simp
  ultimately show ?thesis
    using unat_add_no_wrap [of p "of_nat (4096 * i)"] i(2) by simp
qed

lemma freerange_loop_pages:
  assumes "kmem_inv kend s ps" "p mod PGSIZE = 0" "kend \<le> p" "0x80000000 \<le> unat p"
    "unat vend = unat p + 4096 * n + r" "r < 4096" "unat vend \<le> 0x8E000000"
    "set (pages_from p n) \<inter> set ps = {}"
  shows "\<exists>s'. freerange_loop kend p vend s = Ret s' \<and> kmem_inv kend s' (rev (pages_from p n) @ ps) \<and>
    use_lock s' = use_lock s"
  using assms
proof (induction n arbitrary: p s ps)
  case 0
  then have "unat (p + PGSIZE) = unat p + 4096" by (intro unat_page_next) simp
  with 0 have "\<not> p + PGSIZE \<le> vend" by (simp add: word_le_nat_alt)
  with 0 show ?case by (simp add: freerange_loop.simps [of kend p])
next
  case (Suc n)
  have next': "unat (p + PGSIZE) = unat p + 4096"
    using Suc.prems by (intro unat_page_next) simp
  then have go: "p + PGSIZE \<le> vend" using Suc.prems by (simp add: word_le_nat_alt)
  have p: "page_ok kend p" "p \<notin> set ps"
    using Suc.prems V2P_belowI [of p] by (auto simp: page_ok_def pages_from_Suc)
  obtain s' where s': "kfree kend p s = Ret s'" "kmem_inv kend s' (p # ps)" "use_lock s' = use_lock s"
    using kfree_Cons [OF Suc.prems(1) p] by blast
  have "unat (p + PGSIZE) + 4096 * n \<le> 4294967296"
    using next' Suc.prems(5,7) by simp
  then have "p \<notin> set (pages_from (p + PGSIZE) n)"
    using pages_from_above [of "p + PGSIZE" n p] next' by auto
  then have "set (pages_from (p + PGSIZE) n) \<inter> set (p # ps) = {}"
    using Suc.prems(8) by (auto simp: pages_from_Suc)
  moreover have "kend \<le> p + PGSIZE" "0x80000000 \<le> unat (p + PGSIZE)"
    "unat vend = unat (p + PGSIZE) + 4096 * n + r"
    using Suc.prems next' by (auto simp: word_le_nat_alt)
  moreover have "(p + PGSIZE) mod PGSIZE = 0"
    using Suc.prems by (intro page_next_aligned) simp_all
  ultimately obtain s'' where "freerange_loop kend (p + PGSIZE) vend s' = Ret s''"
    "kmem_inv kend s'' (rev (pages_from (p + PGSIZE) n) @ (p # ps))" "use_lock s'' = use_lock s'"
    using Suc.IH [OF s'(2), of "p + PGSIZE"] Suc.prems(6,7) by auto
  with go s' show ?case
    by (simp add: freerange_loop.simps [of kend p] pages_from_Suc)
qed

subsection \<open>Properties\<close>

text \<open>
  C9. No page is handed out twice and none is lost: whatever sequence of \<^verbatim>\<open>kalloc\<close> and
  \<^verbatim>\<open>kfree\<close> calls a client makes with pages it holds, every call returns, and the free pages
  and the held pages stay disjoint and together are the pages it started with.
\<close>

theorem kalloc_kfree_partition:
  assumes "kmem_inv kend s ps" "set ps \<inter> H = {}" "\<forall>p\<in>H. page_ok kend p"
  shows "\<exists>H' s' qs. page_run kalloc (kfree kend) 0 es (H, s) = Ret (H', s') \<and> kmem_inv kend s' qs \<and>
    set qs \<inter> H' = {} \<and> set qs \<union> H' = set ps \<union> H"
proof -
  have "kpool kend s (set ps)" using assms(1) by (auto simp: kpool_def)
  from kmem.client_run [OF this assms(2,3), of es] show ?thesis
    by (fastforce simp: kpool_def)
qed

definition two_pages :: kmem where
  "two_pages = \<lparr>kmem_lock = False, use_lock = True, freelist = 0x80400000,
     kmem_mem = store32 (store32 (\<lambda>_. 0) 0x80400000 0x80401000) 0x80401000 0\<rparr>"

lemma two_pages_inv: "kmem_inv 0x80115000 two_pages [0x80400000, 0x80401000]"
proof -
  have "load32 (kmem_mem two_pages) 0x80401000 = 0" by (simp add: two_pages_def)
  moreover have "load32 (kmem_mem two_pages) 0x80400000 = 0x80401000"
    by (simp add: two_pages_def load32_def store32_def)
  ultimately show ?thesis
    by (simp add: kmem_inv_def two_pages_def page_ok_def V2P_def)
qed

theorem kalloc_kfree_partition_witness:
  "\<exists>H' s' qs. page_run kalloc (kfree 0x80115000) 0 [PAlloc, PAlloc, PFree 0x80400000, PAlloc, PAlloc]
     ({}, two_pages) = Ret (H', s') \<and> kmem_inv 0x80115000 s' qs \<and> set qs \<inter> H' = {} \<and>
     set qs \<union> H' = {0x80400000, 0x80401000}"
  using kalloc_kfree_partition [OF two_pages_inv, of "{}"
    "[PAlloc, PAlloc, PFree 0x80400000, PAlloc, PAlloc]"]
  by (simp del: page_run.simps)

text \<open>
  \<^verbatim>\<open>kfree\<close> of a page that is not free makes it the page that the next \<^verbatim>\<open>kalloc\<close>
  returns, writes inside that page only, and the allocation leaves the other free pages as
  they were.
\<close>

theorem kfree_kalloc_roundtrip:
  assumes "kmem_inv kend s ps" "page_ok kend v" "v \<notin> set ps"
  shows "\<exists>s' s''. kfree kend v s = Ret s' \<and> (\<forall>a. \<not> in_block v 4096 a \<longrightarrow> kmem_mem s' a = kmem_mem s a) \<and>
    kalloc s' = Ret (v, s'') \<and> kmem_inv kend s'' ps"
  using kfree_Cons [OF assms] kalloc_Cons by blast

theorem kfree_kalloc_roundtrip_witness:
  "\<exists>s' s''. kfree 0x80115000 0x80500000 two_pages = Ret s' \<and> kalloc s' = Ret (0x80500000, s'')"
  using kfree_kalloc_roundtrip [OF two_pages_inv, where v = "0x80500000"] by (auto simp: page_ok_def V2P_def)

lemma round_mask: "PGSIZE - 1 = mask 12"
  by (simp add: mask_eq_exp_minus_1)

lemma round_aligned: "(a AND NOT (PGSIZE - 1)) mod PGSIZE = 0"
proof -
  have "take_bit 12 (a AND NOT (mask 12)) = 0" for a :: uint
    by (rule bit_word_eqI) (auto simp: bit_take_bit_iff bit_and_iff bit_not_iff bit_mask_iff)
  then show ?thesis
    unfolding round_mask by (simp add: take_bit_eq_mod)
qed

text \<open>
  \<^verbatim>\<open>kinit1\<close> returns and puts exactly the whole pages of its range on the free list,
  each once, the highest address first.
\<close>

theorem kinit1_frees_range:
  assumes "freelist s = 0" "kend \<le> PGROUNDUP vstart" "KERNBASE \<le> PGROUNDUP vstart"
    "PGROUNDUP vstart \<le> vend" "unat vend \<le> 0x8E000000"
  shows "\<exists>s'. kinit1 kend vstart vend s = Ret s' \<and>
    kmem_inv kend s' (rev (pages_from (PGROUNDUP vstart)
      ((unat vend - unat (PGROUNDUP vstart)) div 4096)))"
proof -
  let ?p = "PGROUNDUP vstart" and ?s = "s\<lparr>kmem_lock := False, use_lock := False\<rparr>"
  let ?n = "(unat vend - unat ?p) div 4096" and ?r = "(unat vend - unat ?p) mod 4096"
  have "unat vend = unat ?p + 4096 * ?n + ?r"
    using assms(4) by (simp add: word_le_nat_alt)
  moreover have "kmem_inv kend ?s []"
    using assms(1) by (simp add: kmem_inv_def)
  ultimately show ?thesis
    using freerange_loop_pages [of kend ?s "[]" ?p vend ?n ?r] assms(2,3,5) round_aligned
    by (auto simp: kinit1_def freerange_def PGROUNDUP_def word_le_nat_alt)
qed

theorem kinit1_frees_range_witness:
  "\<exists>s'. kinit1 0x80115000 0x80115800 0x80118000 (two_pages\<lparr>freelist := 0\<rparr>) = Ret s' \<and>
     kmem_inv 0x80115000 s' [0x80117000, 0x80116000]"
  using kinit1_frees_range [of "two_pages\<lparr>freelist := 0\<rparr>" "0x80115000" "0x80115800" "0x80118000"]
  by (simp add: PGROUNDUP_def pages_from_def upt_rec)

end
