(* ===== verification/ProcTable.thy ===== *)
theory ProcTable
  imports Kalloc
begin

text \<open>
  The process table of \<^verbatim>\<open>src/xv6A1/proc.c\<close>: \<^verbatim>\<open>struct proc\<close> with the signal fields this
  repository adds, slot allocation, sleeping and waking, killing and yielding.
  A pointer to a process is its index in \<^verbatim>\<open>ptable.proc\<close>; trap frames and contexts are
  addresses in kernel memory. The record is extensible: the theories of the components that
  \<^verbatim>\<open>proc.c\<close> works with add their state to it.
\<close>

subsection \<open>State\<close>

datatype procstate = UNUSED | EMBRYO | SLEEPING | RUNNABLE | RUNNING | ZOMBIE

record proc =
  sz :: uint
  pgdir :: uint
  kstack :: uint
  pstate :: procstate
  pid :: cint
  parent :: "nat option"
  tf :: uint
  pcontext :: uint
  pchan :: chan
  killed :: bool
  ofile :: "nat option list"
  cwd :: "nat option"
  pname :: "uchar list"
  handler :: uint
  dis_sig :: cint
  prev_tf :: uint
  intr :: cint
  message :: "uchar list"

record ptable =
  ptlock :: bool
  procs :: "proc list"
  initproc :: "nat option"
  nextpid :: cint
  kmem :: kmem

abbreviation "NPROC \<equiv> (64 :: nat)"
abbreviation "NOFILE \<equiv> (16 :: nat)"
abbreviation "MSGSIZE \<equiv> (8 :: nat)"
abbreviation "KSTACKSIZE \<equiv> (4096 :: uint)"

text \<open>Offsets in \<^verbatim>\<open>struct trapframe\<close> (76 bytes) and \<^verbatim>\<open>struct context\<close> (20 bytes).\<close>

abbreviation "TF_SIZE \<equiv> (76 :: uint)"
abbreviation "TF_EAX \<equiv> (28 :: uint)"
abbreviation "TF_EIP \<equiv> (56 :: uint)"
abbreviation "TF_CS \<equiv> (60 :: uint)"
abbreviation "TF_ESP \<equiv> (68 :: uint)"
abbreviation "CTX_SIZE \<equiv> (20 :: uint)"
abbreviation "CTX_EIP \<equiv> (16 :: uint)"

abbreviation SIG_NONE :: uint where "SIG_NONE \<equiv> 0xffffffff"

definition upd_proc :: "nat \<Rightarrow> (proc \<Rightarrow> proc) \<Rightarrow> 'a ptable_scheme \<Rightarrow> 'a ptable_scheme" where
  "upd_proc i f s = s\<lparr>procs := (procs s)[i := f (procs s ! i)]\<rparr>"

definition pt_acquire :: "'a ptable_scheme \<Rightarrow> 'a ptable_scheme kres" where
  "pt_acquire s = kbind (lock_acquire (ptlock s)) (\<lambda>h. Ret (s\<lparr>ptlock := h\<rparr>))"

definition pt_release :: "'a ptable_scheme \<Rightarrow> 'a ptable_scheme kres" where
  "pt_release s = kbind (lock_release (ptlock s)) (\<lambda>h. Ret (s\<lparr>ptlock := h\<rparr>))"

subsection \<open>Allocation of a slot\<close>

text \<open>
  \<^verbatim>\<open>allocproc\<close> up to its first \<^verbatim>\<open>release\<close>: find an unused slot and name it.
\<close>

definition alloc_slot :: "'a ptable_scheme \<Rightarrow> (nat option \<times> 'a ptable_scheme) kres" where
  "alloc_slot s =
     kbind (pt_acquire s) (\<lambda>s.
       case first_index (\<lambda>p. pstate p = UNUSED) (procs s) of
         None \<Rightarrow> kbind (pt_release s) (\<lambda>s. Ret (None, s))
       | Some i \<Rightarrow>
           let s = upd_proc i (\<lambda>p. p\<lparr>pstate := EMBRYO, pid := nextpid s\<rparr>) s
           in kbind (pt_release (s\<lparr>nextpid := nextpid s + 1\<rparr>)) (\<lambda>s. Ret (Some i, s)))"

text \<open>
  The whole of \<^verbatim>\<open>allocproc\<close>. \<open>trapret\<close> and \<open>forkret\<close> are the addresses of the assembly
  and C entry points that a new process starts from.
\<close>

definition allocproc :: "uint \<Rightarrow> uint \<Rightarrow> 'a ptable_scheme \<Rightarrow> (nat option \<times> 'a ptable_scheme) kres" where
  "allocproc trapret forkret s =
     kbind (alloc_slot s) (\<lambda>(slot, s).
       case slot of
         None \<Rightarrow> Ret (None, s)
       | Some i \<Rightarrow>
           kbind (kalloc (kmem s)) (\<lambda>(k, km).
             let s = upd_proc i (\<lambda>p. p\<lparr>kstack := k\<rparr>) (s\<lparr>kmem := km\<rparr>)
             in if k = 0 then Ret (None, upd_proc i (\<lambda>p. p\<lparr>pstate := UNUSED\<rparr>) s)
                else
                  let sp = k + KSTACKSIZE - TF_SIZE;
                      s = upd_proc i (\<lambda>p. p\<lparr>tf := sp\<rparr>) s;
                      sp = sp - 4;
                      m = store32 (kmem_mem km) sp trapret;
                      sp = sp - CTX_SIZE;
                      m = memset m sp 0 CTX_SIZE;
                      m = store32 m (sp + CTX_EIP) forkret;
                      s = upd_proc i (\<lambda>p. p\<lparr>pcontext := sp, dis_sig := 0, handler := SIG_NONE\<rparr>) s
                  in Ret (Some i, s\<lparr>kmem := km\<lparr>kmem_mem := m\<rparr>\<rparr>)))"

subsection \<open>Sleeping, waking and killing\<close>

definition wakeup1 :: "chan \<Rightarrow> 'a ptable_scheme \<Rightarrow> 'a ptable_scheme" where
  "wakeup1 c s = s\<lparr>procs := map (\<lambda>p. if pstate p = SLEEPING \<and> pchan p = c
                                     then p\<lparr>pstate := RUNNABLE\<rparr> else p) (procs s)\<rparr>"

definition wakeup :: "chan \<Rightarrow> 'a ptable_scheme \<Rightarrow> 'a ptable_scheme kres" where
  "wakeup c s = kbind (pt_acquire s) (\<lambda>s. pt_release (wakeup1 c s))"

text \<open>
  The checks of \<^verbatim>\<open>sched\<close> before it switches: \<open>n\<close> is \<^verbatim>\<open>mycpu()->ncli\<close> and \<open>fl\<close> the interrupt
  flag.
\<close>

definition sched_checks :: "nat \<Rightarrow> int \<Rightarrow> bool \<Rightarrow> 'a ptable_scheme \<Rightarrow> unit kres" where
  "sched_checks i n fl s =
     (if \<not> ptlock s then Panic ''sched ptable.lock''
      else if n \<noteq> 1 then Panic ''sched locks''
      else if pstate (procs s ! i) = RUNNING then Panic ''sched running''
      else if fl then Panic ''sched interruptible''
      else Ret ())"

definition sleep_mark :: "nat \<Rightarrow> chan \<Rightarrow> 'a ptable_scheme \<Rightarrow> 'a ptable_scheme" where
  "sleep_mark i c s = upd_proc i (\<lambda>p. p\<lparr>pchan := c, pstate := SLEEPING\<rparr>) s"

text \<open>
  \<^verbatim>\<open>sleep(chan, lk)\<close> up to the switch away: \<open>lk\<close> is the lock argument, \<open>None\<close> when it is
  \<^verbatim>\<open>&ptable.lock\<close> itself and otherwise whether the caller holds it. The result has the new
  state of that lock. The only spin lock left is \<^verbatim>\<open>ptable.lock\<close>, so \<^verbatim>\<open>sched\<close> runs at
  nesting depth 1 with interrupts off. The process then waits for a \<^verbatim>\<open>wakeup\<close> on its channel.
\<close>

definition sleep_enter :: "nat option \<Rightarrow> chan \<Rightarrow> bool option \<Rightarrow> 'a ptable_scheme \<Rightarrow>
    (bool option \<times> 'a ptable_scheme) kres" where
  "sleep_enter cur c lk s =
     (case cur of
        None \<Rightarrow> Panic ''sleep''
      | Some i \<Rightarrow>
          kbind (case lk of
                   None \<Rightarrow> Ret (None, s)
                 | Some h \<Rightarrow> kbind (pt_acquire s) (\<lambda>s. kbind (lock_release h) (\<lambda>h. Ret (Some h, s))))
            (\<lambda>(lk, s). let s = sleep_mark i c s
                       in kbind (sched_checks i 1 False s) (\<lambda>_. Ret (lk, s))))"

text \<open>The rest of \<^verbatim>\<open>sleep\<close>, after the scheduler has switched back to the process.\<close>

definition sleep_exit :: "nat \<Rightarrow> bool option \<Rightarrow> 'a ptable_scheme \<Rightarrow> (bool option \<times> 'a ptable_scheme) kres" where
  "sleep_exit i lk s =
     (let s = upd_proc i (\<lambda>p. p\<lparr>pchan := ChNull\<rparr>) s
      in case lk of
           None \<Rightarrow> Ret (None, s)
         | Some h \<Rightarrow> kbind (pt_release s) (\<lambda>s. kbind (lock_acquire h) (\<lambda>h. Ret (Some h, s))))"

definition kill :: "cint \<Rightarrow> 'a ptable_scheme \<Rightarrow> (int \<times> 'a ptable_scheme) kres" where
  "kill n s =
     kbind (pt_acquire s) (\<lambda>s.
       case first_index (\<lambda>p. pid p = n) (procs s) of
         Some i \<Rightarrow>
           let s = upd_proc i (\<lambda>p. p\<lparr>killed := True\<rparr>) s;
               s = (if pstate (procs s ! i) = SLEEPING
                    then upd_proc i (\<lambda>p. p\<lparr>pstate := RUNNABLE\<rparr>) s else s)
           in kbind (pt_release s) (\<lambda>s. Ret (0, s))
       | None \<Rightarrow> kbind (pt_release s) (\<lambda>s. Ret (-1, s)))"

text \<open>\<^verbatim>\<open>yield\<close> up to the switch: the process gives up the processor and stays runnable.\<close>

definition yield_enter :: "nat \<Rightarrow> 'a ptable_scheme \<Rightarrow> 'a ptable_scheme kres" where
  "yield_enter i s =
     kbind (pt_acquire s) (\<lambda>s.
       let s = upd_proc i (\<lambda>p. p\<lparr>pstate := RUNNABLE\<rparr>) s
       in kbind (sched_checks i 1 False s) (\<lambda>_. Ret s))"

subsection \<open>Listing\<close>

text \<open>The listing of \<^verbatim>\<open>list_running\<close>: what it prints, as pairs of pid and name.\<close>

definition list_running :: "'a ptable_scheme \<Rightarrow> ((cint \<times> uchar list) list \<times> 'a ptable_scheme) kres" where
  "list_running s =
     kbind (pt_acquire s) (\<lambda>s.
       let out = map (\<lambda>p. (pid p, pname p)) (filter (\<lambda>p. pstate p \<noteq> UNUSED) (procs s))
       in kbind (pt_release s) (\<lambda>s. Ret (out, s)))"

subsection \<open>Invariant\<close>

text \<open>
  The table has its \<^verbatim>\<open>NPROC\<close> slots and every array in a slot has its size; pids are below
  \<^verbatim>\<open>nextpid\<close>, no two slots have the same pid other than 0, and a slot in use has one.
\<close>

definition proc_wf :: "proc \<Rightarrow> bool" where
  "proc_wf p \<longleftrightarrow> length (ofile p) = NOFILE \<and> length (pname p) = 16 \<and> length (message p) = MSGSIZE"

definition pids_ok :: "cint \<Rightarrow> proc list \<Rightarrow> bool" where
  "pids_ok n ps \<longleftrightarrow>
     (\<forall>i<length ps. pid (ps ! i) < n \<and> (pstate (ps ! i) \<noteq> UNUSED \<longrightarrow> pid (ps ! i) \<noteq> 0)) \<and>
     (\<forall>i<length ps. \<forall>j<length ps. i \<noteq> j \<longrightarrow> pid (ps ! i) \<noteq> 0 \<longrightarrow> pid (ps ! i) \<noteq> pid (ps ! j))"

definition pt_inv :: "'a ptable_scheme \<Rightarrow> bool" where
  "pt_inv s \<longleftrightarrow> length (procs s) = NPROC \<and> (\<forall>p\<in>set (procs s). proc_wf p) \<and>
     0 < nextpid s \<and> pids_ok (nextpid s) (procs s)"

named_theorems pt_simps \<open>unfolding of the operations on the process table\<close>

lemma pt_lock_simps [pt_simps]:
  "\<not> ptlock s \<Longrightarrow> pt_acquire s = Ret (s\<lparr>ptlock := True\<rparr>)"
  "ptlock s \<Longrightarrow> pt_acquire s = Panic ''acquire''"
  "ptlock s \<Longrightarrow> pt_release s = Ret (s\<lparr>ptlock := False\<rparr>)"
  "\<not> ptlock s \<Longrightarrow> pt_release s = Panic ''release''"
  by (simp_all add: pt_acquire_def pt_release_def)

lemma ptlock_same [pt_simps]: "\<not> ptlock s \<Longrightarrow> s\<lparr>ptlock := False\<rparr> = s"
  by (cases s) simp

lemma upd_proc_ptlock [pt_simps]: "upd_proc i f (s\<lparr>ptlock := b\<rparr>) = (upd_proc i f s)\<lparr>ptlock := b\<rparr>"
  by (simp add: upd_proc_def)

lemma upd_proc_simps [simp]:
  "procs (upd_proc i f s) = (procs s)[i := f (procs s ! i)]"
  "ptlock (upd_proc i f s) = ptlock s"
  "nextpid (upd_proc i f s) = nextpid s"
  "kmem (upd_proc i f s) = kmem s"
  "initproc (upd_proc i f s) = initproc s"
  "ptable.more (upd_proc i f s) = ptable.more s"
  by (simp_all add: upd_proc_def)

lemma wakeup1_simps [simp]:
  "ptlock (wakeup1 c s) = ptlock s" "nextpid (wakeup1 c s) = nextpid s"
  "kmem (wakeup1 c s) = kmem s" "initproc (wakeup1 c s) = initproc s"
  "length (procs (wakeup1 c s)) = length (procs s)"
  "ptable.more (wakeup1 c s) = ptable.more s"
  by (simp_all add: wakeup1_def)

lemma wakeup1_nth:
  "i < length (procs s) \<Longrightarrow> procs (wakeup1 c s) ! i =
     (if pstate (procs s ! i) = SLEEPING \<and> pchan (procs s ! i) = c
      then (procs s ! i)\<lparr>pstate := RUNNABLE\<rparr> else procs s ! i)"
  by (simp add: wakeup1_def)

lemma wakeup_eq: "\<not> ptlock s \<Longrightarrow> wakeup c s = Ret (wakeup1 c s)"
  by (cases s) (simp add: wakeup_def wakeup1_def pt_simps)

text \<open>Changing a slot without its pid or the fact that it is in use keeps the invariant.\<close>

lemma pids_ok_cong:
  assumes "pids_ok n ps" "length qs = length ps"
    "\<And>i. i < length ps \<Longrightarrow> pid (qs ! i) = pid (ps ! i) \<and> (pstate (qs ! i) \<noteq> UNUSED \<longrightarrow> pstate (ps ! i) \<noteq> UNUSED)"
  shows "pids_ok n qs"
  using assms unfolding pids_ok_def by (metis (no_types, opaque_lifting))

lemma pids_ok_update:
  assumes "pids_ok n ps" "pid q = pid (ps ! i)" "pstate q \<noteq> UNUSED \<longrightarrow> pstate (ps ! i) \<noteq> UNUSED"
  shows "pids_ok n (ps[i := q])"
  using assms(1)
proof (rule pids_ok_cong)
  fix j assume "j < length ps"
  then show "pid (ps[i := q] ! j) = pid (ps ! j) \<and> (pstate (ps[i := q] ! j) \<noteq> UNUSED \<longrightarrow> pstate (ps ! j) \<noteq> UNUSED)"
    using assms(2,3) by (cases "i = j") auto
qed simp

lemma pt_inv_upd:
  assumes "pt_inv s" "pid (f (procs s ! i)) = pid (procs s ! i)"
    "pstate (f (procs s ! i)) \<noteq> UNUSED \<longrightarrow> pstate (procs s ! i) \<noteq> UNUSED"
    "proc_wf (procs s ! i) \<Longrightarrow> proc_wf (f (procs s ! i))"
  shows "pt_inv (upd_proc i f s)"
proof (cases "i < length (procs s)")
  case True
  then show ?thesis
    using assms pids_ok_update [of "nextpid s" "procs s" "f (procs s ! i)" i] set_update_subset_insert [of "procs s" i]
    by (auto simp: pt_inv_def)
next
  case False
  then show ?thesis using assms(1) by (simp add: pt_inv_def list_update_beyond)
qed

lemma pt_inv_wakeup1: "pt_inv s \<Longrightarrow> pt_inv (wakeup1 c s)"
  unfolding pt_inv_def
  by (auto intro!: pids_ok_cong [of _ "procs s"] simp: wakeup1_nth)
    (auto simp: wakeup1_def proc_wf_def)

lemma pt_inv_lock [simp]: "pt_inv (s\<lparr>ptlock := b\<rparr>) = pt_inv s"
  by (simp add: pt_inv_def)

lemma pt_inv_kmem [simp]: "pt_inv (s\<lparr>kmem := k\<rparr>) = pt_inv s"
  by (simp add: pt_inv_def)

subsection \<open>What the operations do\<close>

lemma pids_ok_new:
  assumes "pids_ok n ps" "0 < n" "n < n + 1" "pid q = n"
  shows "pids_ok (n + 1) (ps[i := q])"
proof -
  have lt: "x < n + 1" if "x < n" for x using that assms(3) by (rule less_trans)
  have new: "ps[i := q] ! j = (if i = j then q else ps ! j)" if "j < length ps" for j
    using that by auto
  show ?thesis
    using assms lt unfolding pids_ok_def length_list_update
    by (auto simp: new)
qed

lemma alloc_slot_cases:
  assumes "\<not> ptlock s"
  obtains (full) "\<forall>p\<in>set (procs s). pstate p \<noteq> UNUSED" "alloc_slot s = Ret (None, s)"
  | (found) i where "i < length (procs s)" "pstate (procs s ! i) = UNUSED"
      "\<forall>j<i. pstate (procs s ! j) \<noteq> UNUSED"
      "alloc_slot s = Ret (Some i, (upd_proc i (\<lambda>p. p\<lparr>pstate := EMBRYO, pid := nextpid s\<rparr>) s)\<lparr>nextpid := nextpid s + 1\<rparr>)"
proof (cases "first_index (\<lambda>p. pstate p = UNUSED) (procs s)")
  case None
  then have "alloc_slot s = Ret (None, s)"
    using assms by (simp add: alloc_slot_def pt_simps)
  with None full show ?thesis by (simp add: first_index_None)
next
  case (Some i)
  then have "alloc_slot s =
      Ret (Some i, (upd_proc i (\<lambda>p. p\<lparr>pstate := EMBRYO, pid := nextpid s\<rparr>) s)\<lparr>nextpid := nextpid s + 1\<rparr>)"
    using assms by (simp add: alloc_slot_def pt_simps Let_def upd_proc_def)
  with Some found [of i] show ?thesis by (simp add: first_index_Some)
qed

text \<open>A slot that is set up is in use under the fresh pid; a full table or memory gives none.\<close>

lemma alloc_slot_inv:
  assumes "pt_inv s" "\<not> ptlock s" "nextpid s < nextpid s + 1" "alloc_slot s = Ret (r, s')"
  shows "pt_inv s' \<and> \<not> ptlock s' \<and> kmem s' = kmem s"
  using assms(2)
proof (cases rule: alloc_slot_cases)
  case full
  then show ?thesis using assms by simp
next
  case (found i)
  let ?q = "(procs s ! i)\<lparr>pstate := EMBRYO, pid := nextpid s\<rparr>"
  have s': "s' = (upd_proc i (\<lambda>p. p\<lparr>pstate := EMBRYO, pid := nextpid s\<rparr>) s)\<lparr>nextpid := nextpid s + 1\<rparr>"
    using found(4) assms(4) by simp
  have "pids_ok (nextpid s + 1) ((procs s)[i := ?q])"
    using assms(1,3) by (intro pids_ok_new) (auto simp: pt_inv_def)
  moreover have "0 < nextpid s + 1"
    using assms(1,3) by (auto simp: pt_inv_def)
  moreover have "proc_wf ?q"
    using assms(1) found(1) by (auto simp: pt_inv_def proc_wf_def)
  ultimately show ?thesis
    using assms(1,2) set_update_subset_insert [of "procs s" i ?q]
    unfolding s' by (auto simp: pt_inv_def)
qed

text \<open>The stack of a new process: a context that returns to \<open>forkret\<close>, then to \<open>trapret\<close>.\<close>

definition new_stack :: "uint \<Rightarrow> uint \<Rightarrow> uint \<Rightarrow> mem \<Rightarrow> mem" where
  "new_stack trapret forkret k m =
     store32 (memset (store32 m (k + 4016) trapret) (k + 3996) 0 CTX_SIZE) (k + 4012) forkret"

lemma new_stack_frames:
  "load32 (new_stack tr fr k m) (k + 4012) = fr"
  "load32 (new_stack tr fr k m) (k + 4016) = tr"
  "\<not> in_block k 4096 a \<Longrightarrow> new_stack tr fr k m a = m a"
proof -
  have "load32 (memset (store32 m (k + 4016) tr) (k + 3996) 0 CTX_SIZE) (k + 4016) =
      load32 (store32 m (k + 4016) tr) (k + 4016)"
  proof (rule load32_cong)
    fix b assume "in_block (k + 4016) 4 b"
    then have "\<not> in_block (k + 3996) 20 b" by (rule in_block_apart) simp_all
    then show "memset (store32 m (k + 4016) tr) (k + 3996) 0 CTX_SIZE b = store32 m (k + 4016) tr b"
      by (simp add: memset_eq)
  qed
  then show "load32 (new_stack tr fr k m) (k + 4016) = tr"
    by (simp add: new_stack_def load32_store32_apart)
  show "load32 (new_stack tr fr k m) (k + 4012) = fr"
    by (simp add: new_stack_def)
  assume a: "\<not> in_block k 4096 a"
  have "\<not> in_block (k + 4012) 4 a" "\<not> in_block (k + 3996) 20 a" "\<not> in_block (k + 4016) 4 a"
    using a in_block_inner [of k 4012 4 a 4096] in_block_inner [of k 3996 20 a 4096]
      in_block_inner [of k 4016 4 a 4096] by auto
  then show "new_stack tr fr k m a = m a"
    by (simp add: new_stack_def store32_other memset_eq)
qed

lemma allocproc_found:
  assumes "alloc_slot s = Ret (Some i, t)" "kalloc (kmem t) = Ret (k, km)"
  shows "allocproc tr fr s =
    (if k = 0 then Ret (None, (upd_proc i (\<lambda>p. p\<lparr>kstack := 0, pstate := UNUSED\<rparr>) t)\<lparr>kmem := km\<rparr>)
     else Ret (Some i, (upd_proc i (\<lambda>p. p\<lparr>kstack := k, tf := k + 4020, pcontext := k + 3996,
            dis_sig := 0, handler := SIG_NONE\<rparr>) t)\<lparr>kmem := km\<lparr>kmem_mem := new_stack tr fr k (kmem_mem km)\<rparr>\<rparr>))"
  using assms
  by (cases "i < length (procs t)")
    (simp_all add: allocproc_def Let_def upd_proc_def new_stack_def list_update_beyond add.commute [of k])

lemma allocproc_full:
  "alloc_slot s = Ret (None, t) \<Longrightarrow> allocproc tr fr s = Ret (None, t)"
  by (simp add: allocproc_def)

text \<open>
  C28. \<^verbatim>\<open>allocproc\<close> always returns, keeps the table invariant and frees the lock. It gives a slot
  exactly when one is unused and a page is free: the new process is an embryo under the next
  pid, its stack is the first free page, which leaves the free list, its trap frame is at the
  top of that page, and its saved context resumes in \<^verbatim>\<open>forkret\<close> and returns to \<^verbatim>\<open>trapret\<close>.
  A failed call leaves every slot in the state it had.
\<close>

theorem allocproc_correct:
  assumes "pt_inv s" "\<not> ptlock s" "nextpid s < nextpid s + 1" "kmem_inv kend (kmem s) ps"
  shows "\<exists>r s'. allocproc tr fr s = Ret (r, s') \<and> pt_inv s' \<and> \<not> ptlock s' \<and>
    (case r of
       None \<Rightarrow> ((\<forall>p\<in>set (procs s). pstate p \<noteq> UNUSED) \<or> ps = []) \<and>
         map pstate (procs s') = map pstate (procs s) \<and> kmem_inv kend (kmem s') ps
     | Some i \<Rightarrow> i < NPROC \<and> pstate (procs s ! i) = UNUSED \<and> ps \<noteq> [] \<and>
         pstate (procs s' ! i) = EMBRYO \<and> pid (procs s' ! i) = nextpid s \<and>
         kstack (procs s' ! i) = hd ps \<and> kmem_inv kend (kmem s') (tl ps) \<and>
         tf (procs s' ! i) + TF_SIZE = kstack (procs s' ! i) + KSTACKSIZE \<and>
         load32 (kmem_mem (kmem s')) (pcontext (procs s' ! i) + CTX_EIP) = fr \<and>
         load32 (kmem_mem (kmem s')) (pcontext (procs s' ! i) + CTX_SIZE) = tr \<and>
         (\<forall>j. j \<noteq> i \<longrightarrow> procs s' ! j = procs s ! j))"
  using assms(2)
proof (cases rule: alloc_slot_cases)
  case full
  then show ?thesis using assms by (auto simp: allocproc_full)
next
  case (found i)
  let ?t = "(upd_proc i (\<lambda>p. p\<lparr>pstate := EMBRYO, pid := nextpid s\<rparr>) s)\<lparr>nextpid := nextpid s + 1\<rparr>"
  have t: "pt_inv ?t" "\<not> ptlock ?t" "kmem ?t = kmem s"
    using alloc_slot_inv [OF assms(1,2,3) found(4)] by simp_all
  have i: "i < NPROC" using found(1) assms(1) by (simp add: pt_inv_def)
  show ?thesis
  proof (cases ps)
    case Nil
    have "kalloc (kmem ?t) = Ret (0, kmem s)" using kalloc_Nil assms(4) Nil by simp
    note al = allocproc_found [OF found(4) this, of tr fr]
    have "pt_inv (upd_proc i (\<lambda>p. p\<lparr>kstack := 0, pstate := UNUSED\<rparr>) ?t)"
      using t(1) by (rule pt_inv_upd) (simp_all add: proc_wf_def)
    with al found t(2) assms(4) Nil show ?thesis
      by (auto simp: map_update list_update_same_conv)
  next
    case (Cons k qs)
    then obtain km where km: "kalloc (kmem ?t) = Ret (k, km)" "kmem_inv kend km qs"
      using kalloc_Cons [of kend "kmem s" k qs] assms(4) by auto
    have k: "page_ok kend k" "k \<notin> set qs" "k \<noteq> 0"
      using assms(4) Cons by (auto simp: kmem_inv_def page_nonzero)
    note al = allocproc_found [OF found(4) km(1), of tr fr]
    have inv: "pt_inv (upd_proc i (\<lambda>p. p\<lparr>kstack := k, tf := k + 4020, pcontext := k + 3996,
        dis_sig := 0, handler := SIG_NONE\<rparr>) ?t)"
      using t(1) by (rule pt_inv_upd) (simp_all add: proc_wf_def)
    have km': "kmem_inv kend (km\<lparr>kmem_mem := new_stack tr fr k (kmem_mem km)\<rparr>) qs"
      using km(2) k(1,2) by (rule kmem_inv_write) (rule new_stack_frames(3))
    from al inv km' found t(2) k(3) i Cons new_stack_frames(1,2) [where k = k] show ?thesis
      by (simp add: add.commute [of _ k])
  qed
qed

definition empty_proc :: proc where
  "empty_proc = \<lparr>sz = 0, pgdir = 0, kstack = 0, pstate = UNUSED, pid = 0, parent = None, tf = 0,
     pcontext = 0, pchan = ChNull, killed = False, ofile = replicate NOFILE None, cwd = None,
     pname = replicate 16 0, handler = 0, dis_sig = 0, prev_tf = 0, intr = 0,
     message = replicate MSGSIZE 0\<rparr>"

text \<open>The process table as the linker leaves it, with two free pages.\<close>

definition boot_table :: ptable where
  "boot_table = \<lparr>ptlock = False, procs = replicate NPROC empty_proc, initproc = None, nextpid = 1,
     kmem = two_pages\<rparr>"

lemma boot_table_inv: "pt_inv boot_table" "\<not> ptlock boot_table" "kmem boot_table = two_pages"
  "nextpid boot_table = 1"
  by (simp_all add: boot_table_def pt_inv_def pids_ok_def empty_proc_def proc_wf_def)

theorem allocproc_correct_witness:
  "\<exists>i s'. allocproc 5 6 boot_table = Ret (Some i, s') \<and> kstack (procs s' ! i) = 0x80400000 \<and>
     kmem_inv 0x80115000 (kmem s') [0x80401000]"
proof -
  have "pstate (procs boot_table ! 0) = UNUSED" "procs boot_table ! 0 \<in> set (procs boot_table)"
    by (simp_all add: boot_table_def empty_proc_def)
  then have "\<exists>p\<in>set (procs boot_table). pstate p = UNUSED" by blast
  then show ?thesis
    using allocproc_correct [of boot_table "0x80115000" "[0x80400000, 0x80401000]" 5 6] two_pages_inv
    by (auto simp: boot_table_inv split: option.splits)
qed

subsection \<open>Killing a process\<close>

lemma pid_unique:
  "pt_inv s \<Longrightarrow> i < NPROC \<Longrightarrow> j < NPROC \<Longrightarrow> i \<noteq> j \<Longrightarrow> pid (procs s ! i) \<noteq> 0 \<Longrightarrow>
    pid (procs s ! i) \<noteq> pid (procs s ! j)"
  by (simp add: pt_inv_def pids_ok_def)

lemma kill_found:
  assumes "pt_inv s" "\<not> ptlock s" "i < NPROC" "pid (procs s ! i) = n" "n \<noteq> 0 \<or> (\<forall>j<i. pid (procs s ! j) \<noteq> 0)"
  shows "kill n s = Ret (0, upd_proc i (\<lambda>p. p\<lparr>killed := True,
    pstate := if pstate p = SLEEPING then RUNNABLE else pstate p\<rparr>) s)"
proof -
  have "pid (procs s ! i) \<noteq> pid (procs s ! j)" if "j < i" for j
  proof (cases "n = 0")
    case False
    then show ?thesis
      using pid_unique [OF assms(1), of i j] assms(3,4) that by simp
  qed (use assms that in auto)
  then have "first_index (\<lambda>p. pid p = n) (procs s) = Some i"
    using assms(1,3,4) unfolding first_index_Some pt_inv_def by metis
  moreover have "i < length (procs s)" using assms by (simp add: pt_inv_def)
  ultimately show ?thesis
    using assms(2) by (simp add: kill_def pt_simps Let_def upd_proc_def)
qed

text \<open>
  C33. \<^verbatim>\<open>kill(pid)\<close> for the pid of a process marks that process, and only it, as killed, and
  makes it runnable when it sleeps, so that it reaches the check on its way to user space.
  A pid that no slot has gives -1 and changes nothing.
\<close>

theorem kill_correct:
  assumes "pt_inv s" "\<not> ptlock s"
  shows "(\<forall>i<NPROC. pstate (procs s ! i) \<noteq> UNUSED \<longrightarrow>
      kill (pid (procs s ! i)) s = Ret (0, upd_proc i (\<lambda>p. p\<lparr>killed := True,
        pstate := if pstate p = SLEEPING then RUNNABLE else pstate p\<rparr>) s)) \<and>
    (\<forall>n. n \<notin> pid ` set (procs s) \<longrightarrow> kill n s = Ret (-1, s))"
proof (intro conjI allI impI)
  fix i assume i: "i < NPROC" "pstate (procs s ! i) \<noteq> UNUSED"
  then have "pid (procs s ! i) \<noteq> 0"
    using assms(1) by (auto simp: pt_inv_def pids_ok_def)
  then show "kill (pid (procs s ! i)) s = Ret (0, upd_proc i (\<lambda>p. p\<lparr>killed := True,
        pstate := if pstate p = SLEEPING then RUNNABLE else pstate p\<rparr>) s)"
    using assms i(1) by (intro kill_found) simp_all
next
  fix n assume "n \<notin> pid ` set (procs s)"
  then have "first_index (\<lambda>p. pid p = n) (procs s) = None"
    by (auto simp: first_index_None)
  then show "kill n s = Ret (-1, s)"
    using assms(2) by (simp add: kill_def pt_simps)
qed

text \<open>A table in which process 1 sleeps in slot 0 until the clock ticks.\<close>

definition sleeper :: proc where
  "sleeper = empty_proc\<lparr>pstate := SLEEPING, pid := 1, pchan := ChTicks\<rparr>"

definition sleeper_table :: ptable where
  "sleeper_table = boot_table\<lparr>procs := sleeper # replicate 63 empty_proc, nextpid := 2\<rparr>"

lemma sleeper_table_inv: "pt_inv sleeper_table" "\<not> ptlock sleeper_table" "procs sleeper_table ! 0 = sleeper"
  by (auto simp: sleeper_table_def boot_table_def pt_inv_def pids_ok_def sleeper_def empty_proc_def
      proc_wf_def nth_Cons split: nat.splits)

theorem kill_correct_witness:
  "kill 1 sleeper_table = Ret (0, upd_proc 0 (\<lambda>p. p\<lparr>killed := True, pstate := RUNNABLE\<rparr>) sleeper_table) \<and>
   kill 3 sleeper_table = Ret (-1, sleeper_table)"
proof -
  have "3 \<notin> pid ` set (procs sleeper_table)"
    by (auto simp: sleeper_table_def sleeper_def empty_proc_def)
  moreover have "pstate sleeper = SLEEPING" "pid sleeper = 1" by (simp_all add: sleeper_def)
  ultimately show ?thesis
    using kill_correct [of sleeper_table] sleeper_table_inv
    by (auto simp: upd_proc_def dest!: spec [of _ 0])
qed

text \<open>
  \<^verbatim>\<open>kill(0)\<close> is not rejected: it finds the first unused slot that carries pid 0, marks it as
  killed and reports success. \<^verbatim>\<open>allocproc\<close> hands out that slot next without clearing the mark,
  so the next child starts its life killed.
\<close>

theorem kill_zero_marks_next_process:
  assumes "pt_inv s" "\<not> ptlock s" "kmem_inv kend (kmem s) (k # ps)"
    "i < NPROC" "pstate (procs s ! i) = UNUSED" "pid (procs s ! i) = 0"
    "\<forall>j<i. pstate (procs s ! j) \<noteq> UNUSED"
  shows "\<exists>s' s''. kill 0 s = Ret (0, s') \<and> allocproc tr fr s' = Ret (Some i, s'') \<and>
    killed (procs s'' ! i) \<and> pid (procs s'' ! i) = nextpid s"
proof -
  let ?s = "upd_proc i (\<lambda>p. p\<lparr>killed := True, pstate := if pstate p = SLEEPING then RUNNABLE else pstate p\<rparr>) s"
  have len: "length (procs s) = NPROC" using assms(1) by (simp add: pt_inv_def)
  have "\<forall>j<i. pid (procs s ! j) \<noteq> 0"
    using assms(1,4,7) by (auto simp: pt_inv_def pids_ok_def)
  then have kill: "kill 0 s = Ret (0, ?s)"
    using assms by (intro kill_found) simp_all
  let ?t = "(upd_proc i (\<lambda>p. p\<lparr>pstate := EMBRYO, pid := nextpid s\<rparr>) ?s)\<lparr>nextpid := nextpid s + 1\<rparr>"
  have "first_index (\<lambda>p. pstate p = UNUSED) (procs ?s) = Some i"
    using assms(4,5,7) len by (simp add: first_index_Some)
  then have slot: "alloc_slot ?s = Ret (Some i, ?t)"
    using assms(2) len assms(4) by (simp add: alloc_slot_def pt_simps Let_def upd_proc_def)
  obtain km where km: "kalloc (kmem ?t) = Ret (k, km)"
    using kalloc_Cons [OF assms(3)] by auto
  moreover have "k \<noteq> 0"
    using assms(3) by (auto simp: kmem_inv_def page_nonzero)
  ultimately show ?thesis
    using kill allocproc_found [OF slot km, of tr fr] len assms(4) by simp
qed

theorem kill_zero_marks_next_process_witness:
  "\<exists>s' s''. kill 0 boot_table = Ret (0, s') \<and> allocproc 5 6 s' = Ret (Some 0, s'') \<and>
     killed (procs s'' ! 0) \<and> pid (procs s'' ! 0) = 1"
  using kill_zero_marks_next_process [of boot_table "0x80115000" "0x80400000" "[0x80401000]" 0 5 6]
    two_pages_inv by (simp add: boot_table_inv) (simp add: boot_table_def empty_proc_def)

end
