(* ===== verification/Sleep.thy ===== *)
theory Sleep
  imports ProcTable
begin

text \<open>
  Why \<^verbatim>\<open>sleep\<close> and \<^verbatim>\<open>wakeup\<close> of \<^verbatim>\<open>src/xv6A1/proc.c\<close> lose no wakeup. Any number of processes
  follow the two idioms of the kernel: a waiter runs
  \<^verbatim>\<open>acquire(lk); while(!cond) sleep(chan, lk); ... release(lk)\<close> and a waker runs
  \<^verbatim>\<open>acquire(lk); cond = 1; wakeup(chan); release(lk)\<close>. Each acquisition and release of a lock
  and each access to the table is a step of its own, and the steps interleave freely.
\<close>

subsection \<open>Positions of a process in the code\<close>

datatype pos =
    Outside     \<comment> \<open>holds neither lock\<close>
  | InSection   \<comment> \<open>holds \<^verbatim>\<open>lk\<close>\<close>
  | Sleep1      \<comment> \<open>in \<^verbatim>\<open>sleep\<close>, holds \<^verbatim>\<open>lk\<close> and \<^verbatim>\<open>ptable.lock\<close>\<close>
  | Sleep2      \<comment> \<open>in \<^verbatim>\<open>sleep\<close>, has released \<^verbatim>\<open>lk\<close>\<close>
  | Switched    \<comment> \<open>in \<^verbatim>\<open>sched\<close>, switched away from\<close>
  | Resumed     \<comment> \<open>switched back to, holds \<^verbatim>\<open>ptable.lock\<close>\<close>
  | Reacquire   \<comment> \<open>at the last \<^verbatim>\<open>acquire(lk)\<close> of \<^verbatim>\<open>sleep\<close>\<close>
  | Wake1       \<comment> \<open>has made the condition true, before \<^verbatim>\<open>wakeup\<close>\<close>
  | Wake2       \<comment> \<open>in \<^verbatim>\<open>wakeup\<close>, holds both locks\<close>
  | Wake3       \<comment> \<open>in \<^verbatim>\<open>wakeup\<close>, after \<^verbatim>\<open>wakeup1\<close>\<close>

record sw =
  sw_lk :: "nat option"
  sw_pt :: "nat option"
  sw_cond :: bool
  sw_tab :: ptable
  sw_pos :: "nat \<Rightarrow> pos"

definition go :: "nat \<Rightarrow> pos \<Rightarrow> sw \<Rightarrow> sw" where
  "go i q s = s\<lparr>sw_pos := (sw_pos s)(i := q)\<rparr>"

definition pst :: "sw \<Rightarrow> nat \<Rightarrow> procstate" where
  "pst s i = pstate (procs (sw_tab s) ! i)"

inductive sw_step :: "chan \<Rightarrow> sw \<Rightarrow> sw \<Rightarrow> bool" for c where
  enter: "sw_pos s i = Outside \<Longrightarrow> sw_lk s = None \<Longrightarrow>
    sw_step c s (go i InSection (s\<lparr>sw_lk := Some i\<rparr>))"
| leave: "sw_pos s i = InSection \<Longrightarrow> sw_step c s (go i Outside (s\<lparr>sw_lk := None\<rparr>))"
| consume: "sw_pos s i = InSection \<Longrightarrow> sw_step c s (s\<lparr>sw_cond := False\<rparr>)"
| sleep_acquire: "sw_pos s i = InSection \<Longrightarrow> \<not> sw_cond s \<Longrightarrow> sw_pt s = None \<Longrightarrow>
    sw_step c s (go i Sleep1 (s\<lparr>sw_pt := Some i\<rparr>))"
| sleep_release: "sw_pos s i = Sleep1 \<Longrightarrow> sw_step c s (go i Sleep2 (s\<lparr>sw_lk := None\<rparr>))"
| sleep_switch: "sw_pos s i = Sleep2 \<Longrightarrow> i < length (procs (sw_tab s)) \<Longrightarrow>
    sw_step c s (go i Switched (s\<lparr>sw_tab := sleep_mark i c (sw_tab s), sw_pt := None\<rparr>))"
| resume: "sw_pos s i = Switched \<Longrightarrow> pst s i = RUNNABLE \<Longrightarrow> sw_pt s = None \<Longrightarrow>
    sw_step c s (go i Resumed (s\<lparr>sw_tab := upd_proc i (\<lambda>p. p\<lparr>pstate := RUNNING\<rparr>) (sw_tab s), sw_pt := Some i\<rparr>))"
| sleep_tidy: "sw_pos s i = Resumed \<Longrightarrow>
    sw_step c s (go i Reacquire (s\<lparr>sw_tab := upd_proc i (\<lambda>p. p\<lparr>pchan := ChNull\<rparr>) (sw_tab s), sw_pt := None\<rparr>))"
| sleep_reacquire: "sw_pos s i = Reacquire \<Longrightarrow> sw_lk s = None \<Longrightarrow>
    sw_step c s (go i InSection (s\<lparr>sw_lk := Some i\<rparr>))"
| set_cond: "sw_pos s i = InSection \<Longrightarrow> sw_step c s (go i Wake1 (s\<lparr>sw_cond := True\<rparr>))"
| wakeup_acquire: "sw_pos s i = Wake1 \<Longrightarrow> sw_pt s = None \<Longrightarrow>
    sw_step c s (go i Wake2 (s\<lparr>sw_pt := Some i\<rparr>))"
| wakeup_wakeup1: "sw_pos s i = Wake2 \<Longrightarrow>
    sw_step c s (go i Wake3 (s\<lparr>sw_tab := wakeup1 c (sw_tab s)\<rparr>))"
| wakeup_release: "sw_pos s i = Wake3 \<Longrightarrow>
    sw_step c s (go i InSection (s\<lparr>sw_pt := None\<rparr>))"
| kill_any: "sw_pt s = None \<Longrightarrow> kill n (sw_tab s) = Ret (r, t) \<Longrightarrow>
    sw_step c s (s\<lparr>sw_tab := t\<rparr>)"

inductive sw_reach :: "chan \<Rightarrow> sw \<Rightarrow> sw \<Rightarrow> bool" for c s where
  sw_refl: "sw_reach c s s"
| sw_trans: "sw_reach c s t \<Longrightarrow> sw_step c t u \<Longrightarrow> sw_reach c s u"

subsection \<open>Invariants\<close>

primrec has_lk :: "pos \<Rightarrow> bool" where
  "has_lk Outside = False" | "has_lk InSection = True" | "has_lk Sleep1 = True" | "has_lk Sleep2 = False"
| "has_lk Switched = False" | "has_lk Resumed = False" | "has_lk Reacquire = False"
| "has_lk Wake1 = True" | "has_lk Wake2 = True" | "has_lk Wake3 = True"

primrec has_pt :: "pos \<Rightarrow> bool" where
  "has_pt Outside = False" | "has_pt InSection = False" | "has_pt Sleep1 = True" | "has_pt Sleep2 = True"
| "has_pt Switched = False" | "has_pt Resumed = True" | "has_pt Reacquire = False"
| "has_pt Wake1 = False" | "has_pt Wake2 = True" | "has_pt Wake3 = True"

definition owner_ok :: "(pos \<Rightarrow> bool) \<Rightarrow> (nat \<Rightarrow> pos) \<Rightarrow> nat option \<Rightarrow> bool" where
  "owner_ok f p own \<longleftrightarrow> (\<forall>i. f (p i) \<longleftrightarrow> own = Some i)"

lemma owner_keep: "owner_ok f p own \<Longrightarrow> f q = f (p i) \<Longrightarrow> owner_ok f (p(i := q)) own"
  by (auto simp: owner_ok_def)

lemma owner_acquire: "owner_ok f p None \<Longrightarrow> f q \<Longrightarrow> owner_ok f (p(i := q)) (Some i)"
  by (auto simp: owner_ok_def)

lemma owner_release: "owner_ok f p own \<Longrightarrow> f (p i) \<Longrightarrow> \<not> f q \<Longrightarrow> owner_ok f (p(i := q)) None"
  by (fastforce simp: owner_ok_def)

lemma owner_unique: "owner_ok f p own \<Longrightarrow> f (p i) \<Longrightarrow> f (p j) \<Longrightarrow> i = j"
  by (simp add: owner_ok_def)

lemma owner_None: "owner_ok f p None \<Longrightarrow> \<not> f (p i)"
  by (simp add: owner_ok_def)

definition locks_inv :: "sw \<Rightarrow> bool" where
  "locks_inv s \<longleftrightarrow> owner_ok has_lk (sw_pos s) (sw_lk s) \<and> owner_ok has_pt (sw_pos s) (sw_pt s)"

lemma locks_inv_step:
  assumes "sw_step c s t" "locks_inv s"
  shows "locks_inv t"
  using assms
  by cases (auto simp: locks_inv_def go_def intro: owner_keep owner_acquire owner_release)

text \<open>
  A process that is about to sleep saw the condition false. A process that sleeps, or is past
  the release of \<^verbatim>\<open>lk\<close>, while the condition is true has a waker on its way.
\<close>

definition waking :: "sw \<Rightarrow> bool" where
  "waking s \<longleftrightarrow> (\<exists>j. sw_pos s j = Wake1 \<or> sw_pos s j = Wake2)"

definition asleep :: "sw \<Rightarrow> nat \<Rightarrow> bool" where
  "asleep s i \<longleftrightarrow> sw_pos s i = Switched \<and> i < length (procs (sw_tab s)) \<and> pst s i = SLEEPING"

definition at_risk :: "sw \<Rightarrow> nat \<Rightarrow> bool" where
  "at_risk s i \<longleftrightarrow> sw_pos s i = Sleep2 \<or> asleep s i"

definition sleep_inv :: "chan \<Rightarrow> sw \<Rightarrow> bool" where
  "sleep_inv c s \<longleftrightarrow> (\<forall>i. sw_pos s i = Sleep1 \<longrightarrow> \<not> sw_cond s) \<and>
     (\<forall>i. asleep s i \<longrightarrow> pchan (procs (sw_tab s) ! i) = c) \<and>
     (\<forall>i. at_risk s i \<longrightarrow> sw_cond s \<longrightarrow> waking s)"

lemma go_simps [simp]:
  "sw_pos (go i q s) = (sw_pos s)(i := q)" "sw_lk (go i q s) = sw_lk s" "sw_pt (go i q s) = sw_pt s"
  "sw_cond (go i q s) = sw_cond s" "sw_tab (go i q s) = sw_tab s" "pst (go i q s) = pst s"
  by (simp_all add: go_def pst_def fun_eq_iff)

lemma waking_go: "waking s \<Longrightarrow> sw_pos s i \<notin> {Wake1, Wake2} \<Longrightarrow> sw_pos t = sw_pos s \<Longrightarrow> waking (go i q t)"
  by (auto simp: waking_def)

lemma kill_keeps:
  assumes "kill n s = Ret (r, t)"
  shows "length (procs t) = length (procs s) \<and> pchan (procs t ! i) = pchan (procs s ! i) \<and>
    (pstate (procs t ! i) = SLEEPING \<longrightarrow> pstate (procs s ! i) = SLEEPING)"
proof (cases "ptlock s")
  case True
  with assms show ?thesis by (simp add: kill_def pt_simps)
next
  case False
  show ?thesis
  proof (cases "first_index (\<lambda>p. pid p = n) (procs s)")
    case None
    with assms False show ?thesis by (simp add: kill_def pt_simps)
  next
    case (Some k)
    then have "k < length (procs s)" by (simp add: first_index_Some)
    with assms False Some show ?thesis
      by (cases "k = i") (auto simp: kill_def pt_simps Let_def upd_proc_def split: if_splits)
  qed
qed

lemma sleep_mark_nth:
  "i < length (procs s) \<Longrightarrow> procs (sleep_mark i c s) ! j =
     (if j = i then (procs s ! i)\<lparr>pchan := c, pstate := SLEEPING\<rparr> else procs s ! j)"
  "length (procs (sleep_mark i c s)) = length (procs s)"
  by (simp_all add: sleep_mark_def)

lemma upd_proc_nth_keep:
  "g (f (procs s ! i)) = g (procs s ! i) \<Longrightarrow> g (procs (upd_proc i f s) ! j) = g (procs s ! j)"
  by (cases "i = j"; cases "j < length (procs s)") (auto simp: list_update_beyond)

text \<open>Steps that leave the condition and the sleepers as they are.\<close>

lemma sleep_inv_quiet:
  assumes "sleep_inv c s" "sw_cond t = sw_cond s" "waking s \<Longrightarrow> waking t"
    "\<And>i. sw_pos t i = Sleep1 \<Longrightarrow> sw_pos s i = Sleep1 \<or> \<not> sw_cond s"
    "\<And>i. sw_pos t i = Sleep2 \<Longrightarrow> sw_pos s i = Sleep2 \<or> \<not> sw_cond s"
    "\<And>i. asleep t i \<Longrightarrow> at_risk s i \<and> pchan (procs (sw_tab t) ! i) = c"
  shows "sleep_inv c t"
  using assms unfolding sleep_inv_def at_risk_def by blast

lemmas sw_defs = asleep_def at_risk_def pst_def

lemma sleep_inv_step:
  assumes "sw_step c s t" "locks_inv s" "sleep_inv c s"
  shows "sleep_inv c t"
proof -
  note inv = assms(3)
  have ch: "pchan (procs (sw_tab s) ! i) = c" if "asleep s i" for i
    using inv that unfolding sleep_inv_def by blast
  have lk: "i = j" if "has_lk (sw_pos s i)" "has_lk (sw_pos s j)" for i j
    using assms(2) that owner_unique unfolding locks_inv_def by blast
  have pt: "i = j" if "has_pt (sw_pos s i)" "has_pt (sw_pos s j)" for i j
    using assms(2) that owner_unique unfolding locks_inv_def by blast
  from assms(1) show ?thesis
  proof cases
    case (sleep_release i)
    then have "\<not> sw_cond s" using inv by (auto simp: sleep_inv_def)
    then show ?thesis
      using sleep_release ch
      by (intro sleep_inv_quiet [OF inv]) (auto simp: sw_defs intro: waking_go split: if_splits)
  next
    case (sleep_switch i)
    have "pst t j = SLEEPING \<Longrightarrow> j \<noteq> i \<Longrightarrow> pst s j = SLEEPING" for j
      using sleep_switch by (simp add: pst_def sleep_mark_nth)
    then show ?thesis
      using sleep_switch ch
      by (intro sleep_inv_quiet [OF inv]) 
        (auto simp: sw_defs sleep_mark_nth intro: waking_go split: if_splits)
  next
    case (set_cond i)
    have "sw_pos s j \<noteq> Sleep1" if "j \<noteq> i" for j
      using lk [of i j] set_cond(2) that by auto
    then show ?thesis
      using set_cond ch by (auto simp: sleep_inv_def waking_def asleep_def pst_def)
  next
    case (wakeup_wakeup1 i)
    have "sw_pos s j \<noteq> Sleep2" "sw_pos s j \<noteq> Sleep1" for j
      using pt [of i j] wakeup_wakeup1(2) by auto
    moreover have "\<not> asleep t j" for j
    proof
      assume "asleep t j"
      then have a: "asleep s j"
        using wakeup_wakeup1 by (cases "j < length (procs (sw_tab s))")
          (auto simp: asleep_def pst_def wakeup1_nth wakeup1_def split: if_splits)
      from \<open>asleep t j\<close> ch [OF a] a show False
        using wakeup_wakeup1 by (auto simp: asleep_def pst_def wakeup1_nth split: if_splits)
    qed
    ultimately show ?thesis
      using wakeup_wakeup1(1) by (auto simp: sleep_inv_def at_risk_def)
  next
    case (consume i)
    then show ?thesis
      using inv by (auto simp: sleep_inv_def asleep_def pst_def)
  next
    case (kill_any n r u)
    then show ?thesis
      using kill_keeps [OF kill_any(3)] ch
      by (intro sleep_inv_quiet [OF inv]) (auto simp: sw_defs waking_def)
  next
    case (resume i)
    then show ?thesis
      using ch
      by (intro sleep_inv_quiet [OF inv]) (auto simp: sw_defs intro: waking_go split: if_splits)
  next
    case (sleep_tidy i)
    then show ?thesis
      using ch
      by (intro sleep_inv_quiet [OF inv]) (auto simp: sw_defs intro: waking_go split: if_splits)
  next
    case (wakeup_acquire i)
    then show ?thesis
      using ch
      by (intro sleep_inv_quiet [OF inv]) (auto simp: sw_defs waking_def split: if_splits)
  qed (use inv ch in \<open>auto intro!: sleep_inv_quiet [OF inv] simp: sw_defs intro: waking_go split: if_splits\<close>)
qed

subsection \<open>No wakeup is lost\<close>

definition sw_start :: "sw \<Rightarrow> bool" where
  "sw_start s \<longleftrightarrow> sw_lk s = None \<and> sw_pt s = None \<and> (\<forall>i. sw_pos s i = Outside)"

lemma sw_reach_inv:
  assumes "sw_reach c s t" "sw_start s"
  shows "locks_inv t \<and> sleep_inv c t"
  using assms
proof induction
  case sw_refl
  then show ?case
    by (auto simp: sw_start_def locks_inv_def owner_ok_def sleep_inv_def sw_defs)
next
  case (sw_trans t u)
  then show ?case using locks_inv_step sleep_inv_step by blast
qed

text \<open>
  C3. No wakeup is lost. Whatever the order in which waiters, wakers and \<^verbatim>\<open>kill\<close> interleave,
  a process that has gone to sleep on the channel is still sleeping while the condition is
  true only if some process holds \<^verbatim>\<open>lk\<close> and is on its way to \<^verbatim>\<open>wakeup1\<close>; when \<^verbatim>\<open>lk\<close> is free,
  nobody sleeps through a true condition.
\<close>

theorem no_lost_wakeup:
  assumes "sw_reach c s t" "sw_start s" "sw_cond t" "sw_pos t i = Switched"
    "i < length (procs (sw_tab t))" "pstate (procs (sw_tab t) ! i) = SLEEPING"
  shows "\<exists>j. sw_lk t = Some j \<and> (sw_pos t j = Wake1 \<or> sw_pos t j = Wake2)"
proof -
  have inv: "locks_inv t" "sleep_inv c t" using sw_reach_inv assms(1,2) by blast+
  have "at_risk t i" using assms(4-6) by (simp add: sw_defs)
  with inv(2) assms(3) obtain j where "sw_pos t j = Wake1 \<or> sw_pos t j = Wake2"
    unfolding sleep_inv_def waking_def by blast
  moreover from this have "sw_lk t = Some j"
    using inv(1) by (auto simp: locks_inv_def owner_ok_def dest!: spec [of _ j])
  ultimately show ?thesis by blast
qed

text \<open>Process 0 goes to sleep, then process 1 makes the condition true.\<close>

definition sw0 :: sw where
  "sw0 = \<lparr>sw_lk = None, sw_pt = None, sw_cond = False, sw_tab = boot_table, sw_pos = \<lambda>_. Outside\<rparr>"

definition sw_path :: "sw list" where
  "sw_path =
     (let s1 = go 0 InSection (sw0\<lparr>sw_lk := Some 0\<rparr>);
          s2 = go 0 Sleep1 (s1\<lparr>sw_pt := Some 0\<rparr>);
          s3 = go 0 Sleep2 (s2\<lparr>sw_lk := None\<rparr>);
          s4 = go 0 Switched (s3\<lparr>sw_tab := sleep_mark 0 ChTicks (sw_tab s3), sw_pt := None\<rparr>);
          s5 = go 1 InSection (s4\<lparr>sw_lk := Some 1\<rparr>);
          s6 = go 1 Wake1 (s5\<lparr>sw_cond := True\<rparr>)
      in [s1, s2, s3, s4, s5, s6])"

lemma sw_reach_list:
  "sw_reach c s t \<Longrightarrow> successively (sw_step c) (t # us) \<Longrightarrow> sw_reach c s (last (t # us))"
proof (induction us arbitrary: t)
  case (Cons u us)
  then have "sw_reach c s u" by (auto intro: sw_trans)
  with Cons show ?case by simp
qed simp

theorem no_lost_wakeup_witness:
  "sw_reach ChTicks sw0 (last sw_path) \<and> pstate (procs (sw_tab (last sw_path)) ! 0) = SLEEPING \<and>
   (\<exists>j. sw_lk (last sw_path) = Some j \<and> (sw_pos (last sw_path) j = Wake1 \<or> sw_pos (last sw_path) j = Wake2))"
proof -
  have "successively (sw_step ChTicks) (sw0 # sw_path)"
    unfolding sw_path_def Let_def successively.simps
    by (intro conjI sw_step.intros TrueI) (simp_all add: sw0_def boot_table_def)
  then have r: "sw_reach ChTicks sw0 (last sw_path)"
    using sw_reach_list [OF sw_refl, of ChTicks sw0 sw_path] by (simp add: sw_path_def Let_def)
  have t: "sw_cond (last sw_path)" "sw_pos (last sw_path) 0 = Switched"
    "0 < length (procs (sw_tab (last sw_path)))" "pstate (procs (sw_tab (last sw_path)) ! 0) = SLEEPING"
    by (simp_all add: sw_path_def Let_def sw0_def boot_table_def sleep_mark_nth)
  have "sw_start sw0" by (simp add: sw_start_def sw0_def)
  from no_lost_wakeup [OF r this t] r t(4) show ?thesis by blast
qed

end
