(* ===== verification/Signal.thy ===== *)
theory Signal
  imports ProcTable
begin

text \<open>
  The interrupt-style messages that this repository adds to \<^verbatim>\<open>src/xv6A1/proc.c\<close>: installing a
  handler (\<^verbatim>\<open>proc_sigset\<close>), posting a message (\<^verbatim>\<open>proc_sigsend\<close>), redirecting a process
  that is about to return to user space into its handler (\<^verbatim>\<open>checkTraps\<close>), and returning from
  the handler (\<^verbatim>\<open>proc_sigret\<close>). Memory is the address space the kernel runs in: the kernel
  above \<^verbatim>\<open>KERNBASE\<close> and the current process below.
\<close>

subsection \<open>Operations\<close>

abbreviation kmemory :: "'a ptable_scheme \<Rightarrow> mem" where
  "kmemory s \<equiv> kmem_mem (kmem s)"

definition set_mem :: "mem \<Rightarrow> 'a ptable_scheme \<Rightarrow> 'a ptable_scheme" where
  "set_mem m s = s\<lparr>kmem := (kmem s)\<lparr>kmem_mem := m\<rparr>\<rparr>"

definition proc_sigset :: "nat \<Rightarrow> uint \<Rightarrow> 'a ptable_scheme \<Rightarrow> (uint \<times> 'a ptable_scheme) kres" where
  "proc_sigset cur sh s =
     (let prev = handler (procs s ! cur)
      in kbind (pt_acquire s) (\<lambda>s.
           let s = upd_proc cur (\<lambda>p. p\<lparr>handler := sh\<rparr>) s
           in kbind (pt_release s) (\<lambda>s. Ret (prev, s))))"

text \<open>
  The destination is \<^verbatim>\<open>&ptable.proc[to_pid]\<close>: the pid is used as an index. An index outside
  the table is undefined.
\<close>

definition proc_sigsend :: "cint \<Rightarrow> cint \<Rightarrow> uint \<Rightarrow> 'a ptable_scheme \<Rightarrow> (int \<times> 'a ptable_scheme) kres" where
  "proc_sigsend from_pid to_pid msg s =
     kbind (aget (procs s) (sint to_pid)) (\<lambda>_.
       let dest = nat (sint to_pid)
       in kbind (pt_acquire s) (\<lambda>s.
            let s = upd_proc dest (\<lambda>p. p\<lparr>intr := 1\<rparr>) s;
                s = upd_proc dest (\<lambda>p. p\<lparr>message := read_bytes (kmemory s) msg MSGSIZE\<rparr>) s
            in kbind (pt_release s) (\<lambda>s. Ret (0, s))))"

text \<open>
  \<open>sg_start\<close> and \<open>sg_end\<close> are the addresses \<^verbatim>\<open>invoke_sigret_start\<close> and
  \<^verbatim>\<open>invoke_sigret_end\<close> of the code in \<^verbatim>\<open>invSigret.S\<close> that calls \<^verbatim>\<open>sigret\<close>. The first part
  of the update saves the trap frame and pushes that code, the message and the return
  address; the second redirects the trap frame.
\<close>

definition push_frame :: "uint \<Rightarrow> uint \<Rightarrow> proc \<Rightarrow> mem \<Rightarrow> mem" where
  "push_frame sg_start sg_end p m =
     (let n = sg_end - sg_start;
          m = memmove m (prev_tf p) (tf p) TF_SIZE;
          m = store32 m (tf p + TF_ESP) (load32 m (tf p + TF_ESP) - n);
          m = memmove m (load32 m (tf p + TF_ESP)) sg_start n;
          m = write_bytes m (load32 m (tf p + TF_ESP) - 4) (message p);
          esp = load32 m (tf p + TF_ESP);
          m = store32 m (esp - 8) esp
      in m)"

definition redirect :: "proc \<Rightarrow> mem \<Rightarrow> mem" where
  "redirect p m =
     (let m = store32 m (tf p + TF_ESP) (load32 m (tf p + TF_ESP) - 8)
      in store32 m (tf p + TF_EIP) (handler p))"

definition checkTraps :: "uint \<Rightarrow> uint \<Rightarrow> nat option \<Rightarrow> uint \<Rightarrow> 'a ptable_scheme \<Rightarrow> 'a ptable_scheme kres" where
  "checkTraps sg_start sg_end cur tfp s =
     (if kmemory s (tfp + TF_CS) AND 3 \<noteq> 3 then Ret s
      else kbind (pt_acquire s) (\<lambda>s.
        case cur of
          None \<Rightarrow> pt_release s
        | Some i \<Rightarrow>
            let p = procs s ! i
            in if dis_sig p = 1 \<or> handler p = SIG_NONE then pt_release s
               else if message p ! 0 = 0xff \<or> intr p \<noteq> 1 then pt_release s
               else
                 let s = upd_proc i (\<lambda>p. p\<lparr>dis_sig := 1, intr := 0\<rparr>) s;
                     s = set_mem (redirect p (push_frame sg_start sg_end p (kmemory s))) s;
                     s = upd_proc i (\<lambda>p. p\<lparr>message := (message p)[0 := 0xff]\<rparr>) s
                 in pt_release s))"

definition proc_sigret :: "nat \<Rightarrow> 'a ptable_scheme \<Rightarrow> 'a ptable_scheme" where
  "proc_sigret cur s =
     (let p = procs s ! cur;
          s = set_mem (memmove (kmemory s) (tf p) (prev_tf p) TF_SIZE) s
      in upd_proc cur (\<lambda>p. p\<lparr>dis_sig := 0\<rparr>) s)"

subsection \<open>Delivery of a message\<close>

text \<open>
  The layout that \<^verbatim>\<open>checkTraps\<close> relies on: the trap frame is in kernel memory; the saved
  frame, the code and the stack below \<^verbatim>\<open>esp\<close> are apart from it and from each other.
\<close>

definition frame_layout :: "uint \<Rightarrow> uint \<Rightarrow> proc \<Rightarrow> mem \<Rightarrow> bool" where
  "frame_layout sg_start sg_end p m \<longleftrightarrow>
     (let esp = load32 m (tf p + TF_ESP); n = unat (sg_end - sg_start)
      in 4 \<le> n \<and> n \<le> 4096 \<and> 8192 \<le> unat esp \<and> unat esp < 0x80000000 \<and>
         0x80000000 \<le> unat (tf p) \<and> unat (tf p) + 76 < 4294967296 \<and>
         0x80000000 \<le> unat sg_start \<and> unat sg_start + 4096 < 4294967296 \<and>
         unat (prev_tf p) + 76 + n + 8 \<le> unat esp \<and>
         length (message p) = MSGSIZE)"

abbreviation KB :: nat where "KB \<equiv> 0x80000000"

lemma user_block: "unat d + n \<le> KB \<Longrightarrow> in_block d n x \<Longrightarrow> unat x < KB"
  by (simp add: in_block_iff)

lemma kernel_block: "KB \<le> unat d \<Longrightarrow> unat d + n \<le> 4294967296 \<Longrightarrow> in_block d n x \<Longrightarrow> KB \<le> unat x"
  by (simp add: in_block_iff)

text \<open>Writes below \<^verbatim>\<open>KERNBASE\<close> are invisible to loads above it.\<close>

lemma load32_kernel:
  assumes "\<And>x. KB \<le> unat x \<Longrightarrow> m x = m' x" "KB \<le> unat a" "unat a + 4 \<le> 4294967296"
  shows "load32 m a = load32 m' a"
  by (rule load32_cong) (rule assms(1) [OF kernel_block [OF assms(2,3)]])

lemma frame_offsets:
  assumes "unat (t :: uint) + 76 < 4294967296" "KB \<le> unat t"
  shows "unat (t + TF_ESP) = unat t + 68" "unat (t + TF_EIP) = unat t + 56"
  using assms by (subst unat_add_no_wrap; simp)+

definition sig_esp :: "uint \<Rightarrow> uint \<Rightarrow> proc \<Rightarrow> mem \<Rightarrow> uint" where
  "sig_esp sg_start sg_end p m = load32 m (tf p + TF_ESP) - (sg_end - sg_start)"

lemma sig_esp_unat:
  assumes "frame_layout sg_start sg_end p m"
  defines "e \<equiv> sig_esp sg_start sg_end p m"
  shows "unat e = unat (load32 m (tf p + TF_ESP)) - unat (sg_end - sg_start)"
    "unat (e - 4) = unat e - 4" "unat (e - 8) = unat e - 8"
    "unat (prev_tf p) + 76 + 8 \<le> unat e" "unat e + unat (sg_end - sg_start) < KB" "4096 \<le> unat e"
proof -
  note l = assms(1) [unfolded frame_layout_def Let_def]
  show e: "unat e = unat (load32 m (tf p + TF_ESP)) - unat (sg_end - sg_start)"
    unfolding e_def sig_esp_def using l by (subst unat_sub_if_32) simp
  show "unat (prev_tf p) + 76 + 8 \<le> unat e" "unat e + unat (sg_end - sg_start) < KB" "4096 \<le> unat e"
    using l unfolding e by auto
  then show "unat (e - 4) = unat e - 4" "unat (e - 8) = unat e - 8"
    using unat_sub_if_32 [of e 4] unat_sub_if_32 [of e 8] by auto
qed

text \<open>The pushed frame, with every reread of \<^verbatim>\<open>esp\<close> resolved.\<close>

definition pushed :: "uint \<Rightarrow> uint \<Rightarrow> proc \<Rightarrow> mem \<Rightarrow> mem" where
  "pushed sg_start sg_end p m =
     (let e = sig_esp sg_start sg_end p m
      in store32 (write_bytes (memmove (store32 (memmove m (prev_tf p) (tf p) TF_SIZE) (tf p + TF_ESP) e)
           e sg_start (sg_end - sg_start)) (e - 4) (message p)) (e - 8) e)"

lemma push_frame_eq:
  assumes "frame_layout sg_start sg_end p m"
  shows "push_frame sg_start sg_end p m = pushed sg_start sg_end p m"
proof -
  let ?n = "sg_end - sg_start" and ?t = "tf p + TF_ESP" and ?e = "sig_esp sg_start sg_end p m"
  note l = assms [unfolded frame_layout_def Let_def]
  note e = sig_esp_unat [OF assms]
  have t: "KB \<le> unat ?t" "unat ?t + 4 \<le> 4294967296" using l frame_offsets [of "tf p"] by auto
  let ?m1 = "memmove m (prev_tf p) (tf p) TF_SIZE"
  have "\<not> in_block (prev_tf p) 76 x" if "KB \<le> unat x" for x
    using that user_block [of "prev_tf p" 76 x] l by auto
  then have "load32 ?m1 ?t = load32 m ?t"
    using l t by (intro load32_kernel) (auto simp: memmove_eq)
  then have m1: "load32 ?m1 ?t - ?n = ?e" by (simp add: sig_esp_def)
  let ?m2 = "store32 ?m1 ?t ?e"
  let ?m3 = "memmove ?m2 ?e sg_start ?n"
  have m3: "load32 ?m3 ?t = ?e"
  proof -
    have "\<not> in_block ?e (unat ?n) x" if "KB \<le> unat x" for x
      using that user_block [of ?e "unat ?n" x] e by auto
    then have "load32 ?m3 ?t = load32 ?m2 ?t"
      using l e t by (intro load32_kernel) (auto simp: memmove_eq)
    then show ?thesis by simp
  qed
  have "load32 (write_bytes ?m3 (?e - 4) (message p)) ?t = ?e"
  proof -
    have "unat (?e - 4) + 8 \<le> KB" using e(2,5,6) l by linarith
    then have "\<not> in_block (?e - 4) 8 x" if "KB \<le> unat x" for x
      using that user_block [of "?e - 4" 8 x] by auto
    then have "load32 (write_bytes ?m3 (?e - 4) (message p)) ?t = load32 ?m3 ?t"
      using l t by (intro load32_kernel) (auto simp: write_bytes_other)
    then show ?thesis by (simp add: m3)
  qed
  then show ?thesis
    by (simp add: push_frame_def pushed_def Let_def m1 m3)
qed

text \<open>What the pushed frame holds.\<close>

lemma pushed_frame:
  assumes "frame_layout sg_start sg_end p m"
  defines "e \<equiv> sig_esp sg_start sg_end p m" and "m' \<equiv> pushed sg_start sg_end p m"
  shows "load32 m' (e - 8) = e" "read_bytes m' (e - 4) MSGSIZE = message p"
    "read_bytes m' (prev_tf p) 76 = read_bytes m (tf p) 76"
    "KB \<le> unat x \<Longrightarrow> m' x = store32 m (tf p + TF_ESP) e x"
proof -
  note l = assms(1) [unfolded frame_layout_def Let_def]
  note e = sig_esp_unat [OF assms(1), folded e_def]
  let ?n = "sg_end - sg_start"
  let ?m1 = "memmove m (prev_tf p) (tf p) TF_SIZE"
  let ?m2 = "store32 ?m1 (tf p + TF_ESP) e"
  let ?m3 = "memmove ?m2 e sg_start ?n"
  let ?m4 = "write_bytes ?m3 (e - 4) (message p)"
  have m': "m' = store32 ?m4 (e - 8) e" by (simp add: m'_def pushed_def Let_def e_def)
  show "load32 m' (e - 8) = e" by (simp add: m')
  have len: "length (message p) = 8" using l by simp
  have "\<not> in_block (e - 8) 4 x" if "in_block (e - 4) 8 x" for x
    using that by (rule in_block_apart) simp_all
  then have "read_bytes m' (e - 4) 8 = read_bytes ?m4 (e - 4) 8"
    by (intro read_bytes_cong) (auto simp: m' store32_other)
  then show "read_bytes m' (e - 4) MSGSIZE = message p"
    using read_write_bytes [of "message p" ?m3 "e - 4"] len by simp
  have low: "unat (e - 8) + 4 \<le> KB" "unat (e - 4) + 8 \<le> KB" "unat e + unat ?n \<le> KB" "unat (prev_tf p) + 76 \<le> KB"
    using e l by linarith+
  have t: "KB \<le> unat (tf p + TF_ESP)" "unat (tf p + TF_ESP) + 4 \<le> 4294967296"
    using l frame_offsets [of "tf p"] by auto
  have nb: "m' x = ?m2 x" if "\<not> in_block (e - 8) 4 x" "\<not> in_block (e - 4) 8 x" "\<not> in_block e (unat ?n) x" for x
    using that len e l by (simp add: m' store32_other write_bytes_other memmove_eq)
  show "m' x = store32 m (tf p + TF_ESP) e x" if x: "KB \<le> unat x"
  proof -
    have "m' x = ?m2 x"
      using x low user_block by (intro nb) (meson not_le)+
    moreover have "?m1 x = m x" using x low(4) l user_block [of "prev_tf p" 76 x] by (auto simp: memmove_eq)
    ultimately show ?thesis by (simp add: store32_def)
  qed
  have "m' x = m (tf p + (x - prev_tf p))" if x: "in_block (prev_tf p) 76 x" for x
  proof -
    have xr: "unat x < unat (prev_tf p) + 76" "unat x < KB"
      using x low(4) user_block [OF low(4) x] by (simp_all add: in_block_iff)
    then have "m' x = ?m2 x"
      using e low by (intro nb) (auto simp: in_block_iff)
    also have "\<dots> = ?m1 x"
      using xr(2) kernel_block [OF t, of x] by (intro store32_other) auto
    also have "\<dots> = m (tf p + (x - prev_tf p))"
      using x l low(4) by (simp add: memmove_eq)
    finally show ?thesis .
  qed
  then show "read_bytes m' (prev_tf p) 76 = read_bytes m (tf p) 76"
    by (intro nth_equalityI) (simp_all add: in_block_def unat_of_nat_32)
qed

lemma redirect_frame:
  assumes "KB \<le> unat (tf p)" "unat (tf p) + 76 < 4294967296"
  shows "load32 (redirect p m) (tf p + TF_EIP) = handler p"
    "load32 (redirect p m) (tf p + TF_ESP) = load32 m (tf p + TF_ESP) - 8"
    "unat x < KB \<Longrightarrow> redirect p m x = m x"
proof -
  show "load32 (redirect p m) (tf p + TF_EIP) = handler p"
    by (simp add: redirect_def Let_def)
  show "load32 (redirect p m) (tf p + TF_ESP) = load32 m (tf p + TF_ESP) - 8"
    by (simp add: redirect_def Let_def load32_store32_apart)
  assume x: "unat x < KB"
  have "\<not> in_block (tf p + TF_EIP) 4 x"
    using frame_offsets [OF assms(2,1)] assms x kernel_block [of "tf p + TF_EIP" 4 x] by auto
  moreover have "\<not> in_block (tf p + TF_ESP) 4 x"
    using frame_offsets [OF assms(2,1)] assms x kernel_block [of "tf p + TF_ESP" 4 x] by auto
  ultimately show "redirect p m x = m x"
    by (simp add: redirect_def Let_def store32_other)
qed

lemma set_mem_simps [simp]:
  "procs (set_mem m s) = procs s" "ptlock (set_mem m s) = ptlock s" "kmemory (set_mem m s) = m"
  "nextpid (set_mem m s) = nextpid s" "initproc (set_mem m s) = initproc s"
  by (simp_all add: set_mem_def)

text \<open>The state after a delivery to process \<open>i\<close>.\<close>

definition deliverable :: "proc \<Rightarrow> bool" where
  "deliverable p \<longleftrightarrow> dis_sig p \<noteq> 1 \<and> handler p \<noteq> SIG_NONE \<and> message p ! 0 \<noteq> 0xff \<and> intr p = 1"

lemma checkTraps_deliver:
  assumes "kmemory s (tfp + TF_CS) AND 3 = 3" "\<not> ptlock s" "i < length (procs s)" "deliverable (procs s ! i)"
  shows "checkTraps sg_start sg_end (Some i) tfp s =
    Ret (set_mem (redirect (procs s ! i) (push_frame sg_start sg_end (procs s ! i) (kmemory s)))
      (upd_proc i (\<lambda>p. p\<lparr>dis_sig := 1, intr := 0, message := (message p)[0 := 0xff]\<rparr>) s))"
  using assms by (simp add: checkTraps_def deliverable_def pt_simps Let_def upd_proc_def set_mem_def)

lemma delivered_frame:
  assumes "frame_layout sg_start sg_end p m"
  defines "e \<equiv> sig_esp sg_start sg_end p m" and "m' \<equiv> redirect p (push_frame sg_start sg_end p m)"
  shows "load32 m' (tf p + TF_EIP) = handler p" "load32 m' (tf p + TF_ESP) = e - 8"
    "load32 m' (e - 8) = e" "read_bytes m' (e - 4) MSGSIZE = message p"
    "read_bytes m' (prev_tf p) 76 = read_bytes m (tf p) 76"
proof -
  note l = assms(1) [unfolded frame_layout_def Let_def]
  note e = sig_esp_unat [OF assms(1), folded e_def]
  note pf = pushed_frame [OF assms(1), folded e_def]
  note rf = redirect_frame [where p = p and m = "pushed sg_start sg_end p m"]
  have m': "m' = redirect p (pushed sg_start sg_end p m)" by (simp add: m'_def push_frame_eq [OF assms(1)])
  have low: "unat (e - 8) + 4 \<le> KB" "unat (e - 4) + 8 \<le> KB" "unat (prev_tf p) + 76 \<le> KB"
    using e l by linarith+
  have t: "KB \<le> unat (tf p + TF_ESP)" "unat (tf p + TF_ESP) + 4 \<le> 4294967296"
    using l frame_offsets [of "tf p"] by auto
  show "load32 m' (tf p + TF_EIP) = handler p" using rf l by (simp add: m')
  have "load32 (pushed sg_start sg_end p m) (tf p + TF_ESP) = load32 (store32 m (tf p + TF_ESP) e) (tf p + TF_ESP)"
    using pf(4) t by (intro load32_kernel) auto
  then show "load32 m' (tf p + TF_ESP) = e - 8" using rf l by (simp add: m')
  have same: "m' x = pushed sg_start sg_end p m x" if "unat x < KB" for x
    using rf(3) l that by (simp add: m')
  have "load32 m' (e - 8) = load32 (pushed sg_start sg_end p m) (e - 8)"
    using user_block [OF low(1)] by (intro load32_cong same)
  then show "load32 m' (e - 8) = e" using pf(1) by simp
  have "read_bytes m' (e - 4) 8 = read_bytes (pushed sg_start sg_end p m) (e - 4) 8"
    using user_block [OF low(2)] by (intro read_bytes_cong same) simp_all
  then show "read_bytes m' (e - 4) MSGSIZE = message p" using pf(2) by simp
  have "read_bytes m' (prev_tf p) 76 = read_bytes (pushed sg_start sg_end p m) (prev_tf p) 76"
    using user_block [OF low(3)] by (intro read_bytes_cong same) simp_all
  then show "read_bytes m' (prev_tf p) 76 = read_bytes m (tf p) 76" using pf(3) by simp
qed

text \<open>
  C34. A pending message is delivered on the way back to user space: the process resumes in
  its handler, on a stack whose top is the address of the code that calls \<^verbatim>\<open>sigret\<close>, followed
  by the message; the interrupted trap frame is saved, and signals stay off until the handler
  returns.
\<close>

theorem checkTraps_delivers:
  fixes s :: "'a ptable_scheme" and i :: nat
  defines "p \<equiv> procs s ! i"
  assumes "kmemory s (tfp + TF_CS) AND 3 = 3" "\<not> ptlock s" "i < length (procs s)" "deliverable p"
    "frame_layout sg_start sg_end p (kmemory s)"
  shows "\<exists>s' e. checkTraps sg_start sg_end (Some i) tfp s = Ret s' \<and>
    load32 (kmemory s') (tf p + TF_EIP) = handler p \<and> load32 (kmemory s') (tf p + TF_ESP) = e - 8 \<and>
    load32 (kmemory s') (e - 8) = e \<and> read_bytes (kmemory s') (e - 4) MSGSIZE = message p \<and>
    read_bytes (kmemory s') (prev_tf p) 76 = read_bytes (kmemory s) (tf p) 76 \<and>
    dis_sig (procs s' ! i) = 1 \<and> intr (procs s' ! i) = 0 \<and> \<not> deliverable (procs s' ! i)"
  using checkTraps_deliver [OF assms(2-4), of sg_start sg_end] assms(4,5)
    delivered_frame [OF assms(6)] unfolding p_def
  by (intro exI conjI) (assumption | simp add: deliverable_def)+

text \<open>A process with a message pending, interrupted in user space with its stack at 0x3000.\<close>

definition sig_proc :: proc where
  "sig_proc = empty_proc\<lparr>pstate := RUNNING, pid := 1, tf := 0x80401fb4, handler := 0x100, intr := 1,
     message := [77, 117, 108, 116, 77, 115, 103, 0]\<rparr>"

definition sig_mem :: mem where
  "sig_mem = store32 (store32 (\<lambda>_. 0) 0x80401ff8 0x3000) 0x80401ff0 0x1b"

definition sig_state :: ptable where
  "sig_state = boot_table\<lparr>procs := sig_proc # replicate 63 empty_proc, nextpid := 2,
     kmem := two_pages\<lparr>kmem_mem := sig_mem\<rparr>\<rparr>"

lemma sig_state_ok:
  "kmemory sig_state (0x80401fb4 + TF_CS) AND 3 = 3" "\<not> ptlock sig_state" "0 < length (procs sig_state)"
  "procs sig_state ! 0 = sig_proc" "deliverable sig_proc"
  "frame_layout 0x80100000 0x80100007 sig_proc (kmemory sig_state)" "kmemory sig_state = sig_mem"
proof -
  have m: "kmemory sig_state = sig_mem" by (simp add: sig_state_def)
  have "load32 sig_mem 0x80401ff8 = 0x3000"
    unfolding sig_mem_def by (subst load32_store32_apart) simp_all
  then show "frame_layout 0x80100000 0x80100007 sig_proc (kmemory sig_state)"
    unfolding m by (simp add: frame_layout_def sig_proc_def empty_proc_def Let_def)
  show "kmemory sig_state (0x80401fb4 + TF_CS) AND 3 = 3"
    unfolding m by (simp add: sig_mem_def store32_def)
  show "kmemory sig_state = sig_mem" by (rule m)
qed (simp_all add: sig_state_def boot_table_def sig_proc_def deliverable_def empty_proc_def)

theorem checkTraps_delivers_witness:
  "\<exists>s' e. checkTraps 0x80100000 0x80100007 (Some 0) 0x80401fb4 sig_state = Ret s' \<and>
     load32 (kmemory s') (tf sig_proc + TF_EIP) = 0x100 \<and> load32 (kmemory s') (e - 8) = e"
proof -
  have "handler sig_proc = 0x100" by (simp add: sig_proc_def)
  then show ?thesis
    using checkTraps_delivers [OF sig_state_ok(1-3), of "0x80100000" "0x80100007", unfolded sig_state_ok(4)]
      sig_state_ok(5,6) by auto
qed

text \<open>What a delivery leaves at the address that the handler returns to.\<close>

lemma pushed_code:
  assumes "frame_layout sg_start sg_end p m" "unat sg_start + unat (sg_end - sg_start) \<le> unat (tf p)"
  defines "e \<equiv> sig_esp sg_start sg_end p m" and "n \<equiv> unat (sg_end - sg_start)"
  shows "read_bytes (pushed sg_start sg_end p m) e n = drop 4 (message p) @ drop 4 (read_bytes m sg_start n)"
proof (rule nth_equalityI)
  note l = assms(1) [unfolded frame_layout_def Let_def, folded n_def]
  note e = sig_esp_unat [OF assms(1), folded e_def n_def]
  let ?m1 = "memmove m (prev_tf p) (tf p) TF_SIZE"
  let ?m2 = "store32 ?m1 (tf p + TF_ESP) e"
  let ?m4 = "write_bytes (memmove ?m2 e sg_start (sg_end - sg_start)) (e - 4) (message p)"
  have m': "pushed sg_start sg_end p m = store32 ?m4 (e - 8) e" by (simp add: pushed_def Let_def e_def)
  show "length (read_bytes (pushed sg_start sg_end p m) e n) = length (drop 4 (message p) @ drop 4 (read_bytes m sg_start n))"
    using l by simp
  fix k assume "k < length (read_bytes (pushed sg_start sg_end p m) e n)"
  then have k: "k < n" "unat (of_nat k :: uint) = k" using l by (simp_all add: unat_of_nat_32)
  have "unat e + k < 4294967296" "unat sg_start + k < 4294967296" using k(1) e(5) l by linarith+
  then have u: "unat (e + of_nat k) = unat e + k" "unat (sg_start + of_nat k) = unat sg_start + k"
    by (simp_all add: unat_add_no_wrap k(2))
  show "read_bytes (pushed sg_start sg_end p m) e n ! k = (drop 4 (message p) @ drop 4 (read_bytes m sg_start n)) ! k"
  proof (cases "k < 4")
    case True
    have "read_bytes (pushed sg_start sg_end p m) (e - 4) MSGSIZE ! (4 + k) = message p ! (4 + k)"
      using pushed_frame(2) [OF assms(1)] by (simp add: e_def)
    then show ?thesis using True k l by (simp add: nth_append algebra_simps)
  next
    case False
    have "e + of_nat k - (e - 8) = of_nat (k + 8)" "e + of_nat k - (e - 4) = of_nat (k + 4)" "e + of_nat k - e = of_nat k" by simp_all
    moreover have "k + 8 < 4294967296" using k(1) l by linarith
    ultimately have "\<not> in_block (e - 8) 4 (e + of_nat k)" "\<not> in_block (e - 4) 8 (e + of_nat k)" "in_block e n (e + of_nat k)"
      using False k unfolding in_block_def by (simp_all only: unat_of_nat_32)
    then have "pushed sg_start sg_end p m (e + of_nat k) = ?m2 (sg_start + of_nat k)"
      using l e by (simp add: m' store32_other write_bytes_other memmove_eq n_def)
    also have "\<dots> = ?m1 (sg_start + of_nat k)"
      using u(2) k(1) l frame_offsets [of "tf p"] assms(2) by (intro store32_other) (simp add: in_block_iff n_def)
    also have "\<dots> = m (sg_start + of_nat k)"
      using u(2) l by (simp add: memmove_eq in_block_iff)
    finally show ?thesis using False k l by (simp add: nth_append)
  qed
qed

text \<open>
  C36. The message has eight bytes and only four are left for it below the code that calls \<^verbatim>\<open>sigret\<close>. After a
  delivery the address that the handler returns to holds the second half of the message and then the rest of that
  code from its fifth byte on. So it is the code of \<^verbatim>\<open>sigret\<close> only when the second half of the message happens to
  be the first four bytes of this code.
\<close>

theorem sigret_code_overwritten:
  fixes s :: "'a ptable_scheme" and i :: nat
  defines "p \<equiv> procs s ! i"
  assumes "kmemory s (tfp + TF_CS) AND 3 = 3" "\<not> ptlock s" "i < length (procs s)" "deliverable p"
    "frame_layout sg_start sg_end p (kmemory s)" "n = unat (sg_end - sg_start)" "unat sg_start + n \<le> unat (tf p)"
  shows "\<exists>s' e. checkTraps sg_start sg_end (Some i) tfp s = Ret s' \<and>
    load32 (kmemory s') (load32 (kmemory s') (tf p + TF_ESP)) = e \<and>
    read_bytes (kmemory s') e n = drop 4 (message p) @ drop 4 (read_bytes (kmemory s) sg_start n) \<and>
    (read_bytes (kmemory s') e n = read_bytes (kmemory s) sg_start n \<longleftrightarrow>
      drop 4 (message p) = take 4 (read_bytes (kmemory s) sg_start n))"
proof -
  let ?e = "sig_esp sg_start sg_end p (kmemory s)" and ?c = "read_bytes (kmemory s) sg_start n"
  let ?m = "redirect p (push_frame sg_start sg_end p (kmemory s))"
  note l = assms(6) [unfolded frame_layout_def Let_def, folded assms(7)]
  have "unat ?e + n \<le> KB" using sig_esp_unat(5) [OF assms(6)] by (simp add: assms(7))
  then have "read_bytes ?m ?e n = read_bytes (pushed sg_start sg_end p (kmemory s)) ?e n"
    using redirect_frame(3) [of p] l user_block [of ?e n] unfolding push_frame_eq [OF assms(6)]
    by (intro read_bytes_cong) auto
  then have c: "read_bytes ?m ?e n = drop 4 (message p) @ drop 4 ?c"
    using pushed_code [OF assms(6)] assms(7,8) by simp
  have "?c = take 4 ?c @ drop 4 ?c" by simp
  then have "read_bytes ?m ?e n = ?c \<longleftrightarrow> drop 4 (message p) = take 4 ?c" unfolding c by (metis append_same_eq)
  then show ?thesis
    using c delivered_frame(2,3) [OF assms(6)] checkTraps_deliver [OF assms(2-4), of sg_start sg_end] assms(5)
    unfolding p_def by auto
qed

theorem sigret_code_overwritten_witness:
  "\<exists>s' e. checkTraps 0x80100000 0x80100007 (Some 0) 0x80401fb4 sig_state = Ret s' \<and>
     load32 (kmemory s') (load32 (kmemory s') (tf sig_proc + TF_ESP)) = e \<and>
     read_bytes (kmemory s') e 7 = [77, 115, 103, 0, 0, 0, 0]"
proof -
  have "drop 4 (message sig_proc) @ drop 4 (read_bytes (kmemory sig_state) 0x80100000 7) = [77, 115, 103, 0, 0, 0, 0]"
  proof -
    have "read_bytes (kmemory sig_state) 0x80100000 7 = [0, 0, 0, 0, 0, 0, 0]"
      unfolding sig_state_ok(7) read_bytes_def by (simp add: upt_rec sig_mem_def store32_def)
    then show ?thesis by (simp add: sig_proc_def)
  qed
  moreover have "7 = unat (0x80100007 - 0x80100000 :: uint)" "unat (0x80100000 :: uint) + 7 \<le> unat (tf sig_proc)"
    by (simp_all add: sig_proc_def)
  ultimately show ?thesis
    using sigret_code_overwritten [OF sig_state_ok(1-3), of "0x80100000" "0x80100007" 7, unfolded sig_state_ok(4)]
      sig_state_ok(5,6) by metis
qed

text \<open>
  C35. \<^verbatim>\<open>proc_sigret\<close> undoes a delivery: when the handler has left the saved frame alone, the
  76 bytes of the trap frame are again what they were when the process was interrupted, and
  signals are enabled.
\<close>

theorem sigret_restores_frame:
  fixes s s1 s2 :: "'a ptable_scheme" and i :: nat
  defines "p \<equiv> procs s ! i"
  assumes "kmemory s (tfp + TF_CS) AND 3 = 3" "\<not> ptlock s" "i < length (procs s)" "deliverable p"
    "frame_layout sg_start sg_end p (kmemory s)"
    "checkTraps sg_start sg_end (Some i) tfp s = Ret s1"
    "procs s2 = procs s1" "read_bytes (kmemory s2) (prev_tf p) 76 = read_bytes (kmemory s1) (prev_tf p) 76"
  shows "read_bytes (kmemory (proc_sigret i s2)) (tf p) 76 = read_bytes (kmemory s) (tf p) 76 \<and>
    dis_sig (procs (proc_sigret i s2) ! i) = 0"
proof -
  note l = assms(6) [unfolded frame_layout_def Let_def]
  have p2: "tf (procs s2 ! i) = tf p" "prev_tf (procs s2 ! i) = prev_tf p" "i < length (procs s2)"
    using checkTraps_deliver [OF assms(2-4), of sg_start sg_end] assms(4,5,7,8) by (auto simp: p_def)
  have saved: "read_bytes (kmemory s1) (prev_tf p) 76 = read_bytes (kmemory s) (tf p) 76"
    using checkTraps_deliver [OF assms(2-4), of sg_start sg_end] assms(5,7) delivered_frame(5) [OF assms(6)]
    by (auto simp: p_def)
  have "read_bytes (kmemory (proc_sigret i s2)) (tf p) 76 = read_bytes (kmemory s2) (prev_tf p) 76"
    using l by (intro nth_equalityI)
      (simp_all add: proc_sigret_def Let_def p2 memmove_eq in_block_def unat_of_nat_32)
  with saved assms(9) p2(3) show ?thesis
    by (simp add: proc_sigret_def Let_def)
qed

theorem sigret_restores_frame_witness:
  "\<exists>s1. checkTraps 0x80100000 0x80100007 (Some 0) 0x80401fb4 sig_state = Ret s1 \<and>
     read_bytes (kmemory (proc_sigret 0 s1)) 0x80401fb4 76 = read_bytes sig_mem 0x80401fb4 76"
proof -
  have "tf sig_proc = 0x80401fb4" by (simp add: sig_proc_def)
  then show ?thesis
    using sigret_restores_frame [OF sig_state_ok(1-3), of "0x80100000" "0x80100007", unfolded sig_state_ok(4), OF sig_state_ok(5,6) _ refl refl]
      checkTraps_deliver [OF sig_state_ok(1-3), of "0x80100000" "0x80100007"] sig_state_ok(4,5,7) by auto
qed

text \<open>
  \<^verbatim>\<open>proc_sigsend\<close> takes the pid as a table index: the message goes to the slot with that
  number, and a process that has the pid in another slot gets nothing, although the call
  reports success.
\<close>

theorem sigsend_misses_process:
  assumes "\<not> ptlock s" "0 \<le> sint to_pid" "sint to_pid < int (length (procs s))"
    "pid (procs s ! j) = to_pid" "int j \<noteq> sint to_pid"
  shows "\<exists>s'. proc_sigsend from_pid to_pid msg s = Ret (0, s') \<and> procs s' ! j = procs s ! j \<and>
    intr (procs s' ! nat (sint to_pid)) = 1 \<and>
    message (procs s' ! nat (sint to_pid)) = read_bytes (kmemory s) msg MSGSIZE"
proof -
  have "nat (sint to_pid) < length (procs s)" "nat (sint to_pid) \<noteq> j" using assms by auto
  with assms(1-3) show ?thesis
    by (simp add: proc_sigsend_def pt_simps Let_def)
qed

theorem sigsend_misses_process_witness:
  "\<exists>s'. proc_sigsend 1 1 0x200 sig_state = Ret (0, s') \<and> procs s' ! 0 = procs sig_state ! 0 \<and>
     intr (procs s' ! 1) = 1"
  using sigsend_misses_process [of sig_state 1 0 1 "0x200"] sig_state_ok(2)
  by (auto simp: sig_state_def sig_proc_def)

end
