(* ===== verification/Syscall.thy ===== *)
theory Syscall
  imports Signal
begin

text \<open>
  System call entry, \<^verbatim>\<open>src/xv6A1/syscall.c\<close>: fetching arguments from user memory with their
  bounds checks, the dispatcher, and the call counters of \<^verbatim>\<open>toggle\<close> and \<^verbatim>\<open>print_count\<close>.
  The table of handlers is an argument of the dispatcher; the handlers themselves belong to the
  components they call.
\<close>

record systable = ptable +
  trace :: cint
  countCalls :: "cint list"

abbreviation "NSYSCALLS \<equiv> (32 :: nat)"
abbreviation "SYS_toggle \<equiv> (23 :: nat)"

subsection \<open>Arguments\<close>

text \<open>A failed fetch, return value -1, is \<open>None\<close>; \<open>cur\<close> is the slot of \<^verbatim>\<open>myproc()\<close>.\<close>

definition fetchint :: "nat \<Rightarrow> 'a ptable_scheme \<Rightarrow> uint \<Rightarrow> cint option" where
  "fetchint cur s addr =
     (let size = sz (procs s ! cur)
      in if addr \<ge> size \<or> addr + 4 > size then None else Some (load32 (kmemory s) addr))"

function fetchstr_loop :: "mem \<Rightarrow> uint \<Rightarrow> uint \<Rightarrow> uint \<Rightarrow> uint option" where
  "fetchstr_loop m pp s ep =
     (if s < ep then (if m s = 0 then Some (s - pp) else fetchstr_loop m pp (s + 1) ep) else None)"
  by pat_completeness auto
termination
proof (relation "measure (\<lambda>(m, pp, s, ep). unat ep - unat s)", goal_cases)
  case (2 m pp s ep)
  then show ?case using unat_Suc_less [of s ep] by (auto simp: word_less_nat_alt)
qed simp

declare fetchstr_loop.simps [simp del]

text \<open>The string pointer and the length.\<close>

definition fetchstr :: "nat \<Rightarrow> 'a ptable_scheme \<Rightarrow> uint \<Rightarrow> (uint \<times> uint) option" where
  "fetchstr cur s addr =
     (let size = sz (procs s ! cur)
      in if addr \<ge> size then None
         else map_option (\<lambda>n. (addr, n)) (fetchstr_loop (kmemory s) addr addr size))"

definition argint :: "nat \<Rightarrow> 'a ptable_scheme \<Rightarrow> nat \<Rightarrow> cint option" where
  "argint cur s n = fetchint cur s (load32 (kmemory s) (tf (procs s ! cur) + TF_ESP) + 4 + 4 * of_nat n)"

definition argptr :: "nat \<Rightarrow> 'a ptable_scheme \<Rightarrow> nat \<Rightarrow> cint \<Rightarrow> uint option" where
  "argptr cur s n k =
     (case argint cur s n of
        None \<Rightarrow> None
      | Some i \<Rightarrow>
          if sint k < 0 \<or> i \<ge> sz (procs s ! cur) \<or> i + k > sz (procs s ! cur) then None
          else Some i)"

definition argstr :: "nat \<Rightarrow> 'a ptable_scheme \<Rightarrow> nat \<Rightarrow> (uint \<times> uint) option" where
  "argstr cur s n =
     (case argint cur s n of None \<Rightarrow> None | Some addr \<Rightarrow> fetchstr cur s addr)"

subsection \<open>Dispatch\<close>

type_synonym 's sysfun = "'s \<Rightarrow> (cint \<times> 's) kres"

definition set_eax :: "nat \<Rightarrow> cint \<Rightarrow> 'a ptable_scheme \<Rightarrow> 'a ptable_scheme" where
  "set_eax cur v s = set_mem (store32 (kmemory s) (tf (procs s ! cur) + TF_EAX) v) s"

definition syscall :: "(nat \<Rightarrow> 'a systable_scheme sysfun option) \<Rightarrow> nat \<Rightarrow> 'a systable_scheme \<Rightarrow>
    'a systable_scheme kres" where
  "syscall syscalls cur s =
     (let num = sint (load32 (kmemory s) (tf (procs s ! cur) + TF_EAX))
      in if num > 0 \<and> num < int NSYSCALLS then
           (case syscalls (nat num) of
              Some f \<Rightarrow>
                let s = (if trace s = 1
                         then s\<lparr>countCalls := (countCalls s)[nat num := countCalls s ! nat num + 1]\<rparr> else s)
                in kbind (f s) (\<lambda>(r, s). Ret (set_eax cur r s))
            | None \<Rightarrow> Ret (set_eax cur (-1) s))
         else Ret (set_eax cur (-1) s))"

definition sys_toggle :: "'a systable_scheme sysfun" where
  "sys_toggle s =
     (let s = s\<lparr>trace := 1 - trace s\<rparr>
      in Ret (0, if trace s = 1 then s\<lparr>countCalls := replicate NSYSCALLS 0\<rparr> else s))"

definition syscallnames :: "string list" where
  "syscallnames = [[], ''sys_fork'', ''sys_exit'', ''sys_wait'', ''sys_pipe'', ''sys_read'', ''sys_kill'',
     ''sys_exec'', ''sys_fstat'', ''sys_chdir'', ''sys_dup'', ''sys_getpid'', ''sys_sbrk'', ''sys_sleep'',
     ''sys_uptime'', ''sys_open'', ''sys_write'', ''sys_mknod'', ''sys_unlink'', ''sys_link'',
     ''sys_mkdir'', ''sys_close'', ''sys_print_count'', ''sys_toggle'', ''sys_add'', ''sys_ps'',
     ''sys_send'', ''sys_recv'', ''sys_sigset'', ''sys_sigsend'', ''sys_sigret'', ''sys_send_multi'']"

text \<open>What \<^verbatim>\<open>print_count\<close> prints: one line of name and count per call made.\<close>

definition print_count_lines :: "'a systable_scheme \<Rightarrow> (string \<times> cint) list" where
  "print_count_lines s =
     map (\<lambda>i. (syscallnames ! i, countCalls s ! i)) (filter (\<lambda>i. sint (countCalls s ! i) > 0) [1..<NSYSCALLS])"

definition sys_print_count :: "'a systable_scheme \<Rightarrow> ((string \<times> cint) list \<times> cint \<times> 'a systable_scheme) kres" where
  "sys_print_count s = Ret (print_count_lines s, 0, s)"

subsection \<open>User pointers\<close>

lemma fetchstr_loop_Some:
  assumes "fetchstr_loop m pp s ep = Some n"
  shows "\<exists>t. s \<le> t \<and> t < ep \<and> n = t - pp \<and> m t = 0 \<and> (\<forall>x. s \<le> x \<longrightarrow> x < t \<longrightarrow> m x \<noteq> 0)"
  using assms
proof (induction m pp s ep rule: fetchstr_loop.induct)
  case (1 m pp s ep)
  show ?case
  proof (cases "s < ep \<and> m s \<noteq> 0")
    case True
    then obtain t where t: "s + 1 \<le> t" "t < ep" "n = t - pp" "m t = 0" "\<forall>x. s + 1 \<le> x \<longrightarrow> x < t \<longrightarrow> m x \<noteq> 0"
      using 1 fetchstr_loop.simps [of m pp s ep] by auto
    have le: "s + 1 \<le> x \<longleftrightarrow> s < x" for x using True Suc_le_word by blast
    have "m x \<noteq> 0" if "s \<le> x" "x < t" for x
      using that t(5) True by (cases "x = s") (auto simp: le)
    moreover have "s \<le> t" using t(1) by (simp add: le)
    ultimately show ?thesis using t by blast
  next
    case False
    then show ?thesis
      using 1(2) fetchstr_loop.simps [of m pp s ep] by (intro exI [of _ s]) (auto split: if_splits)
  qed
qed

lemma fetchstr_loop_None:
  assumes "fetchstr_loop m pp s ep = None" "s \<le> x" "x < ep"
  shows "m x \<noteq> 0"
  using assms
proof (induction m pp s ep rule: fetchstr_loop.induct)
  case (1 m pp s ep)
  then have "s < ep" by simp
  with 1 fetchstr_loop.simps [of m pp s ep] show ?case
    by (cases "x = s") (auto simp: Suc_le_word split: if_splits)
qed

lemma fetchint_iff:
  assumes "unat (sz (procs s ! cur)) \<le> KB"
  shows "fetchint cur s a = Some v \<longleftrightarrow> unat a + 4 \<le> unat (sz (procs s ! cur)) \<and> v = load32 (kmemory s) a"
proof (cases "a < sz (procs s ! cur)")
  case True
  then have "unat (a + 4) = unat a + 4"
    using assms by (subst unat_add_no_wrap) (auto simp: word_less_nat_alt)
  with True show ?thesis
    by (auto simp: fetchint_def Let_def word_le_nat_alt word_less_nat_alt)
next
  case False
  then show ?thesis by (auto simp: fetchint_def Let_def word_le_nat_alt word_less_nat_alt)
qed

lemma argptr_iff:
  assumes "unat (sz (procs s ! cur)) \<le> KB"
  shows "argptr cur s n k = Some a \<longleftrightarrow> argint cur s n = Some a \<and> 0 \<le> sint k \<and>
    unat a < unat (sz (procs s ! cur)) \<and> unat a + nat (sint k) \<le> unat (sz (procs s ! cur))"
proof (cases "a < sz (procs s ! cur) \<and> 0 \<le> sint k")
  case True
  have k: "nat (sint k) = unat k" "unat k < KB" using sint_nonneg [of k] True by simp_all
  have "unat (a + k) = unat a + unat k"
    using True k assms by (subst unat_add_no_wrap) (auto simp: word_less_nat_alt)
  with True k show ?thesis
    by (auto simp: argptr_def word_le_nat_alt word_less_nat_alt split: option.splits)
next
  case False
  then show ?thesis by (auto simp: argptr_def word_le_nat_alt word_less_nat_alt split: option.splits)
qed

lemma fetchstr_iff:
  "fetchstr cur s a = Some (p, l) \<longleftrightarrow> p = a \<and> a \<le> a + l \<and> a + l < sz (procs s ! cur) \<and>
     kmemory s (a + l) = 0 \<and> (\<forall>x. a \<le> x \<and> x < a + l \<longrightarrow> kmemory s x \<noteq> 0)" (is "?f \<longleftrightarrow> ?str")
proof
  assume ?f
  then have l: "fetchstr_loop (kmemory s) a a (sz (procs s ! cur)) = Some l" "p = a"
    by (auto simp: fetchstr_def Let_def split: if_splits)
  then show ?str using fetchstr_loop_Some [OF l(1)] by auto
next
  assume r: ?str
  then have "fetchstr_loop (kmemory s) a a (sz (procs s ! cur)) \<noteq> None"
    using fetchstr_loop_None [of "kmemory s" a a "sz (procs s ! cur)" "a + l"] by auto
  then obtain n where n: "fetchstr_loop (kmemory s) a a (sz (procs s ! cur)) = Some n" by auto
  then obtain t where t: "a \<le> t" "n = t - a" "kmemory s t = 0" "\<forall>x. a \<le> x \<longrightarrow> x < t \<longrightarrow> kmemory s x \<noteq> 0"
    using fetchstr_loop_Some by blast
  have "t = a + l" using t r by (metis not_less_iff_gr_or_eq)
  then have "n = l" using t(2) by simp
  then show ?f using n r by (auto simp: fetchstr_def Let_def)
qed

text \<open>
  C18. The argument checks let a system call touch user memory only. For a process of at most
  \<^verbatim>\<open>KERNBASE\<close> bytes, \<^verbatim>\<open>fetchint\<close> succeeds exactly for a word that lies in the process, and \<^verbatim>\<open>argint\<close>
  gives the word at its place above the stack pointer under the same condition. \<^verbatim>\<open>argptr\<close> succeeds exactly when its
  argument is the address of a block of non-negative size that lies in the process, without wrap-around.
  \<^verbatim>\<open>argstr\<close> succeeds exactly when its argument is the address of a string that ends in the process, and gives that
  address and the length of the string.
\<close>

theorem user_pointers_checked:
  assumes "unat (sz (procs s ! cur)) \<le> KB" "esp = load32 (kmemory s) (tf (procs s ! cur) + TF_ESP)"
  shows "(\<forall>a v. fetchint cur s a = Some v \<longleftrightarrow>
      unat a + 4 \<le> unat (sz (procs s ! cur)) \<and> v = load32 (kmemory s) a) \<and>
    (\<forall>n v. argint cur s n = Some v \<longleftrightarrow> unat (esp + 4 + 4 * of_nat n) + 4 \<le> unat (sz (procs s ! cur)) \<and>
      v = load32 (kmemory s) (esp + 4 + 4 * of_nat n)) \<and>
    (\<forall>n k a. argptr cur s n k = Some a \<longleftrightarrow> argint cur s n = Some a \<and> 0 \<le> sint k \<and>
      unat a < unat (sz (procs s ! cur)) \<and> unat a + nat (sint k) \<le> unat (sz (procs s ! cur))) \<and>
    (\<forall>n a l. argstr cur s n = Some (a, l) \<longleftrightarrow> argint cur s n = Some a \<and> a \<le> a + l \<and> a + l < sz (procs s ! cur) \<and>
      kmemory s (a + l) = 0 \<and> (\<forall>x. a \<le> x \<and> x < a + l \<longrightarrow> kmemory s x \<noteq> 0))"
proof (intro conjI allI)
  show "argstr cur s n = Some (a, l) \<longleftrightarrow> argint cur s n = Some a \<and> a \<le> a + l \<and> a + l < sz (procs s ! cur) \<and>
      kmemory s (a + l) = 0 \<and> (\<forall>x. a \<le> x \<and> x < a + l \<longrightarrow> kmemory s x \<noteq> 0)" for n a l
    by (cases "argint cur s n") (auto simp: argstr_def fetchstr_iff)
  show "argint cur s n = Some v \<longleftrightarrow> unat (esp + 4 + 4 * of_nat n) + 4 \<le> unat (sz (procs s ! cur)) \<and>
      v = load32 (kmemory s) (esp + 4 + 4 * of_nat n)" for n v
    unfolding argint_def assms(2) by (rule fetchint_iff [OF assms(1)])
qed (use argptr_iff [OF assms(1)] fetchint_iff [OF assms(1)] in blast)+

text \<open>A process of four pages whose first argument is the address 0x100.\<close>

definition arg_state :: ptable where
  "arg_state = sig_state\<lparr>procs := sig_proc\<lparr>sz := 0x4000\<rparr> # replicate 63 empty_proc,
     kmem := two_pages\<lparr>kmem_mem := store32 sig_mem 0x3004 0x100\<rparr>\<rparr>"

theorem user_pointers_checked_witness:
  "argptr 0 arg_state 0 8 = Some 0x100 \<and> argptr 0 arg_state 0 0x4000 = None \<and> argstr 0 arg_state 0 = Some (0x100, 0)"
proof -
  have sz: "sz (procs arg_state ! 0) = 0x4000" by (simp add: arg_state_def)
  have "load32 sig_mem 0x80401ff8 = 0x3000"
    unfolding sig_mem_def by (subst load32_store32_apart) simp_all
  then have esp: "0x3000 = load32 (kmemory arg_state) (tf (procs arg_state ! 0) + TF_ESP)"
    by (simp add: arg_state_def sig_proc_def load32_store32_apart)
  have m: "load32 (kmemory arg_state) 0x3004 = 0x100" "kmemory arg_state 0x100 = 0"
    by (simp add: arg_state_def) (simp add: arg_state_def sig_mem_def store32_def)
  note u = user_pointers_checked [of arg_state 0, OF _ esp, unfolded sz, simplified]
  have a: "argint 0 arg_state 0 = Some 0x100" using u m(1) by simp
  moreover have "sint (0x4000 :: cint) = 0x4000" "sint (8 :: cint) = 8" by simp_all
  moreover have "argstr 0 arg_state 0 = Some (0x100, 0)" using u a m(2) by (auto simp: not_less)
  ultimately show ?thesis using u by (cases "argptr 0 arg_state 0 0x4000") auto
qed

subsection \<open>Counting system calls\<close>

text \<open>A run of system calls: each puts its number in \<^verbatim>\<open>eax\<close> and traps.\<close>

primrec sys_run :: "(nat \<Rightarrow> 'a systable_scheme sysfun option) \<Rightarrow> nat \<Rightarrow> nat list \<Rightarrow> 'a systable_scheme \<Rightarrow>
    'a systable_scheme kres" where
  "sys_run calls cur [] s = Ret s"
| "sys_run calls cur (n # ns) s = kbind (syscall calls cur (set_eax cur (of_nat n) s)) (sys_run calls cur ns)"

definition keeps_counts :: "'a systable_scheme sysfun \<Rightarrow> bool" where
  "keeps_counts f \<longleftrightarrow> (\<forall>s r s'. f s = Ret (r, s') \<longrightarrow> trace s' = trace s \<and> countCalls s' = countCalls s)"

lemma set_eax_simps [simp]:
  "trace (set_eax cur v s) = trace s" "countCalls (set_eax cur v s) = countCalls s"
  "procs (set_eax cur v s) = procs s"
  "load32 (kmemory (set_eax cur v s)) (tf (procs s ! cur) + TF_EAX) = v"
  by (simp_all add: set_eax_def) (simp_all add: set_mem_def)

lemma sint_small: "n < NSYSCALLS \<Longrightarrow> sint (of_nat n :: cint) = int n"
  by (subst sint_unat_less) (simp_all add: unat_of_nat_32)

lemma syscall_dispatch:
  assumes "0 < n" "n < NSYSCALLS" "calls n = Some f"
  shows "syscall calls cur (set_eax cur (of_nat n) s) =
    kbind (f (if trace s = 1 then (set_eax cur (of_nat n) s)\<lparr>countCalls := (countCalls s)[n := countCalls s ! n + 1]\<rparr>
              else set_eax cur (of_nat n) s)) (\<lambda>(r, s). Ret (set_eax cur r s))"
  using assms by (simp add: syscall_def sint_small Let_def)

lemma sys_run_counts:
  assumes "\<forall>n\<in>set ns. 0 < n \<and> n < NSYSCALLS \<and> (\<exists>f. calls n = Some f \<and> keeps_counts f)"
    "trace s = 1" "length (countCalls s) = NSYSCALLS" "sys_run calls cur ns s = Ret s'"
  shows "trace s' = 1 \<and> (\<forall>k<NSYSCALLS. countCalls s' ! k = countCalls s ! k + of_nat (count_list ns k))"
  using assms
proof (induction ns arbitrary: s)
  case Nil
  then show ?case by simp
next
  case (Cons n ns)
  then obtain f where n: "0 < n" "n < NSYSCALLS" and f: "calls n = Some f" "keeps_counts f" by auto
  let ?s = "(set_eax cur (of_nat n) s)\<lparr>countCalls := (countCalls s)[n := countCalls s ! n + 1]\<rparr>"
  from Cons.prems(2,4) obtain r u where u: "f ?s = Ret (r, u)" "sys_run calls cur ns (set_eax cur r u) = Ret s'"
    by (auto simp: syscall_dispatch [OF n, of calls f, OF f(1)] kbind_Ret_iff split: prod.splits)
  then have "trace u = 1" "countCalls u = (countCalls s)[n := countCalls s ! n + 1]"
    using f(2) Cons.prems(2) unfolding keeps_counts_def by fastforce+
  with Cons.IH [of "set_eax cur r u"] Cons.prems(1,3) u(2) show ?case
    by (auto simp: nth_list_update)
qed

text \<open>
  C40. Tracing counts exactly. When tracing is off, \<^verbatim>\<open>toggle\<close> followed by any calls other than
  \<^verbatim>\<open>toggle\<close> leaves in each counter the number of times that call was made since, whatever
  the counters held before.
\<close>

theorem toggle_counts_calls:
  assumes "calls SYS_toggle = Some sys_toggle" "trace s = 0" "SYS_toggle \<notin> set ns"
    "\<forall>n\<in>set ns. 0 < n \<and> n < NSYSCALLS \<and> (\<exists>f. calls n = Some f \<and> keeps_counts f)"
    "sys_run calls cur (SYS_toggle # ns) s = Ret s'"
  shows "trace s' = 1 \<and> (\<forall>k<NSYSCALLS. countCalls s' ! k = of_nat (count_list ns k))"
proof -
  let ?s = "(set_eax cur 23 s)\<lparr>trace := 1, countCalls := replicate NSYSCALLS 0\<rparr>"
  have "syscall calls cur (set_eax cur (of_nat SYS_toggle) s) = Ret (set_eax cur 0 ?s)"
    using assms(1,2) syscall_dispatch [of SYS_toggle calls sys_toggle cur s]
    by (simp add: sys_toggle_def Let_def)
  then have "sys_run calls cur ns (set_eax cur 0 ?s) = Ret s'" using assms(5) by simp
  from sys_run_counts [OF assms(4) _ _ this] show ?thesis by simp
qed

lemma sys_run_returns:
  assumes "\<forall>n\<in>set ns. 0 < n \<and> n < NSYSCALLS \<and> (\<exists>f. calls n = Some f \<and> (\<forall>s. \<exists>r s'. f s = Ret (r, s')))"
  shows "\<exists>s'. sys_run calls cur ns s = Ret s'"
  using assms
proof (induction ns arbitrary: s)
  case (Cons n ns)
  then obtain f where n: "0 < n" "n < NSYSCALLS" "calls n = Some f" "\<forall>s. \<exists>r s'. f s = Ret (r, s')" by auto
  note d = syscall_dispatch [OF n(1,2), of calls f, OF n(3), of cur s]
  obtain r t where "f (if trace s = 1 then (set_eax cur (of_nat n) s)\<lparr>countCalls := (countCalls s)[n := countCalls s ! n + 1]\<rparr>
      else set_eax cur (of_nat n) s) = Ret (r, t)" using n(4) by blast
  then have "syscall calls cur (set_eax cur (of_nat n) s) = Ret (set_eax cur r t)"
    unfolding d by simp
  with Cons show ?case by simp
qed simp

definition count_calls :: "nat \<Rightarrow> systable sysfun option" where
  "count_calls n = Some (if n = SYS_toggle then sys_toggle else (\<lambda>s. Ret (0, s)))"

definition count_state :: systable where
  "count_state = \<lparr>ptlock = False, procs = procs boot_table, initproc = None, nextpid = 1, kmem = two_pages,
     trace = 0, countCalls = replicate NSYSCALLS 7\<rparr>"

theorem toggle_counts_calls_witness:
  "\<exists>s'. sys_run count_calls 0 [SYS_toggle, 11, 5, 11] count_state = Ret s' \<and>
     countCalls s' ! 11 = 2 \<and> countCalls s' ! 5 = 1 \<and> countCalls s' ! 6 = 0"
proof -
  have calls: "count_calls SYS_toggle = Some sys_toggle" by (simp add: count_calls_def)
  have keep: "keeps_counts (\<lambda>s :: systable. Ret (0, s))" by (simp add: keeps_counts_def)
  have "\<exists>r s'. sys_toggle s = Ret (r, s')" for s :: systable by (simp add: sys_toggle_def Let_def)
  then obtain s' where s': "sys_run count_calls 0 [SYS_toggle, 11, 5, 11] count_state = Ret s'"
    using sys_run_returns [of "[SYS_toggle, 11, 5, 11]" count_calls 0 count_state] by (auto simp: count_calls_def)
  have "\<forall>n\<in>set [11, 5, 11]. 0 < n \<and> n < NSYSCALLS \<and> (\<exists>f. count_calls n = Some f \<and> keeps_counts f)"
    using keep by (simp add: count_calls_def)
  moreover have "trace count_state = 0" by (simp add: count_state_def)
  ultimately show ?thesis
    using toggle_counts_calls [OF calls _ _ _ s'] s' by simp
qed

text \<open>
  \<^verbatim>\<open>sigret\<close> through the dispatcher: the frame is restored first and then its \<^verbatim>\<open>eax\<close> is overwritten
  with the return value 0 of \<^verbatim>\<open>sys_sigret\<close>.
\<close>

definition sys_sigret :: "nat \<Rightarrow> 'a ptable_scheme \<Rightarrow> (cint \<times> 'a ptable_scheme) kres" where
  "sys_sigret cur s = Ret (0, proc_sigret cur s)"

lemma sigret_loses_eax:
  assumes "calls 30 = Some (sys_sigret cur)" "syscall calls cur (set_eax cur 30 s) = Ret s'"
    "cur < length (procs s)"
  shows "load32 (kmemory s') (tf (procs s ! cur) + TF_EAX) = 0"
proof -
  obtain u where u: "s' = set_eax cur 0 u" "procs u ! cur = (procs s ! cur)\<lparr>dis_sig := 0\<rparr>"
    using assms syscall_dispatch [of 30 calls "sys_sigret cur" cur s]
    by (auto simp: sys_sigret_def proc_sigret_def Let_def split: if_splits)
  then show ?thesis using set_eax_simps(4) [of cur 0 u] by simp
qed

end
