(* ===== verification/Ipc.thy ===== *)
theory Ipc
  imports Syscall "HOL-Library.Multiset"
begin

text \<open>
  Message passing and the clock, \<^verbatim>\<open>src/xv6A1/sysproc.c\<close>: the mailbox behind \<^verbatim>\<open>send\<close> and \<^verbatim>\<open>recv\<close>,
  the multicast \<^verbatim>\<open>send_multi\<close>, and \<^verbatim>\<open>sleep\<close>, \<^verbatim>\<open>uptime\<close>. Calls that may sleep return either a
  result or the channel they sleep on, and a second function is the rest of the call after the
  wakeup. The handlers ignore failures of the argument fetches, after which their local variables
  keep arbitrary values: \<open>junk n\<close> is what the variable for argument \<open>n\<close> holds.
\<close>

record kernel = systable +
  memLock :: bool
  msgs :: "uchar list list"
  msg_from :: "cint list"
  dest :: "cint list"
  waiting :: "cint list"
  wait_msgs :: "uchar list"
  tickslock :: bool
  ticks :: uint

abbreviation "MSG_SP \<equiv> (1024 :: nat)"

datatype 'a blocking = Done 'a | Sleeping chan

subsection \<open>Operations\<close>

definition arg_or_junk :: "(nat \<Rightarrow> uint) \<Rightarrow> nat \<Rightarrow> uint option \<Rightarrow> uint" where
  "arg_or_junk junk n v = (case v of Some x \<Rightarrow> x | None \<Rightarrow> junk n)"

text \<open>A copy into a byte array of the kernel; bytes past its end are undefined.\<close>

definition put_bytes :: "uchar list \<Rightarrow> int \<Rightarrow> uchar list \<Rightarrow> uchar list kres" where
  "put_bytes xs i bs =
     (if 0 \<le> i \<and> i + int (length bs) \<le> int (length xs)
      then Ret (take (nat i) xs @ bs @ drop (nat i + length bs) xs)
      else Fault ''copy past the end of an array'')"

definition mem_acquire :: "'a kernel_scheme \<Rightarrow> 'a kernel_scheme kres" where
  "mem_acquire s = kbind (lock_acquire (memLock s)) (\<lambda>h. Ret (s\<lparr>memLock := h\<rparr>))"

definition mem_release :: "'a kernel_scheme \<Rightarrow> 'a kernel_scheme kres" where
  "mem_release s = kbind (lock_release (memLock s)) (\<lambda>h. Ret (s\<lparr>memLock := h\<rparr>))"

definition sys_send :: "(nat \<Rightarrow> uint) \<Rightarrow> nat \<Rightarrow> 'a kernel_scheme \<Rightarrow> (cint \<times> 'a kernel_scheme) kres" where
  "sys_send junk cur s =
     (let sender_pid = arg_or_junk junk 0 (argint cur s 0);
          rec_pid = arg_or_junk junk 1 (argint cur s 1);
          str = arg_or_junk junk 2 (argptr cur s 2 8)
      in kbind (mem_acquire s) (\<lambda>s.
         kbind (aget (waiting s) (sint rec_pid)) (\<lambda>w.
           if w = 1 then
             kbind (put_bytes (wait_msgs s) (sint rec_pid) (read_bytes (kmemory s) str MSGSIZE)) (\<lambda>wm.
             kbind (aset (waiting s) (sint rec_pid) 0) (\<lambda>wt.
             kbind (wakeup (ChPid (sint rec_pid)) (s\<lparr>wait_msgs := wm, waiting := wt\<rparr>)) (\<lambda>s.
             kbind (mem_release s) (\<lambda>s. Ret (0, s)))))
           else
             (case first_index (\<lambda>d. sint d \<le> 0) (dest s) of
                Some i \<Rightarrow>
                  let s = s\<lparr>msgs := (msgs s)[i := read_bytes (kmemory s) str MSGSIZE],
                            msg_from := (msg_from s)[i := sender_pid],
                            dest := (dest s)[i := rec_pid]\<rparr>
                  in kbind (mem_release s) (\<lambda>s. Ret (0, s))
              | None \<Rightarrow> Ret (-1, s)))))"

definition empty_msg :: "uchar list" where
  "empty_msg = replicate 7 32 @ [0]"

text \<open>The bytes of a pointer as \<^verbatim>\<open>argptr\<close> stores it.\<close>

definition bytes32 :: "uint \<Rightarrow> uchar list" where
  "bytes32 v = [ucast v, ucast (drop_bit 8 v), ucast (drop_bit 16 v), ucast (drop_bit 24 v)]"

definition sys_recv :: "(nat \<Rightarrow> uint) \<Rightarrow> nat \<Rightarrow> 'a kernel_scheme \<Rightarrow> (cint blocking \<times> 'a kernel_scheme) kres" where
  "sys_recv junk cur s =
     (let str = arg_or_junk junk 0 (argptr cur s 0 8);
          caller_pid = pid (procs s ! cur)
      in kbind (mem_acquire s) (\<lambda>s.
           case first_index (\<lambda>d. d = caller_pid) (dest s) of
             Some i \<Rightarrow>
               let s = set_mem (write_bytes (kmemory s) str (msgs s ! i)) s;
                   s = s\<lparr>dest := (dest s)[i := -1], msgs := (msgs s)[i := empty_msg]\<rparr>
               in kbind (mem_release s) (\<lambda>s. Ret (Done 0, s))
           | None \<Rightarrow>
               kbind (aset (waiting s) (sint caller_pid) 1) (\<lambda>wt.
               kbind (case argptr cur s 0 4 of
                        None \<Rightarrow> Ret (wait_msgs s)
                      | Some a \<Rightarrow> put_bytes (wait_msgs s) (sint caller_pid) (bytes32 a)) (\<lambda>wm.
               kbind (sleep_enter (Some cur) (ChPid (sint caller_pid)) (Some (memLock s))
                        (s\<lparr>waiting := wt, wait_msgs := wm\<rparr>)) (\<lambda>(lk, s).
                 Ret (Sleeping (ChPid (sint caller_pid)), s\<lparr>memLock := the lk\<rparr>))))))"

definition sys_recv_resume :: "nat \<Rightarrow> 'a kernel_scheme \<Rightarrow> (cint \<times> 'a kernel_scheme) kres" where
  "sys_recv_resume cur s =
     kbind (sleep_exit cur (Some (memLock s)) s) (\<lambda>(lk, s).
     kbind (mem_release (s\<lparr>memLock := the lk\<rparr>)) (\<lambda>s. Ret (0, s)))"

text \<open>The loop of \<^verbatim>\<open>send_multi\<close> from receiver \<open>i\<close> on, \<open>n\<close> receivers to go.\<close>

primrec send_multi_loop :: "cint \<Rightarrow> uint \<Rightarrow> uint \<Rightarrow> nat \<Rightarrow> nat \<Rightarrow> 'a kernel_scheme \<Rightarrow>
    (cint \<times> 'a kernel_scheme) kres" where
  "send_multi_loop caller rec_p str i 0 s = kbind (mem_release s) (\<lambda>s. Ret (0, s))"
| "send_multi_loop caller rec_p str i (Suc n) s =
     kbind (proc_sigsend caller (load32 (kmemory s) (rec_p + 4 * of_nat i)) str s) (\<lambda>(retval, s).
       if retval < 0 then kbind (mem_release s) (\<lambda>s. Ret (-1, s))
       else send_multi_loop caller rec_p str (i + 1) n s)"

definition sys_send_multi :: "(nat \<Rightarrow> uint) \<Rightarrow> nat \<Rightarrow> 'a kernel_scheme \<Rightarrow> (cint \<times> 'a kernel_scheme) kres" where
  "sys_send_multi junk cur s =
     (let rec_p = arg_or_junk junk 1 (argptr cur s 1 64);
          str = arg_or_junk junk 2 (argptr cur s 2 8);
          num_recivers = arg_or_junk junk 3 (argint cur s 3);
          caller_pid = pid (procs s ! cur)
      in kbind (mem_acquire s) (\<lambda>s.
           send_multi_loop caller_pid rec_p str 0 (nat (sint num_recivers)) s))"

definition sys_sigset :: "(nat \<Rightarrow> uint) \<Rightarrow> nat \<Rightarrow> 'a ptable_scheme \<Rightarrow> (cint \<times> 'a ptable_scheme) kres" where
  "sys_sigset junk cur s = proc_sigset cur (arg_or_junk junk 0 (argint cur s 0)) s"

definition sys_sigsend :: "'a ptable_scheme \<Rightarrow> (cint \<times> 'a ptable_scheme) kres" where
  "sys_sigsend s = Ret (0, s)"

definition sys_kill :: "nat \<Rightarrow> 'a ptable_scheme \<Rightarrow> (cint \<times> 'a ptable_scheme) kres" where
  "sys_kill cur s =
     (case argint cur s 0 of
        None \<Rightarrow> Ret (-1, s)
      | Some n \<Rightarrow> kbind (kill n s) (\<lambda>(r, s). Ret (of_int r, s)))"

definition sys_getpid :: "nat \<Rightarrow> 'a ptable_scheme \<Rightarrow> (cint \<times> 'a ptable_scheme) kres" where
  "sys_getpid cur s = Ret (pid (procs s ! cur), s)"

definition sys_add :: "(nat \<Rightarrow> uint) \<Rightarrow> nat \<Rightarrow> 'a ptable_scheme \<Rightarrow> (cint \<times> 'a ptable_scheme) kres" where
  "sys_add junk cur s = Ret (arg_or_junk junk 0 (argint cur s 0) + arg_or_junk junk 1 (argint cur s 1), s)"

definition sys_ps :: "'a ptable_scheme \<Rightarrow> ((cint \<times> uchar list) list \<times> cint \<times> 'a ptable_scheme) kres" where
  "sys_ps s = kbind (list_running s) (\<lambda>(out, s). Ret (out, 0, s))"

subsection \<open>The clock\<close>

definition ticks_acquire :: "'a kernel_scheme \<Rightarrow> 'a kernel_scheme kres" where
  "ticks_acquire s = kbind (lock_acquire (tickslock s)) (\<lambda>h. Ret (s\<lparr>tickslock := h\<rparr>))"

definition ticks_release :: "'a kernel_scheme \<Rightarrow> 'a kernel_scheme kres" where
  "ticks_release s = kbind (lock_release (tickslock s)) (\<lambda>h. Ret (s\<lparr>tickslock := h\<rparr>))"

text \<open>
  The loop of \<^verbatim>\<open>sys_sleep\<close>, with \<^verbatim>\<open>tickslock\<close> held. In \<^verbatim>\<open>ticks - ticks0 < n\<close> the C rules convert
  \<open>n\<close> to unsigned.
\<close>

definition sleep_check :: "nat \<Rightarrow> uint \<Rightarrow> cint \<Rightarrow> 'a kernel_scheme \<Rightarrow> (cint blocking \<times> 'a kernel_scheme) kres" where
  "sleep_check cur ticks0 n s =
     (if ticks s - ticks0 < n then
        if killed (procs s ! cur) then kbind (ticks_release s) (\<lambda>s. Ret (Done (-1), s))
        else kbind (sleep_enter (Some cur) ChTicks (Some (tickslock s)) s) (\<lambda>(lk, s).
               Ret (Sleeping ChTicks, s\<lparr>tickslock := the lk\<rparr>))
      else kbind (ticks_release s) (\<lambda>s. Ret (Done 0, s)))"

definition sys_sleep :: "nat \<Rightarrow> 'a kernel_scheme \<Rightarrow> (cint blocking \<times> 'a kernel_scheme) kres" where
  "sys_sleep cur s =
     (case argint cur s 0 of
        None \<Rightarrow> Ret (Done (-1), s)
      | Some n \<Rightarrow> kbind (ticks_acquire s) (\<lambda>s. sleep_check cur (ticks s) n s))"

definition sys_sleep_resume :: "nat \<Rightarrow> uint \<Rightarrow> cint \<Rightarrow> 'a kernel_scheme \<Rightarrow> (cint blocking \<times> 'a kernel_scheme) kres" where
  "sys_sleep_resume cur ticks0 n s =
     kbind (sleep_exit cur (Some (tickslock s)) s) (\<lambda>(lk, s).
       sleep_check cur ticks0 n (s\<lparr>tickslock := the lk\<rparr>))"

definition sys_uptime :: "'a kernel_scheme \<Rightarrow> (cint \<times> 'a kernel_scheme) kres" where
  "sys_uptime s =
     kbind (ticks_acquire s) (\<lambda>s.
       let xticks = ticks s in kbind (ticks_release s) (\<lambda>s. Ret (xticks, s)))"

text \<open>The clock interrupt, the timer case of \<^verbatim>\<open>trap\<close> on processor 0.\<close>

definition timer_tick :: "'a kernel_scheme \<Rightarrow> 'a kernel_scheme kres" where
  "timer_tick s =
     kbind (ticks_acquire s) (\<lambda>s.
     kbind (wakeup ChTicks (s\<lparr>ticks := ticks s + 1\<rparr>)) (\<lambda>s. ticks_release s))"

subsection \<open>The mailbox as a bag of addressed messages\<close>

definition ipc_inv :: "'a kernel_scheme \<Rightarrow> bool" where
  "ipc_inv s \<longleftrightarrow> length (msgs s) = MSG_SP \<and> length (msg_from s) = MSG_SP \<and> length (dest s) = MSG_SP \<and>
     length (waiting s) = NPROC \<and> length (wait_msgs s) = NPROC \<and> (\<forall>m\<in>set (msgs s). length m = MSGSIZE)"

definition mailbox :: "'a kernel_scheme \<Rightarrow> (cint \<times> uchar list) multiset" where
  "mailbox s = mset (filter (\<lambda>(d, m). 0 < sint d) (zip (dest s) (msgs s)))"

lemma mset_filter_update:
  assumes "i < length xs"
  shows "mset (filter P (xs[i := v])) =
    mset (filter P xs) - (if P (xs ! i) then {#xs ! i#} else {#}) + (if P v then {#v#} else {#})"
  using assms by (simp add: mset_update)

lemma mem_lock_simps [pt_simps]:
  "\<not> memLock s \<Longrightarrow> mem_acquire s = Ret (s\<lparr>memLock := True\<rparr>)"
  "memLock s \<Longrightarrow> mem_acquire s = Panic ''acquire''"
  "memLock s \<Longrightarrow> mem_release s = Ret (s\<lparr>memLock := False\<rparr>)"
  by (simp_all add: mem_acquire_def mem_release_def)

lemma memLock_same [pt_simps]: "\<not> memLock s \<Longrightarrow> s\<lparr>memLock := False\<rparr> = s"
  by (cases s) simp

lemma wakeup1_kernel [simp]:
  "memLock (wakeup1 c s) = memLock s" "msgs (wakeup1 c s) = msgs s" "dest (wakeup1 c s) = dest s"
  "wakeup1 c (s\<lparr>memLock := b\<rparr>) = (wakeup1 c s)\<lparr>memLock := b\<rparr>"
  by (simp_all add: wakeup1_def)

text \<open>The arguments of a \<^verbatim>\<open>send\<close> as the handler sees them.\<close>

definition send_dest :: "(nat \<Rightarrow> uint) \<Rightarrow> nat \<Rightarrow> 'a kernel_scheme \<Rightarrow> cint" where
  "send_dest junk cur s = arg_or_junk junk 1 (argint cur s 1)"

definition send_msg :: "(nat \<Rightarrow> uint) \<Rightarrow> nat \<Rightarrow> 'a kernel_scheme \<Rightarrow> uchar list" where
  "send_msg junk cur s = read_bytes (kmemory s) (arg_or_junk junk 2 (argptr cur s 2 8)) MSGSIZE"

lemma sys_send_slot:
  assumes "ipc_inv s" "\<not> memLock s" "0 \<le> sint (send_dest junk cur s)" "sint (send_dest junk cur s) < int NPROC"
    "waiting s ! nat (sint (send_dest junk cur s)) \<noteq> 1"
  shows "sys_send junk cur s =
    (case first_index (\<lambda>d. sint d \<le> 0) (dest s) of
       Some i \<Rightarrow> Ret (0, s\<lparr>memLock := False, msgs := (msgs s)[i := send_msg junk cur s],
          msg_from := (msg_from s)[i := arg_or_junk junk 0 (argint cur s 0)],
          dest := (dest s)[i := send_dest junk cur s]\<rparr>)
     | None \<Rightarrow> Ret (-1, s\<lparr>memLock := True\<rparr>))"
  using assms
  by (simp add: sys_send_def send_dest_def send_msg_def Let_def pt_simps ipc_inv_def split: option.split)

text \<open>
  C37. A \<^verbatim>\<open>send\<close> to a process that is not blocked in \<^verbatim>\<open>recv\<close>, while the mailbox has a free
  entry, returns 0 and adds exactly the addressed message to the bag of pending messages.
\<close>

theorem send_adds_message:
  assumes "ipc_inv s" "\<not> memLock s" "0 < sint (send_dest junk cur s)" "sint (send_dest junk cur s) < int NPROC"
    "waiting s ! nat (sint (send_dest junk cur s)) \<noteq> 1" "\<exists>d\<in>set (dest s). sint d \<le> 0"
  shows "\<exists>s'. sys_send junk cur s = Ret (0, s') \<and> ipc_inv s' \<and> \<not> memLock s' \<and>
    mailbox s' = add_mset (send_dest junk cur s, send_msg junk cur s) (mailbox s)"
proof -
  obtain i where i: "first_index (\<lambda>d. sint d \<le> 0) (dest s) = Some i"
    using assms(6) first_index_ex by metis
  then have d: "i < length (dest s)" "\<not> 0 < sint (dest s ! i)" by (simp_all add: first_index_Some)
  have len: "length (dest s) = length (msgs s)" using assms(1) by (simp add: ipc_inv_def)
  have "mset (filter (\<lambda>(d, m). 0 < sint d) ((zip (dest s) (msgs s))[i := (send_dest junk cur s, send_msg junk cur s)])) =
      add_mset (send_dest junk cur s, send_msg junk cur s) (mailbox s)"
    using d len assms(3) by (subst mset_filter_update) (simp_all add: mailbox_def)
  then have "mailbox (s\<lparr>memLock := False, msgs := (msgs s)[i := send_msg junk cur s],
        msg_from := (msg_from s)[i := arg_or_junk junk 0 (argint cur s 0)],
        dest := (dest s)[i := send_dest junk cur s]\<rparr>) =
      add_mset (send_dest junk cur s, send_msg junk cur s) (mailbox s)"
    by (simp add: mailbox_def zip_update)
  moreover have "length (send_msg junk cur s) = MSGSIZE" by (simp add: send_msg_def)
  ultimately show ?thesis
    using sys_send_slot [OF assms(1,2) _ assms(4,5)] assms(1,3) i set_update_subset_insert [of "msgs s" i]
    by (auto simp: ipc_inv_def)
qed

text \<open>
  A process with pid 1 and size 0x4000 whose stack holds the arguments 1, 2 and 0x100, and a mailbox
  with the given destinations.
\<close>

definition ipc_state :: "cint list \<Rightarrow> kernel" where
  "ipc_state ds = \<lparr>ptlock = False, procs = sig_proc\<lparr>sz := 0x4000\<rparr> # replicate 63 empty_proc, initproc = None,
     nextpid = 2,
     kmem = two_pages\<lparr>kmem_mem := store32 (store32 (store32 sig_mem 0x3004 1) 0x3008 2) 0x300c 0x100\<rparr>,
     trace = 0, countCalls = replicate NSYSCALLS 0,
     memLock = False, msgs = replicate MSG_SP empty_msg, msg_from = replicate MSG_SP 0, dest = ds,
     waiting = replicate NPROC 0, wait_msgs = replicate NPROC 0, tickslock = False, ticks = 0\<rparr>"

lemma ipc_state_args:
  "argint 0 (ipc_state ds) 0 = Some 1" "argint 0 (ipc_state ds) 1 = Some 2" "argptr 0 (ipc_state ds) 2 8 = Some 0x100"
  "argptr 0 (ipc_state ds) 0 8 = Some 1" "argptr 0 (ipc_state ds) 0 4 = Some 1"
proof -
  have sz: "unat (sz (procs (ipc_state ds) ! 0)) = 0x4000" by (simp add: ipc_state_def)
  have m: "kmemory (ipc_state ds) = store32 (store32 (store32 sig_mem 0x3004 1) 0x3008 2) 0x300c 0x100"
    "tf (procs (ipc_state ds) ! 0) + TF_ESP = 0x80401ff8"
    by (simp_all add: ipc_state_def sig_proc_def)
  have esp: "load32 (kmemory (ipc_state ds)) (tf (procs (ipc_state ds) ! 0) + TF_ESP) = 0x3000"
    unfolding m by (simp add: load32_store32_apart) (simp add: sig_mem_def load32_store32_apart)
  have w: "load32 (kmemory (ipc_state ds)) 0x3004 = 1" "load32 (kmemory (ipc_state ds)) 0x3008 = 2"
    "load32 (kmemory (ipc_state ds)) 0x300c = 0x100"
    unfolding m by (simp_all add: load32_store32_apart)
  show "argint 0 (ipc_state ds) 0 = Some 1" "argint 0 (ipc_state ds) 1 = Some 2"
    by (simp_all add: argint_def fetchint_iff sz esp w)
  then show "argptr 0 (ipc_state ds) 2 8 = Some 0x100" "argptr 0 (ipc_state ds) 0 8 = Some 1" "argptr 0 (ipc_state ds) 0 4 = Some 1"
    by (simp_all add: argptr_iff sz argint_def fetchint_iff esp w)
qed

lemma ipc_state_inv:
  "length ds = MSG_SP \<Longrightarrow> ipc_inv (ipc_state ds)" "\<not> memLock (ipc_state ds)" "\<not> ptlock (ipc_state ds)"
  "waiting (ipc_state ds) = replicate NPROC 0" "dest (ipc_state ds) = ds" "pid (procs (ipc_state ds) ! 0) = 1"
  "send_dest junk 0 (ipc_state ds) = 2" "msgs (ipc_state ds) = replicate MSG_SP empty_msg"
  by (simp_all add: send_dest_def ipc_state_args arg_or_junk_def del: One_nat_def)
    (simp_all add: ipc_state_def ipc_inv_def empty_msg_def sig_proc_def)

theorem send_adds_message_witness:
  "\<exists>s'. sys_send (\<lambda>_. 0) 0 (ipc_state (replicate MSG_SP 0)) = Ret (0, s') \<and>
     mailbox s' = {#(2, send_msg (\<lambda>_. 0) 0 (ipc_state (replicate MSG_SP 0)))#}"
proof -
  have "mailbox (ipc_state (replicate MSG_SP 0)) = {#}"
    by (simp add: mailbox_def ipc_state_inv filter_replicate del: mset_filter)
  then show ?thesis
    using send_adds_message [of "ipc_state (replicate MSG_SP 0)" "\<lambda>_. 0" 0] by (auto simp: ipc_state_inv)
qed



text \<open>
  C38. A \<^verbatim>\<open>recv\<close> with a message pending returns 0, copies one of the messages addressed to the
  caller to its buffer and removes exactly that message.
\<close>

theorem recv_takes_message:
  assumes "ipc_inv s" "\<not> memLock s" "pid (procs s ! cur) \<in> set (dest s)" "0 < sint (pid (procs s ! cur))"
    "argptr cur s 0 8 = Some str"
  shows "\<exists>m s'. sys_recv junk cur s = Ret (Done 0, s') \<and> ipc_inv s' \<and> \<not> memLock s' \<and>
    (pid (procs s ! cur), m) \<in># mailbox s \<and>
    mailbox s' = mailbox s - {#(pid (procs s ! cur), m)#} \<and> read_bytes (kmemory s') str MSGSIZE = m"
proof -
  let ?p = "pid (procs s ! cur)"
  obtain i where i: "first_index (\<lambda>d. d = ?p) (dest s) = Some i"
    using first_index_ex [OF assms(3), of "\<lambda>d. d = ?p"] by blast
  then have d: "i < length (dest s)" "dest s ! i = ?p" by (simp_all add: first_index_Some)
  have len: "length (dest s) = length (msgs s)" "length (msgs s ! i) = MSGSIZE"
    using assms(1) d(1) by (auto simp: ipc_inv_def)
  let ?m = "msgs s ! i" and ?b = "set_mem (write_bytes (kmemory s) str (msgs s ! i)) s"
  let ?s = "?b\<lparr>memLock := False, dest := (dest s)[i := -1], msgs := (msgs s)[i := empty_msg]\<rparr>"
  have r: "sys_recv junk cur s = Ret (Done 0, ?s)"
    using i assms(2,5) by (simp add: sys_recv_def Let_def pt_simps arg_or_junk_def set_mem_def)
  have zi: "zip (dest s) (msgs s) ! i = (?p, ?m)" using d len by simp
  have "(?p, ?m) \<in> set (zip (dest s) (msgs s))"
    using d len by (metis length_zip min.idem nth_mem zi)
  then have "(?p, ?m) \<in># mailbox s"
    using assms(4) by (simp add: mailbox_def)
  moreover have "mset (filter (\<lambda>(d, m). 0 < sint d) ((zip (dest s) (msgs s))[i := (-1, empty_msg)])) =
      mailbox s - {#(?p, ?m)#}"
    using d len assms(4) zi by (subst mset_filter_update) (simp_all add: mailbox_def)
  then have "mailbox ?s = mailbox s - {#(?p, ?m)#}"
    by (simp add: mailbox_def zip_update)
  moreover have "read_bytes (kmemory ?s) str MSGSIZE = ?m"
    using read_write_bytes [of ?m "kmemory s" str] len by simp
  moreover have "length empty_msg = MSGSIZE" by (simp add: empty_msg_def)
  then have "ipc_inv ?s"
    using assms(1) set_update_subset_insert [of "msgs s" i empty_msg]
    by (auto simp: ipc_inv_def set_mem_def)
  ultimately show ?thesis using r by fastforce
qed

theorem recv_takes_message_witness:
  "\<exists>m s'. sys_recv (\<lambda>_. 0) 0 (ipc_state (replicate MSG_SP 1)) = Ret (Done 0, s') \<and> read_bytes (kmemory s') 1 MSGSIZE = m"
  using recv_takes_message [of "ipc_state (replicate MSG_SP 1)" 0 1 "\<lambda>_. 0"] by (auto simp: ipc_state_inv ipc_state_args)

text \<open>
  A message sent to a process that is blocked in \<^verbatim>\<open>recv\<close> is lost. \<^verbatim>\<open>send\<close> copies it to
  \<^verbatim>\<open>wait_msgs\<close> and wakes the receiver; \<^verbatim>\<open>recv\<close> then returns 0, but the memory of the
  receiver is what it was, and the message is not in the mailbox either.
\<close>

theorem blocked_recv_loses_message:
  assumes "ipc_inv s" "\<not> memLock s" "\<not> ptlock s" "cur < length (procs s)"
    "waiting s ! nat (sint (send_dest junk snd_cur s)) = 1"
    "0 \<le> sint (send_dest junk snd_cur s)" "sint (send_dest junk snd_cur s) + 8 \<le> int NPROC"
    "pchan (procs s ! cur) = ChPid (sint (send_dest junk snd_cur s))" "pstate (procs s ! cur) = SLEEPING"
  shows "\<exists>s'. sys_send junk snd_cur s = Ret (0, s') \<and> pstate (procs s' ! cur) = RUNNABLE \<and>
    mailbox s' = mailbox s \<and>
    (\<exists>s''. sys_recv_resume cur (s'\<lparr>ptlock := True\<rparr>) = Ret (0, s'') \<and> kmemory s'' = kmemory s \<and>
       mailbox s'' = mailbox s)"
proof -
  let ?r = "sint (send_dest junk snd_cur s)"
  have p: "length (waiting s) = NPROC" "length (wait_msgs s) = NPROC" using assms(1) by (simp_all add: ipc_inv_def)
  let ?wm = "take (nat ?r) (wait_msgs s) @ send_msg junk snd_cur s @ drop (nat ?r + 8) (wait_msgs s)"
  let ?s = "wakeup1 (ChPid ?r) (s\<lparr>wait_msgs := ?wm, waiting := (waiting s)[nat ?r := 0]\<rparr>)"
  have "length (send_msg junk snd_cur s) = 8" by (simp add: send_msg_def)
  then have "sys_send junk snd_cur s = Ret (0, ?s)"
    using assms(2,3,5-7) p
    by (simp add: sys_send_def send_dest_def send_msg_def put_bytes_def Let_def pt_simps wakeup_eq)
      (cases s, simp add: wakeup1_def)
  moreover have "pstate (procs ?s ! cur) = RUNNABLE"
    using assms(4,8,9) by (simp add: wakeup1_nth)
  moreover have m: "mailbox ?s = mailbox s" "kmemory ?s = kmemory s" "\<not> memLock ?s"
    using assms(2) by (simp_all add: mailbox_def)
  moreover have "sys_recv_resume cur (?s\<lparr>ptlock := True\<rparr>) =
      Ret (0, (upd_proc cur (\<lambda>p. p\<lparr>pchan := ChNull\<rparr>) ?s)\<lparr>ptlock := False, memLock := False\<rparr>)"
    using m(3) by (simp add: sys_recv_resume_def sleep_exit_def Let_def pt_simps upd_proc_def)
  ultimately show ?thesis
    by (auto simp: mailbox_def upd_proc_def)
qed

text \<open>Process 2 in slot 1 is blocked in \<^verbatim>\<open>recv\<close>.\<close>

definition blocked_state :: kernel where
  "blocked_state = (ipc_state (replicate MSG_SP 0))
     \<lparr>procs := [sig_proc\<lparr>sz := 0x4000\<rparr>, empty_proc\<lparr>pstate := SLEEPING, pid := 2, pchan := ChPid 2\<rparr>] @
        replicate 62 empty_proc,
      waiting := (replicate NPROC 0)[2 := 1]\<rparr>"

lemma blocked_state_ok:
  "ipc_inv blocked_state" "\<not> memLock blocked_state" "\<not> ptlock blocked_state" "1 < length (procs blocked_state)"
  "waiting blocked_state ! 2 = 1" "send_dest junk 0 blocked_state = 2" "procs blocked_state ! 1 = empty_proc\<lparr>pstate := SLEEPING, pid := 2, pchan := ChPid 2\<rparr>"
proof -
  have "argint 0 blocked_state 1 = argint 0 (ipc_state (replicate MSG_SP 0)) 1"
    by (simp add: argint_def fetchint_def blocked_state_def ipc_state_def)
  then show "send_dest junk 0 blocked_state = 2"
    by (simp add: send_dest_def ipc_state_args arg_or_junk_def del: One_nat_def)
qed (simp_all add: blocked_state_def ipc_state_def ipc_inv_def empty_msg_def)

theorem blocked_recv_loses_message_witness:
  "\<exists>s'. sys_send (\<lambda>_. 0) 0 blocked_state = Ret (0, s') \<and>
    (\<exists>s''. sys_recv_resume 1 (s'\<lparr>ptlock := True\<rparr>) = Ret (0, s'') \<and> kmemory s'' = kmemory blocked_state)"
  using blocked_recv_loses_message [of blocked_state 1 "\<lambda>_. 0" 0] blocked_state_ok
  by (auto simp del: One_nat_def)

text \<open>The receiver's pid is an index without a check: a pid of \<^verbatim>\<open>NPROC\<close> or more is out of bounds.\<close>

lemma send_pid_out_of_bounds:
  assumes "ipc_inv s" "\<not> memLock s" "int NPROC \<le> sint (send_dest junk cur s)"
  shows "\<exists>e. sys_send junk cur s = Fault e"
  using assms by (simp add: sys_send_def send_dest_def Let_def pt_simps aget_def ipc_inv_def)

text \<open>
  \<^verbatim>\<open>sleep(n)\<close> returns 0 only when at least \<open>n\<close> ticks, counted modulo the width of the counter,
  have passed since it started; a killed process gets -1; otherwise it sleeps again.
\<close>

lemma sleep_check_cases:
  assumes "tickslock s" "\<not> ptlock s" "cur < length (procs s)"
  shows "n \<le> ticks s - ticks0 \<Longrightarrow> sleep_check cur ticks0 n s = Ret (Done 0, s\<lparr>tickslock := False\<rparr>)"
    and "ticks s - ticks0 < n \<Longrightarrow> killed (procs s ! cur) \<Longrightarrow>
      sleep_check cur ticks0 n s = Ret (Done (-1), s\<lparr>tickslock := False\<rparr>)"
    and "ticks s - ticks0 < n \<Longrightarrow> \<not> killed (procs s ! cur) \<Longrightarrow>
      \<exists>s'. sleep_check cur ticks0 n s = Ret (Sleeping ChTicks, s') \<and> pstate (procs s' ! cur) = SLEEPING \<and>
        pchan (procs s' ! cur) = ChTicks \<and> \<not> tickslock s'"
  using assms
  by (simp_all add: sleep_check_def ticks_release_def sleep_enter_def pt_simps sched_checks_def sleep_mark_def Let_def)

end
