(* ===== verification/Sleeplock.thy ===== *)
theory Sleeplock
  imports Ipc
begin

text \<open>
  Sleep locks, \<^verbatim>\<open>src/xv6A1/sleeplock.c\<close>. A lock that is taken makes the caller sleep, which is
  the result \<^const>\<open>Block\<close> of \<^verbatim>\<open>acquiresleep\<close>; \<open>c\<close> is the channel of the lock and \<open>me\<close> the pid
  of the calling process.
\<close>

record sleeplock =
  sl_lk :: bool
  sl_locked :: bool
  sl_pid :: cint

definition initsleeplock :: sleeplock where
  "initsleeplock = \<lparr>sl_lk = False, sl_locked = False, sl_pid = 0\<rparr>"

definition acquiresleep :: "chan \<Rightarrow> cint \<Rightarrow> sleeplock \<Rightarrow> sleeplock kres" where
  "acquiresleep c me l =
     kbind (lock_acquire (sl_lk l)) (\<lambda>h.
       if sl_locked l then Block c
       else kbind (lock_release h) (\<lambda>h. Ret (l\<lparr>sl_lk := h, sl_locked := True, sl_pid := me\<rparr>)))"

definition releasesleep :: "chan \<Rightarrow> sleeplock \<Rightarrow> 'a ptable_scheme \<Rightarrow> (sleeplock \<times> 'a ptable_scheme) kres" where
  "releasesleep c l s =
     kbind (lock_acquire (sl_lk l)) (\<lambda>h.
     kbind (wakeup c s) (\<lambda>s.
     kbind (lock_release h) (\<lambda>h. Ret (l\<lparr>sl_lk := h, sl_locked := False, sl_pid := 0\<rparr>, s))))"

definition holdingsleep :: "cint \<Rightarrow> sleeplock \<Rightarrow> bool kres" where
  "holdingsleep me l =
     kbind (lock_acquire (sl_lk l)) (\<lambda>h.
       let r = sl_locked l \<and> sl_pid l = me
       in kbind (lock_release h) (\<lambda>_. Ret r))"

subsection \<open>The lock discipline\<close>

definition slfree :: "sleeplock \<Rightarrow> bool" where
  "slfree l \<longleftrightarrow> \<not> sl_lk l \<and> \<not> sl_locked l"

definition slheld :: "cint \<Rightarrow> sleeplock \<Rightarrow> bool" where
  "slheld me l \<longleftrightarrow> \<not> sl_lk l \<and> sl_locked l \<and> sl_pid l = me"

lemma acquiresleep_free: "slfree l \<Longrightarrow> acquiresleep c me l = Ret (l\<lparr>sl_lk := False, sl_locked := True, sl_pid := me\<rparr>)"
  by (simp add: acquiresleep_def slfree_def)

lemma acquiresleep_taken: "\<not> sl_lk l \<Longrightarrow> sl_locked l \<Longrightarrow> acquiresleep c me l = Block c"
  by (simp add: acquiresleep_def)

lemma releasesleep_eq:
  "\<not> sl_lk l \<Longrightarrow> \<not> ptlock s \<Longrightarrow>
    releasesleep c l s = Ret (l\<lparr>sl_lk := False, sl_locked := False, sl_pid := 0\<rparr>, wakeup1 c s)"
  by (simp add: releasesleep_def wakeup_eq)

lemma holdingsleep_eq: "\<not> sl_lk l \<Longrightarrow> holdingsleep me l = Ret (sl_locked l \<and> sl_pid l = me)"
  by (simp add: holdingsleep_def Let_def)

lemma slheld_acquired [simp]: "slheld me (l\<lparr>sl_lk := False, sl_locked := True, sl_pid := me\<rparr>)"
  by (simp add: slheld_def)

lemma slfree_released [simp]: "slfree (l\<lparr>sl_lk := False, sl_locked := False, sl_pid := 0\<rparr>)"
  by (simp add: slfree_def)

end
