(* ===== verification/Bio.thy ===== *)
theory Bio
  imports Sleeplock
begin

text \<open>
  The buffer cache, \<^verbatim>\<open>src/xv6A1/bio.c\<close>, over the memory disk of \<^verbatim>\<open>src/xv6A1/memide.c\<close>. A pointer
  to a buffer is its index in \<^verbatim>\<open>bcache.buf\<close>; the doubly linked list through \<^verbatim>\<open>head\<close> is the list
  \<open>lru\<close> of indices, most recently used first. \<open>cur\<close> is the slot of the calling process. \<open>wlog\<close> is a history variable: the
  block writes that the driver has carried out, in order; no operation reads it.
\<close>

type_synonym block = "uchar list"

abbreviation "BSIZE \<equiv> (512 :: nat)"
abbreviation "NBUF \<equiv> (30 :: nat)"

record buf =
  b_valid :: bool
  b_dirty :: bool
  b_dev :: uint
  b_blockno :: uint
  b_lock :: sleeplock
  b_refcnt :: uint
  b_data :: block

record bio = kernel +
  bc_lock :: bool
  bufs :: "buf list"
  lru :: "nat list"
  disk :: "uint \<Rightarrow> block"
  disksize :: uint
  wlog :: "(uint \<times> block) list"

definition upd_buf :: "nat \<Rightarrow> (buf \<Rightarrow> buf) \<Rightarrow> 'a bio_scheme \<Rightarrow> 'a bio_scheme" where
  "upd_buf i f s = s\<lparr>bufs := (bufs s)[i := f (bufs s ! i)]\<rparr>"

abbreviation mypid :: "nat \<Rightarrow> 'a ptable_scheme \<Rightarrow> cint" where
  "mypid cur s \<equiv> pid (procs s ! cur)"

definition bc_acquire :: "'a bio_scheme \<Rightarrow> 'a bio_scheme kres" where
  "bc_acquire s = kbind (lock_acquire (bc_lock s)) (\<lambda>h. Ret (s\<lparr>bc_lock := h\<rparr>))"

definition bc_release :: "'a bio_scheme \<Rightarrow> 'a bio_scheme kres" where
  "bc_release s = kbind (lock_release (bc_lock s)) (\<lambda>h. Ret (s\<lparr>bc_lock := h\<rparr>))"

text \<open>\<^verbatim>\<open>binit\<close>: each buffer is inserted at the front of the list.\<close>

definition binit :: "'a bio_scheme \<Rightarrow> 'a bio_scheme" where
  "binit s = s\<lparr>bc_lock := False, bufs := map (\<lambda>b. b\<lparr>b_lock := initsleeplock\<rparr>) (bufs s), lru := rev [0..<NBUF]\<rparr>"

subsection \<open>The memory disk\<close>

definition iderw :: "nat \<Rightarrow> nat \<Rightarrow> 'a bio_scheme \<Rightarrow> 'a bio_scheme kres" where
  "iderw cur i s =
     (let b = bufs s ! i
      in kbind (holdingsleep (mypid cur s) (b_lock b)) (\<lambda>h.
           if \<not> h then Panic ''iderw: buf not locked''
           else if b_valid b \<and> \<not> b_dirty b then Panic ''iderw: nothing to do''
           else if b_dev b \<noteq> 1 then Panic ''iderw: request not for disk 1''
           else if b_blockno b \<ge> disksize s then Panic ''iderw: block out of range''
           else if b_dirty b
           then Ret (upd_buf i (\<lambda>b. b\<lparr>b_dirty := False, b_valid := True\<rparr>)
                      (s\<lparr>disk := (disk s)(b_blockno b := b_data b), wlog := wlog s @ [(b_blockno b, b_data b)]\<rparr>))
           else Ret (upd_buf i (\<lambda>b. b\<lparr>b_data := disk s (b_blockno b), b_valid := True\<rparr>) s)))"

subsection \<open>The cache\<close>

text \<open>The list element that satisfies a test and comes first.\<close>

definition first_of :: "('a \<Rightarrow> bool) \<Rightarrow> 'a list \<Rightarrow> 'a option" where
  "first_of P xs = map_option (\<lambda>k. xs ! k) (first_index P xs)"

definition bget_lock :: "nat \<Rightarrow> nat \<Rightarrow> 'a bio_scheme \<Rightarrow> (nat \<times> 'a bio_scheme) kres" where
  "bget_lock cur i s =
     kbind (acquiresleep (ChBufLock i) (mypid cur s) (b_lock (bufs s ! i))) (\<lambda>l.
       Ret (i, upd_buf i (\<lambda>b. b\<lparr>b_lock := l\<rparr>) s))"

definition bget :: "nat \<Rightarrow> uint \<Rightarrow> uint \<Rightarrow> 'a bio_scheme \<Rightarrow> (nat \<times> 'a bio_scheme) kres" where
  "bget cur dev blockno s =
     kbind (bc_acquire s) (\<lambda>s.
       case first_of (\<lambda>i. b_dev (bufs s ! i) = dev \<and> b_blockno (bufs s ! i) = blockno) (lru s) of
         Some i \<Rightarrow>
           let s = upd_buf i (\<lambda>b. b\<lparr>b_refcnt := b_refcnt b + 1\<rparr>) s
           in kbind (bc_release s) (\<lambda>s. bget_lock cur i s)
       | None \<Rightarrow>
           (case first_of (\<lambda>i. b_refcnt (bufs s ! i) = 0 \<and> \<not> b_dirty (bufs s ! i)) (rev (lru s)) of
              Some i \<Rightarrow>
                let s = upd_buf i (\<lambda>b. b\<lparr>b_dev := dev, b_blockno := blockno, b_valid := False,
                          b_dirty := False, b_refcnt := 1\<rparr>) s
                in kbind (bc_release s) (\<lambda>s. bget_lock cur i s)
            | None \<Rightarrow> Panic ''bget: no buffers''))"

definition bread :: "nat \<Rightarrow> uint \<Rightarrow> uint \<Rightarrow> 'a bio_scheme \<Rightarrow> (nat \<times> 'a bio_scheme) kres" where
  "bread cur dev blockno s =
     kbind (bget cur dev blockno s) (\<lambda>(i, s).
       if \<not> b_valid (bufs s ! i) then kbind (iderw cur i s) (\<lambda>s. Ret (i, s)) else Ret (i, s))"

definition bwrite :: "nat \<Rightarrow> nat \<Rightarrow> 'a bio_scheme \<Rightarrow> 'a bio_scheme kres" where
  "bwrite cur i s =
     kbind (holdingsleep (mypid cur s) (b_lock (bufs s ! i))) (\<lambda>h.
       if \<not> h then Panic ''bwrite''
       else iderw cur i (upd_buf i (\<lambda>b. b\<lparr>b_dirty := True\<rparr>) s))"

definition brelse :: "nat \<Rightarrow> nat \<Rightarrow> 'a bio_scheme \<Rightarrow> 'a bio_scheme kres" where
  "brelse cur i s =
     kbind (holdingsleep (mypid cur s) (b_lock (bufs s ! i))) (\<lambda>h.
       if \<not> h then Panic ''brelse''
       else kbind (releasesleep (ChBufLock i) (b_lock (bufs s ! i)) s) (\<lambda>(l, s).
            kbind (bc_acquire (upd_buf i (\<lambda>b. b\<lparr>b_lock := l\<rparr>) s)) (\<lambda>s.
              let s = upd_buf i (\<lambda>b. b\<lparr>b_refcnt := b_refcnt b - 1\<rparr>) s;
                  s = (if b_refcnt (bufs s ! i) = 0 then s\<lparr>lru := i # remove1 i (lru s)\<rparr> else s)
              in bc_release s)))"

subsection \<open>Invariant\<close>

text \<open>
  The linked list holds every buffer once; no two buffers cache the same block of the disk; the
  reference count of a buffer is that of the one process that has it locked (no other process
  waits for it); a buffer that is clean and unused agrees with the disk.
\<close>

definition buf_wf :: "'a bio_scheme \<Rightarrow> buf \<Rightarrow> bool" where
  "buf_wf s b \<longleftrightarrow> \<not> sl_lk (b_lock b) \<and> b_refcnt b = (if sl_locked (b_lock b) then 1 else 0) \<and>
     (b_valid b \<and> \<not> b_dirty b \<and> b_refcnt b = 0 \<and> b_dev b = 1 \<longrightarrow> b_data b = disk s (b_blockno b)) \<and>
     (b_dirty b \<longrightarrow> b_valid b \<and> b_dev b = 1)"

definition bio_inv :: "nat \<Rightarrow> 'a bio_scheme \<Rightarrow> bool" where
  "bio_inv cur s \<longleftrightarrow> length (bufs s) = NBUF \<and> distinct (lru s) \<and> set (lru s) = {..<NBUF} \<and>
     \<not> bc_lock s \<and> \<not> ptlock s \<and> cur < length (procs s) \<and> (\<forall>i<NBUF. buf_wf s (bufs s ! i)) \<and>
     (\<forall>i<NBUF. \<forall>j<NBUF. b_dev (bufs s ! i) = 1 \<longrightarrow> b_dev (bufs s ! j) = 1 \<longrightarrow>
        b_blockno (bufs s ! i) = b_blockno (bufs s ! j) \<longrightarrow> i = j)"

definition caches :: "'a bio_scheme \<Rightarrow> nat \<Rightarrow> uint \<Rightarrow> bool" where
  "caches s i blk \<longleftrightarrow> i < NBUF \<and> b_dev (bufs s ! i) = 1 \<and> b_blockno (bufs s ! i) = blk"

text \<open>The contents of a block as the file system sees it: the valid cached copy, else the disk.\<close>

definition look :: "'a bio_scheme \<Rightarrow> uint \<Rightarrow> nat option" where
  "look s blk = first_of (\<lambda>i. b_dev (bufs s ! i) = 1 \<and> b_blockno (bufs s ! i) = blk) (lru s)"

definition view :: "'a bio_scheme \<Rightarrow> uint \<Rightarrow> block" where
  "view s blk = (case look s blk of
     Some i \<Rightarrow> if b_valid (bufs s ! i) then b_data (bufs s ! i) else disk s blk
   | None \<Rightarrow> disk s blk)"

definition evictable :: "'a bio_scheme \<Rightarrow> nat \<Rightarrow> bool" where
  "evictable s i \<longleftrightarrow> i < NBUF \<and> b_refcnt (bufs s ! i) = 0 \<and> \<not> b_dirty (bufs s ! i)"

lemma first_of_Some: "first_of P xs = Some x \<Longrightarrow> x \<in> set xs \<and> P x"
  by (auto simp: first_of_def first_index_Some)

lemma first_of_None: "first_of P xs = None \<longleftrightarrow> (\<forall>x\<in>set xs. \<not> P x)"
  by (simp add: first_of_def first_index_None)

lemma look_Some:
  assumes "bio_inv cur s"
  shows "look s blk = Some i \<longleftrightarrow> caches s i blk"
proof
  assume "look s blk = Some i"
  from first_of_Some [OF this [unfolded look_def]] show "caches s i blk"
    using assms by (simp add: caches_def bio_inv_def)
next
  assume c: "caches s i blk"
  then have "look s blk \<noteq> None"
    using assms by (auto simp: look_def first_of_None caches_def bio_inv_def)
  then obtain j where j: "look s blk = Some j" by blast
  from first_of_Some [OF this [unfolded look_def]] have "caches s j blk"
    using assms by (simp add: caches_def bio_inv_def)
  then have "j = i" using assms c by (simp add: bio_inv_def caches_def)
  then show "look s blk = Some i" using j by simp
qed

lemma look_None: "bio_inv cur s \<Longrightarrow> look s blk = None \<longleftrightarrow> (\<forall>i. \<not> caches s i blk)"
  using look_Some [of cur s blk] by (cases "look s blk") auto

lemma view_cached:
  "bio_inv cur s \<Longrightarrow> caches s i blk \<Longrightarrow>
    view s blk = (if b_valid (bufs s ! i) then b_data (bufs s ! i) else disk s blk)"
  using look_Some [of cur s blk i] by (simp add: view_def)

lemma view_uncached: "bio_inv cur s \<Longrightarrow> (\<And>i. \<not> caches s i blk) \<Longrightarrow> view s blk = disk s blk"
  using look_None [of cur s blk] by (simp add: view_def)

subsection \<open>The cache operations on the view\<close>

lemma bc_lock_simps [pt_simps]:
  "\<not> bc_lock s \<Longrightarrow> bc_acquire s = Ret (s\<lparr>bc_lock := True\<rparr>)"
  "bc_lock s \<Longrightarrow> bc_release s = Ret (s\<lparr>bc_lock := False\<rparr>)"
  "\<not> bc_lock s \<Longrightarrow> s\<lparr>bc_lock := False\<rparr> = s"
  by (simp_all add: bc_acquire_def bc_release_def)

lemma upd_buf_simps [simp]:
  "bufs (upd_buf i f s) = (bufs s)[i := f (bufs s ! i)]" "lru (upd_buf i f s) = lru s"
  "bc_lock (upd_buf i f s) = bc_lock s" "disk (upd_buf i f s) = disk s" "disksize (upd_buf i f s) = disksize s"
  "wlog (upd_buf i f s) = wlog s" "procs (upd_buf i f s) = procs s" "ptlock (upd_buf i f s) = ptlock s"
  "kmem (upd_buf i f s) = kmem s"
  "upd_buf i f (s\<lparr>bc_lock := b\<rparr>) = (upd_buf i f s)\<lparr>bc_lock := b\<rparr>"
  by (simp_all add: upd_buf_def)

lemma upd_buf_twice: "i < length (bufs s) \<Longrightarrow> upd_buf i g (upd_buf i f s) = upd_buf i (\<lambda>b. g (f b)) s"
  by (simp add: upd_buf_def)

lemma wakeup1_bio [simp]:
  "bufs (wakeup1 c s) = bufs s" "lru (wakeup1 c s) = lru s" "bc_lock (wakeup1 c s) = bc_lock s"
  "disk (wakeup1 c s) = disk s" "disksize (wakeup1 c s) = disksize s" "wlog (wakeup1 c s) = wlog s"
  "kmem (wakeup1 c s) = kmem s"
  by (simp_all add: wakeup1_def)

lemma mypid_wakeup1 [simp]: "cur < length (procs s) \<Longrightarrow> mypid cur (wakeup1 c s) = mypid cur s"
  by (simp add: wakeup1_nth)

lemma bio_inv_upd:
  assumes "bio_inv cur s" "i < NBUF" "buf_wf s (f (bufs s ! i))"
    "b_dev (f (bufs s ! i)) = 1 \<Longrightarrow> \<forall>j. caches s j (b_blockno (f (bufs s ! i))) \<longrightarrow> j = i"
  shows "bio_inv cur (upd_buf i f s)"
  using assms unfolding bio_inv_def caches_def buf_wf_def
  by (simp add: nth_list_update) (metis (no_types, lifting))

definition lock_buf :: "cint \<Rightarrow> buf \<Rightarrow> buf" where
  "lock_buf me b = b\<lparr>b_refcnt := 1, b_lock := (b_lock b)\<lparr>sl_lk := False, sl_locked := True, sl_pid := me\<rparr>\<rparr>"

lemma bget_cached:
  assumes "bio_inv cur s" "caches s i blk" "\<not> sl_locked (b_lock (bufs s ! i))"
  shows "bget cur 1 blk s = Ret (i, upd_buf i (lock_buf (mypid cur s)) s)"
proof -
  have i: "i < NBUF" "i < length (bufs s)" "buf_wf s (bufs s ! i)" "\<not> bc_lock s"
    using assms by (auto simp: bio_inv_def caches_def)
  have "first_of (\<lambda>i. b_dev (bufs s ! i) = 1 \<and> b_blockno (bufs s ! i) = blk) (lru s) = Some i"
    using look_Some [OF assms(1), of blk i] assms(2) by (simp add: look_def)
  moreover have "slfree (b_lock (bufs s ! i))" "b_refcnt (bufs s ! i) = 0"
    using i(3) assms(3) by (simp_all add: slfree_def buf_wf_def)
  ultimately show ?thesis
    using i by (simp add: bget_def pt_simps Let_def bget_lock_def acquiresleep_free upd_buf_twice)
      (simp add: upd_buf_def lock_buf_def)
qed

lemma bget_recycled:
  assumes "bio_inv cur s" "\<And>i. \<not> caches s i blk" "evictable s e"
  shows "\<exists>i. evictable s i \<and> bget cur 1 blk s = Ret (i, upd_buf i (\<lambda>b. lock_buf (mypid cur s)
    (b\<lparr>b_dev := 1, b_blockno := blk, b_valid := False, b_dirty := False\<rparr>)) s)"
proof -
  have "first_of (\<lambda>i. b_dev (bufs s ! i) = 1 \<and> b_blockno (bufs s ! i) = blk) (lru s) = None"
    using look_None [OF assms(1), of blk] assms(2) by (simp add: look_def)
  moreover obtain i where i: "first_of (\<lambda>i. b_refcnt (bufs s ! i) = 0 \<and> \<not> b_dirty (bufs s ! i)) (rev (lru s)) = Some i"
    using assms(1,3) first_of_None [of "\<lambda>i. b_refcnt (bufs s ! i) = 0 \<and> \<not> b_dirty (bufs s ! i)" "rev (lru s)"]
    by (cases "first_of (\<lambda>i. b_refcnt (bufs s ! i) = 0 \<and> \<not> b_dirty (bufs s ! i)) (rev (lru s))")
      (auto simp: bio_inv_def evictable_def)
  moreover have e: "evictable s i" using first_of_Some [OF i] assms(1) by (simp add: bio_inv_def evictable_def)
  moreover have "i < length (bufs s)" "slfree (b_lock (bufs s ! i))" "\<not> bc_lock s"
    using e assms(1) by (auto simp: evictable_def bio_inv_def buf_wf_def slfree_def split: if_splits)
  ultimately show ?thesis
    by (intro exI [of _ i], simp add: bget_def pt_simps Let_def bget_lock_def acquiresleep_free upd_buf_twice)
      (simp add: upd_buf_def lock_buf_def)
qed

definition held :: "nat \<Rightarrow> 'a bio_scheme \<Rightarrow> nat \<Rightarrow> bool" where
  "held cur s i \<longleftrightarrow> i < NBUF \<and> slheld (mypid cur s) (b_lock (bufs s ! i))"

text \<open>A block whose modified copy must stay in the cache.\<close>

definition pinned :: "'a bio_scheme \<Rightarrow> uint \<Rightarrow> bool" where
  "pinned s blk \<longleftrightarrow> (\<exists>i. caches s i blk \<and> b_dirty (bufs s ! i))"

text \<open>The process that runs, and the memory.\<close>

abbreviation who :: "nat \<Rightarrow> 'a bio_scheme \<Rightarrow> cint \<times> mem" where
  "who cur s \<equiv> (mypid cur s, kmemory s)"

text \<open>What reading and releasing buffers leaves alone.\<close>

definition bsame :: "nat \<Rightarrow> 'a bio_scheme \<Rightarrow> 'a bio_scheme \<Rightarrow> bool" where
  "bsame cur s s' \<longleftrightarrow> view s' = view s \<and> pinned s' = pinned s \<and> disk s' = disk s \<and> wlog s' = wlog s \<and>
     disksize s' = disksize s \<and> who cur s' = who cur s"

lemma bsame_trans: "bsame cur s t \<Longrightarrow> bsame cur t u \<Longrightarrow> bsame cur s u"
  by (simp add: bsame_def)

lemma bsame_refl [simp]: "bsame cur s s"
  by (simp add: bsame_def)

text \<open>Changing one buffer: how the view changes.\<close>

lemma view_upd_buf:
  assumes "bio_inv cur s" "bio_inv cur (upd_buf i f s)" "i < NBUF" "f (bufs s ! i) = b'"
    "b_dev b' = 1" "b_blockno b' = blk" "b_valid b'"
    "\<And>c. caches s i c \<Longrightarrow> c \<noteq> blk \<Longrightarrow> view s c = disk s c"
  shows "view (upd_buf i f s) = (view s)(blk := b_data b')"
proof
  fix c
  let ?s = "upd_buf i f s"
  have len: "length (bufs s) = NBUF" using assms(1) by (simp add: bio_inv_def)
  have same: "caches ?s j c \<longleftrightarrow> caches s j c" if "j \<noteq> i" for j c using that by (simp add: caches_def)
  show "view ?s c = ((view s)(blk := b_data b')) c"
  proof (cases "c = blk")
    case True
    then have "caches ?s i c" using assms(3-6) len by (simp add: caches_def)
    with view_cached [OF assms(2) this] True assms(3,4,7) len show ?thesis by simp
  next
    case False
    show ?thesis
    proof (cases "\<exists>j. j \<noteq> i \<and> caches s j c")
      case True
      then obtain j where j: "j \<noteq> i" "caches s j c" by blast
      then have "caches ?s j c" by (simp add: same)
      from view_cached [OF assms(2) this] view_cached [OF assms(1) j(2)] j(1) False show ?thesis by simp
    next
      case none: False
      have "\<not> caches ?s j c" for j
        using none same [of j c] assms(3-6) len False by (cases "j = i") (auto simp: caches_def)
      then have "view ?s c = disk s c" using view_uncached [OF assms(2)] by simp
      moreover have "view s c = disk s c"
      proof (cases "caches s i c")
        case True
        then show ?thesis using assms(8) False by blast
      next
        case not_i: False
        have "\<not> caches s j c" for j using none not_i by (cases "j = i") auto
        then show ?thesis using view_uncached [OF assms(1)] by blast
      qed
      ultimately show ?thesis using False by simp
    qed
  qed
qed

lemma evictable_clean:
  assumes "bio_inv cur s" "evictable s i" "caches s i c"
  shows "view s c = disk s c" "\<not> pinned s c"
proof -
  have wf: "buf_wf s (bufs s ! i)" using assms(1,2) by (auto simp: bio_inv_def evictable_def)
  with view_cached [OF assms(1,3)] assms(2,3) show "view s c = disk s c"
    by (auto simp: evictable_def caches_def buf_wf_def)
  show "\<not> pinned s c"
  proof
    assume "pinned s c"
    then obtain j where j: "caches s j c" "b_dirty (bufs s ! j)" by (auto simp: pinned_def)
    then have "j = i" using assms(1,3) by (simp add: bio_inv_def caches_def)
    with j(2) assms(2) show False by (simp add: evictable_def)
  qed
qed

definition fetched :: "cint \<Rightarrow> uint \<Rightarrow> block \<Rightarrow> buf \<Rightarrow> buf" where
  "fetched me blk d b = (lock_buf me b)\<lparr>b_dev := 1, b_blockno := blk, b_valid := True, b_data := d\<rparr>"

lemma lock_buf_simps [simp]:
  "b_valid (lock_buf me b) = b_valid b" "b_dirty (lock_buf me b) = b_dirty b" "b_dev (lock_buf me b) = b_dev b"
  "b_blockno (lock_buf me b) = b_blockno b" "b_data (lock_buf me b) = b_data b" "b_refcnt (lock_buf me b) = 1"
  "slheld me (b_lock (lock_buf me b))"
  by (simp_all add: lock_buf_def)

lemma fetched_simps [simp]:
  "b_valid (fetched me blk d b)" "b_dirty (fetched me blk d b) = b_dirty b" "b_dev (fetched me blk d b) = 1"
  "b_blockno (fetched me blk d b) = blk" "b_data (fetched me blk d b) = d" "b_refcnt (fetched me blk d b) = 1"
  "slheld me (b_lock (fetched me blk d b))"
  by (simp_all add: fetched_def)

lemma upd_buf_cong: "f (bufs s ! i) = g (bufs s ! i) \<Longrightarrow> upd_buf i f s = upd_buf i g s"
  by (simp add: upd_buf_def)

lemma fetched_same:
  "b_dev b = 1 \<Longrightarrow> b_blockno b = blk \<Longrightarrow>
    fetched me blk d b = (lock_buf me b)\<lparr>b_data := d, b_valid := True\<rparr>"
  "b_dev b = 1 \<Longrightarrow> b_blockno b = blk \<Longrightarrow> b_valid b \<Longrightarrow> fetched me blk (b_data b) b = lock_buf me b"
  "\<not> b_dirty b \<Longrightarrow> (lock_buf me (b\<lparr>b_dev := 1, b_blockno := blk, b_valid := False, b_dirty := False\<rparr>))
      \<lparr>b_data := d, b_valid := True\<rparr> = fetched me blk d b"
  by (cases b; simp add: fetched_def lock_buf_def)+

lemma iderw_read:
  assumes "i < length (bufs s)" "slheld (mypid cur s) (b_lock (bufs s ! i))" "\<not> b_valid (bufs s ! i)"
    "\<not> b_dirty (bufs s ! i)" "b_dev (bufs s ! i) = 1" "b_blockno (bufs s ! i) < disksize s"
  shows "iderw cur i s = Ret (upd_buf i (\<lambda>b. b\<lparr>b_data := disk s (b_blockno b), b_valid := True\<rparr>) s)"
  using assms by (simp add: iderw_def holdingsleep_eq slheld_def Let_def upd_buf_def not_le)

text \<open>
  A \<^verbatim>\<open>bread\<close> puts the contents of the block into some buffer, in one update of the state.
\<close>

lemma bread_eq:
  assumes "bio_inv cur s" "blk < disksize s" "\<And>i. caches s i blk \<Longrightarrow> \<not> sl_locked (b_lock (bufs s ! i))"
    "(\<exists>i. caches s i blk) \<or> (\<exists>i. evictable s i)"
  shows "\<exists>i. (caches s i blk \<or> evictable s i \<and> (\<forall>j. \<not> caches s j blk)) \<and>
    bread cur 1 blk s = Ret (i, upd_buf i (fetched (mypid cur s) blk (view s blk)) s)"
proof (cases "\<exists>i. caches s i blk")
  case True
  then obtain i where i: "caches s i blk" by blast
  have wf: "i < NBUF" "i < length (bufs s)" "buf_wf s (bufs s ! i)" using i assms(1) by (auto simp: caches_def bio_inv_def)
  have g: "bget cur 1 blk s = Ret (i, upd_buf i (lock_buf (mypid cur s)) s)"
    using bget_cached [OF assms(1) i assms(3) [OF i]] .
  have v: "view s blk = (if b_valid (bufs s ! i) then b_data (bufs s ! i) else disk s blk)"
    using view_cached [OF assms(1) i] .
  have dev: "b_dev (bufs s ! i) = 1" "b_blockno (bufs s ! i) = blk" using i by (simp_all add: caches_def)
  show ?thesis
  proof (cases "b_valid (bufs s ! i)")
    case True
    then show ?thesis
      using i wf v dev by (intro exI [of _ i]) (auto simp: bread_def g fetched_same intro!: upd_buf_cong)
  next
    case False
    have "\<not> b_dirty (bufs s ! i)" using False wf(3) by (auto simp: buf_wf_def)
    with False show ?thesis
      using i wf v dev assms(2)
      by (intro exI [of _ i]) (auto simp: bread_def g iderw_read upd_buf_twice fetched_same intro!: upd_buf_cong)
  qed
next
  case False
  then obtain e where "evictable s e" using assms(4) by blast
  from bget_recycled [OF assms(1) _ this, of blk] False obtain i where i: "evictable s i"
    and g: "bget cur 1 blk s = Ret (i, upd_buf i (\<lambda>b. lock_buf (mypid cur s)
      (b\<lparr>b_dev := 1, b_blockno := blk, b_valid := False, b_dirty := False\<rparr>)) s)" by blast
  have v: "view s blk = disk s blk" using view_uncached [OF assms(1)] False by blast
  have "i < length (bufs s)" "\<not> b_dirty (bufs s ! i)" using i assms(1) by (auto simp: evictable_def bio_inv_def)
  with i False v assms(2) show ?thesis
    by (intro exI [of _ i]) (auto simp: bread_def g iderw_read upd_buf_twice fetched_same intro!: upd_buf_cong)
qed

lemma pinned_upd_buf:
  assumes "bio_inv cur s" "i < NBUF" "f (bufs s ! i) = b'" "b_dev b' = 1" "b_blockno b' = blk"
    "\<And>c. caches s i c \<Longrightarrow> c \<noteq> blk \<Longrightarrow> \<not> pinned s c" "\<And>j. caches s j blk \<Longrightarrow> j = i"
  shows "pinned (upd_buf i f s) = (pinned s)(blk := b_dirty b')"
proof
  fix c
  have len: "length (bufs s) = NBUF" using assms(1) by (simp add: bio_inv_def)
  have same: "caches (upd_buf i f s) j c \<longleftrightarrow> caches s j c" if "j \<noteq> i" for j c using that by (simp add: caches_def)
  have ci: "caches (upd_buf i f s) i c \<longleftrightarrow> c = blk" for c using assms(2-5) len by (auto simp: caches_def)
  have di: "bufs (upd_buf i f s) ! i = b'" using assms(2,3) len by simp
  show "pinned (upd_buf i f s) c = ((pinned s)(blk := b_dirty b')) c"
  proof (cases "c = blk")
    case True
    then have "caches (upd_buf i f s) j c \<longleftrightarrow> j = i" for j
      using ci [of c] same [of j c] assms(7) by (cases "j = i") auto
    with True di show ?thesis by (simp add: pinned_def)
  next
    case False
    have "caches (upd_buf i f s) j c \<and> b_dirty (bufs (upd_buf i f s) ! j) \<longleftrightarrow> caches s j c \<and> b_dirty (bufs s ! j)" for j
    proof (cases "j = i")
      case True
      then show ?thesis using ci [of c] False assms(6) [of c] by (auto simp: pinned_def)
    qed (use same [of j c] in simp)
    then show ?thesis using False unfolding pinned_def by simp
  qed
qed

lemma caches_unique: "bio_inv cur s \<Longrightarrow> caches s i c \<Longrightarrow> caches s j c \<Longrightarrow> i = j"
  by (simp add: bio_inv_def caches_def)

text \<open>What a client may rely on when it reads a block.\<close>

lemma bread_spec:
  assumes "bio_inv cur s" "blk < disksize s" "\<And>i. caches s i blk \<Longrightarrow> \<not> sl_locked (b_lock (bufs s ! i))"
    "(\<exists>i. caches s i blk) \<or> (\<exists>i. evictable s i)"
  shows "\<exists>i s'. bread cur 1 blk s = Ret (i, s') \<and> bio_inv cur s' \<and> caches s' i blk \<and> held cur s' i \<and>
    b_valid (bufs s' ! i) \<and> b_data (bufs s' ! i) = view s blk \<and> bsame cur s s' \<and>
    (\<forall>j. j \<noteq> i \<longrightarrow> bufs s' ! j = bufs s ! j) \<and> \<not> sl_locked (b_lock (bufs s ! i)) \<and>
    b_dirty (bufs s' ! i) = b_dirty (bufs s ! i)"
proof -
  from bread_eq [OF assms] obtain i where i: "caches s i blk \<or> evictable s i \<and> (\<forall>j. \<not> caches s j blk)"
    and r: "bread cur 1 blk s = Ret (i, upd_buf i (fetched (mypid cur s) blk (view s blk)) s)" by blast
  let ?f = "fetched (mypid cur s) blk (view s blk)" and ?s = "upd_buf i (fetched (mypid cur s) blk (view s blk)) s"
  have n: "i < NBUF" "length (bufs s) = NBUF" "buf_wf s (bufs s ! i)"
    using i assms(1) by (auto simp: caches_def evictable_def bio_inv_def)
  have u: "\<forall>j. caches s j blk \<longrightarrow> j = i" using i caches_unique [OF assms(1)] by blast
  have "buf_wf s (?f (bufs s ! i))"
    using n(3) fetched_simps(7) [of "mypid cur s" blk "view s blk" "bufs s ! i"] by (simp add: buf_wf_def slheld_def)
  then have inv: "bio_inv cur ?s" using n u by (intro bio_inv_upd [OF assms(1)]) simp_all
  have clean: "view s c = disk s c" "\<not> pinned s c" if "caches s i c" "c \<noteq> blk" for c
    using that i evictable_clean [OF assms(1), of i c] by (auto simp: caches_def)
  have "view ?s = (view s)(blk := view s blk)"
    using view_upd_buf [OF assms(1) inv n(1) refl, of blk] clean by simp
  moreover have "pinned ?s = (pinned s)(blk := b_dirty (bufs s ! i))"
    using pinned_upd_buf [OF assms(1) n(1) refl, of ?f blk] clean u by simp
  moreover have "b_dirty (bufs s ! i) = pinned s blk"
  proof (cases "caches s i blk")
    case True
    then show ?thesis using u unfolding pinned_def by blast
  next
    case False
    then have "\<not> pinned s blk" "\<not> b_dirty (bufs s ! i)" using i by (auto simp: pinned_def evictable_def)
    then show ?thesis by simp
  qed
  ultimately have "bsame cur s ?s" by (simp add: bsame_def)
  moreover have "\<not> sl_locked (b_lock (bufs s ! i))"
    using i assms(3) n(3) by (auto simp: evictable_def buf_wf_def split: if_splits)
  ultimately show ?thesis
    using r inv n by (auto simp: caches_def held_def)
qed

text \<open>Changing the bytes of a buffer one holds changes the view of its block.\<close>

definition set_data :: "nat \<Rightarrow> block \<Rightarrow> 'a bio_scheme \<Rightarrow> 'a bio_scheme" where
  "set_data i d s = upd_buf i (\<lambda>b. b\<lparr>b_data := d\<rparr>) s"

lemma held_buf:
  assumes "bio_inv cur s" "held cur s i"
  shows "i < NBUF" "i < length (bufs s)" "buf_wf s (bufs s ! i)" "sl_locked (b_lock (bufs s ! i))"
    "\<not> sl_lk (b_lock (bufs s ! i))" "sl_pid (b_lock (bufs s ! i)) = mypid cur s" "b_refcnt (bufs s ! i) = 1"
  using assms by (auto simp: held_def bio_inv_def slheld_def buf_wf_def)

lemma set_data_spec:
  assumes "bio_inv cur s" "held cur s i" "caches s i blk" "b_valid (bufs s ! i)"
  shows "bio_inv cur (set_data i d s)" "view (set_data i d s) = (view s)(blk := d)"
    "pinned (set_data i d s) = pinned s" "held cur (set_data i d s) j = held cur s j"
    "caches (set_data i d s) j c = caches s j c"
    "bufs (set_data i d s) ! i = (bufs s ! i)\<lparr>b_data := d\<rparr>" "j \<noteq> i \<Longrightarrow> bufs (set_data i d s) ! j = bufs s ! j"
    "disk (set_data i d s) = disk s" "wlog (set_data i d s) = wlog s" "disksize (set_data i d s) = disksize s"
    "who cur (set_data i d s) = who cur s"
proof -
  note h = held_buf [OF assms(1,2)]
  let ?f = "\<lambda>b. b\<lparr>b_data := d\<rparr> :: buf"
  have u: "j = i" if "caches s j blk" for j using caches_unique [OF assms(1) that assms(3)] .
  have b: "b_dev (bufs s ! i) = 1" "b_blockno (bufs s ! i) = blk" using assms(3) by (simp_all add: caches_def)
  have inv: "bio_inv cur (upd_buf i ?f s)"
  proof (rule bio_inv_upd [OF assms(1) h(1)])
    show "buf_wf s (?f (bufs s ! i))" using h by (auto simp: buf_wf_def)
    have "b_blockno (?f (bufs s ! i)) = blk" using b by simp
    then show "\<forall>j. caches s j (b_blockno (?f (bufs s ! i))) \<longrightarrow> j = i" using u by metis
  qed
  then show "bio_inv cur (set_data i d s)" by (simp add: set_data_def)
  have c: "c = blk" if "caches s i c" for c using that b by (simp add: caches_def)
  show "view (set_data i d s) = (view s)(blk := d)"
    using view_upd_buf [OF assms(1) inv h(1) refl, of blk] b assms(4) c by (auto simp: set_data_def)
  have "pinned s blk = b_dirty (bufs s ! i)" using u assms(3) unfolding pinned_def by blast
  moreover have "pinned (upd_buf i ?f s) = (pinned s)(blk := b_dirty (?f (bufs s ! i)))"
    by (rule pinned_upd_buf [OF assms(1) h(1) refl]) (simp add: b, simp add: b, use c in blast, erule u)
  ultimately show "pinned (set_data i d s) = pinned s" by (simp add: set_data_def fun_upd_idem)
  show "caches (set_data i d s) j c = caches s j c" for j c
    using h(2) by (cases "j = i") (simp_all add: caches_def set_data_def)
  show "held cur (set_data i d s) j = held cur s j" for j
    using h(2) by (cases "j = i") (simp_all add: held_def set_data_def)
qed (use held_buf [OF assms(1,2)] in \<open>simp_all add: set_data_def\<close>)

lemma bwrite_eq:
  assumes "bio_inv cur s" "held cur s i" "caches s i blk" "blk < disksize s"
  shows "bwrite cur i s = Ret (upd_buf i (\<lambda>b. b\<lparr>b_dirty := False, b_valid := True\<rparr>)
    (s\<lparr>disk := (disk s)(blk := b_data (bufs s ! i)), wlog := wlog s @ [(blk, b_data (bufs s ! i))]\<rparr>))"
  using held_buf [OF assms(1,2)] assms(3,4)
  by (simp add: bwrite_def holdingsleep_eq iderw_def Let_def caches_def not_le) (simp add: upd_buf_def)

lemma bio_inv_disk:
  assumes "bio_inv cur s" "\<And>i. i < NBUF \<Longrightarrow> buf_wf (s\<lparr>disk := d, wlog := w\<rparr>) (bufs s ! i)"
  shows "bio_inv cur (s\<lparr>disk := d, wlog := w\<rparr>)"
  using assms by (simp add: bio_inv_def)

lemma bwrite_spec:
  assumes "bio_inv cur s" "held cur s i" "caches s i blk" "b_valid (bufs s ! i)" "blk < disksize s"
  defines "d \<equiv> b_data (bufs s ! i)"
  shows "\<exists>s'. bwrite cur i s = Ret s' \<and> bio_inv cur s' \<and> view s' = view s \<and>
    pinned s' = (pinned s)(blk := False) \<and> disk s' = (disk s)(blk := d) \<and> wlog s' = wlog s @ [(blk, d)] \<and>
    disksize s' = disksize s \<and> who cur s' = who cur s \<and> held cur s' i \<and> caches s' i blk \<and>
    bufs s' ! i = (bufs s ! i)\<lparr>b_dirty := False\<rparr> \<and> (\<forall>j. j \<noteq> i \<longrightarrow> bufs s' ! j = bufs s ! j)"
proof -
  note h = held_buf [OF assms(1,2)]
  let ?t = "s\<lparr>disk := (disk s)(blk := d), wlog := wlog s @ [(blk, d)]\<rparr>"
  let ?f = "\<lambda>b. b\<lparr>b_dirty := False, b_valid := True\<rparr> :: buf"
  have b: "b_dev (bufs s ! i) = 1" "b_blockno (bufs s ! i) = blk" using assms(3) by (simp_all add: caches_def)
  have u: "j = i" if "caches s j blk" for j using caches_unique [OF assms(1) that assms(3)] .
  have t: "caches ?t = caches s" "pinned ?t = pinned s" by (simp_all add: caches_def pinned_def fun_eq_iff)
  have "buf_wf ?t (bufs s ! j)" if "j < NBUF" for j
  proof (cases "j = i")
    case True
    then show ?thesis using h by (simp add: buf_wf_def)
  next
    case False
    then have "b_dev (bufs s ! j) = 1 \<Longrightarrow> b_blockno (bufs s ! j) \<noteq> blk" using u [of j] that by (auto simp: caches_def)
    then show ?thesis using assms(1) that by (auto simp: bio_inv_def buf_wf_def)
  qed
  then have inv_t: "bio_inv cur ?t" using bio_inv_disk [OF assms(1)] by blast
  have inv: "bio_inv cur (upd_buf i ?f ?t)"
  proof (rule bio_inv_upd [OF inv_t h(1)])
    show "buf_wf ?t (?f (bufs ?t ! i))" using h b by (auto simp: buf_wf_def d_def)
    have "b_blockno (?f (bufs ?t ! i)) = blk" using b by simp
    then show "\<forall>j. caches ?t j (b_blockno (?f (bufs ?t ! i))) \<longrightarrow> j = i" unfolding t using u by metis
  qed
  have c: "c = blk" if "caches s i c" for c using that b by (simp add: caches_def)
  have "view ?t c = view s c" for c
  proof (cases "look s c")
    case None
    then have "c \<noteq> blk" using look_None [OF assms(1)] assms(3) by blast
    then show ?thesis using None by (simp add: view_def look_def)
  next
    case (Some j)
    moreover have "c = blk \<Longrightarrow> j = i" using Some look_Some [OF assms(1)] u by blast
    ultimately show ?thesis using assms(4) by (auto simp: view_def look_def)
  qed
  then have vt: "view ?t = view s" by blast
  have "view (upd_buf i ?f ?t) = (view s)(blk := d)"
    using view_upd_buf [OF inv_t inv h(1) refl, of blk] b c t vt by (auto simp: d_def)
  moreover have "view s blk = d" using view_cached [OF assms(1,3)] assms(4) by (simp add: d_def)
  ultimately have v: "view (upd_buf i ?f ?t) = view s" by (simp add: fun_upd_idem)
  have "pinned (upd_buf i ?f ?t) = (pinned ?t)(blk := b_dirty (?f (bufs ?t ! i)))"
  proof (rule pinned_upd_buf [OF inv_t h(1) refl, of _ blk])
    show "\<not> pinned ?t x" if "caches ?t i x" "x \<noteq> blk" for x using c that unfolding t by blast
    show "j = i" if "caches ?t j blk" for j using u that unfolding t by blast
  qed (simp_all add: b)
  then have p: "pinned (upd_buf i ?f ?t) = (pinned s)(blk := False)" by (simp add: t)
  show ?thesis
    using bwrite_eq [OF assms(1,2,3,5)] inv v p h b assms(4) unfolding d_def
    by (auto simp: held_def caches_def slheld_def)
qed

lemma view_cong:
  assumes "bio_inv cur s" "bio_inv cur s'" "disk s' = disk s"
    "\<And>j. j < NBUF \<Longrightarrow> b_dev (bufs s' ! j) = b_dev (bufs s ! j) \<and> b_blockno (bufs s' ! j) = b_blockno (bufs s ! j) \<and>
       b_valid (bufs s' ! j) = b_valid (bufs s ! j) \<and> b_data (bufs s' ! j) = b_data (bufs s ! j) \<and>
       b_dirty (bufs s' ! j) = b_dirty (bufs s ! j)"
  shows "view s' = view s" "pinned s' = pinned s" "caches s' = caches s"
proof -
  show c: "caches s' = caches s" using assms(4) by (auto simp: caches_def fun_eq_iff)
  show "view s' = view s"
  proof
    fix x
    show "view s' x = view s x"
    proof (cases "\<exists>j. caches s j x")
      case True
      then obtain j where j: "caches s j x" "caches s' j x" using c by auto
      then have "j < NBUF" by (simp add: caches_def)
      with view_cached [OF assms(1) j(1)] view_cached [OF assms(2) j(2)] assms(3,4) show ?thesis by simp
    next
      case False
      then show ?thesis using view_uncached [OF assms(1), of x] view_uncached [OF assms(2), of x] assms(3) c by simp
    qed
  qed
  show "pinned s' = pinned s"
    using assms(4) unfolding pinned_def c by (auto simp: fun_eq_iff caches_def)
qed

definition unlock_buf :: "buf \<Rightarrow> buf" where
  "unlock_buf b = b\<lparr>b_lock := (b_lock b)\<lparr>sl_lk := False, sl_locked := False, sl_pid := 0\<rparr>, b_refcnt := 0\<rparr>"

lemma brelse_eq:
  assumes "bio_inv cur s" "held cur s i"
  shows "brelse cur i s = Ret ((upd_buf i unlock_buf (wakeup1 (ChBufLock i) s))\<lparr>lru := i # remove1 i (lru s)\<rparr>)"
proof -
  note h = held_buf [OF assms]
  have "\<not> bc_lock s" "\<not> ptlock s" using assms(1) by (simp_all add: bio_inv_def)
  with h show ?thesis
    by (simp add: brelse_def holdingsleep_eq releasesleep_eq pt_simps Let_def upd_buf_def unlock_buf_def)
qed

lemma brelse_spec:
  assumes "bio_inv cur s" "held cur s i" "caches s i blk" "b_valid (bufs s ! i)"
    "b_dirty (bufs s ! i) \<or> b_data (bufs s ! i) = disk s blk"
  shows "\<exists>s'. brelse cur i s = Ret s' \<and> bio_inv cur s' \<and> bsame cur s s' \<and> bufs s' ! i = unlock_buf (bufs s ! i) \<and>
    (\<forall>j. j \<noteq> i \<longrightarrow> bufs s' ! j = bufs s ! j)"
proof -
  note h = held_buf [OF assms(1,2)]
  let ?w = "wakeup1 (ChBufLock i) s"
  let ?s = "(upd_buf i unlock_buf ?w)\<lparr>lru := i # remove1 i (lru s)\<rparr>"
  have cur: "cur < length (procs s)" using assms(1) by (simp add: bio_inv_def)
  have w: "bio_inv cur ?w" using assms(1) by (simp add: bio_inv_def buf_wf_def)
  have "buf_wf ?w (unlock_buf (bufs ?w ! i))"
    using h assms(3-5) by (auto simp: buf_wf_def unlock_buf_def caches_def)
  moreover have "\<forall>j. caches ?w j (b_blockno (unlock_buf (bufs ?w ! i))) \<longrightarrow> j = i" if "b_dev (unlock_buf (bufs ?w ! i)) = 1"
    using caches_unique [OF w] h(1) that by (auto simp: caches_def unlock_buf_def)
  ultimately have "bio_inv cur (upd_buf i unlock_buf ?w)" by (intro bio_inv_upd [OF w h(1)])
  moreover have "distinct (i # remove1 i (lru s))" "set (i # remove1 i (lru s)) = {..<NBUF}"
    using assms(1) h(1) by (auto simp: bio_inv_def)
  ultimately have inv: "bio_inv cur ?s" by (simp add: bio_inv_def buf_wf_def)
  have "bufs ?s ! j = (if j = i then unlock_buf (bufs s ! i) else bufs s ! j)" for j
    using h(2) by (cases "j = i") simp_all
  then have "view ?s = view s" "pinned ?s = pinned s"
    using view_cong [OF assms(1) inv] by (auto simp: unlock_buf_def)
  with inv cur h(2) show ?thesis
    unfolding brelse_eq [OF assms(1,2)] by (simp add: bsame_def)
qed

subsection \<open>The cache implements a block store\<close>

text \<open>The two idioms of the clients: read a block, and overwrite a block on disk.\<close>

definition read_block :: "nat \<Rightarrow> uint \<Rightarrow> 'a bio_scheme \<Rightarrow> (block \<times> 'a bio_scheme) kres" where
  "read_block cur blk s =
     kbind (bread cur 1 blk s) (\<lambda>(i, s).
       let d = b_data (bufs s ! i) in kbind (brelse cur i s) (\<lambda>s. Ret (d, s)))"

definition write_block :: "nat \<Rightarrow> uint \<Rightarrow> block \<Rightarrow> 'a bio_scheme \<Rightarrow> 'a bio_scheme kres" where
  "write_block cur blk d s =
     kbind (bread cur 1 blk s) (\<lambda>(i, s).
     kbind (bwrite cur i (set_data i d s)) (\<lambda>s. brelse cur i s))"

text \<open>Between calls no buffer is locked, and at least one can be recycled.\<close>

definition bio_quiet :: "nat \<Rightarrow> 'a bio_scheme \<Rightarrow> bool" where
  "bio_quiet cur s \<longleftrightarrow> bio_inv cur s \<and> (\<forall>i<NBUF. \<not> sl_locked (b_lock (bufs s ! i))) \<and> (\<exists>i. evictable s i)"

lemma unlock_buf_simps [simp]:
  "\<not> sl_locked (b_lock (unlock_buf b))" "b_refcnt (unlock_buf b) = 0" "b_dirty (unlock_buf b) = b_dirty b"
  "b_data (unlock_buf b) = b_data b" "b_valid (unlock_buf b) = b_valid b" "b_dev (unlock_buf b) = b_dev b"
  "b_blockno (unlock_buf b) = b_blockno b"
  by (simp_all add: unlock_buf_def)

lemma dirty_pinned:
  assumes "bio_inv cur s" "caches s i blk"
  shows "b_dirty (bufs s ! i) \<longleftrightarrow> pinned s blk"
  using assms(2) caches_unique [OF assms(1,2)] unfolding pinned_def by blast

lemma quiet_clean:
  assumes "bio_quiet cur s" "caches s i blk" "\<not> b_dirty (bufs s ! i)"
  shows "view s blk = disk s blk"
proof -
  have inv: "bio_inv cur s" and i: "i < NBUF" using assms by (simp_all add: bio_quiet_def caches_def)
  have "evictable s i" using assms i inv by (auto simp: bio_quiet_def evictable_def bio_inv_def buf_wf_def)
  then show ?thesis using evictable_clean [OF inv _ assms(2)] by blast
qed

text \<open>After everything is released again, a recyclable buffer is left.\<close>

lemma quiet_again:
  assumes "bio_quiet cur s" "bio_inv cur s'"
    "\<And>j. j < NBUF \<Longrightarrow> bufs s' ! j = bufs s ! j \<or>
       (\<not> sl_locked (b_lock (bufs s' ! j)) \<and> (b_dirty (bufs s' ! j) \<longrightarrow> b_dirty (bufs s ! j)))"
  shows "bio_quiet cur s'" "evictable s i \<Longrightarrow> evictable s' i"
proof -
  have u: "\<not> sl_locked (b_lock (bufs s' ! j))" if "j < NBUF" for j
    using that assms(1) assms(3) [OF that] by (auto simp: bio_quiet_def)
  have ev: "evictable s' e" if "evictable s e" for e
  proof -
    have "e < NBUF" "\<not> b_dirty (bufs s' ! e)" using that assms(3) [of e] by (auto simp: evictable_def)
    moreover from this have "b_refcnt (bufs s' ! e) = 0" using u assms(2) by (auto simp: bio_inv_def buf_wf_def)
    ultimately show ?thesis by (simp add: evictable_def)
  qed
  then show "evictable s i \<Longrightarrow> evictable s' i" by blast
  obtain e where "evictable s e" using assms(1) by (auto simp: bio_quiet_def)
  with ev show "bio_quiet cur s'" using assms(2) u by (auto simp: bio_quiet_def)
qed

lemma read_block_spec:
  assumes "bio_quiet cur s" "blk < disksize s"
  shows "\<exists>s'. read_block cur blk s = Ret (view s blk, s') \<and> bio_quiet cur s' \<and> bsame cur s s' \<and>
    (\<forall>e. evictable s e \<longrightarrow> evictable s' e)"
proof -
  have inv: "bio_inv cur s" using assms(1) by (simp add: bio_quiet_def)
  have "\<not> sl_locked (b_lock (bufs s ! i))" if "caches s i blk" for i
    using assms(1) that by (simp add: bio_quiet_def caches_def)
  then obtain i t where t: "bread cur 1 blk s = Ret (i, t)" "bio_inv cur t" "caches t i blk" "held cur t i"
      "b_valid (bufs t ! i)" "b_data (bufs t ! i) = view s blk" "bsame cur s t" "\<forall>j. j \<noteq> i \<longrightarrow> bufs t ! j = bufs s ! j"
      "b_dirty (bufs t ! i) = b_dirty (bufs s ! i)"
    using bread_spec [OF inv assms(2)] assms(1) unfolding bio_quiet_def by metis
  have d: "b_dirty (bufs t ! i) \<longleftrightarrow> pinned s blk"
    using dirty_pinned [OF t(2,3)] t(7) by (simp add: bsame_def)
  have "b_dirty (bufs t ! i) \<or> b_data (bufs t ! i) = disk t blk"
  proof (cases "pinned s blk")
    case False
    then have "view s blk = disk s blk"
      using view_uncached [OF inv, of blk] quiet_clean [OF assms(1)] unfolding pinned_def by metis
    then show ?thesis using t(6,7) by (simp add: bsame_def)
  qed (use d in simp)
  from brelse_spec [OF t(2,4,3,5) this] obtain s' where s': "brelse cur i t = Ret s'" "bio_inv cur s'" "bsame cur t s'"
      "bufs s' ! i = unlock_buf (bufs t ! i)" "\<forall>j. j \<noteq> i \<longrightarrow> bufs s' ! j = bufs t ! j" by blast
  have "bufs s' ! j = bufs s ! j \<or> (\<not> sl_locked (b_lock (bufs s' ! j)) \<and> (b_dirty (bufs s' ! j) \<longrightarrow> b_dirty (bufs s ! j)))" for j
    using s'(4,5) t(8,9) by (cases "j = i") simp_all
  from quiet_again [OF assms(1) s'(2) this] t s' show ?thesis using bsame_trans by (simp add: read_block_def Let_def) blast
qed

lemma write_block_spec:
  assumes "bio_quiet cur s" "blk < disksize s"
  shows "\<exists>s'. write_block cur blk d s = Ret s' \<and> bio_quiet cur s' \<and> view s' = (view s)(blk := d) \<and>
    disk s' = (disk s)(blk := d) \<and> wlog s' = wlog s @ [(blk, d)] \<and> pinned s' = (pinned s)(blk := False) \<and>
    disksize s' = disksize s \<and> who cur s' = who cur s \<and> (\<forall>e. evictable s e \<longrightarrow> evictable s' e)"
proof -
  have inv: "bio_inv cur s" using assms(1) by (simp add: bio_quiet_def)
  have "\<not> sl_locked (b_lock (bufs s ! i))" if "caches s i blk" for i
    using assms(1) that by (simp add: bio_quiet_def caches_def)
  then obtain i t where t: "bread cur 1 blk s = Ret (i, t)" "bio_inv cur t" "caches t i blk" "held cur t i"
      "b_valid (bufs t ! i)" "bsame cur s t" "\<forall>j. j \<noteq> i \<longrightarrow> bufs t ! j = bufs s ! j"
    using bread_spec [OF inv assms(2)] assms(1) unfolding bio_quiet_def by metis
  let ?u = "set_data i d t"
  note u = set_data_spec [OF t(2,4,3,5), where d = d]
  have "blk < disksize ?u" using assms(2) t(6) by (simp add: u bsame_def)
  then obtain w where w: "bwrite cur i ?u = Ret w" "bio_inv cur w" "view w = view ?u" "pinned w = (pinned ?u)(blk := False)"
      "disk w = (disk ?u)(blk := d)" "wlog w = wlog ?u @ [(blk, d)]" "disksize w = disksize ?u" "who cur w = who cur ?u"
      "held cur w i" "caches w i blk" "bufs w ! i = (bufs ?u ! i)\<lparr>b_dirty := False\<rparr>" "\<forall>j. j \<noteq> i \<longrightarrow> bufs w ! j = bufs ?u ! j"
    using bwrite_spec [OF u(1), of i blk] t by (auto simp: u)
  have wi: "b_valid (bufs w ! i)" "\<not> b_dirty (bufs w ! i)" "b_data (bufs w ! i) = disk w blk"
    using t(5) by (simp_all add: w u)
  then obtain s' where s': "brelse cur i w = Ret s'" "bio_inv cur s'" "bsame cur w s'"
      "bufs s' ! i = unlock_buf (bufs w ! i)" "\<forall>j. j \<noteq> i \<longrightarrow> bufs s' ! j = bufs w ! j"
    using brelse_spec [OF w(2,9,10)] by blast
  have "bufs s' ! j = bufs s ! j \<or> (\<not> sl_locked (b_lock (bufs s' ! j)) \<and> (b_dirty (bufs s' ! j) \<longrightarrow> b_dirty (bufs s ! j)))" for j
    using s'(4,5) t(7) w(12) wi u(7) by (cases "j = i") simp_all
  from quiet_again [OF assms(1) s'(2) this] t w s' show ?thesis by (auto simp: write_block_def bsame_def u)
qed

datatype block_op = BRead uint | BWrite uint block

primrec op_block :: "block_op \<Rightarrow> uint" where
  "op_block (BRead b) = b" | "op_block (BWrite b d) = b"

text \<open>The specification: an array of blocks.\<close>

primrec plain_run :: "block_op list \<Rightarrow> (uint \<Rightarrow> block) \<Rightarrow> block list \<times> (uint \<Rightarrow> block)" where
  "plain_run [] m = ([], m)"
| "plain_run (e # es) m =
     (case e of
        BRead b \<Rightarrow> (case plain_run es m of (outs, m') \<Rightarrow> (m b # outs, m'))
      | BWrite b d \<Rightarrow> plain_run es (m(b := d)))"

primrec store_run :: "(uint \<Rightarrow> 's \<Rightarrow> (block \<times> 's) kres) \<Rightarrow> (uint \<Rightarrow> block \<Rightarrow> 's \<Rightarrow> 's kres) \<Rightarrow>
    block_op list \<Rightarrow> 's \<Rightarrow> (block list \<times> 's) kres" where
  "store_run rd wr [] s = Ret ([], s)"
| "store_run rd wr (e # es) s =
     (case e of
        BRead b \<Rightarrow> kbind (rd b s) (\<lambda>(d, s). kbind (store_run rd wr es s) (\<lambda>(outs, s). Ret (d # outs, s)))
      | BWrite b d \<Rightarrow> kbind (wr b d s) (store_run rd wr es))"

locale block_store =
  fixes rd :: "uint \<Rightarrow> 's \<Rightarrow> (block \<times> 's) kres" and wr :: "uint \<Rightarrow> block \<Rightarrow> 's \<Rightarrow> 's kres"
    and contents :: "'s \<Rightarrow> uint \<Rightarrow> block" and inv :: "'s \<Rightarrow> bool" and limit :: "'s \<Rightarrow> uint"
  assumes rd_ok: "inv s \<Longrightarrow> b < limit s \<Longrightarrow>
      \<exists>s'. rd b s = Ret (contents s b, s') \<and> inv s' \<and> contents s' = contents s \<and> limit s' = limit s"
    and wr_ok: "inv s \<Longrightarrow> b < limit s \<Longrightarrow>
      \<exists>s'. wr b d s = Ret s' \<and> inv s' \<and> contents s' = (contents s)(b := d) \<and> limit s' = limit s"
begin

lemma run_refines:
  assumes "inv s" "\<forall>e\<in>set es. op_block e < limit s"
  shows "\<exists>s'. store_run rd wr es s = Ret (fst (plain_run es (contents s)), s') \<and> inv s' \<and>
    contents s' = snd (plain_run es (contents s))"
  using assms
proof (induction es arbitrary: s)
  case Nil
  then show ?case by simp
next
  case (Cons e es)
  show ?case
  proof (cases e)
    case (BRead b)
    with Cons.prems rd_ok [of s b] obtain s' where "rd b s = Ret (contents s b, s')" "inv s'"
        "contents s' = contents s" "limit s' = limit s" by auto
    with Cons.IH [of s'] Cons.prems BRead show ?thesis by (auto split: prod.splits)
  next
    case (BWrite b d)
    with Cons.prems wr_ok [of s b d] obtain s' where "wr b d s = Ret s'" "inv s'"
        "contents s' = (contents s)(b := d)" "limit s' = limit s" by auto
    with Cons.IH [of s'] Cons.prems BWrite show ?thesis by (auto simp: fun_upd_def)
  qed
qed

end

interpretation bcache: block_store "read_block cur" "write_block cur" view "bio_quiet cur" disksize for cur
proof (unfold_locales, goal_cases)
  case (1 s b)
  then show ?case using read_block_spec [of cur s b] by (auto simp: bsame_def)
next
  case (2 s b d)
  then show ?case using write_block_spec [of cur s b d] by auto
qed

text \<open>
  C4. The buffer cache implements a block store: any sequence of reads and writes of blocks on
  the disk, through any number of recycled buffers, completes, and each read returns what the
  last write of that block stored, or what the disk held.
\<close>

theorem cache_refines_store:
  assumes "bio_quiet cur s" "\<forall>e\<in>set es. op_block e < disksize s"
  shows "\<exists>s'. store_run (read_block cur) (write_block cur) es s = Ret (fst (plain_run es (view s)), s') \<and>
    bio_quiet cur s' \<and> view s' = snd (plain_run es (view s))"
  using bcache.run_refines [OF assms] .

definition empty_buf :: buf where
  "empty_buf = \<lparr>b_valid = False, b_dirty = False, b_dev = 0, b_blockno = 0, b_lock = initsleeplock, b_refcnt = 0,
     b_data = replicate BSIZE 0\<rparr>"

text \<open>The cache after \<^verbatim>\<open>binit\<close> over an empty disk of 1000 blocks.\<close>

definition bio0 :: bio where
  "bio0 = \<lparr>ptlock = False, procs = procs sleeper_table, initproc = None, nextpid = 2, kmem = two_pages, trace = 0,
     countCalls = replicate NSYSCALLS 0, memLock = False, msgs = [], msg_from = [], dest = [], waiting = [],
     wait_msgs = [], tickslock = False, ticks = 0, bc_lock = False, bufs = replicate NBUF empty_buf,
     lru = rev [0..<NBUF], disk = (\<lambda>_. replicate BSIZE 0), disksize = 1000, wlog = []\<rparr>"

lemma bio0_quiet: "bio_quiet 0 bio0" "disksize bio0 = 1000" "wlog bio0 = []" "\<not> pinned bio0 b"
proof -
  have "evictable bio0 0" by (simp add: bio0_def evictable_def empty_buf_def)
  moreover have "bio_inv 0 bio0"
    by (auto simp: bio_inv_def bio0_def buf_wf_def empty_buf_def initsleeplock_def sleeper_table_def)
  ultimately show "bio_quiet 0 bio0"
    by (auto simp: bio_quiet_def) (simp add: bio0_def empty_buf_def initsleeplock_def)
qed (simp_all add: bio0_def pinned_def caches_def empty_buf_def)

theorem cache_refines_store_witness:
  "\<exists>s'. store_run (read_block 0) (write_block 0) [BWrite 7 [1], BWrite 8 [2], BRead 7] bio0 = Ret ([[1]], s')"
  using cache_refines_store [OF bio0_quiet(1), of "[BWrite 7 [1], BWrite 8 [2], BRead 7]"] by (auto simp: bio0_quiet)

end
