(* ===== verification/Blockdata.thy ===== *)
theory Blockdata
  imports Kmemory
begin

text \<open>
  Integers in the bytes of a disk block, little-endian as the processor stores them: what the casts
  \<^verbatim>\<open>(struct logheader*)buf->data\<close>, \<^verbatim>\<open>(struct dinode*)bp->data\<close> and \<^verbatim>\<open>(uint*)bp->data\<close> of the file
  system read and write.
\<close>

definition get32 :: "uchar list \<Rightarrow> nat \<Rightarrow> uint" where
  "get32 d i = ucast (d ! i) OR push_bit 8 (ucast (d ! (i + 1)))
     OR push_bit 16 (ucast (d ! (i + 2))) OR push_bit 24 (ucast (d ! (i + 3)))"

definition put32 :: "uchar list \<Rightarrow> nat \<Rightarrow> uint \<Rightarrow> uchar list" where
  "put32 d i v = d[i := ucast v, i + 1 := ucast (drop_bit 8 v), i + 2 := ucast (drop_bit 16 v),
     i + 3 := ucast (drop_bit 24 v)]"

definition get16 :: "uchar list \<Rightarrow> nat \<Rightarrow> ushort" where
  "get16 d i = ucast (d ! i) OR push_bit 8 (ucast (d ! (i + 1)))"

definition put16 :: "uchar list \<Rightarrow> nat \<Rightarrow> ushort \<Rightarrow> uchar list" where
  "put16 d i v = d[i := ucast v, i + 1 := ucast (drop_bit 8 v)]"

named_theorems blk_simps \<open>reading what was written in a block\<close>

lemma length_put [simp]: "length (put32 d i v) = length d" "length (put16 d i v') = length d"
  by (simp_all add: put32_def put16_def)

lemma get32_put32 [blk_simps]: "i + 4 \<le> length d \<Longrightarrow> get32 (put32 d i v) i = v"
  using bytes_join [of v] by (simp add: get32_def put32_def)

lemma put32_nth [blk_simps]: "j < i \<or> i + 4 \<le> j \<Longrightarrow> put32 d i v ! j = d ! j"
  by (auto simp: put32_def)

lemma put16_nth [blk_simps]: "j < i \<or> i + 2 \<le> j \<Longrightarrow> put16 d i v ! j = d ! j"
  by (auto simp: put16_def)

lemma get32_put32_other [blk_simps]: "i + 4 \<le> j \<or> j + 4 \<le> i \<Longrightarrow> get32 (put32 d i v) j = get32 d j"
  by (auto simp: get32_def put32_nth)

lemma get32_put16_other [blk_simps]: "i + 2 \<le> j \<or> j + 4 \<le> i \<Longrightarrow> get32 (put16 d i v) j = get32 d j"
  by (auto simp: get32_def put16_nth)

lemma get16_put32_other [blk_simps]: "i + 4 \<le> j \<or> j + 2 \<le> i \<Longrightarrow> get16 (put32 d i v) j = get16 d j"
  by (auto simp: get16_def put32_nth)

lemma get16_put16_other [blk_simps]: "i + 2 \<le> j \<or> j + 2 \<le> i \<Longrightarrow> get16 (put16 d i v) j = get16 d j"
  by (auto simp: get16_def put16_nth)

lemma bytes_join16:
  "(ucast (ucast v :: uchar) OR push_bit 8 (ucast (ucast (drop_bit 8 v) :: uchar)) :: ushort) = v"
proof (rule bit_word_eqI)
  fix n assume "n < LENGTH(16)"
  then have "n < 16" by simp
  then consider "n < 8" | "8 \<le> n" "n < 16" by (meson not_less)
  then show "bit (ucast (ucast v :: uchar) OR push_bit 8 (ucast (ucast (drop_bit 8 v) :: uchar)) :: ushort) n \<longleftrightarrow> bit v n"
    by cases (auto simp: bit_or_iff bit_push_bit_iff bit_ucast_iff bit_drop_bit_eq)
qed

lemma get16_put16 [blk_simps]: "i + 2 \<le> length d \<Longrightarrow> get16 (put16 d i v) i = v"
  using bytes_join16 [of v] by (simp add: get16_def put16_def)

text \<open>A run of words.\<close>

primrec put_words :: "uchar list \<Rightarrow> nat \<Rightarrow> uint list \<Rightarrow> uchar list" where
  "put_words d i [] = d"
| "put_words d i (w # ws) = put_words (put32 d i w) (i + 4) ws"

definition get_words :: "uchar list \<Rightarrow> nat \<Rightarrow> nat \<Rightarrow> uint list" where
  "get_words d i n = map (\<lambda>k. get32 d (i + 4 * k)) [0..<n]"

lemma length_put_words [simp]: "length (put_words d i ws) = length d"
  by (induction ws arbitrary: d i) simp_all

lemma get32_put_words_before: "j + 4 \<le> i \<Longrightarrow> get32 (put_words d i ws) j = get32 d j"
  by (induction ws arbitrary: d i) (simp_all add: get32_put32_other)

lemma get16_put_words_before: "j + 2 \<le> i \<Longrightarrow> get16 (put_words d i ws) j = get16 d j"
  by (induction ws arbitrary: d i) (simp_all add: get16_put32_other)

lemma get_words_put_words:
  "i + 4 * length ws \<le> length d \<Longrightarrow> get_words (put_words d i ws) i (length ws) = ws"
proof (induction ws arbitrary: d i)
  case Nil
  then show ?case by (simp add: get_words_def)
next
  case (Cons w ws)
  have "get_words (put_words d i (w # ws)) i (length (w # ws)) =
      get32 (put_words (put32 d i w) (i + 4) ws) i # get_words (put_words (put32 d i w) (i + 4) ws) (i + 4) (length ws)"
    by (simp add: get_words_def upt_conv_Cons map_Suc_upt [symmetric] add.assoc del: upt_Suc)
  with Cons show ?case by (simp add: get32_put_words_before get32_put32)
qed

end
