(* ===== verification/Log.thy ===== *)
theory Log
  imports Bio Blockdata
begin

text \<open>
  The write-ahead log, \<^verbatim>\<open>src/xv6A1/log.c\<close>. The in-memory header \<^verbatim>\<open>log.lh\<close> is the list of its first
  \<^verbatim>\<open>n\<close> entries, the only ones the code reads. The log works on the buffer cache, which is a field
  of its state.
\<close>

abbreviation "LOGSIZE \<equiv> (30 :: nat)"
abbreviation "MAXOPBLOCKS \<equiv> (10 :: int)"

record logst =
  lbio :: bio
  lg_lock :: bool
  lg_start :: uint
  lg_size :: uint
  outstanding :: int
  committing :: bool
  lg_dev :: uint
  lh :: "uint list"

definition lg_acquire :: "'a logst_scheme \<Rightarrow> 'a logst_scheme kres" where
  "lg_acquire s = kbind (lock_acquire (lg_lock s)) (\<lambda>h. Ret (s\<lparr>lg_lock := h\<rparr>))"

definition lg_release :: "'a logst_scheme \<Rightarrow> 'a logst_scheme kres" where
  "lg_release s = kbind (lock_release (lg_lock s)) (\<lambda>h. Ret (s\<lparr>lg_lock := h\<rparr>))"

subsection \<open>The header block\<close>

definition encode_head :: "uint list \<Rightarrow> block \<Rightarrow> block" where
  "encode_head bs d = put_words (put32 d 0 (of_nat (length bs))) 4 bs"

definition decode_head :: "block \<Rightarrow> uint list kres" where
  "decode_head d =
     (let n = sint (get32 d 0)
      in if n > int LOGSIZE then Fault ''log header too long''
         else Ret (get_words d 4 (nat n)))"

definition read_head :: "nat \<Rightarrow> 'a logst_scheme \<Rightarrow> 'a logst_scheme kres" where
  "read_head cur s =
     kbind (bread cur (lg_dev s) (lg_start s) (lbio s)) (\<lambda>(i, b).
     kbind (decode_head (b_data (bufs b ! i))) (\<lambda>bs.
     kbind (brelse cur i b) (\<lambda>b. Ret (s\<lparr>lbio := b, lh := bs\<rparr>))))"

definition write_head :: "nat \<Rightarrow> 'a logst_scheme \<Rightarrow> 'a logst_scheme kres" where
  "write_head cur s =
     kbind (bread cur (lg_dev s) (lg_start s) (lbio s)) (\<lambda>(i, b).
     kbind (bwrite cur i (set_data i (encode_head (lh s) (b_data (bufs b ! i))) b)) (\<lambda>b.
     kbind (brelse cur i b) (\<lambda>b. Ret (s\<lparr>lbio := b\<rparr>))))"

subsection \<open>Copying blocks\<close>

text \<open>One turn of the loop of \<^verbatim>\<open>write_log\<close> and of \<^verbatim>\<open>install_trans\<close>.\<close>

definition log_block :: "nat \<Rightarrow> uint \<Rightarrow> uint \<Rightarrow> uint \<Rightarrow> bio \<Rightarrow> bio kres" where
  "log_block cur dev lb hb b =
     kbind (bread cur dev lb b) (\<lambda>(t, b).
     kbind (bread cur dev hb b) (\<lambda>(f, b).
     kbind (bwrite cur t (set_data t (b_data (bufs b ! f)) b)) (\<lambda>b.
     kbind (brelse cur f b) (\<lambda>b. brelse cur t b))))"

definition install_block :: "nat \<Rightarrow> uint \<Rightarrow> uint \<Rightarrow> uint \<Rightarrow> bio \<Rightarrow> bio kres" where
  "install_block cur dev lb hb b =
     kbind (bread cur dev lb b) (\<lambda>(l, b).
     kbind (bread cur dev hb b) (\<lambda>(d, b).
     kbind (bwrite cur d (set_data d (b_data (bufs b ! l)) b)) (\<lambda>b.
     kbind (brelse cur l b) (\<lambda>b. brelse cur d b))))"

primrec write_log_loop :: "nat \<Rightarrow> uint \<Rightarrow> uint \<Rightarrow> uint list \<Rightarrow> bio \<Rightarrow> bio kres" where
  "write_log_loop cur dev lb [] b = Ret b"
| "write_log_loop cur dev lb (hb # hbs) b =
     kbind (log_block cur dev lb hb b) (write_log_loop cur dev (lb + 1) hbs)"

primrec install_loop :: "nat \<Rightarrow> uint \<Rightarrow> uint \<Rightarrow> uint list \<Rightarrow> bio \<Rightarrow> bio kres" where
  "install_loop cur dev lb [] b = Ret b"
| "install_loop cur dev lb (hb # hbs) b =
     kbind (install_block cur dev lb hb b) (install_loop cur dev (lb + 1) hbs)"

definition write_log :: "nat \<Rightarrow> 'a logst_scheme \<Rightarrow> 'a logst_scheme kres" where
  "write_log cur s = kbind (write_log_loop cur (lg_dev s) (lg_start s + 1) (lh s) (lbio s)) (\<lambda>b. Ret (s\<lparr>lbio := b\<rparr>))"

definition install_trans :: "nat \<Rightarrow> 'a logst_scheme \<Rightarrow> 'a logst_scheme kres" where
  "install_trans cur s = kbind (install_loop cur (lg_dev s) (lg_start s + 1) (lh s) (lbio s)) (\<lambda>b. Ret (s\<lparr>lbio := b\<rparr>))"

definition recover_from_log :: "nat \<Rightarrow> 'a logst_scheme \<Rightarrow> 'a logst_scheme kres" where
  "recover_from_log cur s =
     kbind (read_head cur s) (\<lambda>s.
     kbind (install_trans cur s) (\<lambda>s. write_head cur (s\<lparr>lh := []\<rparr>)))"

definition commit :: "nat \<Rightarrow> 'a logst_scheme \<Rightarrow> 'a logst_scheme kres" where
  "commit cur s =
     (if lh s \<noteq> [] then
        kbind (write_log cur s) (\<lambda>s.
        kbind (write_head cur s) (\<lambda>s.
        kbind (install_trans cur s) (\<lambda>s. write_head cur (s\<lparr>lh := []\<rparr>))))
      else Ret s)"

subsection \<open>Transactions\<close>

text \<open>\<^verbatim>\<open>begin_op\<close>: a caller that has to wait goes to sleep on the log.\<close>

definition begin_op :: "'a logst_scheme \<Rightarrow> 'a logst_scheme kres" where
  "begin_op s =
     kbind (lg_acquire s) (\<lambda>s.
       if committing s then Block ChLog
       else kbind (cinc (outstanding s)) (\<lambda>n.
         let used = int (length (lh s)) + n * MAXOPBLOCKS
         in if used > INT_MAX then Fault ''int overflow''
            else if used > int LOGSIZE then Block ChLog
            else lg_release (s\<lparr>outstanding := n\<rparr>)))"

definition log_wakeup :: "'a logst_scheme \<Rightarrow> 'a logst_scheme kres" where
  "log_wakeup s = kbind (wakeup ChLog (lbio s)) (\<lambda>b. Ret (s\<lparr>lbio := b\<rparr>))"

definition end_op :: "nat \<Rightarrow> 'a logst_scheme \<Rightarrow> 'a logst_scheme kres" where
  "end_op cur s =
     kbind (lg_acquire s) (\<lambda>s.
     kbind (cdec (outstanding s)) (\<lambda>n.
       let s = s\<lparr>outstanding := n\<rparr>
       in if committing s then Panic ''log.committing''
          else if outstanding s = 0 then
            kbind (lg_release (s\<lparr>committing := True\<rparr>)) (\<lambda>s.
            kbind (commit cur s) (\<lambda>s.
            kbind (lg_acquire s) (\<lambda>s.
            kbind (log_wakeup (s\<lparr>committing := False\<rparr>)) lg_release)))
          else kbind (log_wakeup s) lg_release))"

definition log_write :: "nat \<Rightarrow> 'a logst_scheme \<Rightarrow> 'a logst_scheme kres" where
  "log_write i s =
     (if length (lh s) \<ge> LOGSIZE \<or> int (length (lh s)) \<ge> sint (lg_size s) - 1 then Panic ''too big a transaction''
      else if outstanding s < 1 then Panic ''log_write outside of trans''
      else kbind (lg_acquire s) (\<lambda>s.
        let blk = b_blockno (bufs (lbio s) ! i);
            s = (case first_index (\<lambda>x. x = blk) (lh s) of
                   Some k \<Rightarrow> s\<lparr>lh := (lh s)[k := blk]\<rparr>
                 | None \<Rightarrow> s\<lparr>lh := lh s @ [blk]\<rparr>);
            s = s\<lparr>lbio := upd_buf i (\<lambda>b. b\<lparr>b_dirty := True\<rparr>) (lbio s)\<rparr>
        in lg_release s))"

lemma lg_lock_simps [pt_simps]:
  "\<not> lg_lock s \<Longrightarrow> lg_acquire s = Ret (s\<lparr>lg_lock := True\<rparr>)"
  "lg_lock s \<Longrightarrow> lg_release s = Ret (s\<lparr>lg_lock := False\<rparr>)"
  by (simp_all add: lg_acquire_def lg_release_def)

text \<open>A block is recorded once, and its buffer is marked.\<close>

lemma log_write_spec:
  assumes "\<not> lg_lock s" "length (lh s) < LOGSIZE" "int (length (lh s)) < sint (lg_size s) - 1" "1 \<le> outstanding s"
    "blk = b_blockno (bufs (lbio s) ! i)"
  shows "log_write i s = Ret (s\<lparr>lbio := upd_buf i (\<lambda>b. b\<lparr>b_dirty := True\<rparr>) (lbio s),
    lh := (if blk \<in> set (lh s) then lh s else lh s @ [blk])\<rparr>)"
proof (cases "first_index (\<lambda>x. x = blk) (lh s)")
  case None
  then have "blk \<notin> set (lh s)" using first_index_None [of "\<lambda>x. x = blk" "lh s"] by blast
  with None assms show ?thesis by (cases s) (simp add: log_write_def pt_simps Let_def)
next
  case (Some k)
  then have "lh s ! k = blk" "k < length (lh s)" by (simp_all add: first_index_Some)
  moreover from this have "blk \<in> set (lh s)" using nth_mem by blast
  ultimately show ?thesis using Some assms by (cases s) (simp add: log_write_def pt_simps Let_def list_update_same_conv)
qed

text \<open>
  \<^verbatim>\<open>begin_op\<close> admits three operations of ten blocks each, but the thirtieth block is refused when the log
  has the thirty blocks, header included, that \<^verbatim>\<open>mkfs\<close> gives it; a block that is already recorded is refused as well.
\<close>

lemma begin_op_admits_three:
  assumes "\<not> lg_lock s" "\<not> committing s" "lh s = []" "0 \<le> outstanding s" "outstanding s < 3"
  shows "begin_op s = Ret (s\<lparr>outstanding := outstanding s + 1, lg_lock := False\<rparr>)"
  using assms by (simp add: begin_op_def pt_simps)

lemma thirtieth_block_panics:
  "lg_size s = 30 \<Longrightarrow> length (lh s) = 29 \<Longrightarrow> log_write i s = Panic ''too big a transaction''"
  by (simp add: log_write_def)

subsection \<open>Copying a block through the cache\<close>

text \<open>A second buffer can be had: the block is in the cache for good, or two buffers can be recycled.\<close>

definition room :: "bio \<Rightarrow> uint \<Rightarrow> bool" where
  "room b blk \<longleftrightarrow> pinned b blk \<or> (\<exists>i j. i \<noteq> j \<and> evictable b i \<and> evictable b j)"

text \<open>Two different blocks held at the same time.\<close>

lemma bread_two:
  assumes "bio_quiet cur b" "x \<noteq> y" "x < disksize b" "y < disksize b" "room b y"
  shows "\<exists>i j b1 b2. bread cur 1 x b = Ret (i, b1) \<and> bread cur 1 y b1 = Ret (j, b2) \<and> i \<noteq> j \<and> bio_inv cur b2 \<and>
    caches b2 i x \<and> caches b2 j y \<and> held cur b2 i \<and> held cur b2 j \<and> b_valid (bufs b2 ! i) \<and> b_valid (bufs b2 ! j) \<and>
    b_data (bufs b2 ! i) = view b x \<and> b_data (bufs b2 ! j) = view b y \<and> bsame cur b b2 \<and>
    (\<forall>k. k \<noteq> i \<and> k \<noteq> j \<longrightarrow> bufs b2 ! k = bufs b ! k) \<and>
    b_dirty (bufs b2 ! i) = b_dirty (bufs b ! i) \<and> b_dirty (bufs b2 ! j) = b_dirty (bufs b ! j)"
proof -
  have inv: "bio_inv cur b" and un: "\<And>i. i < NBUF \<Longrightarrow> \<not> sl_locked (b_lock (bufs b ! i))"
    using assms(1) by (simp_all add: bio_quiet_def)
  have "\<not> sl_locked (b_lock (bufs b ! i))" if "caches b i x" for i using that un by (simp add: caches_def)
  then obtain i b1 where r1: "bread cur 1 x b = Ret (i, b1)" "bio_inv cur b1" "caches b1 i x" "held cur b1 i"
      "b_valid (bufs b1 ! i)" "b_data (bufs b1 ! i) = view b x" "bsame cur b b1"
      "\<forall>k. k \<noteq> i \<longrightarrow> bufs b1 ! k = bufs b ! k" "b_dirty (bufs b1 ! i) = b_dirty (bufs b ! i)"
    using bread_spec [OF inv assms(3)] assms(1) unfolding bio_quiet_def by metis
  have "i \<noteq> k" if "caches b1 k y" for k using that r1(3) assms(2) by (auto simp: caches_def)
  then have unl: "\<not> sl_locked (b_lock (bufs b1 ! k))" if "caches b1 k y" for k
    using that r1(8) un by (metis caches_def)
  have av: "(\<exists>k. caches b1 k y) \<or> (\<exists>k. evictable b1 k)"
  proof (cases "pinned b y")
    case True
    then have "pinned b1 y" using r1(7) by (simp add: bsame_def)
    then show ?thesis unfolding pinned_def by blast
  next
    case False
    then obtain k where "k \<noteq> i" "evictable b k" using assms(5) unfolding room_def by metis
    then have "evictable b1 k" using r1(8) by (simp add: evictable_def)
    then show ?thesis by blast
  qed
  have "y < disksize b1" using r1(7) assms(4) by (simp add: bsame_def)
  from bread_spec [OF r1(2) this unl av] obtain j b2 where r2: "bread cur 1 y b1 = Ret (j, b2)" "bio_inv cur b2"
      "caches b2 j y" "held cur b2 j" "b_valid (bufs b2 ! j)" "b_data (bufs b2 ! j) = view b1 y" "bsame cur b1 b2"
      "\<forall>k. k \<noteq> j \<longrightarrow> bufs b2 ! k = bufs b1 ! k" "\<not> sl_locked (b_lock (bufs b1 ! j))"
      "b_dirty (bufs b2 ! j) = b_dirty (bufs b1 ! j)" by blast
  have ij: "i \<noteq> j" using r2(9) held_buf [OF r1(2,4)] by metis
  have pid: "who cur b2 = who cur b1" "view b1 = view b" using r2(7) r1(7) by (simp_all add: bsame_def)
  have bi: "bufs b2 ! i = bufs b1 ! i" using r2(8) ij by simp
  have bj: "bufs b1 ! j = bufs b ! j" using r1(8) ij by simp
  have "caches b2 i x" "held cur b2 i" using r1(3,4) bi pid by (simp_all add: caches_def held_def)
  moreover have "\<forall>k. k \<noteq> i \<and> k \<noteq> j \<longrightarrow> bufs b2 ! k = bufs b ! k" using r1(8) r2(8) by simp
  ultimately show ?thesis
    using r1 r2 ij bi bj pid bsame_trans [OF r1(7) r2(7)] by (intro exI [of _ i] exI [of _ j] exI [of _ b1] exI [of _ b2] conjI) simp_all
qed

text \<open>The effect of copying block \<open>x\<close> over block \<open>y\<close> on disk.\<close>

definition copied :: "nat \<Rightarrow> uint \<Rightarrow> uint \<Rightarrow> bio \<Rightarrow> bio \<Rightarrow> bool" where
  "copied cur x y b b' \<longleftrightarrow> bio_quiet cur b' \<and> view b' = (view b)(y := view b x) \<and>
     disk b' = (disk b)(y := view b x) \<and> wlog b' = wlog b @ [(y, view b x)] \<and>
     pinned b' = (pinned b)(y := False) \<and> disksize b' = disksize b \<and> who cur b' = who cur b \<and>
     (\<forall>i. evictable b i \<longrightarrow> evictable b' i)"

lemma quiet_unpinned: "bio_quiet cur b \<Longrightarrow> \<not> pinned b x \<Longrightarrow> view b x = disk b x"
proof -
  assume q: "bio_quiet cur b" and p: "\<not> pinned b x"
  have inv: "bio_inv cur b" using q by (simp add: bio_quiet_def)
  show "view b x = disk b x"
  proof (cases "\<exists>i. caches b i x")
    case True
    then obtain i where i: "caches b i x" by blast
    then have "\<not> b_dirty (bufs b ! i)" using p unfolding pinned_def by blast
    then show ?thesis using quiet_clean [OF q i] by blast
  next
    case False
    then show ?thesis using view_uncached [OF inv, of x] by blast
  qed
qed

text \<open>
  With source buffer \<open>si\<close> and destination buffer \<open>di\<close> held: copy, write, release the source, then the
  destination.
\<close>

lemma copy_held:
  assumes "bio_quiet cur b" "bio_inv cur b2" "bsame cur b b2" "x \<noteq> y" "y < disksize b" "si \<noteq> di"
    "caches b2 si x" "caches b2 di y" "held cur b2 si" "held cur b2 di" "b_valid (bufs b2 ! si)" "b_valid (bufs b2 ! di)"
    "b_data (bufs b2 ! si) = view b x" "\<forall>k. k \<noteq> si \<and> k \<noteq> di \<longrightarrow> bufs b2 ! k = bufs b ! k"
    "b_dirty (bufs b2 ! si) = b_dirty (bufs b ! si)" "b_dirty (bufs b2 ! di) = b_dirty (bufs b ! di)"
  shows "\<exists>b3 b4 b5. bwrite cur di (set_data di (b_data (bufs b2 ! si)) b2) = Ret b3 \<and> brelse cur si b3 = Ret b4 \<and>
    brelse cur di b4 = Ret b5 \<and> copied cur x y b b5"
proof -
  let ?d = "view b x"
  let ?u = "set_data di ?d b2"
  note u = set_data_spec [OF assms(2,10,8,12), where d = ?d]
  note same = assms(3) [unfolded bsame_def]
  have "y < disksize ?u" using assms(5) same by (simp add: u)
  then obtain b3 where w: "bwrite cur di ?u = Ret b3" "bio_inv cur b3" "view b3 = view ?u" "pinned b3 = (pinned ?u)(y := False)"
      "disk b3 = (disk ?u)(y := ?d)" "wlog b3 = wlog ?u @ [(y, ?d)]" "disksize b3 = disksize ?u" "who cur b3 = who cur ?u"
      "held cur b3 di" "caches b3 di y" "bufs b3 ! di = (bufs ?u ! di)\<lparr>b_dirty := False\<rparr>"
      "\<forall>k. k \<noteq> di \<longrightarrow> bufs b3 ! k = bufs ?u ! k"
    using bwrite_spec [OF u(1), of di y] assms(8,10,12) by (auto simp: u)
  have si: "bufs b3 ! si = bufs b2 ! si" using w(12) u(7) assms(6) by simp
  have h3: "held cur b3 si" "caches b3 si x" using assms(7,9) si w(8) u(11) by (simp_all add: held_def caches_def)
  have "b_dirty (bufs b3 ! si) \<or> b_data (bufs b3 ! si) = disk b3 x"
  proof (cases "pinned b x")
    case True
    then show ?thesis using dirty_pinned [OF assms(2,7)] same si by simp
  next
    case False
    then show ?thesis using quiet_unpinned [OF assms(1)] assms(4,13) si w(5) u(8) same by simp
  qed
  then obtain b4 where r: "brelse cur si b3 = Ret b4" "bio_inv cur b4" "bsame cur b3 b4"
      "bufs b4 ! si = unlock_buf (bufs b3 ! si)" "\<forall>k. k \<noteq> si \<longrightarrow> bufs b4 ! k = bufs b3 ! k"
    using brelse_spec [OF w(2) h3] assms(11) si by auto
  have di: "bufs b4 ! di = (bufs b2 ! di)\<lparr>b_data := ?d, b_dirty := False\<rparr>" using r(5) w(11) u(6) assms(6) by simp
  have h4: "held cur b4 di" "caches b4 di y" using w(9,10) r(3,5) assms(6) by (simp_all add: held_def caches_def bsame_def)
  have "b_valid (bufs b4 ! di)" "b_data (bufs b4 ! di) = disk b4 y" using di assms(12) r(3) w(5) by (simp_all add: bsame_def)
  then obtain b5 where q: "brelse cur di b4 = Ret b5" "bio_inv cur b5" "bsame cur b4 b5"
      "bufs b5 ! di = unlock_buf (bufs b4 ! di)" "\<forall>k. k \<noteq> di \<longrightarrow> bufs b5 ! k = bufs b4 ! k"
    using brelse_spec [OF r(2) h4] by blast
  have k: "bufs b5 ! k = bufs b ! k \<or> (\<not> sl_locked (b_lock (bufs b5 ! k)) \<and> (b_dirty (bufs b5 ! k) \<longrightarrow> b_dirty (bufs b ! k)))" for k
  proof (cases "k = di")
    case True
    then show ?thesis using q(4) di by simp
  next
    case False
    then have 5: "bufs b5 ! k = bufs b4 ! k" "bufs b3 ! k = bufs b2 ! k" using q(5) w(12) u(7) by simp_all
    then show ?thesis using r(4,5) assms(14,15) False by (cases "k = si") simp_all
  qed
  have "copied cur x y b b5" using quiet_again [OF assms(1) q(2) k]
    using same w r(3) q(3) u by (auto simp: copied_def bsame_def)
  then show ?thesis using w(1) r(1) q(1) assms(13) by auto
qed

lemma log_block_spec:
  assumes "bio_quiet cur b" "x \<noteq> y" "x < disksize b" "y < disksize b" "room b x"
  shows "\<exists>b'. log_block cur 1 y x b = Ret b' \<and> copied cur x y b b'"
proof -
  from bread_two [OF assms(1) assms(2) [symmetric] assms(4,3,5)] obtain i j b1 b2 where
    r: "bread cur 1 y b = Ret (i, b1)" "bread cur 1 x b1 = Ret (j, b2)" and "i \<noteq> j" "bio_inv cur b2"
    "caches b2 i y" "caches b2 j x" "held cur b2 i" "held cur b2 j" "b_valid (bufs b2 ! i)" "b_valid (bufs b2 ! j)"
    "b_data (bufs b2 ! j) = view b x" "bsame cur b b2" "\<forall>k. k \<noteq> j \<and> k \<noteq> i \<longrightarrow> bufs b2 ! k = bufs b ! k"
    "b_dirty (bufs b2 ! i) = b_dirty (bufs b ! i)" "b_dirty (bufs b2 ! j) = b_dirty (bufs b ! j)" by metis
  with copy_held [of cur b b2 x y j i] assms(1,2,4) obtain b3 b4 b5 where
    "bwrite cur i (set_data i (b_data (bufs b2 ! j)) b2) = Ret b3" "brelse cur j b3 = Ret b4" "brelse cur i b4 = Ret b5"
    "copied cur x y b b5" by metis
  with r show ?thesis by (simp add: log_block_def)
qed

lemma install_block_spec:
  assumes "bio_quiet cur b" "x \<noteq> y" "x < disksize b" "y < disksize b" "room b y"
  shows "\<exists>b'. install_block cur 1 x y b = Ret b' \<and> copied cur x y b b'"
proof -
  from bread_two [OF assms] obtain i j b1 b2 where
    r: "bread cur 1 x b = Ret (i, b1)" "bread cur 1 y b1 = Ret (j, b2)" and "i \<noteq> j" "bio_inv cur b2"
    "caches b2 i x" "caches b2 j y" "held cur b2 i" "held cur b2 j" "b_valid (bufs b2 ! i)" "b_valid (bufs b2 ! j)"
    "b_data (bufs b2 ! i) = view b x" "bsame cur b b2" "\<forall>k. k \<noteq> i \<and> k \<noteq> j \<longrightarrow> bufs b2 ! k = bufs b ! k"
    "b_dirty (bufs b2 ! i) = b_dirty (bufs b ! i)" "b_dirty (bufs b2 ! j) = b_dirty (bufs b ! j)" by metis
  with copy_held [of cur b b2 x y i j] assms(1,2,4) obtain b3 b4 b5 where
    "bwrite cur j (set_data j (b_data (bufs b2 ! i)) b2) = Ret b3" "brelse cur i b3 = Ret b4" "brelse cur j b4 = Ret b5"
    "copied cur x y b b5" by metis
  with r show ?thesis by (simp add: install_block_def)
qed

subsection \<open>Runs of copies\<close>

definition apply_writes :: "(uint \<times> block) list \<Rightarrow> (uint \<Rightarrow> block) \<Rightarrow> uint \<Rightarrow> block" where
  "apply_writes ws d = fold (\<lambda>(y, v) d. d(y := v)) ws d"

definition copy_writes :: "(uint \<times> uint) list \<Rightarrow> (uint \<Rightarrow> block) \<Rightarrow> (uint \<times> block) list" where
  "copy_writes ps v = map (\<lambda>(x, y). (y, v x)) ps"

lemma apply_writes_simps [simp]:
  "apply_writes [] d = d" "apply_writes ((y, v) # ws) d = apply_writes ws (d(y := v))"
  "apply_writes (ws @ ws') d = apply_writes ws' (apply_writes ws d)"
  by (simp_all add: apply_writes_def)

lemma apply_writes_other: "z \<notin> fst ` set ws \<Longrightarrow> apply_writes ws d z = d z"
  by (induction ws arbitrary: d) (auto simp: fun_upd_def)

lemma copy_writes_targets: "fst ` set (copy_writes ps v) = snd ` set ps"
  by (force simp: copy_writes_def)

lemma apply_writes_distinct:
  "distinct (map fst ws) \<Longrightarrow> (y, v) \<in> set ws \<Longrightarrow> apply_writes ws d y = v"
proof (induction ws arbitrary: d)
  case (Cons w ws)
  then show ?case by (cases w) (auto simp: apply_writes_other)
qed simp

text \<open>The blocks \<open>ps\<close> of pairs source, target have been copied, sources and targets apart.\<close>

definition all_copied :: "nat \<Rightarrow> (uint \<times> uint) list \<Rightarrow> bio \<Rightarrow> bio \<Rightarrow> bool" where
  "all_copied cur ps b b' \<longleftrightarrow> bio_quiet cur b' \<and> view b' = apply_writes (copy_writes ps (view b)) (view b) \<and>
     disk b' = apply_writes (copy_writes ps (view b)) (disk b) \<and> wlog b' = wlog b @ copy_writes ps (view b) \<and>
     pinned b' = (\<lambda>z. pinned b z \<and> z \<notin> snd ` set ps) \<and> disksize b' = disksize b \<and> who cur b' = who cur b \<and>
     (\<forall>i. evictable b i \<longrightarrow> evictable b' i)"

lemma all_copied_Nil: "bio_quiet cur b \<Longrightarrow> all_copied cur [] b b"
  by (simp add: all_copied_def copy_writes_def)

lemma all_copied_Cons:
  assumes "copied cur x y b b1" "all_copied cur ps b1 b2" "y \<notin> fst ` set ps"
  shows "all_copied cur ((x, y) # ps) b b2"
proof -
  have "copy_writes ps (view b1) = copy_writes ps (view b)"
    using assms(1,3) by (force simp: copy_writes_def copied_def)
  moreover have "copy_writes ((x, y) # ps) v = (y, v x) # copy_writes ps v" for v by (simp add: copy_writes_def)
  moreover have "(\<lambda>z. ((pinned b)(y := False)) z \<and> z \<notin> snd ` set ps) = (\<lambda>z. pinned b z \<and> z \<notin> snd ` set ((x, y) # ps))"
    by (rule ext) simp
  ultimately show ?thesis using assms(1,2) by (simp add: all_copied_def copied_def del: fun_upd_apply)
qed

text \<open>The blocks of a run: apart, on the disk, and with a second buffer to be had for each.\<close>

definition copies_ok :: "bool \<Rightarrow> (uint \<times> uint) list \<Rightarrow> bio \<Rightarrow> bool" where
  "copies_ok src ps b \<longleftrightarrow> fst ` set ps \<inter> snd ` set ps = {} \<and> distinct (map snd ps) \<and>
     (\<forall>(x, y)\<in>set ps. x < disksize b \<and> y < disksize b \<and> room b (if src then x else y))"

lemma copies_ok_step:
  assumes "copies_ok src ((x, y) # ps) b" "copied cur x y b b'"
  shows "copies_ok src ps b'" "y \<notin> fst ` set ps" "x \<noteq> y"
proof -
  have "room b' z" if "room b z" "z \<noteq> y" for z using that assms(2) unfolding room_def copied_def by auto
  moreover have "x' \<noteq> y \<and> y' \<noteq> y" if "(x', y') \<in> set ps" for x' y'
  proof -
    have "x' \<in> fst ` set ps" "y' \<in> set (map snd ps)" using that by force+
    then show ?thesis using assms(1) unfolding copies_ok_def by auto
  qed
  ultimately have "room b' (if src then x' else y')" if "(x', y') \<in> set ps" for x' y'
    using that assms(1) unfolding copies_ok_def by (cases src) fastforce+
  then show "copies_ok src ps b'" using assms unfolding copies_ok_def copied_def by auto
qed (use assms in \<open>auto simp: copies_ok_def\<close>)

primrec from_block :: "uint \<Rightarrow> nat \<Rightarrow> uint list" where
  "from_block lb 0 = []"
| "from_block lb (Suc n) = lb # from_block (lb + 1) n"

lemma write_log_loop_spec:
  assumes "bio_quiet cur b" "copies_ok True (zip hbs (from_block lb (length hbs))) b"
  shows "\<exists>b'. write_log_loop cur 1 lb hbs b = Ret b' \<and> all_copied cur (zip hbs (from_block lb (length hbs))) b b'"
  using assms
proof (induction hbs arbitrary: lb b)
  case Nil
  then show ?case by (simp add: all_copied_Nil)
next
  case (Cons h hs)
  let ?ps = "zip hs (from_block (lb + 1) (length hs))"
  have ok: "copies_ok True ((h, lb) # ?ps) b" using Cons.prems(2) by simp
  then have "h \<noteq> lb" "h < disksize b" "lb < disksize b" "room b h" by (auto simp: copies_ok_def)
  from log_block_spec [OF Cons.prems(1) this] obtain b1 where 1: "log_block cur 1 lb h b = Ret b1" "copied cur h lb b b1" by blast
  have "bio_quiet cur b1" using 1(2) by (simp add: copied_def)
  from Cons.IH [OF this copies_ok_step(1) [OF ok 1(2)]] 1 all_copied_Cons [OF 1(2) _ copies_ok_step(2) [OF ok 1(2)]]
  show ?case by auto
qed

lemma install_loop_spec:
  assumes "bio_quiet cur b" "copies_ok False (zip (from_block lb (length hbs)) hbs) b"
  shows "\<exists>b'. install_loop cur 1 lb hbs b = Ret b' \<and> all_copied cur (zip (from_block lb (length hbs)) hbs) b b'"
  using assms
proof (induction hbs arbitrary: lb b)
  case Nil
  then show ?case by (simp add: all_copied_Nil)
next
  case (Cons h hs)
  let ?ps = "zip (from_block (lb + 1) (length hs)) hs"
  have ok: "copies_ok False ((lb, h) # ?ps) b" using Cons.prems(2) by simp
  then have "lb \<noteq> h" "lb < disksize b" "h < disksize b" "room b h" by (auto simp: copies_ok_def)
  from install_block_spec [OF Cons.prems(1) this] obtain b1 where 1: "install_block cur 1 lb h b = Ret b1" "copied cur lb h b b1" by blast
  have "bio_quiet cur b1" using 1(2) by (simp add: copied_def)
  from Cons.IH [OF this copies_ok_step(1) [OF ok 1(2)]] 1 all_copied_Cons [OF 1(2) _ copies_ok_step(2) [OF ok 1(2)]]
  show ?case by auto
qed

subsection \<open>The header block holds the list of blocks\<close>

lemma head_roundtrip:
  assumes "length bs \<le> LOGSIZE" "length d = BSIZE"
  shows "decode_head (encode_head bs d) = Ret bs" "length (encode_head bs d) = BSIZE"
proof -
  have "get32 (encode_head bs d) 0 = of_nat (length bs)"
    using assms by (simp add: encode_head_def get32_put_words_before get32_put32)
  moreover have "sint (of_nat (length bs) :: uint) = int (length bs)" using assms(1) by (intro sint_of_nat_small) simp
  moreover have "get_words (encode_head bs d) 4 (length bs) = bs"
    unfolding encode_head_def using assms by (intro get_words_put_words) simp
  ultimately show "decode_head (encode_head bs d) = Ret bs" using assms(1) by (simp add: decode_head_def)
qed (use assms in \<open>simp add: encode_head_def\<close>)

lemma read_head_spec:
  assumes "bio_quiet cur (lbio s)" "lg_dev s = 1" "lg_start s < disksize (lbio s)"
    "decode_head (view (lbio s) (lg_start s)) = Ret bs"
  shows "\<exists>b. read_head cur s = Ret (s\<lparr>lbio := b, lh := bs\<rparr>) \<and> bio_quiet cur b \<and> bsame cur (lbio s) b \<and>
    (\<forall>e. evictable (lbio s) e \<longrightarrow> evictable b e)"
proof -
  from read_block_spec [OF assms(1,3)] obtain b where b: "read_block cur (lg_start s) (lbio s) = Ret (view (lbio s) (lg_start s), b)"
    "bio_quiet cur b" "bsame cur (lbio s) b" "\<forall>e. evictable (lbio s) e \<longrightarrow> evictable b e" by blast
  from b(1) assms(2,4) have "read_head cur s = Ret (s\<lparr>lbio := b, lh := bs\<rparr>)"
    by (auto simp: read_block_def read_head_def Let_def kbind_Ret_iff)
  with b show ?thesis by blast
qed

lemma bread_data:
  assumes "bio_quiet cur s" "blk < disksize s" "bread cur 1 blk s = Ret (i, t)"
  shows "b_data (bufs t ! i) = view s blk"
proof -
  have "bio_inv cur s" and "\<not> sl_locked (b_lock (bufs s ! i))" if "caches s i blk" for i
    using assms(1) that by (simp_all add: bio_quiet_def caches_def)
  with bread_spec [of cur s blk] assms show ?thesis unfolding bio_quiet_def by fastforce
qed

lemma write_head_spec:
  assumes "bio_quiet cur (lbio s)" "lg_dev s = 1" "lg_start s < disksize (lbio s)"
  defines "h \<equiv> encode_head (lh s) (view (lbio s) (lg_start s))"
  shows "\<exists>b. write_head cur s = Ret (s\<lparr>lbio := b\<rparr>) \<and> bio_quiet cur b \<and> view b = (view (lbio s))(lg_start s := h) \<and>
    disk b = (disk (lbio s))(lg_start s := h) \<and> wlog b = wlog (lbio s) @ [(lg_start s, h)] \<and>
    pinned b = (pinned (lbio s))(lg_start s := False) \<and> disksize b = disksize (lbio s) \<and> who cur b = who cur (lbio s) \<and>
    (\<forall>e. evictable (lbio s) e \<longrightarrow> evictable b e)"
proof -
  from write_block_spec [OF assms(1,3), where d = h] obtain b where b: "write_block cur (lg_start s) h (lbio s) = Ret b" and
    "bio_quiet cur b \<and> view b = (view (lbio s))(lg_start s := h) \<and> disk b = (disk (lbio s))(lg_start s := h) \<and>
     wlog b = wlog (lbio s) @ [(lg_start s, h)] \<and> pinned b = (pinned (lbio s))(lg_start s := False) \<and>
     disksize b = disksize (lbio s) \<and> who cur b = who cur (lbio s) \<and> (\<forall>e. evictable (lbio s) e \<longrightarrow> evictable b e)"
    by blast
  moreover have "write_head cur s = Ret (s\<lparr>lbio := b\<rparr>)"
    using b bread_data [OF assms(1,3)] assms(2) by (auto simp: write_block_def write_head_def h_def kbind_Ret_iff)
  ultimately show ?thesis by blast
qed

subsection \<open>Commit\<close>

lemma from_block_nth: "k < n \<Longrightarrow> from_block lb n ! k = lb + of_nat k"
  by (induction n arbitrary: lb k) (auto simp: nth_Cons' less_Suc_eq_0_disj algebra_simps)

lemma length_from_block [simp]: "length (from_block lb n) = n"
  by (induction n arbitrary: lb) simp_all

lemma from_block_unat:
  assumes "unat lb + n \<le> 2 ^ 32"
  shows "map unat (from_block lb n) = [unat lb..<unat lb + n]"
  using assms
proof (induction n arbitrary: lb)
  case (Suc n)
  show ?case
  proof (cases n)
    case 0
    then show ?thesis by simp
  next
    case (Suc m)
    then have "unat (lb + 1) = unat lb + 1" using Suc.prems by (simp add: unat_word_ariths)
    then show ?thesis using Suc.IH [of "lb + 1"] Suc.prems by (simp add: upt_conv_Cons del: upt_Suc)
  qed
qed simp

lemma from_block_distinct: "unat lb + n \<le> 2 ^ 32 \<Longrightarrow> distinct (from_block lb n)"
  using from_block_unat [of lb n] by (metis distinct_map distinct_upt)

lemma from_block_set:
  assumes "unat lb + n \<le> 2 ^ 32" "x \<in> set (from_block lb n)"
  shows "unat lb \<le> unat x \<and> unat x < unat lb + n"
proof -
  have "unat x \<in> set (map unat (from_block lb n))" using assms(2) by simp
  then show ?thesis unfolding from_block_unat [OF assms(1)] by simp
qed

text \<open>The blocks that \<^verbatim>\<open>mkfs\<close> sets aside for the log: the header and the log blocks after it.\<close>

definition log_area :: "'a logst_scheme \<Rightarrow> uint \<Rightarrow> bool" where
  "log_area s z \<longleftrightarrow> unat (lg_start s) \<le> unat z \<and> unat z < unat (lg_start s) + unat (lg_size s)"

definition logged_ok :: "uint list \<Rightarrow> 'a logst_scheme \<Rightarrow> bool" where
  "logged_ok bs s \<longleftrightarrow> distinct bs \<and> length bs \<le> LOGSIZE \<and> length bs < unat (lg_size s) \<and> lg_dev s = 1 \<and>
     unat (lg_start s) + unat (lg_size s) \<le> unat (disksize (lbio s)) \<and>
     (\<forall>z\<in>set bs. z < disksize (lbio s) \<and> \<not> log_area s z)"

definition log_blocks :: "uint list \<Rightarrow> 'a logst_scheme \<Rightarrow> uint list" where
  "log_blocks bs s = from_block (lg_start s + 1) (length bs)"

lemma log_blocks_ok:
  assumes "logged_ok bs s"
  shows "length (log_blocks bs s) = length bs" "distinct (log_blocks bs s)" "log_area s (lg_start s)"
    "lg_start s < disksize (lbio s)" "z \<in> set (log_blocks bs s) \<Longrightarrow> log_area s z \<and> z \<noteq> lg_start s \<and> z < disksize (lbio s)"
    "lg_start s \<notin> set bs" "set (log_blocks bs s) \<inter> set bs = {}"
proof -
  have b: "unat (lg_start s) + unat (lg_size s) \<le> unat (disksize (lbio s))" "length bs < unat (lg_size s)"
    using assms by (simp_all add: logged_ok_def)
  have "unat (disksize (lbio s)) < 2 ^ 32" using unsigned_less [of "disksize (lbio s)"] by simp
  then have lt: "unat (lg_start s) + unat (lg_size s) < 2 ^ 32" using b by linarith
  then have "unat (lg_start s) + 1 < 2 ^ 32" using b by linarith
  then have u: "unat (lg_start s + 1) = unat (lg_start s) + 1" by (simp add: unat_word_ariths)
  show "length (log_blocks bs s) = length bs" by (simp add: log_blocks_def)
  have le: "unat (lg_start s + 1) + length bs \<le> 2 ^ 32" using u b lt by linarith
  show "distinct (log_blocks bs s)" unfolding log_blocks_def by (rule from_block_distinct [OF le])
  show a: "log_area s (lg_start s)" "lg_start s < disksize (lbio s)" using b by (auto simp: log_area_def word_less_nat_alt)
  show z: "log_area s z \<and> z \<noteq> lg_start s \<and> z < disksize (lbio s)" if "z \<in> set (log_blocks bs s)" for z
    using from_block_set [OF le that [unfolded log_blocks_def]] u b by (auto simp: log_area_def word_less_nat_alt)
  show "lg_start s \<notin> set bs" "set (log_blocks bs s) \<inter> set bs = {}"
    using assms a z by (auto simp: logged_ok_def)
qed

definition commit_writes :: "'a logst_scheme \<Rightarrow> (uint \<times> block) list" where
  "commit_writes s =
     (let v = view (lbio s); h = encode_head (lh s) (v (lg_start s))
      in zip (log_blocks (lh s) s) (map v (lh s)) @ (lg_start s, h) # zip (lh s) (map v (lh s)) @
         [(lg_start s, encode_head [] h)])"

lemma copy_writes_zip: "length xs = length ys \<Longrightarrow> copy_writes (zip xs ys) v = zip ys (map v xs)"
  by (induction xs ys rule: list_induct2) (simp_all add: copy_writes_def)

lemma apply_zip_map:
  assumes "length xs = length ys" "distinct xs"
  shows "map (apply_writes (zip xs ys) d) xs = ys"
proof (rule nth_equalityI)
  fix i assume "i < length (map (apply_writes (zip xs ys) d) xs)"
  with assms show "map (apply_writes (zip xs ys) d) xs ! i = ys ! i"
    by (auto intro!: apply_writes_distinct simp: in_set_zip)
qed (use assms in simp)

lemma apply_zip_other: "z \<notin> set xs \<Longrightarrow> apply_writes (zip xs ys) d z = d z"
  by (rule apply_writes_other) (auto dest: set_zip_leftD)

lemma take_other: "z \<notin> set xs \<Longrightarrow> apply_writes (take j (zip xs ys)) e z = e z"
  by (rule apply_writes_other) (auto dest!: in_set_takeD set_zip_leftD)

lemma apply_zip_fun:
  "distinct xs \<Longrightarrow> apply_writes (zip xs (map v xs)) d z = (if z \<in> set xs then v z else d z)"
  by (induction xs arbitrary: d) (auto simp: apply_zip_other)

lemma zip_sets:
  assumes "length xs = length ys"
  shows "fst ` set (zip xs ys) = set xs" "snd ` set (zip xs ys) = set ys"
  using assms by (induction xs ys rule: list_induct2) simp_all

lemma write_log_spec:
  assumes "bio_quiet cur (lbio s)" "logged_ok (lh s) s" "\<forall>z\<in>set (lh s). pinned (lbio s) z"
  shows "\<exists>b. write_log cur s = Ret (s\<lparr>lbio := b\<rparr>) \<and> all_copied cur (zip (lh s) (log_blocks (lh s) s)) (lbio s) b"
proof -
  note l = log_blocks_ok [OF assms(2)]
  have "copies_ok True (zip (lh s) (log_blocks (lh s) s)) (lbio s)"
    unfolding copies_ok_def using l assms(2,3)
    by (auto simp: zip_sets room_def logged_ok_def dest: set_zip_leftD set_zip_rightD)
  from write_log_loop_spec [OF assms(1) this [unfolded log_blocks_def]] assms(2) show ?thesis
    by (auto simp: write_log_def log_blocks_def logged_ok_def)
qed

lemma install_trans_spec:
  assumes "bio_quiet cur (lbio s)" "logged_ok (lh s) s" "\<forall>z\<in>set (lh s). room (lbio s) z"
  shows "\<exists>b. install_trans cur s = Ret (s\<lparr>lbio := b\<rparr>) \<and> all_copied cur (zip (log_blocks (lh s) s) (lh s)) (lbio s) b"
proof -
  note l = log_blocks_ok [OF assms(2)]
  have "copies_ok False (zip (log_blocks (lh s) s) (lh s)) (lbio s)"
    unfolding copies_ok_def using l assms(2,3)
    by (auto simp: zip_sets room_def logged_ok_def dest: set_zip_leftD set_zip_rightD)
  from install_loop_spec [OF assms(1) this [unfolded log_blocks_def]] assms(2) show ?thesis
    by (auto simp: install_trans_def log_blocks_def logged_ok_def)
qed

text \<open>A commit that completes: exactly the writes \<open>commit_writes\<close>, in this order.\<close>

lemma commit_spec:
  assumes "bio_quiet cur (lbio s)" "logged_ok (lh s) s" "\<forall>z\<in>set (lh s). pinned (lbio s) z" "lh s \<noteq> []"
  shows "\<exists>b. commit cur s = Ret (s\<lparr>lh := [], lbio := b\<rparr>) \<and> bio_quiet cur b \<and> wlog b = wlog (lbio s) @ commit_writes s \<and>
    disk b = apply_writes (commit_writes s) (disk (lbio s)) \<and> disksize b = disksize (lbio s) \<and> who cur b = who cur (lbio s) \<and>
    (\<forall>z. pinned b z \<longrightarrow> pinned (lbio s) z \<and> z \<notin> set (lh s)) \<and> (\<forall>z. \<not> log_area s z \<longrightarrow> view b z = view (lbio s) z)"
proof -
  let ?v = "view (lbio s)" and ?lb = "log_blocks (lh s) s" and ?hs = "map (view (lbio s)) (lh s)"
  let ?h = "encode_head (lh s) (?v (lg_start s))"
  note l = log_blocks_ok [OF assms(2)]
  obtain b1 where 1: "write_log cur s = Ret (s\<lparr>lbio := b1\<rparr>)" "all_copied cur (zip (lh s) ?lb) (lbio s) b1"
    using write_log_spec [OF assms(1-3)] by blast
  have v1: "view b1 = apply_writes (zip ?lb ?hs) ?v" using 1(2) l(1) by (simp add: all_copied_def copy_writes_zip)
  have ns: "lg_start s \<notin> set ?lb" using l(5) by blast
  then have s1: "view b1 (lg_start s) = ?v (lg_start s)" by (simp add: v1 apply_zip_other)
  from 1(2) l(4) obtain b2 where 2: "write_head cur (s\<lparr>lbio := b1\<rparr>) = Ret (s\<lparr>lbio := b2\<rparr>)" "bio_quiet cur b2"
      "view b2 = (view b1)(lg_start s := ?h)" "disk b2 = (disk b1)(lg_start s := ?h)"
      "wlog b2 = wlog b1 @ [(lg_start s, ?h)]" "pinned b2 = (pinned b1)(lg_start s := False)" "disksize b2 = disksize b1"
      "who cur b2 = who cur b1"
    using write_head_spec [of cur "s\<lparr>lbio := b1\<rparr>"] s1 assms(2) by (auto simp: all_copied_def logged_ok_def)
  have ok: "logged_ok (lh s) (s\<lparr>lbio := b2\<rparr>)"
    using assms(2) 1(2) 2(7) by (simp add: logged_ok_def log_area_def all_copied_def)
  have "pinned b2 z" if "z \<in> set (lh s)" for z
  proof -
    have "z \<notin> snd ` set (zip (lh s) ?lb)" "z \<noteq> lg_start s" using that l(6,7) by (auto dest: set_zip_rightD)
    then show ?thesis using 1(2) 2(6) assms(3) that by (simp add: all_copied_def)
  qed
  then obtain b3 where 3: "install_trans cur (s\<lparr>lbio := b2\<rparr>) = Ret (s\<lparr>lbio := b3\<rparr>)" "all_copied cur (zip ?lb (lh s)) b2 b3"
    using install_trans_spec [of cur "s\<lparr>lbio := b2\<rparr>"] 2(2) ok by (auto simp: room_def log_blocks_def)
  have "map (view b2) ?lb = map (view b1) ?lb" using 2(3) ns by auto
  then have c3: "copy_writes (zip ?lb (lh s)) (view b2) = zip (lh s) ?hs"
    using v1 apply_zip_map [OF _ l(2), of ?hs] l(1) by (simp add: copy_writes_zip)
  have s3: "view b3 (lg_start s) = ?h" using 3(2) c3 l(6) 2(3) by (simp add: all_copied_def apply_zip_other)
  from 3(2) l(4) obtain b4 where 4: "write_head cur (s\<lparr>lbio := b3, lh := []\<rparr>) = Ret (s\<lparr>lh := [], lbio := b4\<rparr>)" "bio_quiet cur b4"
      "disk b4 = (disk b3)(lg_start s := encode_head [] ?h)" "wlog b4 = wlog b3 @ [(lg_start s, encode_head [] ?h)]"
      "disksize b4 = disksize b3" "who cur b4 = who cur b3" "pinned b4 = (pinned b3)(lg_start s := False)"
      "view b4 = (view b3)(lg_start s := encode_head [] ?h)"
    using write_head_spec [of cur "s\<lparr>lbio := b3, lh := []\<rparr>"] s3 assms(2) 2(7) 1(2) by (auto simp: all_copied_def logged_ok_def)
  have "commit cur s = Ret (s\<lparr>lh := [], lbio := b4\<rparr>)" using assms(4) 1(1) 2(1) 3(1) 4(1) by (simp add: commit_def)
  moreover have "wlog b4 = wlog (lbio s) @ commit_writes s" "disk b4 = apply_writes (commit_writes s) (disk (lbio s))"
    using 1(2) 2(4,5) 3(2) 4(3,4) c3 l(1) by (simp_all add: commit_writes_def all_copied_def Let_def copy_writes_zip)
  moreover have "view b4 z = ?v z" if "\<not> log_area s z" for z
  proof -
    have "z \<noteq> lg_start s" "z \<notin> set ?lb" using that l(3,5) by blast+
    then have "view b2 z = ?v z" using 2(3) v1 by (simp add: apply_zip_other)
    moreover have "view b3 = apply_writes (zip (lh s) ?hs) (view b2)" using 3(2) c3 by (simp add: all_copied_def)
    ultimately show ?thesis using 4(8) \<open>z \<noteq> lg_start s\<close> apply_zip_fun [of "lh s" ?v "view b2" z] assms(2) by (auto simp: logged_ok_def)
  qed
  moreover have "pinned (lbio s) z \<and> z \<notin> set (lh s)" if "pinned b4 z" for z
    using that 4(7) 3(2) 2(6) 1(2) l(1) by (auto simp: all_copied_def zip_sets split: if_splits)
  ultimately show ?thesis using 4(2,5,6) 3(2) 2(7,8) 1(2) by (auto simp: all_copied_def)
qed

subsection \<open>Crashes and recovery\<close>

text \<open>
  The state of the log after a reboot, before \<^verbatim>\<open>recover_from_log\<close>: nothing in the cache is modified,
  and two buffers are free.
\<close>

definition rebooted :: "nat \<Rightarrow> 'a logst_scheme \<Rightarrow> (uint \<Rightarrow> block) \<Rightarrow> 'b logst_scheme \<Rightarrow> bool" where
  "rebooted cur s d r \<longleftrightarrow> bio_quiet cur (lbio r) \<and> (\<forall>z. \<not> pinned (lbio r) z) \<and> disk (lbio r) = d \<and>
     (\<exists>i j. i \<noteq> j \<and> evictable (lbio r) i \<and> evictable (lbio r) j) \<and> disksize (lbio r) = disksize (lbio s) \<and>
     lg_dev r = lg_dev s \<and> lg_start r = lg_start s \<and> lg_size r = lg_size s"

lemma recover_spec:
  assumes "rebooted cur s d r" "decode_head (d (lg_start s)) = Ret bs" "logged_ok bs s"
  shows "\<exists>b. recover_from_log cur r = Ret (r\<lparr>lh := [], lbio := b\<rparr>) \<and> bio_quiet cur b \<and>
    disk b = (apply_writes (zip bs (map d (log_blocks bs s))) d)(lg_start s := encode_head [] (d (lg_start s)))"
proof -
  note r = assms(1) [unfolded rebooted_def]
  note l = log_blocks_ok [OF assms(3)]
  have v: "view (lbio r) = d" using quiet_unpinned [of cur "lbio r"] r by (simp add: fun_eq_iff)
  have ok: "lg_dev r = 1" using assms(3) r by (simp add: logged_ok_def)
  obtain b1 where 1: "read_head cur r = Ret (r\<lparr>lbio := b1, lh := bs\<rparr>)" "bio_quiet cur b1" "bsame cur (lbio r) b1"
      "\<forall>e. evictable (lbio r) e \<longrightarrow> evictable b1 e"
    using read_head_spec [of cur r bs] r ok l(4) assms(2) v by auto
  let ?r = "r\<lparr>lbio := b1, lh := bs\<rparr>"
  have lok: "logged_ok bs ?r" using assms(3) r 1(3) by (simp add: logged_ok_def log_area_def bsame_def)
  have lb: "log_blocks bs ?r = log_blocks bs s" using r by (simp add: log_blocks_def)
  have "\<forall>z\<in>set bs. room b1 z" using r 1(4) unfolding room_def by blast
  then obtain b2 where 2: "install_trans cur ?r = Ret (r\<lparr>lh := bs, lbio := b2\<rparr>)" "all_copied cur (zip (log_blocks bs s) bs) b1 b2"
    using install_trans_spec [of cur ?r] 1(2) lok lb by auto
  have d2: "disk b2 = apply_writes (zip bs (map d (log_blocks bs s))) d" "view b2 = disk b2"
    using 2(2) l(1) 1(3) r v by (simp_all add: all_copied_def copy_writes_zip bsame_def)
  have "lg_start s < disksize b2" using 2(2) l(4) 1(3) r by (simp add: all_copied_def bsame_def)
  then obtain b3 where 3: "write_head cur (r\<lparr>lbio := b2, lh := []\<rparr>) = Ret (r\<lparr>lh := [], lbio := b3\<rparr>)" "bio_quiet cur b3"
      "disk b3 = (disk b2)(lg_start s := encode_head [] (disk b2 (lg_start s)))"
    using write_head_spec [of cur "r\<lparr>lbio := b2, lh := []\<rparr>"] 2(2) ok r d2(2) by (auto simp: all_copied_def)
  have "disk b2 (lg_start s) = d (lg_start s)" using d2(1) l(6) by (simp add: apply_zip_other)
  then show ?thesis using 1(1) 2(1) 3 d2(1) by (intro exI [of _ b3]) (simp add: recover_from_log_def)
qed

text \<open>The log on disk between transactions: the header is empty.\<close>

definition log_clean :: "'a logst_scheme \<Rightarrow> bool" where
  "log_clean s \<longleftrightarrow> decode_head (disk (lbio s) (lg_start s)) = Ret [] \<and> view (lbio s) (lg_start s) = disk (lbio s) (lg_start s) \<and>
     length (disk (lbio s) (lg_start s)) = BSIZE"

text \<open>The disk after the first \<open>k\<close> of the writes of a commit.\<close>

lemma crash_disk:
  fixes k :: nat
  assumes "logged_ok (lh s) s" "log_clean s"
  defines "n \<equiv> length (lh s)" and "d \<equiv> disk (lbio s)" and "v \<equiv> view (lbio s)"
  defines "c \<equiv> apply_writes (take k (commit_writes s)) d"
  shows "k \<le> n \<Longrightarrow> decode_head (c (lg_start s)) = Ret [] \<and> (\<forall>z. \<not> log_area s z \<longrightarrow> c z = d z)"
    "n < k \<Longrightarrow> k \<le> 2 * n + 1 \<Longrightarrow> decode_head (c (lg_start s)) = Ret (lh s) \<and> map c (log_blocks (lh s) s) = map v (lh s) \<and>
       (\<forall>z. z \<notin> set (lh s) \<longrightarrow> \<not> log_area s z \<longrightarrow> c z = d z)"
    "2 * n + 1 < k \<Longrightarrow> decode_head (c (lg_start s)) = Ret [] \<and>
       (\<forall>z. \<not> log_area s z \<longrightarrow> c z = (if z \<in> set (lh s) then v z else d z))"
proof -
  let ?lb = "log_blocks (lh s) s" and ?st = "lg_start s"
  let ?h = "encode_head (lh s) (v ?st)" and ?w1 = "zip (log_blocks (lh s) s) (map v (lh s))" and ?w2 = "zip (lh s) (map v (lh s))"
  note l = log_blocks_ok [OF assms(1)]
  have lw: "length ?w1 = n" "length ?w2 = n" using l(1) by (simp_all add: n_def)
  have cw: "commit_writes s = ?w1 @ (?st, ?h) # ?w2 @ [(?st, encode_head [] ?h)]" by (simp add: commit_writes_def v_def Let_def)
  have ns: "?st \<notin> set ?lb" "?st \<notin> set (lh s)" "distinct (lh s)" using l(5,6) assms(1) by (auto simp: logged_ok_def)
  have out: "z \<notin> set ?lb \<and> z \<noteq> ?st" if "\<not> log_area s z" for z using that l(3,5) by blast
  have clean: "decode_head (d ?st) = Ret []" "length (v ?st) = BSIZE" using assms(2) by (simp_all add: log_clean_def d_def v_def)
  have len: "length (lh s) \<le> LOGSIZE" using assms(1) by (simp add: logged_ok_def)
  note rt = head_roundtrip [OF len clean(2)]
  have rt0: "decode_head (encode_head [] ?h) = Ret []" by (rule head_roundtrip(1)) (simp_all add: rt(2))
  {
    assume "k \<le> n"
    then have "c = apply_writes (take k ?w1) d" unfolding c_def cw using lw(1) by simp
    then show "decode_head (c ?st) = Ret [] \<and> (\<forall>z. \<not> log_area s z \<longrightarrow> c z = d z)"
      using ns(1) clean(1) out by (simp add: take_other)
  }
  {
    assume k: "n < k" "k \<le> 2 * n + 1"
    define j where "j = k - n - 1"
    with k have "k = n + Suc j" "j \<le> n" by simp_all
    then have c: "c = apply_writes (take j ?w2) ((apply_writes ?w1 d)(?st := ?h))" unfolding c_def cw using lw by simp
    have lh: "z \<notin> set (lh s)" if "z \<in> set ?lb" for z using that l(7) by blast
    have "map c ?lb = map (apply_writes ?w1 d) ?lb" unfolding c using ns(1) lh by (auto simp: take_other)
    also have "\<dots> = map v (lh s)" by (rule apply_zip_map) (simp_all add: l(1,2))
    finally show "decode_head (c ?st) = Ret (lh s) \<and> map c ?lb = map v (lh s) \<and>
       (\<forall>z. z \<notin> set (lh s) \<longrightarrow> \<not> log_area s z \<longrightarrow> c z = d z)"
      using ns(2) rt(1) out by (simp add: c take_other apply_zip_other)
  }
  {
    assume "2 * n + 1 < k"
    then have "take k (commit_writes s) = commit_writes s" using lw by (simp add: cw)
    then have "c = (apply_writes ?w2 ((apply_writes ?w1 d)(?st := ?h)))(?st := encode_head [] ?h)" unfolding c_def cw by simp
    then show "decode_head (c ?st) = Ret [] \<and> (\<forall>z. \<not> log_area s z \<longrightarrow> c z = (if z \<in> set (lh s) then v z else d z))"
      using rt0 out ns(3) by (simp add: apply_zip_fun apply_zip_other)
  }
qed

text \<open>
  C1. A transaction is atomic and durable: the commit of a transaction whose modified blocks are
  pinned in the cache completes, and if the machine stops after any number \<open>k\<close> of its disk writes,
  recovery at the next boot completes and leaves on disk, outside the log, all the blocks of the
  transaction when the header had been written, and none of them otherwise.
\<close>

theorem crash_atomic:
  assumes "bio_quiet cur (lbio s)" "logged_ok (lh s) s" "\<forall>z\<in>set (lh s). pinned (lbio s) z" "lh s \<noteq> []" "log_clean s"
  shows "\<exists>s' ws. commit cur s = Ret s' \<and> wlog (lbio s') = wlog (lbio s) @ ws \<and> length ws = 2 * length (lh s) + 2 \<and>
    (\<forall>k r. rebooted cur' s (apply_writes (take k ws) (disk (lbio s))) r \<longrightarrow>
       (\<exists>r'. recover_from_log cur' r = Ret r' \<and> (\<forall>z. \<not> log_area s z \<longrightarrow>
          disk (lbio r') z = (if length (lh s) < k \<and> z \<in> set (lh s) then view (lbio s) z else disk (lbio s) z))))"
proof -
  let ?n = "length (lh s)"
  note l = log_blocks_ok [OF assms(2)]
  have empty: "logged_ok [] s" using assms(2) by (auto simp: logged_ok_def)
  have "\<exists>r'. recover_from_log cur' r = Ret r' \<and> (\<forall>z. \<not> log_area s z \<longrightarrow>
      disk (lbio r') z = (if ?n < k \<and> z \<in> set (lh s) then view (lbio s) z else disk (lbio s) z))"
    if r: "rebooted cur' s (apply_writes (take k (commit_writes s)) (disk (lbio s))) r" for k r
  proof -
    note c = crash_disk [OF assms(2,5), of k]
    consider "k \<le> ?n" | "?n < k" "k \<le> 2 * ?n + 1" | "2 * ?n + 1 < k" by linarith
    then show ?thesis
    proof cases
      case 1
      with c(1) recover_spec [OF r _ empty] l(3) show ?thesis by auto
    next
      case 2
      with c(2) recover_spec [OF r _ assms(2)] l(3) assms(2) show ?thesis
        by (auto simp: apply_zip_fun logged_ok_def)
    next
      case 3
      with c(3) recover_spec [OF r _ empty] l(3) show ?thesis by auto
    qed
  qed
  moreover have "length (commit_writes s) = 2 * ?n + 2" using l(1) by (simp add: commit_writes_def Let_def)
  ultimately show ?thesis using commit_spec [OF assms(1-4)] by fastforce
qed

text \<open>A transaction that changed block 100, the log at blocks 2 to 31.\<close>

definition log0 :: logst where
  "log0 = \<lparr>lbio = upd_buf 0 (\<lambda>_. empty_buf\<lparr>b_valid := True, b_dirty := True, b_dev := 1, b_blockno := 100,
       b_data := replicate BSIZE 7\<rparr>) bio0,
     lg_lock = False, lg_start = 2, lg_size = 30, outstanding = 0, committing = False, lg_dev = 1, lh = [100]\<rparr>"

lemma log0_facts:
  "bio_quiet 0 (lbio log0)" "logged_ok (lh log0) log0" "\<forall>z\<in>set (lh log0). pinned (lbio log0) z" "lh log0 \<noteq> []" "log_clean log0"
  "wlog (lbio log0) = []" "\<not> log_area log0 100" "view (lbio log0) 100 = replicate BSIZE 7" "disksize (lbio log0) = 1000"
proof -
  let ?f = "\<lambda>_. empty_buf\<lparr>b_valid := True, b_dirty := True, b_dev := 1, b_blockno := 100, b_data := replicate BSIZE 7\<rparr>"
  have b: "bufs (lbio log0) = (bufs bio0)[0 := ?f undefined]" "lbio log0 = upd_buf 0 ?f bio0" by (simp_all add: log0_def)
  have len: "length (bufs bio0) = NBUF" "\<And>i. i < NBUF \<Longrightarrow> bufs bio0 ! i = empty_buf" by (simp_all add: bio0_def)
  have "evictable (lbio log0) 1" by (simp add: evictable_def b(1) len empty_buf_def)
  moreover have inv: "bio_inv 0 (lbio log0)"
    unfolding b(2) by (rule bio_inv_upd) (use bio0_quiet in \<open>auto simp: bio_quiet_def buf_wf_def empty_buf_def initsleeplock_def caches_def len\<close>)
  moreover have "\<not> sl_locked (b_lock (bufs (lbio log0) ! i))" if "i < NBUF" for i
    using that len by (cases "i = 0") (simp_all add: b(1) empty_buf_def initsleeplock_def)
  ultimately show "bio_quiet 0 (lbio log0)" by (auto simp: bio_quiet_def)
  have c: "caches (lbio log0) i z \<longleftrightarrow> i = 0 \<and> z = 100" for i z
    using len by (cases "i = 0") (auto simp: caches_def b(1) empty_buf_def)
  then show "\<forall>z\<in>set (lh log0). pinned (lbio log0) z" by (simp add: pinned_def b(1) len) (simp add: log0_def)
  have d: "disk (lbio log0) = (\<lambda>_. replicate BSIZE 0)" by (simp add: log0_def bio0_def)
  have "view (lbio log0) 2 = replicate BSIZE 0" using view_uncached [OF inv, of 2] c d by simp
  then show "log_clean log0"
    using head_roundtrip [of "[]" "replicate BSIZE 0"] d
    by (simp add: log_clean_def log0_def decode_head_def get32_def get_words_def numeral_eq_Suc)
  show "view (lbio log0) 100 = replicate BSIZE 7" using view_cached [OF inv, of 0 100] c by (simp add: b(1) len)
qed (simp_all add: log0_def logged_ok_def log_area_def bio0_def)

lemma bio0_reboot: "rebooted 0 log0 d (log0\<lparr>lbio := bio0\<lparr>disk := d\<rparr>\<rparr>)"
proof -
  have "bio_inv 0 (bio0\<lparr>disk := d\<rparr>)"
    by (auto simp: bio_inv_def bio0_def buf_wf_def empty_buf_def initsleeplock_def sleeper_table_def)
  moreover have e: "evictable (bio0\<lparr>disk := d\<rparr>) 0" "evictable (bio0\<lparr>disk := d\<rparr>) 1"
    by (simp_all add: bio0_def evictable_def empty_buf_def)
  ultimately have "bio_quiet 0 (bio0\<lparr>disk := d\<rparr>)"
    by (auto simp: bio_quiet_def) (simp add: bio0_def empty_buf_def initsleeplock_def)
  moreover have "\<exists>i j. i \<noteq> j \<and> evictable (bio0\<lparr>disk := d\<rparr>) i \<and> evictable (bio0\<lparr>disk := d\<rparr>) j"
    using e by (intro exI [of _ 0] exI [of _ 1]) simp
  moreover have "\<not> pinned (bio0\<lparr>disk := d\<rparr>) z" for z by (simp add: pinned_def caches_def bio0_def empty_buf_def)
  ultimately show ?thesis using log0_facts(9) by (simp add: rebooted_def bio0_quiet)
qed

text \<open>Power is lost just after the header is written: block 100 is recovered.\<close>

theorem crash_atomic_witness:
  "\<exists>s'. commit 0 log0 = Ret s' \<and>
     (\<exists>r'. recover_from_log 0 (log0\<lparr>lbio := bio0\<lparr>disk := apply_writes (take 2 (wlog (lbio s'))) (disk (lbio log0))\<rparr>\<rparr>) = Ret r' \<and>
        disk (lbio r') 100 = replicate BSIZE 7)"
proof -
  have lh: "lh log0 = [100]" by (simp add: log0_def)
  from crash_atomic [OF log0_facts(1-5), of 0, unfolded log0_facts(6) lh] obtain s' where s': "commit 0 log0 = Ret s'"
    "\<forall>k (r :: logst). rebooted 0 log0 (apply_writes (take k (wlog (lbio s'))) (disk (lbio log0))) r \<longrightarrow>
       (\<exists>r'. recover_from_log 0 r = Ret r' \<and> (\<forall>z. \<not> log_area log0 z \<longrightarrow>
          disk (lbio r') z = (if length [100 :: uint] < k \<and> z \<in> set [100] then view (lbio log0) z else disk (lbio log0) z)))"
    by auto
  from s'(2) [rule_format, OF bio0_reboot, of 2] obtain r' where
    r': "recover_from_log 0 (log0\<lparr>lbio := bio0\<lparr>disk := apply_writes (take 2 (wlog (lbio s'))) (disk (lbio log0))\<rparr>\<rparr>) = Ret r'"
    "\<not> log_area log0 100 \<longrightarrow>
      disk (lbio r') 100 = (if length [100 :: uint] < 2 \<and> 100 \<in> set [100 :: uint] then view (lbio log0) 100 else disk (lbio log0) 100)"
    by blast
  then have "disk (lbio r') 100 = replicate BSIZE 7" using log0_facts(7,8) by simp
  with s'(1) r'(1) show ?thesis by blast
qed

end
