(* ===== verification/Fs.thy ===== *)
theory Fs
  imports Log
begin

text \<open>
  The file system, \<^verbatim>\<open>src/xv6A1/fs.c\<close>: block allocator, inodes and the inode cache, file contents,
  directories and path names. A pointer to a cached inode is its index in \<^verbatim>\<open>icache.inode\<close>. A C string is the list
  of its bytes without the final zero, a \<^verbatim>\<open>char name[DIRSIZ]\<close> the list of its 14 bytes. Bytes that a
  call copies to its destination buffer are part of its result.
\<close>

type_synonym short = "16 word"

abbreviation "NDIRECT \<equiv> (12 :: nat)"
abbreviation "NINDIRECT \<equiv> (128 :: nat)"
abbreviation "NINODE \<equiv> (50 :: nat)"
abbreviation "NDEV \<equiv> (10 :: int)"
abbreviation "DIRSIZ \<equiv> (14 :: nat)"
abbreviation "BPB \<equiv> (4096 :: nat)"
abbreviation "IPB \<equiv> (8 :: uint)"
abbreviation "T_DIR \<equiv> (1 :: short)"
abbreviation "T_FILE \<equiv> (2 :: short)"
abbreviation "T_DEV \<equiv> (3 :: short)"
abbreviation "ROOTDEV \<equiv> (1 :: uint)"
abbreviation "ROOTINO \<equiv> (1 :: uint)"

text \<open>\<^verbatim>\<open>MAXFILE*BSIZE\<close>\<close>

abbreviation "MAXBYTES \<equiv> (71680 :: uint)"

record superblock =
  sb_size :: uint
  sb_nblocks :: uint
  sb_ninodes :: uint
  sb_nlog :: uint
  sb_logstart :: uint
  sb_inodestart :: uint
  sb_bmapstart :: uint

record inode =
  i_dev :: uint
  i_inum :: uint
  i_ref :: int
  i_lock :: sleeplock
  i_valid :: bool
  i_type :: short
  i_major :: short
  i_minor :: short
  i_nlink :: short
  i_size :: uint
  i_addrs :: "uint list"

record fsst = logst +
  sb :: superblock
  ic_lock :: bool
  inodes :: "inode list"

definition upd_inode :: "nat \<Rightarrow> (inode \<Rightarrow> inode) \<Rightarrow> 'a fsst_scheme \<Rightarrow> 'a fsst_scheme" where
  "upd_inode i f s = s\<lparr>inodes := (inodes s)[i := f (inodes s ! i)]\<rparr>"

definition ic_acquire :: "'a fsst_scheme \<Rightarrow> 'a fsst_scheme kres" where
  "ic_acquire s = kbind (lock_acquire (ic_lock s)) (\<lambda>h. Ret (s\<lparr>ic_lock := h\<rparr>))"

definition ic_release :: "'a fsst_scheme \<Rightarrow> 'a fsst_scheme kres" where
  "ic_release s = kbind (lock_release (ic_lock s)) (\<lambda>h. Ret (s\<lparr>ic_lock := h\<rparr>))"

text \<open>The buffer cache of the state.\<close>

definition fs_bread :: "nat \<Rightarrow> uint \<Rightarrow> uint \<Rightarrow> 'a logst_scheme \<Rightarrow> (nat \<times> 'a logst_scheme) kres" where
  "fs_bread cur dev blk s = kbind (bread cur dev blk (lbio s)) (\<lambda>(i, b). Ret (i, s\<lparr>lbio := b\<rparr>))"

definition fs_brelse :: "nat \<Rightarrow> nat \<Rightarrow> 'a logst_scheme \<Rightarrow> 'a logst_scheme kres" where
  "fs_brelse cur i s = kbind (brelse cur i (lbio s)) (\<lambda>b. Ret (s\<lparr>lbio := b\<rparr>))"

abbreviation bdata :: "'a logst_scheme \<Rightarrow> nat \<Rightarrow> block" where
  "bdata s i \<equiv> b_data (bufs (lbio s) ! i)"

definition set_bdata :: "nat \<Rightarrow> block \<Rightarrow> 'a logst_scheme \<Rightarrow> 'a logst_scheme" where
  "set_bdata i d s = s\<lparr>lbio := set_data i d (lbio s)\<rparr>"

subsection \<open>Blocks\<close>

definition decode_sb :: "block \<Rightarrow> superblock" where
  "decode_sb d = \<lparr>sb_size = get32 d 0, sb_nblocks = get32 d 4, sb_ninodes = get32 d 8, sb_nlog = get32 d 12,
     sb_logstart = get32 d 16, sb_inodestart = get32 d 20, sb_bmapstart = get32 d 24\<rparr>"

definition readsb :: "nat \<Rightarrow> uint \<Rightarrow> 'a fsst_scheme \<Rightarrow> 'a fsst_scheme kres" where
  "readsb cur dev s =
     kbind (fs_bread cur dev 1 s) (\<lambda>(bp, s).
       fs_brelse cur bp (s\<lparr>sb := decode_sb (bdata s bp)\<rparr>))"

definition bzero :: "nat \<Rightarrow> uint \<Rightarrow> uint \<Rightarrow> 'a logst_scheme \<Rightarrow> 'a logst_scheme kres" where
  "bzero cur dev bno s =
     kbind (fs_bread cur dev bno s) (\<lambda>(bp, s).
     kbind (log_write bp (set_bdata bp (replicate BSIZE 0) s)) (\<lambda>s.
       fs_brelse cur bp s))"

definition bit_mask :: "nat \<Rightarrow> uchar" where
  "bit_mask bi = push_bit (bi mod 8) 1"

definition bit_free :: "block \<Rightarrow> nat \<Rightarrow> bool" where
  "bit_free d bi \<longleftrightarrow> d ! (bi div 8) AND bit_mask bi = 0"

definition BBLOCK :: "uint \<Rightarrow> superblock \<Rightarrow> uint" where
  "BBLOCK b v = b div of_nat BPB + sb_bmapstart v"

definition IBLOCK :: "uint \<Rightarrow> superblock \<Rightarrow> uint" where
  "IBLOCK i v = i div IPB + sb_inodestart v"

text \<open>The loops of \<^verbatim>\<open>balloc\<close>; its counter \<^verbatim>\<open>b\<close> is a C \<^verbatim>\<open>int\<close>.\<close>

function balloc_loop :: "nat \<Rightarrow> uint \<Rightarrow> uint \<Rightarrow> 'a fsst_scheme \<Rightarrow> (uint \<times> 'a fsst_scheme) kres" where
  "balloc_loop cur dev b s =
     (if b < sb_size (sb s) then
        kbind (fs_bread cur dev (BBLOCK b (sb s)) s) (\<lambda>(bp, s).
          case first_index (bit_free (bdata s bp)) [0..<min BPB (unat (sb_size (sb s) - b))] of
            Some bi \<Rightarrow>
              kbind (log_write bp (set_bdata bp ((bdata s bp)[bi div 8 := bdata s bp ! (bi div 8) OR bit_mask bi]) s)) (\<lambda>s.
              kbind (fs_brelse cur bp s) (\<lambda>s.
              kbind (bzero cur dev (b + of_nat bi) s) (\<lambda>s. Ret (b + of_nat bi, s))))
          | None \<Rightarrow>
              kbind (fs_brelse cur bp s) (\<lambda>s.
                if unat b + BPB \<ge> 2 ^ 31 then Fault ''balloc: overflow''
                else balloc_loop cur dev (b + of_nat BPB) s))
      else Panic ''balloc: out of blocks'')"
  by pat_completeness auto
termination
  by (relation "measure (\<lambda>(cur, dev, b, s). 2 ^ 31 - unat b)") (auto simp: unat_word_ariths)

definition balloc :: "nat \<Rightarrow> uint \<Rightarrow> 'a fsst_scheme \<Rightarrow> (uint \<times> 'a fsst_scheme) kres" where
  "balloc cur dev s = balloc_loop cur dev 0 s"

definition bfree :: "nat \<Rightarrow> uint \<Rightarrow> uint \<Rightarrow> 'a fsst_scheme \<Rightarrow> 'a fsst_scheme kres" where
  "bfree cur dev b s =
     kbind (readsb cur dev s) (\<lambda>s.
     kbind (fs_bread cur dev (BBLOCK b (sb s)) s) (\<lambda>(bp, s).
       let bi = unat b mod BPB
       in if bit_free (bdata s bp) bi then Panic ''freeing free block''
          else kbind (log_write bp (set_bdata bp ((bdata s bp)[bi div 8 := bdata s bp ! (bi div 8) AND NOT (bit_mask bi)]) s)) (\<lambda>s.
               fs_brelse cur bp s)))"

subsection \<open>Inodes\<close>

text \<open>\<^verbatim>\<open>struct dinode\<close> at byte \<open>o\<close> of a block.\<close>

definition read_dinode :: "block \<Rightarrow> nat \<Rightarrow> inode \<Rightarrow> inode" where
  "read_dinode d ofs ip = ip\<lparr>i_type := get16 d ofs, i_major := get16 d (ofs + 2), i_minor := get16 d (ofs + 4),
     i_nlink := get16 d (ofs + 6), i_size := get32 d (ofs + 8), i_addrs := get_words d (ofs + 12) (NDIRECT + 1)\<rparr>"

definition write_dinode :: "block \<Rightarrow> nat \<Rightarrow> inode \<Rightarrow> block" where
  "write_dinode d ofs ip =
     put_words (put32 (put16 (put16 (put16 (put16 d ofs (i_type ip)) (ofs + 2) (i_major ip)) (ofs + 4) (i_minor ip))
       (ofs + 6) (i_nlink ip)) (ofs + 8) (i_size ip)) (ofs + 12) (i_addrs ip)"

definition dinode_ofs :: "uint \<Rightarrow> nat" where
  "dinode_ofs inum = 64 * unat (inum mod IPB)"

definition iinit :: "nat \<Rightarrow> uint \<Rightarrow> 'a fsst_scheme \<Rightarrow> 'a fsst_scheme kres" where
  "iinit cur dev s =
     readsb cur dev (s\<lparr>ic_lock := False, inodes := map (\<lambda>ip. ip\<lparr>i_lock := initsleeplock\<rparr>) (inodes s)\<rparr>)"

definition iget :: "uint \<Rightarrow> uint \<Rightarrow> 'a fsst_scheme \<Rightarrow> (nat \<times> 'a fsst_scheme) kres" where
  "iget dev inum s =
     kbind (ic_acquire s) (\<lambda>s.
       case first_index (\<lambda>ip. i_ref ip > 0 \<and> i_dev ip = dev \<and> i_inum ip = inum) (inodes s) of
         Some i \<Rightarrow>
           kbind (cinc (i_ref (inodes s ! i))) (\<lambda>n.
           kbind (ic_release (upd_inode i (\<lambda>ip. ip\<lparr>i_ref := n\<rparr>) s)) (\<lambda>s. Ret (i, s)))
       | None \<Rightarrow>
           (case first_index (\<lambda>ip. i_ref ip = 0) (inodes s) of
              None \<Rightarrow> Panic ''iget: no inodes''
            | Some i \<Rightarrow>
                kbind (ic_release (upd_inode i (\<lambda>ip. ip\<lparr>i_dev := dev, i_inum := inum, i_ref := 1, i_valid := False\<rparr>) s))
                  (\<lambda>s. Ret (i, s))))"

function ialloc_loop :: "nat \<Rightarrow> uint \<Rightarrow> short \<Rightarrow> uint \<Rightarrow> 'a fsst_scheme \<Rightarrow> (nat \<times> 'a fsst_scheme) kres" where
  "ialloc_loop cur dev ty inum s =
     (if inum < sb_ninodes (sb s) then
        kbind (fs_bread cur dev (IBLOCK inum (sb s)) s) (\<lambda>(bp, s).
          let d = bdata s bp; ofs = dinode_ofs inum
          in if get16 d ofs = 0 then
               let d = take ofs d @ replicate 64 0 @ drop (ofs + 64) d
               in kbind (log_write bp (set_bdata bp (put16 d ofs ty) s)) (\<lambda>s.
                  kbind (fs_brelse cur bp s) (\<lambda>s. iget dev inum s))
             else kbind (fs_brelse cur bp s) (\<lambda>s.
               if unat inum + 1 \<ge> 2 ^ 31 then Fault ''ialloc: overflow'' else ialloc_loop cur dev ty (inum + 1) s))
      else Panic ''ialloc: no inodes'')"
  by pat_completeness auto
termination
  by (relation "measure (\<lambda>(cur, dev, ty, inum, s). 2 ^ 31 - unat inum)") (auto simp: unat_word_ariths)

definition ialloc :: "nat \<Rightarrow> uint \<Rightarrow> short \<Rightarrow> 'a fsst_scheme \<Rightarrow> (nat \<times> 'a fsst_scheme) kres" where
  "ialloc cur dev ty s = ialloc_loop cur dev ty 1 s"

definition iupdate :: "nat \<Rightarrow> nat \<Rightarrow> 'a fsst_scheme \<Rightarrow> 'a fsst_scheme kres" where
  "iupdate cur i s =
     (let ip = inodes s ! i
      in kbind (fs_bread cur (i_dev ip) (IBLOCK (i_inum ip) (sb s)) s) (\<lambda>(bp, s).
         kbind (log_write bp (set_bdata bp (write_dinode (bdata s bp) (dinode_ofs (i_inum ip)) ip) s)) (\<lambda>s.
           fs_brelse cur bp s)))"

definition idup :: "nat \<Rightarrow> 'a fsst_scheme \<Rightarrow> 'a fsst_scheme kres" where
  "idup i s =
     kbind (ic_acquire s) (\<lambda>s.
     kbind (cinc (i_ref (inodes s ! i))) (\<lambda>n. ic_release (upd_inode i (\<lambda>ip. ip\<lparr>i_ref := n\<rparr>) s)))"

definition ilock :: "nat \<Rightarrow> nat \<Rightarrow> 'a fsst_scheme \<Rightarrow> 'a fsst_scheme kres" where
  "ilock cur i s =
     (if i_ref (inodes s ! i) < 1 then Panic ''ilock''
      else kbind (acquiresleep (ChInodeLock i) (mypid cur (lbio s)) (i_lock (inodes s ! i))) (\<lambda>l.
        let s = upd_inode i (\<lambda>ip. ip\<lparr>i_lock := l\<rparr>) s; ip = inodes s ! i
        in if i_valid ip then Ret s
           else kbind (fs_bread cur (i_dev ip) (IBLOCK (i_inum ip) (sb s)) s) (\<lambda>(bp, s).
             let s = upd_inode i (read_dinode (bdata s bp) (dinode_ofs (i_inum ip))) s
             in kbind (fs_brelse cur bp s) (\<lambda>s.
               let s = upd_inode i (\<lambda>ip. ip\<lparr>i_valid := True\<rparr>) s
               in if i_type (inodes s ! i) = 0 then Panic ''ilock: no type'' else Ret s))))"

definition inode_release :: "nat \<Rightarrow> 'a fsst_scheme \<Rightarrow> 'a fsst_scheme kres" where
  "inode_release i s =
     kbind (releasesleep (ChInodeLock i) (i_lock (inodes s ! i)) (lbio s)) (\<lambda>(l, b).
       Ret (upd_inode i (\<lambda>ip. ip\<lparr>i_lock := l\<rparr>) (s\<lparr>lbio := b\<rparr>)))"

definition iunlock :: "nat \<Rightarrow> nat \<Rightarrow> 'a fsst_scheme \<Rightarrow> 'a fsst_scheme kres" where
  "iunlock cur i s =
     kbind (holdingsleep (mypid cur (lbio s)) (i_lock (inodes s ! i))) (\<lambda>h.
       if \<not> h \<or> i_ref (inodes s ! i) < 1 then Panic ''iunlock'' else inode_release i s)"

text \<open>\<^verbatim>\<open>itrunc\<close>: the direct blocks, then the indirect ones.\<close>

primrec itrunc_direct :: "nat \<Rightarrow> nat \<Rightarrow> nat list \<Rightarrow> 'a fsst_scheme \<Rightarrow> 'a fsst_scheme kres" where
  "itrunc_direct cur i [] s = Ret s"
| "itrunc_direct cur i (k # ks) s =
     (let ip = inodes s ! i
      in if i_addrs ip ! k \<noteq> 0
         then kbind (bfree cur (i_dev ip) (i_addrs ip ! k) s) (\<lambda>s.
                itrunc_direct cur i ks (upd_inode i (\<lambda>ip. ip\<lparr>i_addrs := (i_addrs ip)[k := 0]\<rparr>) s))
         else itrunc_direct cur i ks s)"

primrec itrunc_indirect :: "nat \<Rightarrow> nat \<Rightarrow> nat \<Rightarrow> nat list \<Rightarrow> 'a fsst_scheme \<Rightarrow> 'a fsst_scheme kres" where
  "itrunc_indirect cur i bp [] s = Ret s"
| "itrunc_indirect cur i bp (j # js) s =
     (let a = get32 (bdata s bp) (4 * j)
      in if a \<noteq> 0 then kbind (bfree cur (i_dev (inodes s ! i)) a s) (itrunc_indirect cur i bp js)
         else itrunc_indirect cur i bp js s)"

definition itrunc :: "nat \<Rightarrow> nat \<Rightarrow> 'a fsst_scheme \<Rightarrow> 'a fsst_scheme kres" where
  "itrunc cur i s =
     kbind (itrunc_direct cur i [0..<NDIRECT] s) (\<lambda>s.
     kbind (let ip = inodes s ! i; a = i_addrs ip ! NDIRECT
            in if a \<noteq> 0 then
                 kbind (fs_bread cur (i_dev ip) a s) (\<lambda>(bp, s).
                 kbind (itrunc_indirect cur i bp [0..<NINDIRECT] s) (\<lambda>s.
                 kbind (fs_brelse cur bp s) (\<lambda>s.
                 kbind (bfree cur (i_dev (inodes s ! i)) (i_addrs (inodes s ! i) ! NDIRECT) s) (\<lambda>s.
                   Ret (upd_inode i (\<lambda>ip. ip\<lparr>i_addrs := (i_addrs ip)[NDIRECT := 0]\<rparr>) s)))))
               else Ret s) (\<lambda>s.
       iupdate cur i (upd_inode i (\<lambda>ip. ip\<lparr>i_size := 0\<rparr>) s)))"

definition iput :: "nat \<Rightarrow> nat \<Rightarrow> 'a fsst_scheme \<Rightarrow> 'a fsst_scheme kres" where
  "iput cur i s =
     kbind (acquiresleep (ChInodeLock i) (mypid cur (lbio s)) (i_lock (inodes s ! i))) (\<lambda>l.
     kbind (let s = upd_inode i (\<lambda>ip. ip\<lparr>i_lock := l\<rparr>) s
            in if i_valid (inodes s ! i) \<and> i_nlink (inodes s ! i) = 0 then
                 kbind (ic_acquire s) (\<lambda>s.
                   let r = i_ref (inodes s ! i)
                   in kbind (ic_release s) (\<lambda>s.
                        if r = 1 then
                          kbind (itrunc cur i s) (\<lambda>s.
                          kbind (iupdate cur i (upd_inode i (\<lambda>ip. ip\<lparr>i_type := 0\<rparr>) s)) (\<lambda>s.
                            Ret (upd_inode i (\<lambda>ip. ip\<lparr>i_valid := False\<rparr>) s)))
                        else Ret s))
               else Ret s) (\<lambda>s.
     kbind (inode_release i s) (\<lambda>s.
     kbind (ic_acquire s) (\<lambda>s.
     kbind (cdec (i_ref (inodes s ! i))) (\<lambda>n.
       ic_release (upd_inode i (\<lambda>ip. ip\<lparr>i_ref := n\<rparr>) s))))))"

definition iunlockput :: "nat \<Rightarrow> nat \<Rightarrow> 'a fsst_scheme \<Rightarrow> 'a fsst_scheme kres" where
  "iunlockput cur i s = kbind (iunlock cur i s) (iput cur i)"

subsection \<open>Contents\<close>

definition bmap :: "nat \<Rightarrow> nat \<Rightarrow> uint \<Rightarrow> 'a fsst_scheme \<Rightarrow> (uint \<times> 'a fsst_scheme) kres" where
  "bmap cur i bn s =
     (let ip = inodes s ! i
      in if unat bn < NDIRECT then
           (if i_addrs ip ! unat bn = 0
            then kbind (balloc cur (i_dev ip) s) (\<lambda>(addr, s).
                   Ret (addr, upd_inode i (\<lambda>ip. ip\<lparr>i_addrs := (i_addrs ip)[unat bn := addr]\<rparr>) s))
            else Ret (i_addrs ip ! unat bn, s))
         else let k = unat (bn - of_nat NDIRECT)
         in if k < NINDIRECT then
              kbind (if i_addrs ip ! NDIRECT = 0
                     then kbind (balloc cur (i_dev ip) s) (\<lambda>(addr, s).
                            Ret (addr, upd_inode i (\<lambda>ip. ip\<lparr>i_addrs := (i_addrs ip)[NDIRECT := addr]\<rparr>) s))
                     else Ret (i_addrs ip ! NDIRECT, s)) (\<lambda>(addr, s).
              kbind (fs_bread cur (i_dev (inodes s ! i)) addr s) (\<lambda>(bp, s).
              kbind (if get32 (bdata s bp) (4 * k) = 0
                     then kbind (balloc cur (i_dev (inodes s ! i)) s) (\<lambda>(addr, s).
                          kbind (log_write bp (set_bdata bp (put32 (bdata s bp) (4 * k) addr) s)) (\<lambda>s. Ret (addr, s)))
                     else Ret (get32 (bdata s bp) (4 * k), s)) (\<lambda>(addr, s).
              kbind (fs_brelse cur bp s) (\<lambda>s. Ret (addr, s)))))
            else Panic ''bmap: out of range'')"

record stat =
  st_type :: short
  st_dev :: uint
  st_ino :: uint
  st_nlink :: short
  st_size :: uint

definition stati :: "nat \<Rightarrow> 'a fsst_scheme \<Rightarrow> stat" where
  "stati i s =
     (let ip = inodes s ! i
      in \<lparr>st_type = i_type ip, st_dev = i_dev ip, st_ino = i_inum ip, st_nlink = i_nlink ip, st_size = i_size ip\<rparr>)"

text \<open>
  \<^verbatim>\<open>devsw\<close>: the functions of a device, when it has them. A read returns its result and the bytes
  copied to the destination.
\<close>

record 's devsw =
  dev_read :: "(nat \<Rightarrow> uint \<Rightarrow> 's \<Rightarrow> (cint \<times> uchar list \<times> 's) kres) option"
  dev_write :: "(nat \<Rightarrow> uchar list \<Rightarrow> uint \<Rightarrow> 's \<Rightarrow> (cint \<times> 's) kres) option"

text \<open>The number of bytes of the next turn of the loops of \<^verbatim>\<open>readi\<close> and \<^verbatim>\<open>writei\<close>.\<close>

definition chunk :: "uint \<Rightarrow> uint \<Rightarrow> uint \<Rightarrow> uint" where
  "chunk tot off n = min (n - tot) (of_nat BSIZE - off mod of_nat BSIZE)"

lemma chunk_bounds:
  assumes "tot < n"
  shows "0 < unat (chunk tot off n)" "unat (chunk tot off n) \<le> unat n - unat tot"
    "unat (chunk tot off n) + unat off mod BSIZE \<le> BSIZE"
    "unat (tot + chunk tot off n) = unat tot + unat (chunk tot off n)"
    "unat (chunk tot off n) = unat n - unat tot \<or> unat (chunk tot off n) + unat off mod BSIZE = BSIZE"
proof -
  have o: "unat (off mod of_nat BSIZE) = unat off mod BSIZE" by (simp add: unat_mod)
  have b: "unat (of_nat BSIZE - off mod of_nat BSIZE) = BSIZE - unat off mod BSIZE"
    using o by (subst unat_sub) (simp_all add: word_le_nat_alt)
  have d: "unat (n - tot) = unat n - unat tot" using assms by (simp add: unat_sub less_imp_le)
  have m: "unat (chunk tot off n) = min (unat n - unat tot) (BSIZE - unat off mod BSIZE)"
    unfolding chunk_def using b d by (simp add: min_def word_le_nat_alt)
  have lt: "unat tot < unat n" using assms by (simp add: word_less_nat_alt)
  show "0 < unat (chunk tot off n)" using lt m by simp
  show le: "unat (chunk tot off n) \<le> unat n - unat tot" using m by simp
  show "unat (chunk tot off n) + unat off mod BSIZE \<le> BSIZE" using m by simp
  show "unat (chunk tot off n) = unat n - unat tot \<or> unat (chunk tot off n) + unat off mod BSIZE = BSIZE"
    using m by (auto simp: min_def)
  have "unat tot + unat (chunk tot off n) < 2 ^ LENGTH(32)"
    using le lt unsigned_less [of n, where 'a = nat] by linarith
  then show "unat (tot + chunk tot off n) = unat tot + unat (chunk tot off n)" by (rule unat_add_lem [THEN iffD1])
qed

function readi_loop :: "nat \<Rightarrow> nat \<Rightarrow> uint \<Rightarrow> uint \<Rightarrow> uint \<Rightarrow> 'a fsst_scheme \<Rightarrow> (uchar list \<times> 'a fsst_scheme) kres" where
  "readi_loop cur i tot off n s =
     (if tot < n then
        kbind (bmap cur i (off div of_nat BSIZE) s) (\<lambda>(addr, s).
        kbind (fs_bread cur (i_dev (inodes s ! i)) addr s) (\<lambda>(bp, s).
          let m = chunk tot off n; d = take (unat m) (drop (unat (off mod of_nat BSIZE)) (bdata s bp))
          in kbind (fs_brelse cur bp s) (\<lambda>s.
             kbind (readi_loop cur i (tot + m) (off + m) n s) (\<lambda>(ds, s). Ret (d @ ds, s)))))
      else Ret ([], s))"
  by pat_completeness auto
termination
proof (relation "measure (\<lambda>(cur, i, tot, off, n, s). unat n - unat tot)", goal_cases)
  case (2 cur i tot off n)
  then show ?case using chunk_bounds [of tot n off] by simp
qed simp

definition readi :: "(nat \<Rightarrow> 'a fsst_scheme devsw) \<Rightarrow> nat \<Rightarrow> nat \<Rightarrow> uint \<Rightarrow> uint \<Rightarrow> 'a fsst_scheme \<Rightarrow>
    (cint \<times> uchar list \<times> 'a fsst_scheme) kres" where
  "readi devs cur i off n s =
     (let ip = inodes s ! i
      in if i_type ip = T_DEV then
           (if sint (i_major ip) < 0 \<or> sint (i_major ip) \<ge> NDEV then Ret (-1, [], s)
            else case dev_read (devs (unat (i_major ip))) of
                   None \<Rightarrow> Ret (-1, [], s)
                 | Some f \<Rightarrow> f i n s)
         else if off > i_size ip \<or> off + n < off then Ret (-1, [], s)
         else let n = (if off + n > i_size ip then i_size ip - off else n)
              in kbind (readi_loop cur i 0 off n s) (\<lambda>(ds, s). Ret (n, ds, s)))"

function writei_loop :: "nat \<Rightarrow> nat \<Rightarrow> uchar list \<Rightarrow> uint \<Rightarrow> uint \<Rightarrow> uint \<Rightarrow> 'a fsst_scheme \<Rightarrow> (uint \<times> 'a fsst_scheme) kres" where
  "writei_loop cur i src tot off n s =
     (if tot < n then
        kbind (bmap cur i (off div of_nat BSIZE) s) (\<lambda>(addr, s).
        kbind (fs_bread cur (i_dev (inodes s ! i)) addr s) (\<lambda>(bp, s).
          let m = chunk tot off n; k = unat (off mod of_nat BSIZE); d = bdata s bp
          in kbind (log_write bp (set_bdata bp
                      (take k d @ take (unat m) (drop (unat tot) src) @ drop (k + unat m) d) s)) (\<lambda>s.
             kbind (fs_brelse cur bp s) (\<lambda>s.
               writei_loop cur i src (tot + m) (off + m) n s))))
      else Ret (off, s))"
  by pat_completeness auto
termination
proof (relation "measure (\<lambda>(cur, i, src, tot, off, n, s). unat n - unat tot)", goal_cases)
  case (2 cur i src tot off n)
  then show ?case using chunk_bounds [of tot n off] by simp
qed simp

definition writei :: "(nat \<Rightarrow> 'a fsst_scheme devsw) \<Rightarrow> nat \<Rightarrow> nat \<Rightarrow> uchar list \<Rightarrow> uint \<Rightarrow> uint \<Rightarrow> 'a fsst_scheme \<Rightarrow>
    (cint \<times> 'a fsst_scheme) kres" where
  "writei devs cur i src off n s =
     (let ip = inodes s ! i
      in if i_type ip = T_DEV then
           (if sint (i_major ip) < 0 \<or> sint (i_major ip) \<ge> NDEV then Ret (-1, s)
            else case dev_write (devs (unat (i_major ip))) of
                   None \<Rightarrow> Ret (-1, s)
                 | Some f \<Rightarrow> f i src n s)
         else if off > i_size ip \<or> off + n < off then Ret (-1, s)
         else if off + n > MAXBYTES then Ret (-1, s)
         else kbind (writei_loop cur i src 0 off n s) (\<lambda>(off, s).
                if n > 0 \<and> off > i_size (inodes s ! i)
                then kbind (iupdate cur i (upd_inode i (\<lambda>ip. ip\<lparr>i_size := off\<rparr>) s)) (\<lambda>s. Ret (n, s))
                else Ret (n, s)))"

subsection \<open>Directories\<close>

text \<open>\<^verbatim>\<open>strncmp\<close> and \<^verbatim>\<open>strncpy\<close> on the bytes of two names; a list that ends stands for a terminated string.\<close>

fun strncmp_bytes :: "nat \<Rightarrow> uchar list \<Rightarrow> uchar list \<Rightarrow> int" where
  "strncmp_bytes 0 p q = 0"
| "strncmp_bytes (Suc n) p q =
     (let a = (case p of [] \<Rightarrow> 0 | x # _ \<Rightarrow> x); b = (case q of [] \<Rightarrow> 0 | x # _ \<Rightarrow> x)
      in if a \<noteq> 0 \<and> a = b then strncmp_bytes n (tl p) (tl q) else Word.uint a - Word.uint b)"

fun strncpy_bytes :: "nat \<Rightarrow> uchar list \<Rightarrow> uchar list" where
  "strncpy_bytes 0 t = []"
| "strncpy_bytes (Suc n) t =
     (case t of [] \<Rightarrow> replicate (Suc n) 0 | x # xs \<Rightarrow> if x = 0 then replicate (Suc n) 0 else x # strncpy_bytes n xs)"

definition namecmp :: "uchar list \<Rightarrow> uchar list \<Rightarrow> int" where
  "namecmp p q = strncmp_bytes DIRSIZ p q"

text \<open>\<^verbatim>\<open>struct dirent\<close>: 16 bytes.\<close>

definition de_inum :: "uchar list \<Rightarrow> ushort" where
  "de_inum d = get16 d 0"

definition de_name :: "uchar list \<Rightarrow> uchar list" where
  "de_name d = take DIRSIZ (drop 2 d)"

definition dirent :: "ushort \<Rightarrow> uchar list \<Rightarrow> uchar list" where
  "dirent inum name = put16 [0, 0] 0 inum @ name"

text \<open>The scans of \<^verbatim>\<open>dirlookup\<close> and \<^verbatim>\<open>dirlink\<close>; their offset is unsigned and can wrap around.\<close>

partial_function (option) dirlookup_loop :: "(nat \<Rightarrow> 'a fsst_scheme devsw) \<Rightarrow> nat \<Rightarrow> nat \<Rightarrow> uchar list \<Rightarrow> uint \<Rightarrow> 'a fsst_scheme \<Rightarrow>
    ((nat \<times> uint) option \<times> 'a fsst_scheme) kres option" where
  "dirlookup_loop devs cur dp name off s =
     (if off < i_size (inodes s ! dp) then
        lbind (readi devs cur dp off 16 s) (\<lambda>(r, de, s).
          if r \<noteq> 16 then Some (Panic ''dirlookup read'')
          else if de_inum de = 0 then dirlookup_loop devs cur dp name (off + 16) s
          else if namecmp name (de_name de) = 0 then
            Some (kbind (iget (i_dev (inodes s ! dp)) (ucast (de_inum de)) s) (\<lambda>(ip, s). Ret (Some (ip, off), s)))
          else dirlookup_loop devs cur dp name (off + 16) s)
      else Some (Ret (None, s)))"

definition dirlookup :: "(nat \<Rightarrow> 'a fsst_scheme devsw) \<Rightarrow> nat \<Rightarrow> nat \<Rightarrow> uchar list \<Rightarrow> 'a fsst_scheme \<Rightarrow>
    ((nat \<times> uint) option \<times> 'a fsst_scheme) kres" where
  "dirlookup devs cur dp name s =
     (if i_type (inodes s ! dp) \<noteq> T_DIR then Panic ''dirlookup not DIR''
      else lrun (dirlookup_loop devs cur dp name 0 s))"

partial_function (option) dirlink_loop :: "(nat \<Rightarrow> 'a fsst_scheme devsw) \<Rightarrow> nat \<Rightarrow> nat \<Rightarrow> uint \<Rightarrow> 'a fsst_scheme \<Rightarrow>
    (uint \<times> 'a fsst_scheme) kres option" where
  "dirlink_loop devs cur dp off s =
     (if off < i_size (inodes s ! dp) then
        lbind (readi devs cur dp off 16 s) (\<lambda>(r, de, s).
          if r \<noteq> 16 then Some (Panic ''dirlink read'')
          else if de_inum de = 0 then Some (Ret (off, s))
          else dirlink_loop devs cur dp (off + 16) s)
      else Some (Ret (off, s)))"

definition dirlink :: "(nat \<Rightarrow> 'a fsst_scheme devsw) \<Rightarrow> nat \<Rightarrow> nat \<Rightarrow> uchar list \<Rightarrow> uint \<Rightarrow> 'a fsst_scheme \<Rightarrow>
    (cint \<times> 'a fsst_scheme) kres" where
  "dirlink devs cur dp name inum s =
     kbind (dirlookup devs cur dp name s) (\<lambda>(r, s).
       case r of
         Some (ip, _) \<Rightarrow> kbind (iput cur ip s) (\<lambda>s. Ret (-1, s))
       | None \<Rightarrow>
           kbind (lrun (dirlink_loop devs cur dp 0 s)) (\<lambda>(off, s).
           kbind (writei devs cur dp (dirent (ucast inum) (strncpy_bytes DIRSIZ name)) off 16 s) (\<lambda>(r, s).
             if r \<noteq> 16 then Panic ''dirlink'' else Ret (0, s))))"

subsection \<open>Path names\<close>

abbreviation slash :: uchar where "slash \<equiv> 47"

text \<open>\<^verbatim>\<open>skipelem\<close>: the rest of the path and the buffer \<^verbatim>\<open>name\<close>, whose old bytes beyond the element remain.\<close>

definition skipelem :: "uchar list \<Rightarrow> uchar list \<Rightarrow> (uchar list \<times> uchar list) option" where
  "skipelem path name =
     (let path = dropWhile (\<lambda>c. c = slash) path
      in if path = [] then None
         else let e = takeWhile (\<lambda>c. c \<noteq> slash) path;
                  rest = dropWhile (\<lambda>c. c \<noteq> slash) path;
                  name = (if length e \<ge> DIRSIZ then take DIRSIZ e else e @ 0 # drop (length e + 1) name)
              in Some (dropWhile (\<lambda>c. c = slash) rest, name))"

lemma skipelem_shorter: "skipelem path name = Some (path', name') \<Longrightarrow> length path' < length path"
proof -
  let ?p = "dropWhile (\<lambda>c. c = slash) path"
  assume a: "skipelem path name = Some (path', name')"
  then have p: "?p \<noteq> []" and r: "path' = dropWhile (\<lambda>c. c = slash) (dropWhile (\<lambda>c. c \<noteq> slash) ?p)"
    by (auto simp: skipelem_def Let_def split: if_splits)
  have "hd ?p \<noteq> slash" using hd_dropWhile [OF p] .
  then have "dropWhile (\<lambda>c. c \<noteq> slash) ?p = dropWhile (\<lambda>c. c \<noteq> slash) (tl ?p)" using p by (cases ?p) auto
  then have "length path' \<le> length (tl ?p)"
    unfolding r by (simp only:) (rule order_trans [OF length_dropWhile_le length_dropWhile_le])
  also have "\<dots> < length ?p" using p by simp
  also have "\<dots> \<le> length path" by (rule length_dropWhile_le)
  finally show ?thesis .
qed

function namex_loop :: "(nat \<Rightarrow> 'a fsst_scheme devsw) \<Rightarrow> nat \<Rightarrow> bool \<Rightarrow> nat \<Rightarrow> uchar list \<Rightarrow> uchar list \<Rightarrow> 'a fsst_scheme \<Rightarrow>
    (nat option \<times> uchar list \<times> 'a fsst_scheme) kres" where
  "namex_loop devs cur par ip path name s =
     (case skipelem path name of
        Some (path, name) \<Rightarrow>
          kbind (ilock cur ip s) (\<lambda>s.
            if i_type (inodes s ! ip) \<noteq> T_DIR then kbind (iunlockput cur ip s) (\<lambda>s. Ret (None, name, s))
            else if par \<and> path = [] then kbind (iunlock cur ip s) (\<lambda>s. Ret (Some ip, name, s))
            else kbind (dirlookup devs cur ip name s) (\<lambda>(r, s).
              case r of
                None \<Rightarrow> kbind (iunlockput cur ip s) (\<lambda>s. Ret (None, name, s))
              | Some (next, _) \<Rightarrow> kbind (iunlockput cur ip s) (\<lambda>s. namex_loop devs cur par next path name s)))
      | None \<Rightarrow>
          if par then kbind (iput cur ip s) (\<lambda>s. Ret (None, name, s)) else Ret (Some ip, name, s))"
  by pat_completeness auto
termination
  by (relation "measure (\<lambda>(devs, cur, par, ip, path, name, s). length path)") (auto dest: skipelem_shorter)

definition namex :: "(nat \<Rightarrow> 'a fsst_scheme devsw) \<Rightarrow> nat \<Rightarrow> uchar list \<Rightarrow> bool \<Rightarrow> uchar list \<Rightarrow> 'a fsst_scheme \<Rightarrow>
    (nat option \<times> uchar list \<times> 'a fsst_scheme) kres" where
  "namex devs cur path par name s =
     (if path \<noteq> [] \<and> hd path = slash
      then kbind (iget ROOTDEV ROOTINO s) (\<lambda>(ip, s). namex_loop devs cur par ip path name s)
      else case cwd (procs (lbio s) ! cur) of
             None \<Rightarrow> Fault ''idup: no current directory''
           | Some ip \<Rightarrow> kbind (idup ip s) (\<lambda>s. namex_loop devs cur par ip path name s))"

text \<open>The buffer \<^verbatim>\<open>name\<close> of \<^verbatim>\<open>namei\<close> is not initialised.\<close>

definition namei :: "uchar list \<Rightarrow> (nat \<Rightarrow> 'a fsst_scheme devsw) \<Rightarrow> nat \<Rightarrow> uchar list \<Rightarrow> 'a fsst_scheme \<Rightarrow>
    (nat option \<times> 'a fsst_scheme) kres" where
  "namei junk devs cur path s = kbind (namex devs cur path False junk s) (\<lambda>(r, _, s). Ret (r, s))"

definition nameiparent :: "(nat \<Rightarrow> 'a fsst_scheme devsw) \<Rightarrow> nat \<Rightarrow> uchar list \<Rightarrow> uchar list \<Rightarrow> 'a fsst_scheme \<Rightarrow>
    (nat option \<times> uchar list \<times> 'a fsst_scheme) kres" where
  "nameiparent devs cur path name s = namex devs cur path True name s"

end
