(* ===== verification/Ring.thy ===== *)
theory Ring
  imports Prelude
begin

text \<open>
  Bounded FIFO queues. The kernel keeps bytes in arrays indexed by free-running 32 bit
  counters (\<^verbatim>\<open>data[nwrite++ % PIPESIZE]\<close>); the user programs use arrays with a head and a tail
  index. This theory states what a client may rely on and proves once what follows for a
  whole run of operations, and it has the arithmetic of the counters.
\<close>

subsection \<open>The interface\<close>

datatype 'b qop = Put 'b | Get

text \<open>A run: puts on a full queue and gets on an empty one are skipped; gets collect their results.\<close>

primrec q_run :: "('b \<Rightarrow> 's \<Rightarrow> 's) \<Rightarrow> ('s \<Rightarrow> 'b \<times> 's) \<Rightarrow> ('s \<Rightarrow> bool) \<Rightarrow> ('s \<Rightarrow> bool) \<Rightarrow>
    'b qop list \<Rightarrow> 's \<Rightarrow> 'b list \<times> 'b list \<times> 's" where
  "q_run put get full isempty [] s = ([], [], s)"
| "q_run put get full isempty (e # es) s =
     (case e of
        Put b \<Rightarrow> if full s then q_run put get full isempty es s
                 else (case q_run put get full isempty es (put b s) of (ins, outs, t) \<Rightarrow> (b # ins, outs, t))
      | Get \<Rightarrow> if isempty s then q_run put get full isempty es s
               else (case get s of (b, s) \<Rightarrow>
                      case q_run put get full isempty es s of (ins, outs, t) \<Rightarrow> (ins, b # outs, t)))"

locale bounded_queue =
  fixes put :: "'b \<Rightarrow> 's \<Rightarrow> 's" and get :: "'s \<Rightarrow> 'b \<times> 's" and full :: "'s \<Rightarrow> bool" and isempty :: "'s \<Rightarrow> bool"
    and contents :: "'s \<Rightarrow> 'b list" and cap :: nat and inv :: "'s \<Rightarrow> bool"
  assumes full_iff: "inv s \<Longrightarrow> full s \<longleftrightarrow> length (contents s) = cap"
    and empty_iff: "inv s \<Longrightarrow> isempty s \<longleftrightarrow> contents s = []"
    and cap_bound: "inv s \<Longrightarrow> length (contents s) \<le> cap"
    and put_appends: "inv s \<Longrightarrow> \<not> full s \<Longrightarrow> inv (put b s) \<and> contents (put b s) = contents s @ [b]"
    and get_removes: "inv s \<Longrightarrow> \<not> isempty s \<Longrightarrow> get s = (b, s') \<Longrightarrow> inv s' \<and> contents s = b # contents s'"
begin

lemma run_fifo:
  assumes "inv s" "q_run put get full isempty es s = (ins, outs, t)"
  shows "inv t \<and> contents s @ ins = outs @ contents t"
  using assms
proof (induction es arbitrary: s ins outs)
  case Nil
  then show ?case by simp
next
  case (Cons e es)
  show ?case
  proof (cases e)
    case (Put b)
    show ?thesis
    proof (cases "full s")
      case True
      with Cons Put show ?thesis by simp
    next
      case False
      obtain ins' outs' where r: "q_run put get full isempty es (put b s) = (ins', outs', t)" "ins = b # ins'" "outs = outs'"
        using Cons.prems(2) Put False by (auto split: prod.splits)
      with Cons.IH [of "put b s" ins' outs'] put_appends [OF Cons.prems(1) False, of b] show ?thesis by simp
    qed
  next
    case Get
    show ?thesis
    proof (cases "isempty s")
      case True
      with Cons Get show ?thesis by simp
    next
      case False
      obtain b s' ins' outs' where r: "get s = (b, s')" "q_run put get full isempty es s' = (ins', outs', t)"
          "ins = ins'" "outs = b # outs'"
        using Cons.prems(2) Get False by (auto split: prod.splits)
      with Cons.IH [of s' ins' outs'] get_removes [OF Cons.prems(1) False r(1)] show ?thesis by simp
    qed
  qed
qed

lemma run_bounded:
  "inv s \<Longrightarrow> q_run put get full isempty es s = (ins, outs, t) \<Longrightarrow> length (contents t) \<le> cap"
  using run_fifo cap_bound by blast

end

subsection \<open>Free-running counters\<close>

definition ring_contents :: "'b list \<Rightarrow> uint \<Rightarrow> uint \<Rightarrow> 'b list" where
  "ring_contents data r w = map (\<lambda>i. data ! (unat (r + of_nat i) mod length data)) [0..<unat (w - r)]"

text \<open>The counters wrap at 2 to the power 32, which the length of the array divides.\<close>

definition ring_wf :: "'b list \<Rightarrow> uint \<Rightarrow> uint \<Rightarrow> bool" where
  "ring_wf data r w \<longleftrightarrow> 0 < length data \<and> length data dvd 4294967296 \<and> length data < 4294967296 \<and>
     unat (w - r) \<le> length data"

lemma length_ring_contents [simp]: "length (ring_contents data r w) = unat (w - r)"
  by (simp add: ring_contents_def)

lemma unat_add_mod_dvd:
  assumes "N dvd 4294967296"
  shows "unat (x + y :: uint) mod N = (unat x + unat y) mod N"
proof -
  have "unat (x + y) = (unat x + unat y) mod 4294967296" by (simp add: unat_word_ariths)
  with assms show ?thesis by (simp add: mod_mod_cancel)
qed

text \<open>Different positions in a window of at most \<open>N\<close> use different cells.\<close>

lemma ring_cells_distinct:
  assumes "N dvd 4294967296" "i < j" "j < N" "N \<le> 4294967296"
  shows "unat (r + of_nat i :: uint) mod N \<noteq> unat (r + of_nat j :: uint) mod N"
proof
  assume "unat (r + of_nat i) mod N = unat (r + of_nat j) mod N"
  then have "(unat r + i) mod N = (unat r + j) mod N"
    using assms by (simp add: unat_add_mod_dvd unat_of_nat_32)
  then have "N dvd (unat r + j) - (unat r + i)"
    using assms(2) mod_eq_dvd_iff_nat [of "unat r + i" "unat r + j" N] by simp
  then have "N dvd j - i" by simp
  with assms show False by (auto dest: dvd_imp_le)
qed

lemma ring_put:
  assumes "ring_wf data r w" "unat (w - r) < length data"
  shows "ring_wf (data[unat w mod length data := b]) r (w + 1)"
    "ring_contents (data[unat w mod length data := b]) r (w + 1) = ring_contents data r w @ [b]"
proof -
  let ?N = "length data" and ?k = "unat (w - r)"
  have N: "?N dvd 4294967296" "0 < ?N" "?N < 4294967296"
    using assms(1) by (auto simp: ring_wf_def)
  have k: "unat (w + 1 - r) = Suc ?k"
  proof -
    have "unat (w - r) + unat (1 :: uint) < 4294967296" using assms(2) N(3) by simp
    then have "unat ((w - r) + 1) = Suc ?k" using unat_add_no_wrap [of "w - r" 1] by simp
    then show ?thesis by (simp add: algebra_simps)
  qed
  show "ring_wf (data[unat w mod ?N := b]) r (w + 1)"
    using assms by (simp add: ring_wf_def k)
  have w: "r + of_nat ?k = w" by simp
  have "unat w mod ?N \<noteq> unat (r + of_nat i) mod ?N" if "i < ?k" for i
    using ring_cells_distinct [OF N(1) that assms(2) order_less_imp_le [OF N(3)], of r] w by simp
  then show "ring_contents (data[unat w mod ?N := b]) r (w + 1) = ring_contents data r w @ [b]"
    using N(2) by (simp add: ring_contents_def k)
qed

lemma ring_get:
  assumes "ring_wf data r w" "r \<noteq> w"
  shows "ring_wf data (r + 1) w"
    "ring_contents data r w = data ! (unat r mod length data) # ring_contents data (r + 1) w"
proof -
  have "unat (w - r) \<noteq> 0" using assms(2) by (simp add: unat_eq_0)
  then obtain k where k: "unat (w - r) = Suc k" using not0_implies_Suc by blast
  have k': "unat (w - (r + 1)) = k"
    using k unat_minus_one [of "w - r"] assms(2) by (simp add: diff_diff_eq)
  show "ring_wf data (r + 1) w" using assms(1) k k' by (simp add: ring_wf_def)
  have "[0..<Suc k] = 0 # map Suc [0..<k]" by (simp add: map_Suc_upt upt_conv_Cons)
  then show "ring_contents data r w = data ! (unat r mod length data) # ring_contents data (r + 1) w"
    unfolding ring_contents_def k k' by (simp add: algebra_simps)
qed

text \<open>A counter between the two others splits the contents.\<close>

lemma ring_between:
  fixes r w e :: uint
  assumes "unat (w - r) \<le> unat (e - r)"
  shows "unat (e - w) = unat (e - r) - unat (w - r)"
proof -
  have "e - w = (e - r) - (w - r)" by simp
  then show ?thesis using assms unat_sub_if_32 [of "e - r" "w - r"] by (simp only: if_True)
qed

lemma ring_split:
  assumes "unat (w - r) \<le> unat (e - r)"
  shows "ring_contents data r e = ring_contents data r w @ ring_contents data w e"
proof (rule nth_equalityI)
  have n: "unat (e - r) = unat (w - r) + unat (e - w)" using ring_between [OF assms] assms by simp
  then show "length (ring_contents data r e) = length (ring_contents data r w @ ring_contents data w e)" by simp
  have "w + of_nat (i - unat (w - r)) = r + of_nat i" if "\<not> i < unat (w - r)" for i
  proof -
    have "of_nat i = (of_nat (i - unat (w - r)) + of_nat (unat (w - r)) :: uint)" using that by (simp only: of_nat_add [symmetric]) simp
    then show ?thesis by simp
  qed
  then show "ring_contents data r e ! i = (ring_contents data r w @ ring_contents data w e) ! i" if "i < length (ring_contents data r e)" for i
    using that n by (cases "i < unat (w - r)") (simp_all add: nth_append ring_contents_def add.commute)
qed

lemma ring_drop_last:
  assumes "w \<noteq> (e :: uint)"
  shows "unat (e - 1 - w) = unat (e - w) - 1" "ring_contents data w (e - 1) = butlast (ring_contents data w e)"
proof -
  have "e - 1 - w = (e - w) - 1" by simp
  then show u: "unat (e - 1 - w) = unat (e - w) - 1" using unat_minus_one [of "e - w"] assms by (simp only:) simp
  show "ring_contents data w (e - 1) = butlast (ring_contents data w e)"
    unfolding ring_contents_def u by (cases "unat (e - w)") simp_all
qed

lemma ring_last:
  assumes "w \<noteq> (e :: uint)"
  shows "last (ring_contents data w e) = data ! (unat (e - 1) mod length data)"
proof -
  have n: "0 < unat (e - w)" using assms by (simp add: unat_gt_0)
  then have "(of_nat (unat (e - w) - 1) :: uint) = e - w - 1" by (simp add: of_nat_diff)
  then have "w + of_nat (unat (e - w) - 1) = e - 1" by simp
  moreover have "last (ring_contents data w e) = data ! (unat (w + of_nat (unat (e - w) - 1)) mod length data)"
    using n by (simp add: ring_contents_def last_map)
  ultimately show ?thesis by simp
qed

subsection \<open>Head and tail indices\<close>

text \<open>The cells from the head up to the tail, around the end of the array; a head that equals the tail is an empty queue.\<close>

definition ht_length :: "nat \<Rightarrow> nat \<Rightarrow> nat \<Rightarrow> nat" where
  "ht_length n h t = (if h \<le> t then t - h else t + n - h)"

definition ht_contents :: "'b list \<Rightarrow> nat \<Rightarrow> nat \<Rightarrow> 'b list" where
  "ht_contents xs h t = map (\<lambda>i. xs ! ((h + i) mod length xs)) [0..<ht_length (length xs) h t]"

lemma length_ht_contents [simp]: "length (ht_contents xs h t) = ht_length (length xs) h t"
  by (simp add: ht_contents_def)

lemma mod_step: "(i :: nat) < n \<Longrightarrow> (i + 1) mod n = (if i + 1 = n then 0 else i + 1)"
  by auto

lemma ht_length_less: "h < n \<Longrightarrow> t < n \<Longrightarrow> ht_length n h t < n"
  by (auto simp: ht_length_def)

lemma ht_tail: "h < n \<Longrightarrow> t < n \<Longrightarrow> (h + ht_length n h t) mod n = t"
  by (auto simp: ht_length_def)

lemma ht_cells:
  fixes h :: nat
  assumes "h < n" "i < j" "j < n"
  shows "(h + i) mod n \<noteq> (h + j) mod n"
proof
  assume "(h + i) mod n = (h + j) mod n"
  then have "n dvd (h + j) - (h + i)" using assms(2) mod_eq_dvd_iff_nat [of "h + i" "h + j" n] by simp
  then have "n dvd j - i" by simp
  with assms show False by (auto dest: dvd_imp_le)
qed

lemma ht_put:
  assumes "h < length xs" "t < length xs" "ht_length (length xs) h t < length xs - 1"
  shows "ht_contents (xs[t := b]) h ((t + 1) mod length xs) = ht_contents xs h t @ [b]"
proof -
  have "ht_length (length xs) h ((t + 1) mod length xs) = Suc (ht_length (length xs) h t)"
    using assms unfolding mod_step [OF assms(2)] by (auto simp: ht_length_def split: if_splits)
  moreover have "t \<noteq> (h + i) mod length xs" if "i < ht_length (length xs) h t" for i
    using ht_cells [OF assms(1) that ht_length_less [OF assms(1,2)]] ht_tail [OF assms(1,2)] by simp
  ultimately show ?thesis using assms ht_tail [OF assms(1,2)] by (simp add: ht_contents_def)
qed

lemma ht_put_full:
  assumes "h < length xs" "t < length xs" "ht_length (length xs) h t = length xs - 1"
  shows "ht_contents (xs[t := b]) h ((t + 1) mod length xs) = []"
proof -
  have "(t + 1) mod length xs = h"
    using assms unfolding mod_step [OF assms(2)] by (auto simp: ht_length_def split: if_splits)
  then show ?thesis by (simp add: ht_contents_def ht_length_def)
qed

lemma ht_get:
  assumes "h < length xs" "t < length xs" "h \<noteq> t"
  shows "ht_contents xs h t = xs ! h # ht_contents xs ((h + 1) mod length xs) t"
proof -
  have "ht_length (length xs) h t = Suc (ht_length (length xs) ((h + 1) mod length xs) t)"
    using assms unfolding mod_step [OF assms(1)] by (auto simp: ht_length_def split: if_splits)
  moreover have "((h + 1) mod length xs + i) mod length xs = (h + Suc i) mod length xs" for i
    by (simp add: mod_add_left_eq)
  ultimately show ?thesis using assms(1)
    by (simp add: ht_contents_def upt_conv_Cons map_Suc_upt [symmetric] del: upt_Suc)
qed

lemma ht_empty: "h < length xs \<Longrightarrow> t < length xs \<Longrightarrow> ht_contents xs h t = [] \<longleftrightarrow> h = t"
  by (auto simp: ht_contents_def ht_length_def)

end
