(* ===== verification/Pipe.thy ===== *)
theory Pipe
  imports Ring Ipc
begin

text \<open>
  Pipes, \<^verbatim>\<open>src/xv6A1/pipe.c\<close>. A pipe is a ring of 512 bytes with free-running counters. The
  loops that sleep are functions that stop at the sleep and say at which byte; a second function
  is the rest of the call. \<open>pa\<close> is the address of the pipe's page, from which its two channels
  are formed.
\<close>

record pipe =
  pi_lock :: bool
  pi_data :: "uchar list"
  nread :: uint
  nwrite :: uint
  readopen :: bool
  writeopen :: bool

abbreviation "PIPESIZE \<equiv> (512 :: nat)"

subsection \<open>The ring\<close>

definition pipe_full :: "pipe \<Rightarrow> bool" where
  "pipe_full p \<longleftrightarrow> nwrite p = nread p + 512"

definition pipe_empty :: "pipe \<Rightarrow> bool" where
  "pipe_empty p \<longleftrightarrow> nread p = nwrite p"

definition pipe_put :: "uchar \<Rightarrow> pipe \<Rightarrow> pipe" where
  "pipe_put b p = p\<lparr>pi_data := (pi_data p)[unat (nwrite p) mod PIPESIZE := b], nwrite := nwrite p + 1\<rparr>"

definition pipe_get :: "pipe \<Rightarrow> uchar \<times> pipe" where
  "pipe_get p = (pi_data p ! (unat (nread p) mod PIPESIZE), p\<lparr>nread := nread p + 1\<rparr>)"

subsection \<open>Operations\<close>

definition pi_acquire :: "pipe \<Rightarrow> pipe kres" where
  "pi_acquire p = kbind (lock_acquire (pi_lock p)) (\<lambda>h. Ret (p\<lparr>pi_lock := h\<rparr>))"

definition pi_release :: "pipe \<Rightarrow> pipe kres" where
  "pi_release p = kbind (lock_release (pi_lock p)) (\<lambda>h. Ret (p\<lparr>pi_lock := h\<rparr>))"

text \<open>The initialisation part of \<^verbatim>\<open>pipealloc\<close>; the bytes of the page are what they were.\<close>

definition pipe_init :: "uchar list \<Rightarrow> pipe" where
  "pipe_init bytes = \<lparr>pi_lock = False, pi_data = bytes, nread = 0, nwrite = 0, readopen = True, writeopen = True\<rparr>"

text \<open>
  \<^verbatim>\<open>pipeclose\<close>: the result is \<open>None\<close> when the last end was closed and the page was freed.
\<close>

definition pipeclose :: "uint \<Rightarrow> uint \<Rightarrow> pipe \<Rightarrow> bool \<Rightarrow> 'a ptable_scheme \<Rightarrow> (pipe option \<times> 'a ptable_scheme) kres" where
  "pipeclose kend pa p writable s =
     kbind (pi_acquire p) (\<lambda>p.
     kbind (if writable then kbind (wakeup (ChPipeR pa) s) (\<lambda>s. Ret (p\<lparr>writeopen := False\<rparr>, s))
            else kbind (wakeup (ChPipeW pa) s) (\<lambda>s. Ret (p\<lparr>readopen := False\<rparr>, s))) (\<lambda>(p, s).
     kbind (pi_release p) (\<lambda>p.
       if \<not> readopen p \<and> \<not> writeopen p
       then kbind (kfree kend pa (kmem s)) (\<lambda>km. Ret (None, s\<lparr>kmem := km\<rparr>))
       else Ret (Some p, s))))"

text \<open>
  The loop of \<^verbatim>\<open>pipewrite\<close> at byte \<open>i\<close> with \<open>k\<close> bytes to go. It gives the outcome, the index
  reached, and the new states.
\<close>

primrec pipewrite_loop :: "uint \<Rightarrow> nat \<Rightarrow> uint \<Rightarrow> cint \<Rightarrow> nat \<Rightarrow> nat \<Rightarrow> pipe \<Rightarrow> 'a ptable_scheme \<Rightarrow>
    (cint blocking \<times> nat \<times> pipe \<times> 'a ptable_scheme) kres" where
  "pipewrite_loop pa cur addr n i 0 p s =
     kbind (wakeup (ChPipeR pa) s) (\<lambda>s. kbind (pi_release p) (\<lambda>p. Ret (Done n, i, p, s)))"
| "pipewrite_loop pa cur addr n i (Suc k) p s =
     (if pipe_full p then
        if \<not> readopen p \<or> killed (procs s ! cur)
        then kbind (pi_release p) (\<lambda>p. Ret (Done (-1), i, p, s))
        else kbind (wakeup (ChPipeR pa) s) (\<lambda>s.
             kbind (sleep_enter (Some cur) (ChPipeW pa) (Some (pi_lock p)) s) (\<lambda>(lk, s).
               Ret (Sleeping (ChPipeW pa), i, p\<lparr>pi_lock := the lk\<rparr>, s)))
      else pipewrite_loop pa cur addr n (i + 1) k (pipe_put (kmemory s (addr + of_nat i)) p) s)"

definition pipewrite :: "uint \<Rightarrow> nat \<Rightarrow> uint \<Rightarrow> cint \<Rightarrow> pipe \<Rightarrow> 'a ptable_scheme \<Rightarrow>
    (cint blocking \<times> nat \<times> pipe \<times> 'a ptable_scheme) kres" where
  "pipewrite pa cur addr n p s =
     kbind (pi_acquire p) (\<lambda>p. pipewrite_loop pa cur addr n 0 (nat (sint n)) p s)"

definition pipewrite_resume :: "uint \<Rightarrow> nat \<Rightarrow> uint \<Rightarrow> cint \<Rightarrow> nat \<Rightarrow> pipe \<Rightarrow> 'a ptable_scheme \<Rightarrow>
    (cint blocking \<times> nat \<times> pipe \<times> 'a ptable_scheme) kres" where
  "pipewrite_resume pa cur addr n i p s =
     kbind (sleep_exit cur (Some (pi_lock p)) s) (\<lambda>(lk, s).
       pipewrite_loop pa cur addr n i (nat (sint n) - i) (p\<lparr>pi_lock := the lk\<rparr>) s)"

primrec piperead_copy :: "uint \<Rightarrow> uint \<Rightarrow> nat \<Rightarrow> nat \<Rightarrow> pipe \<Rightarrow> 'a ptable_scheme \<Rightarrow> (nat \<times> pipe \<times> 'a ptable_scheme)" where
  "piperead_copy pa addr i 0 p s = (i, p, s)"
| "piperead_copy pa addr i (Suc k) p s =
     (if pipe_empty p then (i, p, s)
      else case pipe_get p of (b, p) \<Rightarrow>
        piperead_copy pa addr (i + 1) k p (set_mem ((kmemory s)(addr + of_nat i := b)) s))"

definition piperead_loop :: "uint \<Rightarrow> nat \<Rightarrow> uint \<Rightarrow> cint \<Rightarrow> pipe \<Rightarrow> 'a ptable_scheme \<Rightarrow>
    (cint blocking \<times> pipe \<times> 'a ptable_scheme) kres" where
  "piperead_loop pa cur addr n p s =
     (if pipe_empty p \<and> writeopen p then
        if killed (procs s ! cur) then kbind (pi_release p) (\<lambda>p. Ret (Done (-1), p, s))
        else kbind (sleep_enter (Some cur) (ChPipeR pa) (Some (pi_lock p)) s) (\<lambda>(lk, s).
               Ret (Sleeping (ChPipeR pa), p\<lparr>pi_lock := the lk\<rparr>, s))
      else case piperead_copy pa addr 0 (nat (sint n)) p s of (i, p, s) \<Rightarrow>
        kbind (wakeup (ChPipeW pa) s) (\<lambda>s. kbind (pi_release p) (\<lambda>p. Ret (Done (of_nat i), p, s))))"

definition piperead :: "uint \<Rightarrow> nat \<Rightarrow> uint \<Rightarrow> cint \<Rightarrow> pipe \<Rightarrow> 'a ptable_scheme \<Rightarrow>
    (cint blocking \<times> pipe \<times> 'a ptable_scheme) kres" where
  "piperead pa cur addr n p s = kbind (pi_acquire p) (\<lambda>p. piperead_loop pa cur addr n p s)"

definition piperead_resume :: "uint \<Rightarrow> nat \<Rightarrow> uint \<Rightarrow> cint \<Rightarrow> pipe \<Rightarrow> 'a ptable_scheme \<Rightarrow>
    (cint blocking \<times> pipe \<times> 'a ptable_scheme) kres" where
  "piperead_resume pa cur addr n p s =
     kbind (sleep_exit cur (Some (pi_lock p)) s) (\<lambda>(lk, s).
       piperead_loop pa cur addr n (p\<lparr>pi_lock := the lk\<rparr>) s)"

subsection \<open>The pipe as a queue of bytes\<close>

definition pipe_contents :: "pipe \<Rightarrow> uchar list" where
  "pipe_contents p = ring_contents (pi_data p) (nread p) (nwrite p)"

definition pipe_wf :: "pipe \<Rightarrow> bool" where
  "pipe_wf p \<longleftrightarrow> length (pi_data p) = PIPESIZE \<and> unat (nwrite p - nread p) \<le> PIPESIZE"

lemma pipe_wf_ring: "pipe_wf p \<Longrightarrow> ring_wf (pi_data p) (nread p) (nwrite p)"
  by (simp add: pipe_wf_def ring_wf_def)

lemma pipe_full_iff: "pipe_full p \<longleftrightarrow> unat (nwrite p - nread p) = PIPESIZE"
proof -
  have "pipe_full p \<longleftrightarrow> nwrite p - nread p = 512" by (auto simp: pipe_full_def algebra_simps)
  then show ?thesis by (simp add: word_unat_eq_iff)
qed

interpretation pipe_ring: bounded_queue pipe_put pipe_get pipe_full pipe_empty pipe_contents PIPESIZE pipe_wf
proof (unfold_locales, goal_cases)
  case (1 s)
  then show ?case by (simp add: pipe_full_iff pipe_contents_def)
next
  case (2 s)
  then show ?case by (auto simp: pipe_empty_def pipe_contents_def ring_contents_def unat_eq_0)
next
  case (3 s)
  then show ?case by (simp add: pipe_wf_def pipe_contents_def)
next
  case (4 s b)
  then have "unat (nwrite s - nread s) < length (pi_data s)" by (auto simp: pipe_full_iff pipe_wf_def)
  with ring_put [OF pipe_wf_ring [OF 4(1)] this, of b] 4(1) show ?case
    by (simp add: pipe_put_def pipe_contents_def pipe_wf_def ring_wf_def)
next
  case (5 s b s')
  then have "nread s \<noteq> nwrite s" by (simp add: pipe_empty_def)
  with ring_get [OF pipe_wf_ring [OF 5(1)] this] 5(1,3) show ?case
    by (auto simp: pipe_get_def pipe_contents_def pipe_wf_def ring_wf_def)
qed

lemma pipe_lock_irrelevant [simp]:
  "pipe_wf (p\<lparr>pi_lock := b\<rparr>) = pipe_wf p" "pipe_contents (p\<lparr>pi_lock := b\<rparr>) = pipe_contents p"
  "pipe_full (p\<lparr>pi_lock := b\<rparr>) = pipe_full p" "pipe_empty (p\<lparr>pi_lock := b\<rparr>) = pipe_empty p"
  by (simp_all add: pipe_wf_def pipe_contents_def pipe_full_def pipe_empty_def)

lemma pipe_put_simps [simp]:
  "pi_lock (pipe_put b p) = pi_lock p" "readopen (pipe_put b p) = readopen p" "writeopen (pipe_put b p) = writeopen p"
  by (simp_all add: pipe_put_def)

text \<open>The bytes \<open>i\<close> to \<open>j\<close> of a user buffer.\<close>

definition ubytes :: "mem \<Rightarrow> uint \<Rightarrow> nat \<Rightarrow> nat \<Rightarrow> uchar list" where
  "ubytes m addr i j = map (\<lambda>x. m (addr + of_nat x)) [i..<j]"

lemma ubytes_Cons: "i < j \<Longrightarrow> ubytes m addr i j = m (addr + of_nat i) # ubytes m addr (Suc i) j"
  by (simp add: ubytes_def upt_conv_Cons)

lemma ubytes_self [simp]: "ubytes m addr i i = []"
  by (simp add: ubytes_def)

definition write_outcome :: "uint \<Rightarrow> bool \<Rightarrow> cint \<Rightarrow> nat \<Rightarrow> cint blocking \<Rightarrow> nat \<Rightarrow> pipe \<Rightarrow> bool" where
  "write_outcome pa kl n e r j p \<longleftrightarrow>
     (r = Done n \<and> j = e) \<or> (r = Done (-1) \<and> pipe_full p \<and> (kl \<or> \<not> readopen p)) \<or>
     (r = Sleeping (ChPipeW pa) \<and> pipe_full p \<and> \<not> kl \<and> readopen p)"

lemma pipewrite_loop_spec:
  assumes "pipe_wf p" "pi_lock p" "\<not> ptlock s" "cur < length (procs s)"
  shows "\<exists>r j p' s'. pipewrite_loop pa cur addr n i k p s = Ret (r, j, p', s') \<and> i \<le> j \<and> j \<le> i + k \<and>
    pipe_wf p' \<and> \<not> pi_lock p' \<and> pipe_contents p' = pipe_contents p @ ubytes (kmemory s) addr i j \<and>
    kmemory s' = kmemory s \<and> write_outcome pa (killed (procs s ! cur)) n (i + k) r j p'"
  using assms
proof (induction k arbitrary: i p)
  case 0
  then show ?case by (simp add: wakeup_eq pi_release_def write_outcome_def)
next
  case (Suc k)
  show ?case
  proof (cases "pipe_full p")
    case True
    with Suc.prems show ?thesis
      by (simp add: wakeup_eq pi_release_def write_outcome_def sleep_enter_def pt_simps sched_checks_def
          sleep_mark_def Let_def) blast
  next
    case False
    let ?b = "kmemory s (addr + of_nat i)"
    have put: "pipe_wf (pipe_put ?b p)" "pipe_contents (pipe_put ?b p) = pipe_contents p @ [?b]"
      using pipe_ring.put_appends [OF Suc.prems(1) False] by blast+
    obtain r j p' s' where
      "pipewrite_loop pa cur addr n (i + 1) k (pipe_put ?b p) s = Ret (r, j, p', s')" and ij: "i + 1 \<le> j" and "j \<le> i + 1 + k"
      "pipe_wf p'" "\<not> pi_lock p'" "pipe_contents p' = pipe_contents (pipe_put ?b p) @ ubytes (kmemory s) addr (i + 1) j"
      "kmemory s' = kmemory s" "write_outcome pa (killed (procs s ! cur)) n (i + 1 + k) r j p'"
      using Suc.IH [of "pipe_put ?b p" "i + 1"] put(1) Suc.prems by auto
    moreover have "ubytes (kmemory s) addr i j = ?b # ubytes (kmemory s) addr (i + 1) j"
      using ubytes_Cons [of i j "kmemory s" addr] ij by simp
    ultimately show ?thesis using False put(2) by simp
  qed
qed

lemma pipe_get_lock: "pipe_get p = (b, p') \<Longrightarrow> pi_lock p' = pi_lock p"
  by (auto simp: pipe_get_def)

lemma piperead_copy_spec:
  assumes "pipe_wf p" "piperead_copy pa addr i k p s = (j, p', s')"
  shows "j = i + min k (length (pipe_contents p)) \<and> pipe_wf p' \<and> pipe_contents p' = drop (j - i) (pipe_contents p) \<and>
    kmemory s' = write_bytes (kmemory s) (addr + of_nat i) (take (j - i) (pipe_contents p)) \<and>
    procs s' = procs s \<and> ptlock s' = ptlock s \<and> pi_lock p' = pi_lock p"
  using assms
proof (induction k arbitrary: i p s)
  case 0
  then show ?case by simp
next
  case (Suc k)
  show ?case
  proof (cases "pipe_empty p")
    case True
    then show ?thesis using Suc.prems pipe_ring.empty_iff [of p] by simp
  next
    case False
    obtain b q where g: "pipe_get p = (b, q)" by (rule prod.exhaust)
    have q: "pipe_wf q" "pipe_contents p = b # pipe_contents q"
      using pipe_ring.get_removes [OF Suc.prems(1) False g] by blast+
    let ?s = "set_mem ((kmemory s)(addr + of_nat i := b)) s"
    have r: "piperead_copy pa addr (i + 1) k q ?s = (j, p', s')"
      using Suc.prems(2) False g by simp
    have "addr + of_nat (i + 1) = (addr + of_nat i) + 1" by (simp add: algebra_simps)
    with Suc.IH [OF q(1) r] q(2) pipe_get_lock [OF g] show ?thesis
      by (simp add: Suc_diff_le fun_upd_def algebra_simps)
  qed
qed

definition read_outcome :: "uint \<Rightarrow> bool \<Rightarrow> nat \<Rightarrow> uchar list \<Rightarrow> uint \<Rightarrow> mem \<Rightarrow> cint blocking \<Rightarrow> pipe \<Rightarrow> mem \<Rightarrow> bool" where
  "read_outcome pa kl n bs addr m r p' m' \<longleftrightarrow>
     (let j = min n (length bs)
      in (r = Done (of_nat j) \<and> pipe_contents p' = drop j bs \<and> m' = write_bytes m addr (take j bs)) \<or>
         (bs = [] \<and> writeopen p' \<and> pipe_contents p' = [] \<and> m' = m \<and>
          (if kl then r = Done (-1) else r = Sleeping (ChPipeR pa))))"

lemma piperead_loop_spec:
  assumes "pipe_wf p" "pi_lock p" "\<not> ptlock s" "cur < length (procs s)"
  shows "\<exists>r p' s'. piperead_loop pa cur addr n p s = Ret (r, p', s') \<and> pipe_wf p' \<and> \<not> pi_lock p' \<and>
    read_outcome pa (killed (procs s ! cur)) (nat (sint n)) (pipe_contents p) addr (kmemory s) r p' (kmemory s')"
proof (cases "pipe_empty p \<and> writeopen p")
  case True
  then have "pipe_contents p = []" using pipe_ring.empty_iff assms(1) by blast
  with True assms show ?thesis
    by (simp add: piperead_loop_def read_outcome_def pi_release_def sleep_enter_def pt_simps sched_checks_def
        sleep_mark_def Let_def)
next
  case False
  obtain j p' s' where c: "piperead_copy pa addr 0 (nat (sint n)) p s = (j, p', s')" by (rule prod_cases3)
  have l: "piperead_loop pa cur addr n p s =
      kbind (wakeup (ChPipeW pa) s') (\<lambda>s. kbind (pi_release p') (\<lambda>p. Ret (Done (of_nat j), p, s)))"
    using False c by (auto simp: piperead_loop_def)
  from piperead_copy_spec [OF assms(1) c] assms(2,3) show ?thesis
    unfolding l by (simp add: wakeup_eq pi_release_def read_outcome_def Let_def)
qed

subsection \<open>A pipe is a reliable byte stream\<close>

text \<open>What a read delivered, by its return value.\<close>

definition got :: "cint blocking \<Rightarrow> mem \<Rightarrow> uint \<Rightarrow> uchar list" where
  "got r m addr = (case r of Done c \<Rightarrow> if 0 \<le> sint c then ubytes m addr 0 (nat (sint c)) else [] | Sleeping _ \<Rightarrow> [])"

text \<open>
  A pipe used by any processes: calls of \<^verbatim>\<open>pipewrite\<close> and \<^verbatim>\<open>piperead\<close> and their continuations
  after a sleep, in any order and in any states of the rest of the kernel. \<open>ws\<close> is what has
  been written so far, \<open>rs\<close> what has been read.
\<close>

inductive pipe_reach :: "uint \<Rightarrow> pipe \<Rightarrow> pipe \<Rightarrow> uchar list \<Rightarrow> uchar list \<Rightarrow> bool" for pa p0 where
  fresh: "pipe_reach pa p0 p0 [] []"
| p_write: "pipe_reach pa p0 p ws rs \<Longrightarrow> \<not> ptlock s \<Longrightarrow> cur < length (procs s) \<Longrightarrow>
    pipewrite pa cur addr n p (s :: ptable) = Ret (r, j, p', s') \<Longrightarrow>
    pipe_reach pa p0 p' (ws @ ubytes (kmemory s) addr 0 j) rs"
| p_write_resume: "pipe_reach pa p0 p ws rs \<Longrightarrow> ptlock s \<Longrightarrow> cur < length (procs s) \<Longrightarrow>
    pipewrite_resume pa cur addr n i p (s :: ptable) = Ret (r, j, p', s') \<Longrightarrow>
    pipe_reach pa p0 p' (ws @ ubytes (kmemory s) addr i j) rs"
| p_read: "pipe_reach pa p0 p ws rs \<Longrightarrow> \<not> ptlock s \<Longrightarrow> cur < length (procs s) \<Longrightarrow>
    piperead pa cur addr n p (s :: ptable) = Ret (r, p', s') \<Longrightarrow>
    pipe_reach pa p0 p' ws (rs @ got r (kmemory s') addr)"
| p_read_resume: "pipe_reach pa p0 p ws rs \<Longrightarrow> ptlock s \<Longrightarrow> cur < length (procs s) \<Longrightarrow>
    piperead_resume pa cur addr n p (s :: ptable) = Ret (r, p', s') \<Longrightarrow>
    pipe_reach pa p0 p' ws (rs @ got r (kmemory s') addr)"

lemma got_outcome:
  assumes "read_outcome pa kl n bs addr m r p' m'" "length bs \<le> PIPESIZE"
  shows "bs = got r m' addr @ pipe_contents p'"
proof -
  let ?j = "min n (length bs)"
  have "sint (of_nat ?j :: cint) = int ?j"
    using assms(2) by (subst sint_unat_less) (simp_all add: unat_of_nat_32)
  moreover have "ubytes (write_bytes m addr (take ?j bs)) addr 0 ?j = take ?j bs"
    using read_write_bytes [of "take ?j bs" m addr] assms(2) by (simp add: ubytes_def read_bytes_def)
  ultimately show ?thesis
    using assms(1) by (auto simp: read_outcome_def got_def Let_def split: if_splits)
qed

lemma pipe_reach_inv:
  assumes "pipe_reach pa p0 p ws rs" "pipe_wf p0" "pipe_contents p0 = []" "\<not> pi_lock p0"
  shows "pipe_wf p \<and> \<not> pi_lock p \<and> ws = rs @ pipe_contents p"
  using assms
proof induction
  case fresh
  then show ?case by simp
next
  case (p_write p ws rs s cur addr n r j p' s')
  then have p: "pipe_wf (p\<lparr>pi_lock := True\<rparr>)" by simp
  from p_write show ?case
    using pipewrite_loop_spec [OF p _ p_write(2,3), of pa addr n 0 "nat (sint n)"]
    by (auto simp: pipewrite_def pi_acquire_def)
next
  case (p_write_resume p ws rs s cur addr n i r j p' s')
  let ?s = "(upd_proc cur (\<lambda>p. p\<lparr>pchan := ChNull\<rparr>) s)\<lparr>ptlock := False\<rparr>"
  have p: "pipe_wf (p\<lparr>pi_lock := True\<rparr>)" using p_write_resume by simp
  have e: "pipewrite_loop pa cur addr n i (nat (sint n) - i) (p\<lparr>pi_lock := True\<rparr>) ?s = Ret (r, j, p', s')"
    using p_write_resume by (simp add: pipewrite_resume_def sleep_exit_def Let_def pt_simps)
  show ?case
    using pipewrite_loop_spec [OF p, of ?s cur pa addr n i "nat (sint n) - i"] e p_write_resume by auto
next
  case (p_read p ws rs s cur addr n r p' s')
  then have p: "pipe_wf (p\<lparr>pi_lock := True\<rparr>)" "length (pipe_contents p) \<le> PIPESIZE" using pipe_ring.cap_bound by auto
  from p_read show ?case
    using piperead_loop_spec [OF p(1) _ p_read(2,3), of pa addr n] got_outcome [OF _ p(2)]
    by (auto simp: piperead_def pi_acquire_def)
next
  case (p_read_resume p ws rs s cur addr n r p' s')
  let ?s = "(upd_proc cur (\<lambda>p. p\<lparr>pchan := ChNull\<rparr>) s)\<lparr>ptlock := False\<rparr>"
  have p: "pipe_wf (p\<lparr>pi_lock := True\<rparr>)" "length (pipe_contents p) \<le> PIPESIZE"
    using p_read_resume pipe_ring.cap_bound by auto
  have e: "piperead_loop pa cur addr n (p\<lparr>pi_lock := True\<rparr>) ?s = Ret (r, p', s')"
    using p_read_resume by (simp add: piperead_resume_def sleep_exit_def Let_def pt_simps)
  show ?case
    using piperead_loop_spec [OF p(1), of ?s cur pa addr n] e got_outcome [OF _ p(2)] p_read_resume by auto
qed

lemma pipe_init_ok:
  "length bytes = PIPESIZE \<Longrightarrow> pipe_wf (pipe_init bytes)" "pipe_contents (pipe_init bytes) = []"
  "\<not> pi_lock (pipe_init bytes)"
  by (simp_all add: pipe_init_def pipe_wf_def pipe_contents_def ring_contents_def)

text \<open>
  C6. A pipe is a reliable byte stream. For any processes that write to and read from a new
  pipe in any interleaving, including sleeps in the middle of a call and wrap-around of the
  counters, what has been written is what has been read followed by what the ring holds,
  which is at most 512 bytes.
\<close>

theorem pipe_byte_stream:
  assumes "pipe_reach pa (pipe_init bytes) p ws rs" "length bytes = PIPESIZE"
  shows "ws = rs @ pipe_contents p \<and> length (pipe_contents p) \<le> PIPESIZE"
  using pipe_reach_inv [OF assms(1)] pipe_init_ok assms(2) pipe_ring.cap_bound by blast

theorem pipe_byte_stream_witness:
  "\<exists>p ws. pipe_reach 0x80400000 (pipe_init (replicate PIPESIZE 0)) p ws [] \<and> ws = pipe_contents p \<and> length ws = 3"
proof -
  let ?p = "pipe_init (replicate PIPESIZE 0)"
  have cur: "0 < length (procs boot_table)" by (simp add: boot_table_def)
  have w: "pipe_wf (?p\<lparr>pi_lock := True\<rparr>)" "pi_lock (?p\<lparr>pi_lock := True\<rparr>)" using pipe_init_ok by simp_all
  obtain r j p s where l: "pipewrite_loop 0x80400000 0 0x100 3 0 (nat (sint (3 :: cint))) (?p\<lparr>pi_lock := True\<rparr>) boot_table = Ret (r, j, p, s)"
      "j \<le> 3" "pipe_wf p" "pipe_contents p = ubytes (kmemory boot_table) 0x100 0 j" "j = 3 \<or> pipe_full p"
    using pipewrite_loop_spec [OF w boot_table_inv(2) cur, of "0x80400000" "0x100" 3 0 "nat (sint (3 :: cint))"]
    by (auto simp: write_outcome_def pipe_init_ok)
  have len: "length (pipe_contents p) = j" using l(4) by (simp add: ubytes_def)
  then have j: "j = 3" using l(2,3,5) pipe_ring.full_iff [of p] by auto
  have "pipewrite 0x80400000 0 0x100 3 ?p boot_table = Ret (r, j, p, s)"
    using l(1) by (simp add: pipewrite_def pi_acquire_def pipe_init_ok)
  from p_write [OF fresh boot_table_inv(2) cur this]
  have "pipe_reach 0x80400000 ?p p (ubytes (kmemory boot_table) 0x100 0 3) []" by (simp add: j)
  from pipe_byte_stream [OF this] this len j show ?thesis
    by (intro exI [of _ p] exI [of _ "ubytes (kmemory boot_table) 0x100 0 3"]) simp
qed

text \<open>
  C32. \<^verbatim>\<open>pipewrite\<close> never panics and appends a prefix of the caller's buffer to the pipe: all of
  it and the result is the length; or it stops at a full pipe, with -1 when there is no reader
  or the process is killed, and otherwise asleep on the pipe's write channel.
\<close>

theorem pipewrite_correct:
  assumes "pipe_wf p" "\<not> pi_lock p" "\<not> ptlock s" "cur < length (procs s)"
  shows "\<exists>r j p' s'. pipewrite pa cur addr n p s = Ret (r, j, p', s') \<and> pipe_wf p' \<and> \<not> pi_lock p' \<and>
    pipe_contents p' = pipe_contents p @ ubytes (kmemory s) addr 0 j \<and>
    ((r = Done n \<and> j = nat (sint n)) \<or>
     (r = Done (-1) \<and> pipe_full p' \<and> (killed (procs s ! cur) \<or> \<not> readopen p')) \<or>
     (r = Sleeping (ChPipeW pa) \<and> pipe_full p' \<and> \<not> killed (procs s ! cur) \<and> readopen p'))"
proof -
  have "pipe_wf (p\<lparr>pi_lock := True\<rparr>)" "pi_lock (p\<lparr>pi_lock := True\<rparr>)" using assms by simp_all
  from pipewrite_loop_spec [OF this assms(3,4), of pa addr n 0 "nat (sint n)"] assms(2) show ?thesis
    by (simp add: pipewrite_def pi_acquire_def write_outcome_def) blast
qed

theorem pipewrite_correct_witness:
  "\<exists>r j p' s'. pipewrite 0x80400000 0 0x100 3 (pipe_init (replicate PIPESIZE 0)) boot_table = Ret (r, j, p', s') \<and>
     pipe_contents p' = ubytes (kmemory boot_table) 0x100 0 j"
  using pipewrite_correct [of "pipe_init (replicate PIPESIZE 0)" boot_table 0 "0x80400000" "0x100" 3]
    pipe_init_ok boot_table_inv(2) by (auto simp: boot_table_def)

end
