(* ===== verification/File.thy ===== *)
theory File
  imports Fs Pipe
begin

text \<open>
  Open files, \<^verbatim>\<open>src/xv6A1/file.c\<close>, and the allocation of pipes, \<^verbatim>\<open>pipealloc\<close> of \<^verbatim>\<open>src/xv6A1/pipe.c\<close>. A
  pointer to an open file is its index in \<^verbatim>\<open>ftable.file\<close>; the pipe in the page at an address is found in the
  map \<open>pipes\<close>. A call that goes to sleep on a pipe returns \<^const>\<open>Sleeping\<close> with the state it leaves.
\<close>

datatype ftype = FD_NONE | FD_PIPE | FD_INODE

record openfile =
  f_type :: ftype
  f_ref :: int
  f_readable :: bool
  f_writable :: bool
  f_pipe :: uint
  f_ip :: nat
  f_off :: uint

record filest = fsst +
  ft_lock :: bool
  files :: "openfile list"
  pipes :: "uint \<Rightarrow> pipe option"

abbreviation "NFILE \<equiv> (100 :: nat)"

definition upd_file :: "nat \<Rightarrow> (openfile \<Rightarrow> openfile) \<Rightarrow> 'a filest_scheme \<Rightarrow> 'a filest_scheme" where
  "upd_file i f s = s\<lparr>files := (files s)[i := f (files s ! i)]\<rparr>"

definition ft_acquire :: "'a filest_scheme \<Rightarrow> 'a filest_scheme kres" where
  "ft_acquire s = kbind (lock_acquire (ft_lock s)) (\<lambda>h. Ret (s\<lparr>ft_lock := h\<rparr>))"

definition ft_release :: "'a filest_scheme \<Rightarrow> 'a filest_scheme kres" where
  "ft_release s = kbind (lock_release (ft_lock s)) (\<lambda>h. Ret (s\<lparr>ft_lock := h\<rparr>))"

text \<open>Bytes copied to an address.\<close>

definition copy_out :: "uint \<Rightarrow> uchar list \<Rightarrow> 'a logst_scheme \<Rightarrow> 'a logst_scheme" where
  "copy_out addr bs s = s\<lparr>lbio := set_mem (write_bytes (kmemory (lbio s)) addr bs) (lbio s)\<rparr>"

definition filealloc :: "'a filest_scheme \<Rightarrow> (nat option \<times> 'a filest_scheme) kres" where
  "filealloc s =
     kbind (ft_acquire s) (\<lambda>s.
       case first_index (\<lambda>f. f_ref f = 0) (files s) of
         Some i \<Rightarrow> kbind (ft_release (upd_file i (\<lambda>f. f\<lparr>f_ref := 1\<rparr>) s)) (\<lambda>s. Ret (Some i, s))
       | None \<Rightarrow> kbind (ft_release s) (\<lambda>s. Ret (None, s)))"

definition filedup :: "nat \<Rightarrow> 'a filest_scheme \<Rightarrow> 'a filest_scheme kres" where
  "filedup i s =
     kbind (ft_acquire s) (\<lambda>s.
       if f_ref (files s ! i) < 1 then Panic ''filedup''
       else kbind (cinc (f_ref (files s ! i))) (\<lambda>n. ft_release (upd_file i (\<lambda>f. f\<lparr>f_ref := n\<rparr>) s)))"

definition fileclose :: "uint \<Rightarrow> nat \<Rightarrow> nat \<Rightarrow> 'a filest_scheme \<Rightarrow> 'a filest_scheme kres" where
  "fileclose kend cur i s =
     kbind (ft_acquire s) (\<lambda>s.
       if f_ref (files s ! i) < 1 then Panic ''fileclose''
       else kbind (cdec (f_ref (files s ! i))) (\<lambda>n.
         let s = upd_file i (\<lambda>f. f\<lparr>f_ref := n\<rparr>) s
         in if f_ref (files s ! i) > 0 then ft_release s
            else
              let ff = files s ! i
              in kbind (ft_release (upd_file i (\<lambda>f. f\<lparr>f_ref := 0, f_type := FD_NONE\<rparr>) s)) (\<lambda>s.
                   case f_type ff of
                     FD_PIPE \<Rightarrow>
                       (case pipes s (f_pipe ff) of
                          None \<Rightarrow> Fault ''fileclose: no pipe''
                        | Some p \<Rightarrow>
                            kbind (pipeclose kend (f_pipe ff) p (f_writable ff) (lbio s)) (\<lambda>(p, b).
                              Ret (s\<lparr>lbio := b, pipes := (pipes s)(f_pipe ff := p)\<rparr>)))
                   | FD_INODE \<Rightarrow>
                       kbind (begin_op s) (\<lambda>s.
                       kbind (iput cur (f_ip ff) s) (\<lambda>s. end_op cur s))
                   | FD_NONE \<Rightarrow> Ret s)))"

definition filestat :: "nat \<Rightarrow> nat \<Rightarrow> 'a filest_scheme \<Rightarrow> (stat option \<times> 'a filest_scheme) kres" where
  "filestat cur i s =
     (if f_type (files s ! i) = FD_INODE then
        let ip = f_ip (files s ! i)
        in kbind (ilock cur ip s) (\<lambda>s.
             let st = stati ip s in kbind (iunlock cur ip s) (\<lambda>s. Ret (Some st, s)))
      else Ret (None, s))"

definition fileread :: "(nat \<Rightarrow> 'a filest_scheme devsw) \<Rightarrow> nat \<Rightarrow> nat \<Rightarrow> uint \<Rightarrow> cint \<Rightarrow> 'a filest_scheme \<Rightarrow>
    (cint blocking \<times> 'a filest_scheme) kres" where
  "fileread devs cur i addr n s =
     (let f = files s ! i
      in if \<not> f_readable f then Ret (Done (-1), s)
         else case f_type f of
           FD_PIPE \<Rightarrow>
             (case pipes s (f_pipe f) of
                None \<Rightarrow> Fault ''fileread: no pipe''
              | Some p \<Rightarrow>
                  kbind (piperead (f_pipe f) cur addr n p (lbio s)) (\<lambda>(r, p, b).
                    Ret (r, s\<lparr>lbio := b, pipes := (pipes s)(f_pipe f \<mapsto> p)\<rparr>)))
         | FD_INODE \<Rightarrow>
             kbind (ilock cur (f_ip f) s) (\<lambda>s.
             kbind (readi devs cur (f_ip f) (f_off f) n s) (\<lambda>(r, bs, s).
               let s = copy_out addr bs s;
                   s = (if sint r > 0 then upd_file i (\<lambda>f. f\<lparr>f_off := f_off f + r\<rparr>) s else s)
               in kbind (iunlock cur (f_ip f) s) (\<lambda>s. Ret (Done r, s))))
         | FD_NONE \<Rightarrow> Panic ''fileread'')"

text \<open>\<^verbatim>\<open>filewrite\<close> writes three blocks at a time; \<open>k\<close> is the number of bytes written.\<close>

abbreviation "FWMAX \<equiv> (1536 :: nat)"

function filewrite_loop :: "(nat \<Rightarrow> 'a filest_scheme devsw) \<Rightarrow> nat \<Rightarrow> nat \<Rightarrow> uint \<Rightarrow> nat \<Rightarrow> nat \<Rightarrow> 'a filest_scheme \<Rightarrow>
    (nat \<times> 'a filest_scheme) kres" where
  "filewrite_loop devs cur i addr n k s =
     (if k < n then
        let n1 = min (n - k) FWMAX; ip = f_ip (files s ! i)
        in kbind (begin_op s) (\<lambda>s.
           kbind (ilock cur ip s) (\<lambda>s.
           kbind (writei devs cur ip (read_bytes (kmemory (lbio s)) (addr + of_nat k) n1) (f_off (files s ! i)) (of_nat n1) s) (\<lambda>(r, s).
             let s = (if sint r > 0 then upd_file i (\<lambda>f. f\<lparr>f_off := f_off f + r\<rparr>) s else s)
             in kbind (iunlock cur ip s) (\<lambda>s.
                kbind (end_op cur s) (\<lambda>s.
                  if sint r < 0 then Ret (k, s)
                  else if r \<noteq> of_nat n1 then Panic ''short filewrite''
                  else filewrite_loop devs cur i addr n (k + n1) s)))))
      else Ret (k, s))"
  by pat_completeness auto
termination
  by (relation "measure (\<lambda>(devs, cur, i, addr, n, k, s). n - k)") auto

definition filewrite :: "(nat \<Rightarrow> 'a filest_scheme devsw) \<Rightarrow> nat \<Rightarrow> nat \<Rightarrow> uint \<Rightarrow> cint \<Rightarrow> 'a filest_scheme \<Rightarrow>
    (cint blocking \<times> 'a filest_scheme) kres" where
  "filewrite devs cur i addr n s =
     (let f = files s ! i
      in if \<not> f_writable f then Ret (Done (-1), s)
         else case f_type f of
           FD_PIPE \<Rightarrow>
             (case pipes s (f_pipe f) of
                None \<Rightarrow> Fault ''filewrite: no pipe''
              | Some p \<Rightarrow>
                  kbind (pipewrite (f_pipe f) cur addr n p (lbio s)) (\<lambda>(r, _, p, b).
                    Ret (r, s\<lparr>lbio := b, pipes := (pipes s)(f_pipe f \<mapsto> p)\<rparr>)))
         | FD_INODE \<Rightarrow>
             kbind (filewrite_loop devs cur i addr (nat (sint n)) 0 s) (\<lambda>(k, s).
               Ret (Done (if int k = sint n then n else -1), s))
         | FD_NONE \<Rightarrow> Panic ''filewrite'')"

text \<open>\<^verbatim>\<open>pipealloc\<close>: the two files, or \<open>None\<close>. The lock is the first 52 bytes of the page, the ring follows.\<close>

definition close_opt :: "uint \<Rightarrow> nat \<Rightarrow> nat option \<Rightarrow> 'a filest_scheme \<Rightarrow> 'a filest_scheme kres" where
  "close_opt kend cur f s = (case f of Some i \<Rightarrow> fileclose kend cur i s | None \<Rightarrow> Ret s)"

definition pipealloc :: "uint \<Rightarrow> nat \<Rightarrow> 'a filest_scheme \<Rightarrow> ((nat \<times> nat) option \<times> 'a filest_scheme) kres" where
  "pipealloc kend cur s =
     kbind (filealloc s) (\<lambda>(f0, s).
     kbind (if f0 = None then Ret (None, s) else filealloc s) (\<lambda>(f1, s).
     kbind (case f1 of
              None \<Rightarrow> Ret (0, s)
            | Some _ \<Rightarrow> kbind (kalloc (kmem (lbio s))) (\<lambda>(p, km). Ret (p, s\<lparr>lbio := (lbio s)\<lparr>kmem := km\<rparr>\<rparr>))) (\<lambda>(p, s).
       case (f0, f1) of
         (Some i, Some j) \<Rightarrow>
           if p \<noteq> 0 then
             let s = s\<lparr>pipes := (pipes s)(p \<mapsto> pipe_init (read_bytes (kmemory (lbio s)) (p + 52) PIPESIZE))\<rparr>;
                 s = upd_file i (\<lambda>f. f\<lparr>f_type := FD_PIPE, f_readable := True, f_writable := False, f_pipe := p\<rparr>) s;
                 s = upd_file j (\<lambda>f. f\<lparr>f_type := FD_PIPE, f_readable := False, f_writable := True, f_pipe := p\<rparr>) s
             in Ret (Some (i, j), s)
           else kbind (close_opt kend cur f0 s) (\<lambda>s. kbind (close_opt kend cur f1 s) (\<lambda>s. Ret (None, s)))
       | _ \<Rightarrow> kbind (close_opt kend cur f0 s) (\<lambda>s. kbind (close_opt kend cur f1 s) (\<lambda>s. Ret (None, s))))))"

end
