(* ===== verification/Sysfile.thy ===== *)
theory Sysfile
  imports File
begin

text \<open>
  The file system calls, \<^verbatim>\<open>src/xv6A1/sysfile.c\<close>. \<open>kend\<close> is the end of the kernel image, \<open>devs\<close> the
  device switch, \<open>cur\<close> the slot of \<^verbatim>\<open>myproc()\<close>, and \<open>junk\<close> the old contents of the local buffer \<^verbatim>\<open>name\<close>.
  A pointer result 0 is \<open>None\<close>.
\<close>

abbreviation "O_RDONLY \<equiv> (0 :: cint)"
abbreviation "O_WRONLY \<equiv> (1 :: cint)"
abbreviation "O_RDWR \<equiv> (2 :: cint)"
abbreviation "O_CREATE \<equiv> (0x200 :: cint)"

definition upd_cur :: "nat \<Rightarrow> (proc \<Rightarrow> proc) \<Rightarrow> 'a logst_scheme \<Rightarrow> 'a logst_scheme" where
  "upd_cur cur f s = s\<lparr>lbio := upd_proc cur f (lbio s)\<rparr>"

subsection \<open>Descriptors\<close>

definition argfd :: "nat \<Rightarrow> 'a logst_scheme \<Rightarrow> nat \<Rightarrow> (nat \<times> nat) option" where
  "argfd cur s n =
     (case argint cur (lbio s) n of
        None \<Rightarrow> None
      | Some fd \<Rightarrow>
          if sint fd < 0 \<or> sint fd \<ge> int NOFILE then None
          else map_option (\<lambda>f. (nat (sint fd), f)) (ofile (procs (lbio s) ! cur) ! nat (sint fd)))"

definition fdalloc :: "nat \<Rightarrow> nat \<Rightarrow> 'a logst_scheme \<Rightarrow> nat option \<times> 'a logst_scheme" where
  "fdalloc cur f s =
     (case first_index (\<lambda>x. x = None) (ofile (procs (lbio s) ! cur)) of
        Some fd \<Rightarrow> (Some fd, upd_cur cur (\<lambda>p. p\<lparr>ofile := (ofile p)[fd := Some f]\<rparr>) s)
      | None \<Rightarrow> (None, s))"

definition sys_dup :: "nat \<Rightarrow> 'a filest_scheme sysfun" where
  "sys_dup cur s =
     (case argfd cur s 0 of
        None \<Rightarrow> Ret (-1, s)
      | Some (_, f) \<Rightarrow>
          (case fdalloc cur f s of
             (None, s) \<Rightarrow> Ret (-1, s)
           | (Some fd, s) \<Rightarrow> kbind (filedup f s) (\<lambda>s. Ret (of_nat fd, s))))"

text \<open>The arguments of \<^verbatim>\<open>read\<close> and \<^verbatim>\<open>write\<close>: file, pointer, length.\<close>

definition rw_args :: "nat \<Rightarrow> 'a logst_scheme \<Rightarrow> (nat \<times> uint \<times> cint) option" where
  "rw_args cur s =
     (case argfd cur s 0 of
        None \<Rightarrow> None
      | Some (_, f) \<Rightarrow>
          (case argint cur (lbio s) 2 of
             None \<Rightarrow> None
           | Some n \<Rightarrow> map_option (\<lambda>p. (f, p, n)) (argptr cur (lbio s) 1 n)))"

definition sys_read :: "(nat \<Rightarrow> 'a filest_scheme devsw) \<Rightarrow> nat \<Rightarrow> 'a filest_scheme \<Rightarrow> (cint blocking \<times> 'a filest_scheme) kres" where
  "sys_read devs cur s =
     (case rw_args cur s of
        None \<Rightarrow> Ret (Done (-1), s)
      | Some (f, p, n) \<Rightarrow> fileread devs cur f p n s)"

definition sys_write :: "(nat \<Rightarrow> 'a filest_scheme devsw) \<Rightarrow> nat \<Rightarrow> 'a filest_scheme \<Rightarrow> (cint blocking \<times> 'a filest_scheme) kres" where
  "sys_write devs cur s =
     (case rw_args cur s of
        None \<Rightarrow> Ret (Done (-1), s)
      | Some (f, p, n) \<Rightarrow> filewrite devs cur f p n s)"

definition sys_close :: "uint \<Rightarrow> nat \<Rightarrow> 'a filest_scheme sysfun" where
  "sys_close kend cur s =
     (case argfd cur s 0 of
        None \<Rightarrow> Ret (-1, s)
      | Some (fd, f) \<Rightarrow>
          kbind (fileclose kend cur f (upd_cur cur (\<lambda>p. p\<lparr>ofile := (ofile p)[fd := None]\<rparr>) s)) (\<lambda>s. Ret (0, s)))"

text \<open>\<^verbatim>\<open>struct stat\<close> in memory: 20 bytes, the shorts padded to words.\<close>

definition store16 :: "mem \<Rightarrow> uint \<Rightarrow> ushort \<Rightarrow> mem" where
  "store16 m a v = m(a := ucast v, a + 1 := ucast (drop_bit 8 v))"

definition put_stat :: "uint \<Rightarrow> stat \<Rightarrow> 'a logst_scheme \<Rightarrow> 'a logst_scheme" where
  "put_stat a st s =
     s\<lparr>lbio := set_mem (store32 (store16 (store16 (store32 (store32 (kmemory (lbio s)) (a + 4) (st_dev st)) (a + 8) (st_ino st))
       a (st_type st)) (a + 12) (st_nlink st)) (a + 16) (st_size st)) (lbio s)\<rparr>"

definition sys_fstat :: "nat \<Rightarrow> 'a filest_scheme sysfun" where
  "sys_fstat cur s =
     (case argfd cur s 0 of
        None \<Rightarrow> Ret (-1, s)
      | Some (_, f) \<Rightarrow>
          (case argptr cur (lbio s) 1 20 of
             None \<Rightarrow> Ret (-1, s)
           | Some st \<Rightarrow>
               kbind (filestat cur f s) (\<lambda>(r, s).
                 case r of None \<Rightarrow> Ret (-1, s) | Some v \<Rightarrow> Ret (0, put_stat st v s))))"

subsection \<open>Links\<close>

definition arg_path :: "nat \<Rightarrow> 'a logst_scheme \<Rightarrow> nat \<Rightarrow> uchar list option" where
  "arg_path cur s n =
     map_option (\<lambda>(a, len). read_bytes (kmemory (lbio s)) a (unat len)) (argstr cur (lbio s) n)"

text \<open>\<^verbatim>\<open>end_op\<close> and a result.\<close>

definition end_with :: "nat \<Rightarrow> cint \<Rightarrow> 'a filest_scheme sysfun" where
  "end_with cur r s = kbind (end_op cur s) (\<lambda>s. Ret (r, s))"

definition link_bad :: "nat \<Rightarrow> nat \<Rightarrow> 'a filest_scheme sysfun" where
  "link_bad cur ip s =
     kbind (ilock cur ip s) (\<lambda>s.
     kbind (iupdate cur ip (upd_inode ip (\<lambda>p. p\<lparr>i_nlink := i_nlink p - 1\<rparr>) s)) (\<lambda>s.
     kbind (iunlockput cur ip s) (end_with cur (-1))))"

definition sys_link :: "uchar list \<Rightarrow> (nat \<Rightarrow> 'a filest_scheme devsw) \<Rightarrow> nat \<Rightarrow> 'a filest_scheme sysfun" where
  "sys_link junk devs cur s =
     (case (arg_path cur s 0, arg_path cur s 1) of
        (Some old, Some new) \<Rightarrow>
          kbind (begin_op s) (\<lambda>s.
          kbind (namei junk devs cur old s) (\<lambda>(r, s).
            case r of
              None \<Rightarrow> end_with cur (-1) s
            | Some ip \<Rightarrow>
                kbind (ilock cur ip s) (\<lambda>s.
                  if i_type (inodes s ! ip) = T_DIR then kbind (iunlockput cur ip s) (end_with cur (-1))
                  else
                    kbind (iupdate cur ip (upd_inode ip (\<lambda>p. p\<lparr>i_nlink := i_nlink p + 1\<rparr>) s)) (\<lambda>s.
                    kbind (iunlock cur ip s) (\<lambda>s.
                    kbind (nameiparent devs cur new junk s) (\<lambda>(r, name, s).
                      case r of
                        None \<Rightarrow> link_bad cur ip s
                      | Some dp \<Rightarrow>
                          kbind (ilock cur dp s) (\<lambda>s.
                          kbind (if i_dev (inodes s ! dp) \<noteq> i_dev (inodes s ! ip) then Ret (-1, s)
                                 else dirlink devs cur dp name (i_inum (inodes s ! ip)) s) (\<lambda>(r, s).
                            if sint r < 0 then kbind (iunlockput cur dp s) (link_bad cur ip)
                            else kbind (iunlockput cur dp s) (\<lambda>s.
                                 kbind (iput cur ip s) (end_with cur 0)))))))))
          )
      | _ \<Rightarrow> Ret (-1, s))"

partial_function (option) isdirempty_loop :: "(nat \<Rightarrow> 'a fsst_scheme devsw) \<Rightarrow> nat \<Rightarrow> nat \<Rightarrow> uint \<Rightarrow> 'a fsst_scheme \<Rightarrow>
    (bool \<times> 'a fsst_scheme) kres option" where
  "isdirempty_loop devs cur dp off s =
     (if off < i_size (inodes s ! dp) then
        lbind (readi devs cur dp off 16 s) (\<lambda>(r, de, s).
          if r \<noteq> 16 then Some (Panic ''isdirempty: readi'')
          else if de_inum de \<noteq> 0 then Some (Ret (False, s))
          else isdirempty_loop devs cur dp (off + 16) s)
      else Some (Ret (True, s)))"

definition isdirempty :: "(nat \<Rightarrow> 'a fsst_scheme devsw) \<Rightarrow> nat \<Rightarrow> nat \<Rightarrow> 'a fsst_scheme \<Rightarrow> (bool \<times> 'a fsst_scheme) kres" where
  "isdirempty devs cur dp s = lrun (isdirempty_loop devs cur dp 32 s)"

definition dot :: "uchar list" where "dot = [46]"
definition dotdot :: "uchar list" where "dotdot = [46, 46]"

definition sys_unlink :: "uchar list \<Rightarrow> (nat \<Rightarrow> 'a filest_scheme devsw) \<Rightarrow> nat \<Rightarrow> 'a filest_scheme sysfun" where
  "sys_unlink junk devs cur s =
     (case arg_path cur s 0 of
        None \<Rightarrow> Ret (-1, s)
      | Some path \<Rightarrow>
          kbind (begin_op s) (\<lambda>s.
          kbind (nameiparent devs cur path junk s) (\<lambda>(r, name, s).
            case r of
              None \<Rightarrow> end_with cur (-1) s
            | Some dp \<Rightarrow>
                let bad = (\<lambda>s. kbind (iunlockput cur dp s) (end_with cur (-1)))
                in kbind (ilock cur dp s) (\<lambda>s.
                  if namecmp name dot = 0 \<or> namecmp name dotdot = 0 then bad s
                  else kbind (dirlookup devs cur dp name s) (\<lambda>(r, s).
                    case r of
                      None \<Rightarrow> bad s
                    | Some (ip, off) \<Rightarrow>
                        kbind (ilock cur ip s) (\<lambda>s.
                          if sint (i_nlink (inodes s ! ip)) < 1 then Panic ''unlink: nlink < 1''
                          else kbind (if i_type (inodes s ! ip) = T_DIR then isdirempty devs cur ip s else Ret (True, s)) (\<lambda>(e, s).
                            if \<not> e then kbind (iunlockput cur ip s) bad
                            else
                              kbind (writei devs cur dp (replicate 16 0) off 16 s) (\<lambda>(r, s).
                                if r \<noteq> 16 then Panic ''unlink: writei''
                                else
                                  kbind (if i_type (inodes s ! ip) = T_DIR
                                         then iupdate cur dp (upd_inode dp (\<lambda>p. p\<lparr>i_nlink := i_nlink p - 1\<rparr>) s)
                                         else Ret s) (\<lambda>s.
                                  kbind (iunlockput cur dp s) (\<lambda>s.
                                  kbind (iupdate cur ip (upd_inode ip (\<lambda>p. p\<lparr>i_nlink := i_nlink p - 1\<rparr>) s)) (\<lambda>s.
                                  kbind (iunlockput cur ip s) (end_with cur 0)))))))))))
      )"

subsection \<open>Creating and opening\<close>

definition create :: "uchar list \<Rightarrow> (nat \<Rightarrow> 'a filest_scheme devsw) \<Rightarrow> nat \<Rightarrow> uchar list \<Rightarrow> short \<Rightarrow> short \<Rightarrow> short \<Rightarrow>
    'a filest_scheme \<Rightarrow> (nat option \<times> 'a filest_scheme) kres" where
  "create junk devs cur path ty major minor s =
     kbind (nameiparent devs cur path junk s) (\<lambda>(r, name, s).
       case r of
         None \<Rightarrow> Ret (None, s)
       | Some dp \<Rightarrow>
           kbind (ilock cur dp s) (\<lambda>s.
           kbind (dirlookup devs cur dp name s) (\<lambda>(r, s).
             case r of
               Some (ip, _) \<Rightarrow>
                 kbind (iunlockput cur dp s) (\<lambda>s.
                 kbind (ilock cur ip s) (\<lambda>s.
                   if ty = T_FILE \<and> i_type (inodes s ! ip) = T_FILE then Ret (Some ip, s)
                   else kbind (iunlockput cur ip s) (\<lambda>s. Ret (None, s))))
             | None \<Rightarrow>
                 kbind (ialloc cur (i_dev (inodes s ! dp)) ty s) (\<lambda>(ip, s).
                 kbind (ilock cur ip s) (\<lambda>s.
                 kbind (iupdate cur ip (upd_inode ip (\<lambda>p. p\<lparr>i_major := major, i_minor := minor, i_nlink := 1\<rparr>) s)) (\<lambda>s.
                 kbind (if ty = T_DIR then
                          kbind (iupdate cur dp (upd_inode dp (\<lambda>p. p\<lparr>i_nlink := i_nlink p + 1\<rparr>) s)) (\<lambda>s.
                          kbind (dirlink devs cur ip dot (i_inum (inodes s ! ip)) s) (\<lambda>(r, s).
                            if sint r < 0 then Panic ''create dots''
                            else kbind (dirlink devs cur ip dotdot (i_inum (inodes s ! dp)) s) (\<lambda>(r, s).
                              if sint r < 0 then Panic ''create dots'' else Ret s)))
                        else Ret s) (\<lambda>s.
                 kbind (dirlink devs cur dp name (i_inum (inodes s ! ip)) s) (\<lambda>(r, s).
                   if sint r < 0 then Panic ''create: dirlink''
                   else kbind (iunlockput cur dp s) (\<lambda>s. Ret (Some ip, s))))))))))"

definition sys_open :: "uint \<Rightarrow> uchar list \<Rightarrow> (nat \<Rightarrow> 'a filest_scheme devsw) \<Rightarrow> nat \<Rightarrow> 'a filest_scheme sysfun" where
  "sys_open kend junk devs cur s =
     (case (arg_path cur s 0, argint cur (lbio s) 1) of
        (Some path, Some omode) \<Rightarrow>
          kbind (begin_op s) (\<lambda>s.
          kbind (if omode AND O_CREATE \<noteq> 0 then create junk devs cur path T_FILE 0 0 s
                 else kbind (namei junk devs cur path s) (\<lambda>(r, s).
                   case r of
                     None \<Rightarrow> Ret (None, s)
                   | Some ip \<Rightarrow>
                       kbind (ilock cur ip s) (\<lambda>s.
                         if i_type (inodes s ! ip) = T_DIR \<and> omode \<noteq> O_RDONLY
                         then kbind (iunlockput cur ip s) (\<lambda>s. Ret (None, s)) else Ret (Some ip, s)))) (\<lambda>(r, s).
            case r of
              None \<Rightarrow> end_with cur (-1) s
            | Some ip \<Rightarrow>
                kbind (filealloc s) (\<lambda>(f, s).
                  case (case f of None \<Rightarrow> (None, s) | Some i \<Rightarrow> fdalloc cur i s) of
                    (None, s) \<Rightarrow>
                      kbind (close_opt kend cur f s) (\<lambda>s.
                      kbind (iunlockput cur ip s) (end_with cur (-1)))
                  | (Some fd, s) \<Rightarrow>
                      kbind (iunlock cur ip s) (\<lambda>s.
                      kbind (end_op cur s) (\<lambda>s.
                        Ret (of_nat fd, upd_file (the f) (\<lambda>g. g\<lparr>f_type := FD_INODE, f_ip := ip, f_off := 0,
                          f_readable := omode AND O_WRONLY = 0,
                          f_writable := omode AND O_WRONLY \<noteq> 0 \<or> omode AND O_RDWR \<noteq> 0\<rparr>) s))))))
      | _ \<Rightarrow> Ret (-1, s))"

definition sys_mkdir :: "uchar list \<Rightarrow> (nat \<Rightarrow> 'a filest_scheme devsw) \<Rightarrow> nat \<Rightarrow> 'a filest_scheme sysfun" where
  "sys_mkdir junk devs cur s =
     kbind (begin_op s) (\<lambda>s.
     kbind (case arg_path cur s 0 of None \<Rightarrow> Ret (None, s) | Some path \<Rightarrow> create junk devs cur path T_DIR 0 0 s) (\<lambda>(r, s).
       case r of
         None \<Rightarrow> end_with cur (-1) s
       | Some ip \<Rightarrow> kbind (iunlockput cur ip s) (end_with cur 0)))"

definition sys_mknod :: "uchar list \<Rightarrow> (nat \<Rightarrow> 'a filest_scheme devsw) \<Rightarrow> nat \<Rightarrow> 'a filest_scheme sysfun" where
  "sys_mknod junk devs cur s =
     kbind (begin_op s) (\<lambda>s.
     kbind (case (arg_path cur s 0, argint cur (lbio s) 1, argint cur (lbio s) 2) of
              (Some path, Some major, Some minor) \<Rightarrow> create junk devs cur path T_DEV (ucast major) (ucast minor) s
            | _ \<Rightarrow> Ret (None, s)) (\<lambda>(r, s).
       case r of
         None \<Rightarrow> end_with cur (-1) s
       | Some ip \<Rightarrow> kbind (iunlockput cur ip s) (end_with cur 0)))"

definition sys_chdir :: "uchar list \<Rightarrow> (nat \<Rightarrow> 'a filest_scheme devsw) \<Rightarrow> nat \<Rightarrow> 'a filest_scheme sysfun" where
  "sys_chdir junk devs cur s =
     kbind (begin_op s) (\<lambda>s.
     kbind (case arg_path cur s 0 of None \<Rightarrow> Ret (None, s) | Some path \<Rightarrow> namei junk devs cur path s) (\<lambda>(r, s).
       case r of
         None \<Rightarrow> end_with cur (-1) s
       | Some ip \<Rightarrow>
           kbind (ilock cur ip s) (\<lambda>s.
             if i_type (inodes s ! ip) \<noteq> T_DIR then kbind (iunlockput cur ip s) (end_with cur (-1))
             else kbind (iunlock cur ip s) (\<lambda>s.
               case cwd (procs (lbio s) ! cur) of
                 None \<Rightarrow> Fault ''chdir: no current directory''
               | Some old \<Rightarrow>
                   kbind (iput cur old s) (\<lambda>s.
                   kbind (end_op cur s) (\<lambda>s.
                     Ret (0, upd_cur cur (\<lambda>p. p\<lparr>cwd := Some ip\<rparr>) s)))))))"

definition sys_pipe :: "uint \<Rightarrow> nat \<Rightarrow> 'a filest_scheme sysfun" where
  "sys_pipe kend cur s =
     (case argptr cur (lbio s) 0 8 of
        None \<Rightarrow> Ret (-1, s)
      | Some fd \<Rightarrow>
          kbind (pipealloc kend cur s) (\<lambda>(r, s).
            case r of
              None \<Rightarrow> Ret (-1, s)
            | Some (rfile, wfile) \<Rightarrow>
                (case fdalloc cur rfile s of
                   (None, s) \<Rightarrow> kbind (fileclose kend cur rfile s) (\<lambda>s. kbind (fileclose kend cur wfile s) (\<lambda>s. Ret (-1, s)))
                 | (Some fd0, s) \<Rightarrow>
                     (case fdalloc cur wfile s of
                        (None, s) \<Rightarrow>
                          let s = upd_cur cur (\<lambda>p. p\<lparr>ofile := (ofile p)[fd0 := None]\<rparr>) s
                          in kbind (fileclose kend cur rfile s) (\<lambda>s. kbind (fileclose kend cur wfile s) (\<lambda>s. Ret (-1, s)))
                      | (Some fd1, s) \<Rightarrow>
                          Ret (0, s\<lparr>lbio := set_mem (store32 (store32 (kmemory (lbio s)) fd (of_nat fd0)) (fd + 4) (of_nat fd1)) (lbio s)\<rparr>)))))"

end
