(* ===== verification/Vm.thy ===== *)
theory Vm
  imports ProcTable
begin

text \<open>
  Page tables, \<^verbatim>\<open>src/xv6A1/vm.c\<close>. Page directories and page tables are words in the memory of the
  page allocator, at the kernel addresses the code uses. \<open>kend\<close> is the end of the kernel image,
  \<open>kdata\<close> the linker symbol \<^verbatim>\<open>data\<close>. A null pointer to a page table entry is \<open>None\<close>.
\<close>

abbreviation PTE_P :: uint where "PTE_P \<equiv> 1"
abbreviation PTE_W :: uint where "PTE_W \<equiv> 2"
abbreviation PTE_U :: uint where "PTE_U \<equiv> 4"
abbreviation "EXTMEM \<equiv> (0x100000 :: uint)"
abbreviation "DEVSPACE \<equiv> (0xFE000000 :: uint)"
abbreviation "KERNLINK \<equiv> (0x80100000 :: uint)"
abbreviation "NPDENTRIES \<equiv> (1024 :: nat)"

definition PDX :: "uint \<Rightarrow> uint" where "PDX va = drop_bit 22 va AND 0x3FF"
definition PTX :: "uint \<Rightarrow> uint" where "PTX va = drop_bit 12 va AND 0x3FF"
definition PGADDR :: "uint \<Rightarrow> uint \<Rightarrow> uint \<Rightarrow> uint" where
  "PGADDR d t ofs = push_bit 22 d OR push_bit 12 t OR ofs"
definition PTE_ADDR :: "uint \<Rightarrow> uint" where "PTE_ADDR pte = pte AND NOT 0xFFF"
definition PTE_FLAGS :: "uint \<Rightarrow> uint" where "PTE_FLAGS pte = pte AND 0xFFF"

abbreviation present :: "uint \<Rightarrow> bool" where "present pte \<equiv> pte AND PTE_P \<noteq> 0"

abbreviation poke :: "uint \<Rightarrow> uint \<Rightarrow> kmem \<Rightarrow> kmem" where
  "poke a v s \<equiv> s\<lparr>kmem_mem := store32 (kmem_mem s) a v\<rparr>"

subsection \<open>Walking and mapping\<close>

definition walkpgdir :: "uint \<Rightarrow> uint \<Rightarrow> bool \<Rightarrow> kmem \<Rightarrow> (uint option \<times> kmem) kres" where
  "walkpgdir pd va alloc s =
     (let pde = pd + 4 * PDX va; e = load32 (kmem_mem s) pde
      in if present e then Ret (Some (P2V (PTE_ADDR e) + 4 * PTX va), s)
         else if \<not> alloc then Ret (None, s)
         else kbind (kalloc s) (\<lambda>(pgtab, s).
                if pgtab = 0 then Ret (None, s)
                else let s = s\<lparr>kmem_mem := memset (kmem_mem s) pgtab 0 PGSIZE\<rparr>
                     in Ret (Some (pgtab + 4 * PTX va), poke pde (V2P pgtab OR PTE_P OR PTE_W OR PTE_U) s)))"

text \<open>The loop of \<^verbatim>\<open>mappages\<close>, with \<open>k\<close> pages after this one; the result 0 is \<open>True\<close>.\<close>

primrec mappages_loop :: "uint \<Rightarrow> uint \<Rightarrow> nat \<Rightarrow> uint \<Rightarrow> uint \<Rightarrow> kmem \<Rightarrow> (bool \<times> kmem) kres" where
  "mappages_loop pd perm 0 a pa s =
     kbind (walkpgdir pd a True s) (\<lambda>(pte, s).
       case pte of
         None \<Rightarrow> Ret (False, s)
       | Some p \<Rightarrow> if present (load32 (kmem_mem s) p) then Panic ''remap''
                    else Ret (True, poke p (pa OR perm OR PTE_P) s))"
| "mappages_loop pd perm (Suc k) a pa s =
     kbind (walkpgdir pd a True s) (\<lambda>(pte, s).
       case pte of
         None \<Rightarrow> Ret (False, s)
       | Some p \<Rightarrow> if present (load32 (kmem_mem s) p) then Panic ''remap''
                    else mappages_loop pd perm k (a + PGSIZE) (pa + PGSIZE) (poke p (pa OR perm OR PTE_P) s))"

definition mappages :: "uint \<Rightarrow> uint \<Rightarrow> uint \<Rightarrow> uint \<Rightarrow> uint \<Rightarrow> kmem \<Rightarrow> (bool \<times> kmem) kres" where
  "mappages pd va n pa perm s =
     (let a = PGROUNDDOWN va; last = PGROUNDDOWN (va + n - 1)
      in mappages_loop pd perm (unat (last - a) div 4096) a pa s)"

subsection \<open>Freeing\<close>

text \<open>
  One pass of the loop of \<^verbatim>\<open>deallocuvm\<close>, with the value of \<^verbatim>\<open>a\<close> it leaves. The loop itself is partial: its
  counter can wrap around when the old size is close to \<open>2\<^sup>3\<^sup>2\<close>, and a loop that never ends is \<open>None\<close>.
\<close>

definition dealloc_page :: "uint \<Rightarrow> uint \<Rightarrow> uint \<Rightarrow> kmem \<Rightarrow> (uint \<times> kmem) kres" where
  "dealloc_page kend pd a s =
     kbind (walkpgdir pd a False s) (\<lambda>(pte, s).
       case pte of
         None \<Rightarrow> Ret (PGADDR (PDX a + 1) 0 0 - PGSIZE, s)
       | Some p \<Rightarrow>
           let e = load32 (kmem_mem s) p
           in if present e then
                (if PTE_ADDR e = 0 then Panic ''kfree''
                 else kbind (kfree kend (P2V (PTE_ADDR e)) s) (\<lambda>s. Ret (a, poke p 0 s)))
              else Ret (a, s))"

partial_function (option) deallocuvm_loop :: "uint \<Rightarrow> uint \<Rightarrow> uint \<Rightarrow> uint \<Rightarrow> kmem \<Rightarrow> kmem kres option" where
  "deallocuvm_loop kend pd oldsz a s =
     (if a < oldsz then
        lbind (dealloc_page kend pd a s) (\<lambda>(a, s). deallocuvm_loop kend pd oldsz (a + PGSIZE) s)
      else Some (Ret s))"

definition deallocuvm :: "uint \<Rightarrow> uint \<Rightarrow> uint \<Rightarrow> uint \<Rightarrow> kmem \<Rightarrow> (uint \<times> kmem) kres" where
  "deallocuvm kend pd oldsz newsz s =
     (if newsz \<ge> oldsz then Ret (oldsz, s)
      else kbind (lrun (deallocuvm_loop kend pd oldsz (PGROUNDUP newsz) s)) (\<lambda>s. Ret (newsz, s)))"

primrec free_tables :: "uint \<Rightarrow> uint \<Rightarrow> nat list \<Rightarrow> kmem \<Rightarrow> kmem kres" where
  "free_tables kend pd [] s = Ret s"
| "free_tables kend pd (i # is) s =
     (let e = load32 (kmem_mem s) (pd + 4 * of_nat i)
      in if present e then kbind (kfree kend (P2V (PTE_ADDR e)) s) (free_tables kend pd is)
         else free_tables kend pd is s)"

definition freevm :: "uint \<Rightarrow> uint \<Rightarrow> kmem \<Rightarrow> kmem kres" where
  "freevm kend pd s =
     (if pd = 0 then Panic ''freevm: no pgdir''
      else kbind (deallocuvm kend pd KERNBASE 0 s) (\<lambda>(_, s).
           kbind (free_tables kend pd [0..<NPDENTRIES] s) (kfree kend pd)))"

subsection \<open>Kernel mappings\<close>

record kmap =
  virt :: uint
  phys_start :: uint
  phys_end :: uint
  kperm :: uint

definition kmaps :: "uint \<Rightarrow> kmap list" where
  "kmaps kdata =
     [\<lparr>virt = KERNBASE, phys_start = 0, phys_end = EXTMEM, kperm = PTE_W\<rparr>,
      \<lparr>virt = KERNLINK, phys_start = V2P KERNLINK, phys_end = V2P kdata, kperm = 0\<rparr>,
      \<lparr>virt = kdata, phys_start = V2P kdata, phys_end = PHYSTOP, kperm = PTE_W\<rparr>,
      \<lparr>virt = DEVSPACE, phys_start = DEVSPACE, phys_end = 0, kperm = PTE_W\<rparr>]"

text \<open>The loop of \<^verbatim>\<open>setupkvm\<close> over the table; \<open>False\<close> when a mapping fails.\<close>

primrec setupkvm_loop :: "uint \<Rightarrow> kmap list \<Rightarrow> kmem \<Rightarrow> (bool \<times> kmem) kres" where
  "setupkvm_loop pd [] s = Ret (True, s)"
| "setupkvm_loop pd (k # ks) s =
     kbind (mappages pd (virt k) (phys_end k - phys_start k) (phys_start k) (kperm k) s) (\<lambda>(ok, s).
       if ok then setupkvm_loop pd ks s else Ret (False, s))"

definition setupkvm :: "uint \<Rightarrow> uint \<Rightarrow> kmem \<Rightarrow> (uint \<times> kmem) kres" where
  "setupkvm kend kdata s =
     kbind (kalloc s) (\<lambda>(pd, s).
       if pd = 0 then Ret (0, s)
       else
         let s = s\<lparr>kmem_mem := memset (kmem_mem s) pd 0 PGSIZE\<rparr>
         in if P2V PHYSTOP > DEVSPACE then Panic ''PHYSTOP too high''
            else kbind (setupkvm_loop pd (kmaps kdata) s) (\<lambda>(ok, s).
              if ok then Ret (pd, s) else kbind (freevm kend pd s) (\<lambda>s. Ret (0, s))))"

text \<open>The values that \<^verbatim>\<open>switchuvm\<close> loads: the stack pointer of the task segment and \<^verbatim>\<open>%cr3\<close>.\<close>

definition switchuvm :: "proc option \<Rightarrow> (uint \<times> uint) kres" where
  "switchuvm p =
     (case p of
        None \<Rightarrow> Panic ''switchuvm: no process''
      | Some p \<Rightarrow>
          if kstack p = 0 then Panic ''switchuvm: no kstack''
          else if pgdir p = 0 then Panic ''switchuvm: no pgdir''
          else Ret (kstack p + KSTACKSIZE, V2P (pgdir p)))"

subsection \<open>User memory\<close>

text \<open>The allocation is not checked: when it fails, page 0 is cleared and mapped.\<close>

definition inituvm :: "uint \<Rightarrow> uchar list \<Rightarrow> kmem \<Rightarrow> kmem kres" where
  "inituvm pd code s =
     (if length code \<ge> 4096 then Panic ''inituvm: more than a page''
      else kbind (kalloc s) (\<lambda>(p, s).
             let s = s\<lparr>kmem_mem := memset (kmem_mem s) p 0 PGSIZE\<rparr>
             in kbind (mappages pd 0 PGSIZE (V2P p) (PTE_W OR PTE_U) s) (\<lambda>(_, s).
                  Ret (s\<lparr>kmem_mem := write_bytes (kmem_mem s) p code\<rparr>))))"

text \<open>The pages from \<open>a\<close> on that begin below \<open>lim\<close>, which is at most \<^verbatim>\<open>KERNBASE\<close> in every call.\<close>

definition page_range :: "uint \<Rightarrow> uint \<Rightarrow> uint list" where
  "page_range a lim = map (\<lambda>k. a + of_nat k * PGSIZE) [0..<(unat lim - unat a + 4095) div 4096]"

primrec allocuvm_loop :: "uint \<Rightarrow> uint \<Rightarrow> uint \<Rightarrow> uint \<Rightarrow> uint list \<Rightarrow> kmem \<Rightarrow> (uint \<times> kmem) kres" where
  "allocuvm_loop kend pd oldsz newsz [] s = Ret (newsz, s)"
| "allocuvm_loop kend pd oldsz newsz (a # as) s =
     kbind (kalloc s) (\<lambda>(p, s).
       if p = 0 then kbind (deallocuvm kend pd newsz oldsz s) (\<lambda>(_, s). Ret (0, s))
       else
         let s = s\<lparr>kmem_mem := memset (kmem_mem s) p 0 PGSIZE\<rparr>
         in kbind (mappages pd a PGSIZE (V2P p) (PTE_W OR PTE_U) s) (\<lambda>(ok, s).
              if \<not> ok then
                kbind (deallocuvm kend pd newsz oldsz s) (\<lambda>(_, s).
                kbind (kfree kend p s) (\<lambda>s. Ret (0, s)))
              else allocuvm_loop kend pd oldsz newsz as s))"

definition allocuvm :: "uint \<Rightarrow> uint \<Rightarrow> uint \<Rightarrow> uint \<Rightarrow> kmem \<Rightarrow> (uint \<times> kmem) kres" where
  "allocuvm kend pd oldsz newsz s =
     (if newsz \<ge> KERNBASE then Ret (0, s)
      else if newsz < oldsz then Ret (oldsz, s)
      else allocuvm_loop kend pd oldsz newsz (page_range (PGROUNDUP oldsz) newsz) s)"

definition clearpteu :: "uint \<Rightarrow> uint \<Rightarrow> kmem \<Rightarrow> kmem kres" where
  "clearpteu pd uva s =
     kbind (walkpgdir pd uva False s) (\<lambda>(pte, s).
       case pte of
         None \<Rightarrow> Panic ''clearpteu''
       | Some p \<Rightarrow> Ret (poke p (load32 (kmem_mem s) p AND NOT PTE_U) s))"

text \<open>The loop of \<^verbatim>\<open>copyuvm\<close>; \<open>False\<close> is the jump to \<^verbatim>\<open>bad\<close>.\<close>

primrec copyuvm_loop :: "uint \<Rightarrow> uint \<Rightarrow> uint \<Rightarrow> uint list \<Rightarrow> kmem \<Rightarrow> (bool \<times> kmem) kres" where
  "copyuvm_loop kend pd d [] s = Ret (True, s)"
| "copyuvm_loop kend pd d (i # is) s =
     kbind (walkpgdir pd i False s) (\<lambda>(pte, s).
       case pte of
         None \<Rightarrow> Panic ''copyuvm: pte should exist''
       | Some p \<Rightarrow>
           let e = load32 (kmem_mem s) p
           in if \<not> present e then Panic ''copyuvm: page not present''
              else kbind (kalloc s) (\<lambda>(q, s).
                if q = 0 then Ret (False, s)
                else
                  let s = s\<lparr>kmem_mem := memmove (kmem_mem s) q (P2V (PTE_ADDR e)) PGSIZE\<rparr>
                  in kbind (mappages d i PGSIZE (V2P q) (PTE_FLAGS e) s) (\<lambda>(ok, s).
                       if \<not> ok then kbind (kfree kend q s) (\<lambda>s. Ret (False, s))
                       else copyuvm_loop kend pd d is s)))"

definition copyuvm :: "uint \<Rightarrow> uint \<Rightarrow> uint \<Rightarrow> uint \<Rightarrow> kmem \<Rightarrow> (uint \<times> kmem) kres" where
  "copyuvm kend kdata pd n s =
     kbind (setupkvm kend kdata s) (\<lambda>(d, s).
       if d = 0 then Ret (0, s)
       else kbind (copyuvm_loop kend pd d (page_range 0 n) s) (\<lambda>(ok, s).
              if ok then Ret (d, s) else kbind (freevm kend d s) (\<lambda>s. Ret (0, s))))"

definition uva2ka :: "uint \<Rightarrow> uint \<Rightarrow> kmem \<Rightarrow> uint kres" where
  "uva2ka pd uva s =
     kbind (walkpgdir pd uva False s) (\<lambda>(pte, s).
       case pte of
         None \<Rightarrow> Fault ''uva2ka: null pointer''
       | Some p \<Rightarrow>
           let e = load32 (kmem_mem s) p
           in if \<not> present e then Ret 0
              else if e AND PTE_U = 0 then Ret 0
              else Ret (P2V (PTE_ADDR e)))"

text \<open>The bytes to copy are \<open>bs\<close>; the result 0 is \<open>True\<close>.\<close>

lemma page_ofs: "va - PGROUNDDOWN va = take_bit 12 va"
proof -
  have "va = (va AND NOT (mask 12)) + (va AND mask 12)"
    by (subst disjunctive_add) (auto simp: bit_simps intro: bit_word_eqI)
  then show ?thesis unfolding PGROUNDDOWN_def round_mask take_bit_eq_mask by (metis add_diff_cancel_left')
qed

lemma page_rest: "0 < unat (PGSIZE - (va - PGROUNDDOWN va))"
proof -
  have "unat (take_bit 12 va) < 4096" using take_bit_nat_less_exp [of 12 "unat va"] by (simp add: unsigned_take_bit_eq)
  then have "take_bit 12 va < PGSIZE" by (simp add: word_less_nat_alt)
  then show ?thesis unfolding page_ofs by (simp add: unat_gt_0)
qed

function copyout :: "uint \<Rightarrow> uint \<Rightarrow> uchar list \<Rightarrow> kmem \<Rightarrow> (bool \<times> kmem) kres" where
  "copyout pd va bs s =
     (if bs = [] then Ret (True, s)
      else
        let va0 = PGROUNDDOWN va
        in kbind (uva2ka pd va0 s) (\<lambda>pa0.
             if pa0 = 0 then Ret (False, s)
             else
               let n = min (unat (PGSIZE - (va - va0))) (length bs)
               in copyout pd (va0 + PGSIZE) (drop n bs)
                    (s\<lparr>kmem_mem := write_bytes (kmem_mem s) (pa0 + (va - va0)) (take n bs)\<rparr>)))"
  by pat_completeness auto
termination
  by (relation "measure (\<lambda>(pd, va, bs, s). length bs)") (auto simp: page_rest)

end
