(* ===== verification/Process.thy ===== *)
theory Process
  imports Sysfile Vm
begin

text \<open>
  The life of a process, \<^verbatim>\<open>src/xv6A1/proc.c\<close>: \<^verbatim>\<open>userinit\<close>, \<^verbatim>\<open>growproc\<close>, \<^verbatim>\<open>fork\<close>, \<^verbatim>\<open>exit\<close>, \<^verbatim>\<open>wait\<close> and
  \<^verbatim>\<open>forkret\<close>, with the system calls of \<^verbatim>\<open>src/xv6A1/sysproc.c\<close> that call them. \<open>kend\<close>, \<open>kdata\<close>, \<open>trapret\<close>
  and \<open>forkret\<close> are addresses in the kernel image.
\<close>

definition on_kmem :: "(kmem \<Rightarrow> ('b \<times> kmem) kres) \<Rightarrow> 'a logst_scheme \<Rightarrow> ('b \<times> 'a logst_scheme) kres" where
  "on_kmem f s = kbind (f (kmem (lbio s))) (\<lambda>(r, km). Ret (r, s\<lparr>lbio := (lbio s)\<lparr>kmem := km\<rparr>\<rparr>))"

definition do_kmem :: "(kmem \<Rightarrow> kmem kres) \<Rightarrow> 'a logst_scheme \<Rightarrow> 'a logst_scheme kres" where
  "do_kmem f s = kbind (f (kmem (lbio s))) (\<lambda>km. Ret (s\<lparr>lbio := (lbio s)\<lparr>kmem := km\<rparr>\<rparr>))"

definition on_bio :: "(bio \<Rightarrow> bio kres) \<Rightarrow> 'a logst_scheme \<Rightarrow> 'a logst_scheme kres" where
  "on_bio f s = kbind (f (lbio s)) (\<lambda>b. Ret (s\<lparr>lbio := b\<rparr>))"

definition upd_mem :: "(mem \<Rightarrow> mem) \<Rightarrow> 'a logst_scheme \<Rightarrow> 'a logst_scheme" where
  "upd_mem f s = s\<lparr>lbio := set_mem (f (kmemory (lbio s))) (lbio s)\<rparr>"

abbreviation the_proc :: "'a logst_scheme \<Rightarrow> nat \<Rightarrow> proc" where
  "the_proc s i \<equiv> procs (lbio s) ! i"

text \<open>
  \<^verbatim>\<open>safestrcpy\<close> on the bytes of the source string. After a source that fits, its terminator and one more zero are
  written; the bytes after that keep their value.
\<close>

definition safestrcpy_bytes :: "uchar list \<Rightarrow> uchar list \<Rightarrow> nat \<Rightarrow> uchar list" where
  "safestrcpy_bytes dst src n =
     (if n = 0 then dst
      else let c = take (n - 1) (takeWhile (\<lambda>b. b \<noteq> 0) src); z = (if length c < n - 1 then [0, 0] else [0])
           in c @ z @ drop (length c + length z) dst)"

abbreviation "TF_ES \<equiv> (40 :: uint)"
abbreviation "TF_DS \<equiv> (44 :: uint)"
abbreviation "TF_EFLAGS \<equiv> (64 :: uint)"
abbreviation "TF_SS \<equiv> (72 :: uint)"

subsection \<open>The first process\<close>

definition init_frame :: "uint \<Rightarrow> mem \<Rightarrow> mem" where
  "init_frame t m =
     (let m = memset m t 0 TF_SIZE;
          m = store16 m (t + TF_CS) 0x1B;
          m = store16 m (t + TF_DS) 0x23;
          m = store16 m (t + TF_ES) 0x23;
          m = store16 m (t + TF_SS) 0x23;
          m = store32 m (t + TF_EFLAGS) 0x200;
          m = store32 m (t + TF_ESP) PGSIZE
      in store32 m (t + TF_EIP) 0)"

definition userinit :: "uint \<Rightarrow> uint \<Rightarrow> uint \<Rightarrow> uint \<Rightarrow> uchar list \<Rightarrow> uchar list \<Rightarrow> (nat \<Rightarrow> 'a filest_scheme devsw) \<Rightarrow> nat \<Rightarrow>
    'a filest_scheme \<Rightarrow> 'a filest_scheme kres" where
  "userinit kend kdata trapret forkret initcode junk devs cur s =
     kbind (allocproc trapret forkret (lbio s)) (\<lambda>(p, b).
       case p of
         None \<Rightarrow> Fault ''userinit: no process''
       | Some i \<Rightarrow>
           let s = s\<lparr>lbio := b\<lparr>initproc := Some i\<rparr>\<rparr>
           in kbind (on_kmem (setupkvm kend kdata) s) (\<lambda>(d, s).
                let s = upd_cur i (\<lambda>p. p\<lparr>pgdir := d\<rparr>) s
                in if d = 0 then Panic ''userinit: out of memory?''
                   else kbind (do_kmem (inituvm d initcode) s) (\<lambda>s.
                     let s = upd_cur i (\<lambda>p. p\<lparr>sz := PGSIZE\<rparr>) s;
                         s = upd_mem (init_frame (tf (the_proc s i))) s;
                         s = upd_cur i (\<lambda>p. p\<lparr>handler := SIG_NONE, dis_sig := 0, intr := 0, message := (message p)[0 := 0xff],
                               pname := safestrcpy_bytes (pname p) (map (of_nat \<circ> of_char) ''initcode'') 16\<rparr>) s
                     in kbind (namei junk devs cur [slash] s) (\<lambda>(ip, s).
                        kbind (on_bio pt_acquire (upd_cur i (\<lambda>p. p\<lparr>cwd := ip\<rparr>) s)) (\<lambda>s.
                          on_bio pt_release (upd_cur i (\<lambda>p. p\<lparr>pstate := RUNNABLE\<rparr>) s))))))"

subsection \<open>Memory\<close>

definition growproc :: "uint \<Rightarrow> nat \<Rightarrow> cint \<Rightarrow> 'a logst_scheme \<Rightarrow> (cint \<times> 'a logst_scheme) kres" where
  "growproc kend cur n s =
     (let n0 = sz (the_proc s cur); d = pgdir (the_proc s cur)
      in kbind (if sint n > 0 then on_kmem (allocuvm kend d n0 (n0 + n)) s
                else if sint n < 0 then on_kmem (deallocuvm kend d n0 (n0 + n)) s
                else Ret (n0, s)) (\<lambda>(n1, s).
           if n \<noteq> 0 \<and> n1 = 0 then Ret (-1, s)
           else
             let s = upd_cur cur (\<lambda>p. p\<lparr>sz := n1\<rparr>) s
             in kbind (switchuvm (Some (the_proc s cur))) (\<lambda>_. Ret (0, s))))"

definition sys_sbrk :: "uint \<Rightarrow> nat \<Rightarrow> 'a logst_scheme sysfun" where
  "sys_sbrk kend cur s =
     (case argint cur (lbio s) 0 of
        None \<Rightarrow> Ret (-1, s)
      | Some n \<Rightarrow>
          let addr = sz (the_proc s cur)
          in kbind (growproc kend cur n s) (\<lambda>(r, s). if sint r < 0 then Ret (-1, s) else Ret (addr, s)))"

subsection \<open>Fork\<close>

primrec dup_files :: "nat \<Rightarrow> nat \<Rightarrow> nat list \<Rightarrow> 'a filest_scheme \<Rightarrow> 'a filest_scheme kres" where
  "dup_files cur np [] s = Ret s"
| "dup_files cur np (i # is) s =
     (case ofile (the_proc s cur) ! i of
        Some f \<Rightarrow> kbind (filedup f s) (\<lambda>s. dup_files cur np is (upd_cur np (\<lambda>p. p\<lparr>ofile := (ofile p)[i := Some f]\<rparr>) s))
      | None \<Rightarrow> dup_files cur np is s)"

definition fork :: "uint \<Rightarrow> uint \<Rightarrow> uint \<Rightarrow> uint \<Rightarrow> nat \<Rightarrow> 'a filest_scheme sysfun" where
  "fork kend kdata trapret forkret cur s =
     kbind (allocproc trapret forkret (lbio s)) (\<lambda>(np, b).
       let s = s\<lparr>lbio := b\<rparr>
       in case np of
            None \<Rightarrow> Ret (-1, s)
          | Some i \<Rightarrow>
              kbind (on_kmem (copyuvm kend kdata (pgdir (the_proc s cur)) (sz (the_proc s cur))) s) (\<lambda>(d, s).
                let s = upd_cur i (\<lambda>p. p\<lparr>pgdir := d\<rparr>) s
                in if d = 0 then
                     kbind (do_kmem (kfree kend (kstack (the_proc s i))) s) (\<lambda>s.
                       Ret (-1, upd_cur i (\<lambda>p. p\<lparr>kstack := 0, pstate := UNUSED\<rparr>) s))
                   else
                     let c = the_proc s cur;
                         s = upd_cur i (\<lambda>p. p\<lparr>sz := sz c, parent := Some cur\<rparr>) s;
                         s = upd_mem (\<lambda>m. write_bytes m (tf (the_proc s i)) (read_bytes m (tf c) 76)) s;
                         s = upd_cur i (\<lambda>p. p\<lparr>handler := handler c, dis_sig := 0, intr := 0, message := (message p)[0 := 0xff]\<rparr>) s;
                         s = upd_mem (\<lambda>m. store32 m (tf (the_proc s i) + TF_EAX) 0) s
                     in kbind (dup_files cur i [0..<NOFILE] s) (\<lambda>s.
                          case cwd (the_proc s cur) of
                            None \<Rightarrow> Fault ''fork: no current directory''
                          | Some ip \<Rightarrow>
                              kbind (idup ip s) (\<lambda>s.
                                let s = upd_cur i (\<lambda>p. p\<lparr>cwd := Some ip, pname := safestrcpy_bytes (pname p) (pname (the_proc s cur)) 16\<rparr>) s;
                                    r = pid (the_proc s i)
                                in kbind (on_bio pt_acquire s) (\<lambda>s.
                                   kbind (on_bio pt_release (upd_cur i (\<lambda>p. p\<lparr>pstate := RUNNABLE\<rparr>) s)) (\<lambda>s.
                                     Ret (r, s)))))))"

subsection \<open>Exit and wait\<close>

primrec close_files :: "uint \<Rightarrow> nat \<Rightarrow> nat list \<Rightarrow> 'a filest_scheme \<Rightarrow> 'a filest_scheme kres" where
  "close_files kend cur [] s = Ret s"
| "close_files kend cur (fd # fds) s =
     (case ofile (the_proc s cur) ! fd of
        Some f \<Rightarrow>
          kbind (fileclose kend cur f s) (\<lambda>s.
            close_files kend cur fds (upd_cur cur (\<lambda>p. p\<lparr>ofile := (ofile p)[fd := None]\<rparr>) s))
      | None \<Rightarrow> close_files kend cur fds s)"

definition chan_of :: "nat option \<Rightarrow> chan" where
  "chan_of p = (case p of Some i \<Rightarrow> ChProc i | None \<Rightarrow> ChNull)"

primrec reparent :: "nat \<Rightarrow> nat list \<Rightarrow> 'a ptable_scheme \<Rightarrow> 'a ptable_scheme" where
  "reparent cur [] s = s"
| "reparent cur (i # is) s =
     reparent cur is
       (if parent (procs s ! i) = Some cur then
          let s = upd_proc i (\<lambda>p. p\<lparr>parent := initproc s\<rparr>) s
          in if pstate (procs s ! i) = ZOMBIE then wakeup1 (chan_of (initproc s)) s else s
        else s)"

text \<open>The second half of \<^verbatim>\<open>exit\<close>, up to the switch to the scheduler: the state is the one it leaves.\<close>

definition become_zombie :: "nat \<Rightarrow> 'a ptable_scheme \<Rightarrow> 'a ptable_scheme kres" where
  "become_zombie cur s =
     kbind (pt_acquire s) (\<lambda>s.
       let s = wakeup1 (chan_of (parent (procs s ! cur))) s;
           s = reparent cur [0..<length (procs s)] s;
           s = upd_proc cur (\<lambda>p. p\<lparr>pstate := ZOMBIE\<rparr>) s
       in kbind (sched_checks cur 1 False s) (\<lambda>_. Ret s))"

definition exit :: "uint \<Rightarrow> nat \<Rightarrow> 'a filest_scheme \<Rightarrow> 'a filest_scheme kres" where
  "exit kend cur s =
     (if initproc (lbio s) = Some cur then Panic ''init exiting''
      else kbind (close_files kend cur [0..<NOFILE] s) (\<lambda>s.
           kbind (begin_op s) (\<lambda>s.
             case cwd (the_proc s cur) of
               None \<Rightarrow> Fault ''exit: no current directory''
             | Some ip \<Rightarrow>
                 kbind (iput cur ip s) (\<lambda>s.
                 kbind (end_op cur s) (\<lambda>s.
                   on_bio (become_zombie cur) (upd_cur cur (\<lambda>p. p\<lparr>cwd := None\<rparr>) s))))))"

text \<open>One turn of the loop of \<^verbatim>\<open>wait\<close>, with the table locked.\<close>

definition wait_turn :: "uint \<Rightarrow> nat \<Rightarrow> 'a ptable_scheme \<Rightarrow> (cint blocking \<times> 'a ptable_scheme) kres" where
  "wait_turn kend cur s =
     (case first_index (\<lambda>p. parent p = Some cur \<and> pstate p = ZOMBIE) (procs s) of
        Some i \<Rightarrow>
          let p = procs s ! i
          in kbind (kfree kend (kstack p) (kmem s)) (\<lambda>km.
             kbind (freevm kend (pgdir p) km) (\<lambda>km.
             kbind (pt_release (upd_proc i (\<lambda>p. p\<lparr>kstack := 0, pid := 0, parent := None, pname := (pname p)[0 := 0],
                       killed := False, pstate := UNUSED\<rparr>) (s\<lparr>kmem := km\<rparr>))) (\<lambda>s. Ret (Done (pid p), s))))
      | None \<Rightarrow>
          if \<not> (\<exists>p\<in>set (procs s). parent p = Some cur) \<or> killed (procs s ! cur)
          then kbind (pt_release s) (\<lambda>s. Ret (Done (-1), s))
          else kbind (sleep_enter (Some cur) (ChProc cur) None s) (\<lambda>(_, s). Ret (Sleeping (ChProc cur), s)))"

definition wait :: "uint \<Rightarrow> nat \<Rightarrow> 'a ptable_scheme \<Rightarrow> (cint blocking \<times> 'a ptable_scheme) kres" where
  "wait kend cur s = kbind (pt_acquire s) (wait_turn kend cur)"

definition wait_resume :: "uint \<Rightarrow> nat \<Rightarrow> 'a ptable_scheme \<Rightarrow> (cint blocking \<times> 'a ptable_scheme) kres" where
  "wait_resume kend cur s = kbind (sleep_exit cur None s) (\<lambda>(_, s). wait_turn kend cur s)"

subsection \<open>The first run of a process\<close>

definition initlog :: "nat \<Rightarrow> uint \<Rightarrow> 'a fsst_scheme \<Rightarrow> 'a fsst_scheme kres" where
  "initlog cur dev s =
     kbind (fs_bread cur dev 1 s) (\<lambda>(bp, s).
       let v = decode_sb (bdata s bp)
       in kbind (fs_brelse cur bp (s\<lparr>lg_lock := False\<rparr>)) (\<lambda>s.
            recover_from_log cur (s\<lparr>lg_start := sb_logstart v, lg_size := sb_nlog v, lg_dev := dev\<rparr>)))"

text \<open>\<open>first\<close> is the static variable of \<^verbatim>\<open>forkret\<close>; its new value is part of the result.\<close>

definition forkret :: "nat \<Rightarrow> bool \<Rightarrow> 'a fsst_scheme \<Rightarrow> (bool \<times> 'a fsst_scheme) kres" where
  "forkret cur first s =
     kbind (on_bio pt_release s) (\<lambda>s.
       if first then kbind (iinit cur ROOTDEV s) (\<lambda>s. kbind (initlog cur ROOTDEV s) (\<lambda>s. Ret (False, s)))
       else Ret (first, s))"

subsection \<open>Exit hands over the children\<close>

definition orphaned :: "nat \<Rightarrow> nat \<Rightarrow> nat list \<Rightarrow> 'a ptable_scheme \<Rightarrow> nat \<Rightarrow> proc" where
  "orphaned cur ini is s i =
     (let p = procs s ! i
      in p\<lparr>parent := (if i \<in> set is \<and> parent p = Some cur then Some ini else parent p),
           pstate := (if pstate p = SLEEPING \<and> pchan p = ChProc ini \<and>
             (\<exists>j\<in>set is. parent (procs s ! j) = Some cur \<and> pstate (procs s ! j) = ZOMBIE) then RUNNABLE else pstate p)\<rparr>)"

lemma reparent_frame [simp]:
  "length (procs (reparent cur is s)) = length (procs s)" "ptlock (reparent cur is s) = ptlock s"
  "initproc (reparent cur is s) = initproc s" "kmem (reparent cur is s) = kmem s"
  by (induction "is" arbitrary: s) (simp_all add: Let_def wakeup1_def upd_proc_def)

lemma reparent_nth:
  assumes "initproc s = Some ini" "ini \<noteq> cur" "\<forall>j\<in>set is. j < length (procs s)" "i < length (procs s)"
  shows "procs (reparent cur is s) ! i = orphaned cur ini is s i"
  using assms
proof (induction "is" arbitrary: s)
  case Nil
  then show ?case by (simp add: orphaned_def)
next
  case (Cons j js)
  define u where "u = (if parent (procs s ! j) = Some cur then
      (let s = upd_proc j (\<lambda>p. p\<lparr>parent := initproc s\<rparr>) s
       in if pstate (procs s ! j) = ZOMBIE then wakeup1 (chan_of (initproc s)) s else s) else s)"
  have t: "procs u ! k = (let p = procs s ! k in p\<lparr>parent := (if k = j \<and> parent p = Some cur then Some ini else parent p),
      pstate := (if parent (procs s ! j) = Some cur \<and> pstate (procs s ! j) = ZOMBIE \<and> pstate p = SLEEPING \<and> pchan p = ChProc ini
        then RUNNABLE else pstate p)\<rparr>)" if "k < length (procs s)" for k
    using that Cons.prems(1,3) unfolding u_def by (auto simp: Let_def upd_proc_def wakeup1_def chan_of_def nth_list_update)
  have l: "initproc u = Some ini" "length (procs u) = length (procs s)"
    using Cons.prems(1) by (simp_all add: u_def Let_def upd_proc_def wakeup1_def)
  have "(parent (procs u ! k) = Some cur \<and> pstate (procs u ! k) = ZOMBIE) \<longleftrightarrow>
      (k \<noteq> j \<and> parent (procs s ! k) = Some cur \<and> pstate (procs s ! k) = ZOMBIE)" if "k \<in> set js" for k
    using t [of k] that Cons.prems(2,3) by (auto simp: Let_def)
  then have z: "(\<exists>k\<in>set js. parent (procs u ! k) = Some cur \<and> pstate (procs u ! k) = ZOMBIE) \<longleftrightarrow>
      (\<exists>k\<in>set js. k \<noteq> j \<and> parent (procs s ! k) = Some cur \<and> pstate (procs s ! k) = ZOMBIE)" by blast
  have "procs (reparent cur (j # js) s) ! i = orphaned cur ini js u i"
    using Cons.IH [of u] Cons.prems l by (simp add: u_def)
  also have "\<dots> = orphaned cur ini (j # js) s i"
  proof -
    define w where "w \<longleftrightarrow> (\<exists>k\<in>set js. k \<noteq> j \<and> parent (procs s ! k) = Some cur \<and> pstate (procs s ! k) = ZOMBIE)"
    have "(\<exists>k\<in>set (j # js). parent (procs s ! k) = Some cur \<and> pstate (procs s ! k) = ZOMBIE) \<longleftrightarrow>
        parent (procs s ! j) = Some cur \<and> pstate (procs s ! j) = ZOMBIE \<or> w" unfolding w_def by auto
    then show ?thesis unfolding orphaned_def Let_def z w_def [symmetric] t [OF Cons.prems(4), unfolded Let_def]
      using Cons.prems(2) by (cases w) simp_all
  qed
  finally show ?case .
qed

lemma become_zombie_eq:
  assumes "\<not> ptlock s" "cur < length (procs s)" "initproc s = Some ini" "ini \<noteq> cur"
  shows "\<exists>s'. become_zombie cur s = Ret s' \<and> length (procs s') = length (procs s) \<and> pstate (procs s' ! cur) = ZOMBIE \<and>
    (\<forall>i<length (procs s). parent (procs s' ! i) = (if parent (procs s ! i) = Some cur then Some ini else parent (procs s ! i)) \<and>
       pchan (procs s' ! i) = pchan (procs s ! i) \<and> (i \<noteq> cur \<longrightarrow> (pstate (procs s' ! i) = ZOMBIE \<longleftrightarrow> pstate (procs s ! i) = ZOMBIE)) \<and>
       (pstate (procs s' ! i) = SLEEPING \<longrightarrow> pstate (procs s ! i) = SLEEPING \<and> pchan (procs s ! i) \<noteq> chan_of (parent (procs s ! cur)) \<and>
         (pchan (procs s ! i) = ChProc ini \<longrightarrow> (\<forall>j<length (procs s). parent (procs s ! j) = Some cur \<longrightarrow> pstate (procs s ! j) \<noteq> ZOMBIE))))"
proof -
  let ?w = "wakeup1 (chan_of (parent (procs s ! cur))) (s\<lparr>ptlock := True\<rparr>)"
  let ?r = "reparent cur [0..<length (procs ?w)] ?w"
  let ?s = "upd_proc cur (\<lambda>p. p\<lparr>pstate := ZOMBIE\<rparr>) ?r"
  have l: "length (procs ?w) = length (procs s)" "initproc ?w = Some ini" using assms(3) by (simp_all add: wakeup1_def)
  have w: "procs ?w ! i = (let p = procs s ! i in p\<lparr>pstate := (if pstate p = SLEEPING \<and> pchan p = chan_of (parent (procs s ! cur))
      then RUNNABLE else pstate p)\<rparr>)" if "i < length (procs s)" for i
    using that by (auto simp: wakeup1_def Let_def)
  have n: "procs ?r ! i = orphaned cur ini [0..<length (procs s)] ?w i" if "i < length (procs s)" for i
    using reparent_nth [OF l(2) assms(4), of "[0..<length (procs ?w)]" i] that l(1) by simp
  have z: "(parent (procs ?w ! j) = Some cur \<and> pstate (procs ?w ! j) = ZOMBIE) \<longleftrightarrow> (parent (procs s ! j) = Some cur \<and> pstate (procs s ! j) = ZOMBIE)"
    if "j < length (procs s)" for j using w [OF that] by (simp add: Let_def)
  have "become_zombie cur s = Ret ?s"
    using assms(1,2) l(1) by (simp add: become_zombie_def pt_simps Let_def sched_checks_def upd_proc_def wakeup1_def)
  moreover have "length (procs ?s) = length (procs s)" "pstate (procs ?s ! cur) = ZOMBIE" using assms(2) l(1) by (simp_all add: upd_proc_def)
  moreover have "parent (procs ?s ! i) = (if parent (procs s ! i) = Some cur then Some ini else parent (procs s ! i)) \<and>
      pchan (procs ?s ! i) = pchan (procs s ! i)" if "i < length (procs s)" for i
    using n [OF that] w [OF that] that assms(2) l(1) by (cases "i = cur") (simp_all add: upd_proc_def orphaned_def Let_def)
  moreover have "pstate (procs ?s ! i) = ZOMBIE \<longleftrightarrow> pstate (procs s ! i) = ZOMBIE" if "i < length (procs s)" "i \<noteq> cur" for i
    using n [OF that(1)] w [OF that(1)] that l(1) by (simp add: upd_proc_def orphaned_def Let_def)
  moreover have "pstate (procs s ! i) = SLEEPING \<and> pchan (procs s ! i) \<noteq> chan_of (parent (procs s ! cur)) \<and>
      (pchan (procs s ! i) = ChProc ini \<longrightarrow> (\<forall>j<length (procs s). parent (procs s ! j) = Some cur \<longrightarrow> pstate (procs s ! j) \<noteq> ZOMBIE))"
    if i: "i < length (procs s)" and sl: "pstate (procs ?s ! i) = SLEEPING" for i
  proof -
    have "i \<noteq> cur" using sl assms(2) l(1) by (auto simp: upd_proc_def)
    then have "pstate (procs ?r ! i) = SLEEPING" using sl by (simp add: upd_proc_def)
    then have "pstate (procs ?w ! i) = SLEEPING" "pchan (procs ?w ! i) = ChProc ini \<longrightarrow>
        \<not> (\<exists>j\<in>set [0..<length (procs s)]. parent (procs ?w ! j) = Some cur \<and> pstate (procs ?w ! j) = ZOMBIE)"
      using n [OF i] by (auto simp: orphaned_def Let_def split: if_splits)
    then show ?thesis using w [OF i] z by (auto simp: Let_def split: if_splits)
  qed
  ultimately show ?thesis by blast
qed

text \<open>No process sleeps in \<^verbatim>\<open>wait\<close> while it has a child that has exited.\<close>

definition no_missed :: "'a ptable_scheme \<Rightarrow> bool" where
  "no_missed s \<longleftrightarrow> (\<forall>i<length (procs s). \<forall>q<length (procs s). pstate (procs s ! i) = ZOMBIE \<longrightarrow> parent (procs s ! i) = Some q \<longrightarrow>
     \<not> (pstate (procs s ! q) = SLEEPING \<and> pchan (procs s ! q) = ChProc q))"

lemma no_missed_upd:
  assumes "no_missed s" "i < length (procs s)" "pstate (f (procs s ! i)) = ZOMBIE \<Longrightarrow> parent (f (procs s ! i)) = None"
    "pstate (f (procs s ! i)) = SLEEPING \<Longrightarrow> pchan (f (procs s ! i)) = ChProc i \<Longrightarrow>
       \<forall>p\<in>set (procs s). parent p = Some i \<longrightarrow> pstate p \<noteq> ZOMBIE"
  shows "no_missed (upd_proc i f s)"
  unfolding no_missed_def
proof (intro allI impI notI)
  fix j q
  assume a: "j < length (procs (upd_proc i f s))" "q < length (procs (upd_proc i f s))" "pstate (procs (upd_proc i f s) ! j) = ZOMBIE"
    "parent (procs (upd_proc i f s) ! j) = Some q"
    "pstate (procs (upd_proc i f s) ! q) = SLEEPING \<and> pchan (procs (upd_proc i f s) ! q) = ChProc q"
  then have j: "j \<noteq> i" using assms(2,3) by (auto simp: upd_proc_def)
  then have p: "pstate (procs s ! j) = ZOMBIE" "parent (procs s ! j) = Some q" "procs s ! j \<in> set (procs s)"
    using a(1,3,4) by (simp_all add: upd_proc_def)
  show False
  proof (cases "q = i")
    case True
    then show False using p assms(2,4) a(5) by (auto simp: upd_proc_def)
  next
    case False
    then show False using p a assms(1) unfolding no_missed_def by (auto simp: upd_proc_def)
  qed
qed

lemma no_missed_frame: "procs s' = procs s \<Longrightarrow> no_missed s' = no_missed s"
  by (simp add: no_missed_def)

lemma no_missed_none: "\<forall>p\<in>set (procs s). pstate p \<noteq> ZOMBIE \<Longrightarrow> no_missed s"
  unfolding no_missed_def by (meson nth_mem)

lemma wait_turn_no_missed:
  assumes "no_missed s" "cur < length (procs s)" "wait_turn kend cur s = Ret (r, s')"
  shows "no_missed s'"
proof (cases "first_index (\<lambda>p. parent p = Some cur \<and> pstate p = ZOMBIE) (procs s)")
  case None
  then have z: "\<forall>p\<in>set (procs s). parent p = Some cur \<longrightarrow> pstate p \<noteq> ZOMBIE"
    using first_index_None [of "\<lambda>p. parent p = Some cur \<and> pstate p = ZOMBIE" "procs s"] by blast
  have "procs s' = procs s \<or> procs s' = procs (sleep_mark cur (ChProc cur) s)"
    using assms(3) None by (auto simp: wait_turn_def kres_simps pt_release_def sleep_enter_def Let_def split: if_splits)
  moreover have "no_missed (sleep_mark cur (ChProc cur) s)"
    unfolding sleep_mark_def by (rule no_missed_upd [OF assms(1,2)]) (use z in simp_all)
  ultimately show ?thesis using assms(1) no_missed_frame by metis
next
  case (Some i)
  then have i: "i < length (procs s)" by (simp add: first_index_Some)
  from assms(3) Some obtain f where "procs s' = procs (upd_proc i f s)" "pstate (f (procs s ! i)) = UNUSED"
    by (auto simp: wait_turn_def kres_simps pt_release_def Let_def upd_proc_def)
  then show ?thesis using no_missed_upd [OF assms(1) i, of f] no_missed_frame [of s' "upd_proc i f s"] by auto
qed

lemma become_zombie_no_missed:
  assumes "no_missed s" "cur < length (procs s)" "initproc s = Some ini" "ini \<noteq> cur" "parent (procs s ! cur) \<noteq> Some cur" "\<not> ptlock s"
  shows "\<exists>s'. become_zombie cur s = Ret s' \<and> no_missed s'"
proof -
  obtain s' where s': "become_zombie cur s = Ret s'" "length (procs s') = length (procs s)" "pstate (procs s' ! cur) = ZOMBIE"
    and p: "\<And>i. i < length (procs s) \<Longrightarrow> parent (procs s' ! i) = (if parent (procs s ! i) = Some cur then Some ini else parent (procs s ! i)) \<and>
       pchan (procs s' ! i) = pchan (procs s ! i) \<and> (i \<noteq> cur \<longrightarrow> (pstate (procs s' ! i) = ZOMBIE \<longleftrightarrow> pstate (procs s ! i) = ZOMBIE)) \<and>
       (pstate (procs s' ! i) = SLEEPING \<longrightarrow> pstate (procs s ! i) = SLEEPING \<and> pchan (procs s ! i) \<noteq> chan_of (parent (procs s ! cur)) \<and>
         (pchan (procs s ! i) = ChProc ini \<longrightarrow> (\<forall>j<length (procs s). parent (procs s ! j) = Some cur \<longrightarrow> pstate (procs s ! j) \<noteq> ZOMBIE)))"
    using become_zombie_eq [OF assms(6) assms(2-4)] by blast
  have "\<not> (pstate (procs s' ! q) = SLEEPING \<and> pchan (procs s' ! q) = ChProc q)"
    if j: "j < length (procs s)" "q < length (procs s)" "pstate (procs s' ! j) = ZOMBIE" "parent (procs s' ! j) = Some q" for j q
  proof
    assume "pstate (procs s' ! q) = SLEEPING \<and> pchan (procs s' ! q) = ChProc q"
    then have q: "pstate (procs s ! q) = SLEEPING" "pchan (procs s ! q) = ChProc q" "ChProc q \<noteq> chan_of (parent (procs s ! cur))"
      "q = ini \<longrightarrow> (\<forall>j<length (procs s). parent (procs s ! j) = Some cur \<longrightarrow> pstate (procs s ! j) \<noteq> ZOMBIE)"
      using p [OF j(2)] by auto
    show False
    proof (cases "j = cur")
      case True
      then have "parent (procs s ! cur) = Some q" using p [OF j(1)] j(4) assms(5) by simp
      then show False using q(3) by (simp add: chan_of_def)
    next
      case False
      then have z: "pstate (procs s ! j) = ZOMBIE" using p [OF j(1)] j(3) by blast
      show False
      proof (cases "parent (procs s ! j) = Some cur")
        case True
        then show False using p [OF j(1)] j(1,4) q(4) z by auto
      next
        case False
        then show False using p [OF j(1)] j z q(1,2) assms(1) unfolding no_missed_def by auto
      qed
    qed
  qed
  then have "no_missed s'" unfolding no_missed_def s'(2) by blast
  with s'(1) show ?thesis by blast
qed


text \<open>A family: slot 0 is \<^verbatim>\<open>init\<close>, slot 1 sleeps in \<^verbatim>\<open>wait\<close>, its child in slot 2 runs.\<close>

definition family_table :: ptable where
  "family_table = boot_table\<lparr>procs := [empty_proc\<lparr>pstate := RUNNABLE, pid := 1\<rparr>,
     empty_proc\<lparr>pstate := SLEEPING, pid := 2, parent := Some 0, pchan := ChProc 1\<rparr>,
     empty_proc\<lparr>pstate := RUNNING, pid := 3, parent := Some 1\<rparr>], initproc := Some 0, nextpid := 4\<rparr>"


end
