(* ===== verification/Scheduler.thy ===== *)
theory Scheduler
  imports Process
begin

text \<open>
  The scheduler on several processors: \<^verbatim>\<open>scheduler\<close> of \<^verbatim>\<open>src/xv6A1/proc.c\<close> with \<^verbatim>\<open>switchuvm\<close> and \<^verbatim>\<open>switchkvm\<close>,
  cut at the points where another processor or a process can act, and a step relation that interleaves the
  processors and the processes they run. The steps of a process are the operations of \<open>ProcTable\<close> and
  \<open>Process\<close> on the table. A processor executes at most one process and a process is executed by at most one
  processor, and no process that is runnable when a pass begins is left out by the time it ends.
\<close>

subsection \<open>The scheduler of one processor\<close>

text \<open>
  Where the control of a processor is: between two passes, in the scan with \<^verbatim>\<open>ptable.lock\<close> held, in the process it
  has switched to, with or without the lock, or just back in the scheduler. \<open>cpu_p\<close> is the variable \<^verbatim>\<open>p\<close> of
  \<^verbatim>\<open>scheduler\<close>, \<open>cpu_esp0\<close> and \<open>cpu_cr3\<close> are what \<^verbatim>\<open>switchuvm\<close> and \<^verbatim>\<open>switchkvm\<close> load.
\<close>

datatype place = CIdle | CScan | CRuns bool | CBack

record scpu =
  cpu_proc :: "nat option"
  cpu_esp0 :: uint
  cpu_cr3 :: uint
  cpu_p :: nat
  cpu_at :: place

definition scheduler_enter :: "scpu \<Rightarrow> 'a ptable_scheme \<Rightarrow> (scpu \<times> 'a ptable_scheme) kres" where
  "scheduler_enter c t = kbind (pt_acquire t) (\<lambda>t. Ret (c\<lparr>cpu_p := 0, cpu_at := CScan\<rparr>, t))"

definition scheduler_slot :: "scpu \<Rightarrow> 'a ptable_scheme \<Rightarrow> (scpu \<times> 'a ptable_scheme) kres" where
  "scheduler_slot c t =
     (let i = cpu_p c
      in if pstate (procs t ! i) \<noteq> RUNNABLE then Ret (c\<lparr>cpu_p := i + 1\<rparr>, t)
         else let c = c\<lparr>cpu_proc := Some i\<rparr>
              in kbind (switchuvm (Some (procs t ! i))) (\<lambda>(esp0, cr3).
                   Ret (c\<lparr>cpu_esp0 := esp0, cpu_cr3 := cr3, cpu_at := CRuns True\<rparr>,
                        upd_proc i (\<lambda>p. p\<lparr>pstate := RUNNING\<rparr>) t)))"

definition switchkvm :: "uint \<Rightarrow> scpu \<Rightarrow> scpu" where
  "switchkvm kpgdir c = c\<lparr>cpu_cr3 := V2P kpgdir\<rparr>"

definition scheduler_back :: "uint \<Rightarrow> scpu \<Rightarrow> scpu" where
  "scheduler_back kpgdir c = (switchkvm kpgdir c)\<lparr>cpu_proc := None, cpu_p := cpu_p c + 1, cpu_at := CScan\<rparr>"

definition scheduler_leave :: "scpu \<Rightarrow> 'a ptable_scheme \<Rightarrow> (scpu \<times> 'a ptable_scheme) kres" where
  "scheduler_leave c t = kbind (pt_release t) (\<lambda>t. Ret (c\<lparr>cpu_at := CIdle\<rparr>, t))"

text \<open>The end of \<^verbatim>\<open>fork\<close> and \<^verbatim>\<open>userinit\<close>: the new process can be scheduled.\<close>

definition make_runnable :: "nat \<Rightarrow> 'a ptable_scheme \<Rightarrow> 'a ptable_scheme kres" where
  "make_runnable i t = kbind (pt_acquire t) (\<lambda>t. pt_release (upd_proc i (\<lambda>p. p\<lparr>pstate := RUNNABLE\<rparr>) t))"

subsection \<open>Several processors\<close>

text \<open>
  What a process does to the table while it runs and does not hold the lock: it wakes, kills, allocates a slot,
  fills in a slot it has allocated, which it may also give back, makes it runnable once it has a stack and a page
  directory, reaps a child, or changes its own record and the kernel memory. \<open>i\<close> is its slot.
\<close>

inductive proc_op :: "uint \<Rightarrow> nat \<Rightarrow> 'a ptable_scheme \<Rightarrow> 'a ptable_scheme \<Rightarrow> bool" for kend i where
  op_wakeup: "wakeup ch t = Ret t' \<Longrightarrow> proc_op kend i t t'"
| op_kill: "kill n t = Ret (r, t') \<Longrightarrow> proc_op kend i t t'"
| op_alloc: "alloc_slot t = Ret (r, t') \<Longrightarrow> proc_op kend i t t'"
| op_build: "pstate (procs t ! j) = EMBRYO \<Longrightarrow> pstate (f (procs t ! j)) \<in> {EMBRYO, UNUSED} \<Longrightarrow> proc_op kend i t (upd_proc j f t)"
| op_runnable: "pstate (procs t ! j) = EMBRYO \<Longrightarrow> kstack (procs t ! j) \<noteq> 0 \<Longrightarrow> pgdir (procs t ! j) \<noteq> 0 \<Longrightarrow>
    make_runnable j t = Ret t' \<Longrightarrow> proc_op kend i t t'"
| op_wait: "wait kend i t = Ret (Done r, t') \<Longrightarrow> proc_op kend i t t'"
| op_own: "pstate (f (procs t ! i)) = pstate (procs t ! i) \<Longrightarrow> kstack (f (procs t ! i)) = kstack (procs t ! i) \<Longrightarrow>
    pgdir (f (procs t ! i)) \<noteq> 0 \<Longrightarrow> proc_op kend i t (upd_proc i f t)"
| op_memory: "proc_op kend i t (t\<lparr>kmem := km\<rparr>)"

text \<open>What it does to leave the processor: it ends in \<^verbatim>\<open>sched\<close>, with the lock held.\<close>

inductive proc_leave :: "uint \<Rightarrow> nat \<Rightarrow> 'a ptable_scheme \<Rightarrow> 'a ptable_scheme \<Rightarrow> bool" for kend i where
  leave_yield: "yield_enter i t = Ret t' \<Longrightarrow> proc_leave kend i t t'"
| leave_sleep: "sleep_enter (Some i) ch (Some True) t = Ret (lk, t') \<Longrightarrow> proc_leave kend i t t'"
| leave_exit: "become_zombie i t = Ret t' \<Longrightarrow> proc_leave kend i t t'"
| leave_wait: "wait kend i t = Ret (Sleeping ch, t') \<Longrightarrow> proc_leave kend i t t'"

text \<open>
  What it does when it has been switched to and holds the lock: it returns from \<^verbatim>\<open>yield\<close> or begins in
  \<^verbatim>\<open>forkret\<close>, or it returns from \<^verbatim>\<open>sleep\<close>, or it goes on in \<^verbatim>\<open>wait\<close>, which may sleep again.
\<close>

inductive proc_resume :: "uint \<Rightarrow> nat \<Rightarrow> 'a ptable_scheme \<Rightarrow> 'a ptable_scheme \<Rightarrow> bool" for kend i where
  resume_release: "pt_release t = Ret t' \<Longrightarrow> proc_resume kend i t t'"
| resume_sleep: "sleep_exit i (Some False) t = Ret (lk, t') \<Longrightarrow> proc_resume kend i t t'"
| resume_wait: "wait_resume kend i t = Ret (Done r, t') \<Longrightarrow> proc_resume kend i t t'"

datatype event = Dispatch nat nat | Finish nat | Other

inductive sys_step :: "uint \<Rightarrow> uint \<Rightarrow> 'a ptable_scheme \<Rightarrow> scpu list \<Rightarrow> event \<Rightarrow> 'a ptable_scheme \<Rightarrow> scpu list \<Rightarrow> bool"
  for kend kpgdir where
  step_enter: "c < length cs \<Longrightarrow> cpu_at (cs ! c) = CIdle \<Longrightarrow> scheduler_enter (cs ! c) t = Ret (k, t') \<Longrightarrow>
    sys_step kend kpgdir t cs Other t' (cs[c := k])"
| step_slot: "c < length cs \<Longrightarrow> cpu_at (cs ! c) = CScan \<Longrightarrow> cpu_p (cs ! c) < NPROC \<Longrightarrow> scheduler_slot (cs ! c) t = Ret (k, t') \<Longrightarrow>
    sys_step kend kpgdir t cs (if cpu_at k = CScan then Other else Dispatch c (cpu_p (cs ! c))) t' (cs[c := k])"
| step_back: "c < length cs \<Longrightarrow> cpu_at (cs ! c) = CBack \<Longrightarrow> sys_step kend kpgdir t cs Other t (cs[c := scheduler_back kpgdir (cs ! c)])"
| step_leave: "c < length cs \<Longrightarrow> cpu_at (cs ! c) = CScan \<Longrightarrow> \<not> cpu_p (cs ! c) < NPROC \<Longrightarrow> scheduler_leave (cs ! c) t = Ret (k, t') \<Longrightarrow>
    sys_step kend kpgdir t cs (Finish c) t' (cs[c := k])"
| step_interrupt: "c < length cs \<Longrightarrow> cpu_at (cs ! c) = CIdle \<Longrightarrow> wakeup ch t = Ret t' \<Longrightarrow> sys_step kend kpgdir t cs Other t' cs"
| step_op: "c < length cs \<Longrightarrow> cpu_at (cs ! c) = CRuns False \<Longrightarrow> proc_op kend (cpu_p (cs ! c)) t t' \<Longrightarrow>
    sys_step kend kpgdir t cs Other t' cs"
| step_switch: "c < length cs \<Longrightarrow> cpu_at (cs ! c) = CRuns False \<Longrightarrow> proc_leave kend (cpu_p (cs ! c)) t t' \<Longrightarrow>
    sys_step kend kpgdir t cs Other t' (cs[c := (cs ! c)\<lparr>cpu_at := CBack\<rparr>])"
| step_resume: "c < length cs \<Longrightarrow> cpu_at (cs ! c) = CRuns True \<Longrightarrow> proc_resume kend (cpu_p (cs ! c)) t t' \<Longrightarrow>
    sys_step kend kpgdir t cs Other t' (cs[c := (cs ! c)\<lparr>cpu_at := CRuns False\<rparr>])"
| step_again: "c < length cs \<Longrightarrow> cpu_at (cs ! c) = CRuns True \<Longrightarrow> wait_resume kend (cpu_p (cs ! c)) t = Ret (Sleeping ch, t') \<Longrightarrow>
    sys_step kend kpgdir t cs Other t' (cs[c := (cs ! c)\<lparr>cpu_at := CBack\<rparr>])"

inductive sys_path :: "uint \<Rightarrow> uint \<Rightarrow> 'a ptable_scheme \<Rightarrow> scpu list \<Rightarrow> event list \<Rightarrow> 'a ptable_scheme \<Rightarrow> scpu list \<Rightarrow> bool"
  for kend kpgdir t cs where
  path_nil: "sys_path kend kpgdir t cs [] t cs"
| path_snoc: "sys_path kend kpgdir t cs es t' cs' \<Longrightarrow> sys_step kend kpgdir t' cs' e t'' cs'' \<Longrightarrow>
    sys_path kend kpgdir t cs (es @ [e]) t'' cs''"

text \<open>
  A process that can be switched to has a kernel stack and a page directory. When the processors enter
  \<^verbatim>\<open>scheduler\<close> the lock is free and no process runs.
\<close>

definition ready :: "proc \<Rightarrow> bool" where
  "ready p \<longleftrightarrow> pstate p \<in> {UNUSED, EMBRYO} \<or> kstack p \<noteq> 0 \<and> pgdir p \<noteq> 0"

definition sys_start :: "'a ptable_scheme \<Rightarrow> scpu list \<Rightarrow> bool" where
  "sys_start t cs \<longleftrightarrow> length (procs t) = NPROC \<and> \<not> ptlock t \<and>
     (\<forall>p\<in>set (procs t). ready p \<and> pstate p \<noteq> RUNNING) \<and> (\<forall>c\<in>set cs. cpu_at c = CIdle \<and> cpu_proc c = None)"

subsection \<open>Effects on the table\<close>

text \<open>
  What a step of a process may do to the states: \<open>moved i\<close> leaves the running and the runnable processes other
  than \<open>i\<close> alone, \<open>quiet\<close> also \<open>i\<close>.
\<close>

definition quiet :: "'a ptable_scheme \<Rightarrow> 'a ptable_scheme \<Rightarrow> bool" where
  "quiet t t' \<longleftrightarrow> length (procs t') = length (procs t) \<and>
     (\<forall>j < length (procs t). (pstate (procs t' ! j) = RUNNING \<longleftrightarrow> pstate (procs t ! j) = RUNNING) \<and>
        (pstate (procs t ! j) = RUNNABLE \<longrightarrow> pstate (procs t' ! j) = RUNNABLE) \<and> (ready (procs t ! j) \<longrightarrow> ready (procs t' ! j)))"

definition moved :: "nat \<Rightarrow> 'a ptable_scheme \<Rightarrow> 'a ptable_scheme \<Rightarrow> bool" where
  "moved i t t' \<longleftrightarrow> length (procs t') = length (procs t) \<and>
     (\<forall>j < length (procs t). (j \<noteq> i \<longrightarrow> (pstate (procs t' ! j) = RUNNING \<longleftrightarrow> pstate (procs t ! j) = RUNNING) \<and>
        (pstate (procs t ! j) = RUNNABLE \<longrightarrow> pstate (procs t' ! j) = RUNNABLE)) \<and> (ready (procs t ! j) \<longrightarrow> ready (procs t' ! j)))"

lemma quiet_refl [simp]: "quiet t t" "quiet t (t\<lparr>ptlock := b\<rparr>)" "quiet t (t\<lparr>kmem := km\<rparr>)"
  by (simp_all add: quiet_def)

lemma moved_lock [simp]:
  "quiet (t\<lparr>ptlock := b\<rparr>) t' \<longleftrightarrow> quiet t t'" "quiet t (t'\<lparr>ptlock := b\<rparr>) \<longleftrightarrow> quiet t t'"
  "moved i (t\<lparr>ptlock := b\<rparr>) t' \<longleftrightarrow> moved i t t'" "moved i t (t'\<lparr>ptlock := b\<rparr>) \<longleftrightarrow> moved i t t'"
  by (simp_all add: quiet_def moved_def)

lemma quiet_moved: "quiet t t' \<Longrightarrow> moved i t t'"
  by (simp add: quiet_def moved_def)

lemma quiet_trans: "quiet t u \<Longrightarrow> quiet u t' \<Longrightarrow> quiet t t'"
  by (simp add: quiet_def)

lemma quiet_then_moved: "quiet t u \<Longrightarrow> moved i u t' \<Longrightarrow> moved i t t'"
  by (simp add: quiet_def moved_def)

lemma quiet_wakeup1: "quiet t (wakeup1 ch t)"
  by (auto simp: quiet_def wakeup1_def ready_def)

lemma quiet_upd:
  assumes "pstate (f (procs t ! i)) = RUNNING \<longleftrightarrow> pstate (procs t ! i) = RUNNING"
    "pstate (procs t ! i) = RUNNABLE \<Longrightarrow> pstate (f (procs t ! i)) = RUNNABLE" "ready (procs t ! i) \<Longrightarrow> ready (f (procs t ! i))"
  shows "quiet t (upd_proc i f t)"
  using assms by (cases "i < length (procs t)") (auto simp: quiet_def nth_list_update)

lemma moved_upd: "(ready (procs t ! i) \<Longrightarrow> ready (f (procs t ! i))) \<Longrightarrow> moved i t (upd_proc i f t)"
  by (cases "i < length (procs t)") (auto simp: moved_def nth_list_update)

lemma pt_acquire_Ret: "pt_acquire t = Ret t' \<longleftrightarrow> \<not> ptlock t \<and> t' = t\<lparr>ptlock := True\<rparr>"
  by (auto simp: pt_acquire_def lock_acquire_def)

lemma pt_release_Ret: "pt_release t = Ret t' \<longleftrightarrow> ptlock t \<and> t' = t\<lparr>ptlock := False\<rparr>"
  by (auto simp: pt_release_def lock_release_def)

lemma quiet_reparent: "quiet t (reparent cur is t)"
proof (induction "is" arbitrary: t)
  case (Cons i js)
  have "quiet t (upd_proc i (\<lambda>p. p\<lparr>parent := initproc t\<rparr>) t)" by (rule quiet_upd) (simp_all add: ready_def)
  then show ?case using Cons quiet_wakeup1 quiet_trans by (simp add: Let_def) blast
qed simp

text \<open>The steps of the processes.\<close>

lemma wakeup_quiet: "wakeup ch t = Ret t' \<Longrightarrow> quiet t t' \<and> \<not> ptlock t \<and> \<not> ptlock t'"
  using quiet_wakeup1 [of "t\<lparr>ptlock := True\<rparr>" ch] by (auto simp: wakeup_def kbind_Ret_iff pt_acquire_Ret pt_release_Ret)

lemma kill_quiet: "kill n t = Ret (r, t') \<Longrightarrow> quiet t t' \<and> \<not> ptlock t \<and> \<not> ptlock t'"
  by (auto simp: kill_def kbind_Ret_iff pt_acquire_Ret pt_release_Ret Let_def quiet_def ready_def nth_list_update first_index_Some
    split: option.splits if_splits)

lemma alloc_quiet: "alloc_slot t = Ret (r, t') \<Longrightarrow> quiet t t' \<and> \<not> ptlock t \<and> \<not> ptlock t'"
  by (auto simp: alloc_slot_def kbind_Ret_iff pt_acquire_Ret pt_release_Ret Let_def quiet_def ready_def nth_list_update first_index_Some
    split: option.splits if_splits)

lemma runnable_quiet:
  "make_runnable j t = Ret t' \<Longrightarrow> pstate (procs t ! j) = EMBRYO \<Longrightarrow> kstack (procs t ! j) \<noteq> 0 \<Longrightarrow> pgdir (procs t ! j) \<noteq> 0 \<Longrightarrow>
    quiet t t' \<and> \<not> ptlock t \<and> \<not> ptlock t'"
  by (cases "j < length (procs t)")
    (auto simp: make_runnable_def kbind_Ret_iff pt_acquire_Ret pt_release_Ret quiet_def ready_def nth_list_update split: if_splits)

text \<open>One turn of \<^verbatim>\<open>wait\<close>: it reaps a zombie or sleeps.\<close>

lemma wait_turn_Done: "wait_turn kend i t = Ret (Done r, t') \<Longrightarrow> quiet t t' \<and> ptlock t \<and> \<not> ptlock t'"
  by (auto simp: wait_turn_def kbind_Ret_iff pt_release_Ret Let_def quiet_def ready_def nth_list_update first_index_Some
    split: option.splits if_splits)

lemma sched_checks_Ret: "sched_checks i n fl t = Ret u \<longleftrightarrow> ptlock t \<and> n = 1 \<and> pstate (procs t ! i) \<noteq> RUNNING \<and> \<not> fl"
  by (simp add: sched_checks_def)

definition left :: "nat \<Rightarrow> 'a ptable_scheme \<Rightarrow> bool" where
  "left i t \<longleftrightarrow> ptlock t \<and> pstate (procs t ! i) \<in> {RUNNABLE, SLEEPING, ZOMBIE}"

lemma ready_running: "ready p \<Longrightarrow> pstate p = RUNNING \<Longrightarrow> ready (p\<lparr>pstate := st\<rparr>) \<and> ready (p\<lparr>pchan := ch, pstate := st\<rparr>)"
  by (simp add: ready_def)

lemma wait_turn_Sleeping:
  assumes "wait_turn kend i t = Ret (Sleeping ch, t')" "i < length (procs t)" "pstate (procs t ! i) = RUNNING"
  shows "moved i t t' \<and> left i t' \<and> ptlock t"
proof -
  have "t' = sleep_mark i (ChProc i) t" "ptlock t"
    using assms(1) by (auto simp: wait_turn_def kbind_Ret_iff sleep_enter_def sched_checks_Ret Let_def sleep_mark_def split: option.splits if_splits)
  then show ?thesis using assms(2,3) moved_upd [of t i "\<lambda>p. p\<lparr>pchan := ChProc i, pstate := SLEEPING\<rparr>"]
    by (auto simp: sleep_mark_def left_def ready_running)
qed

lemma op_quiet:
  assumes "proc_op kend i t t'" "pstate (procs t ! i) = RUNNING"
  shows "quiet t t' \<and> ptlock t' = ptlock t"
  using assms(1)
proof cases
  case (op_wakeup ch)
  then show ?thesis using wakeup_quiet by blast
next
  case (op_kill n r)
  then show ?thesis using kill_quiet by blast
next
  case (op_alloc r)
  then show ?thesis using alloc_quiet by blast
next
  case (op_build j f)
  then show ?thesis using quiet_upd [of f t j] by (auto simp: ready_def)
next
  case (op_runnable j)
  then show ?thesis using runnable_quiet by blast
next
  case (op_wait r)
  then show ?thesis using wait_turn_Done [of kend i "t\<lparr>ptlock := True\<rparr>"] by (auto simp: wait_def kbind_Ret_iff pt_acquire_Ret)
next
  case (op_own f)
  then show ?thesis using quiet_upd [of f t i] assms(2) by (auto simp: ready_def)
qed simp

lemma leave_moved:
  assumes "proc_leave kend i t t'" "i < length (procs t)" "pstate (procs t ! i) = RUNNING"
  shows "moved i t t' \<and> left i t' \<and> \<not> ptlock t"
  using assms(1)
proof cases
  case leave_yield
  then show ?thesis using assms(2,3) moved_upd [of t i "\<lambda>p. p\<lparr>pstate := RUNNABLE\<rparr>"]
    by (auto simp: yield_enter_def kbind_Ret_iff pt_acquire_Ret sched_checks_Ret Let_def left_def ready_running upd_proc_ptlock)
next
  case (leave_sleep ch lk)
  then show ?thesis using assms(2,3) moved_upd [of t i "\<lambda>p. p\<lparr>pchan := ch, pstate := SLEEPING\<rparr>"]
    by (auto simp: sleep_enter_def kbind_Ret_iff pt_acquire_Ret sched_checks_Ret Let_def left_def ready_running upd_proc_ptlock sleep_mark_def)
next
  case leave_exit
  define u where "u = reparent i [0..<length (procs t)] (wakeup1 (chan_of (parent (procs t ! i))) (t\<lparr>ptlock := True\<rparr>))"
  have q: "quiet t u" using quiet_trans [OF quiet_wakeup1 quiet_reparent, of "t\<lparr>ptlock := True\<rparr>"] by (simp add: u_def)
  have t': "t' = upd_proc i (\<lambda>p. p\<lparr>pstate := ZOMBIE\<rparr>) u" "\<not> ptlock t" "ptlock t'"
    using leave_exit by (auto simp: become_zombie_def kbind_Ret_iff pt_acquire_Ret sched_checks_Ret Let_def u_def)
  have "pstate (procs u ! i) = RUNNING" "i < length (procs u)" using q assms(2,3) by (auto simp: quiet_def)
  then show ?thesis using quiet_then_moved [OF q moved_upd, of i "\<lambda>p. p\<lparr>pstate := ZOMBIE\<rparr>"] t'
    by (auto simp: left_def ready_running)
next
  case (leave_wait ch)
  then show ?thesis using wait_turn_Sleeping [of kend i "t\<lparr>ptlock := True\<rparr>"] assms(2,3) by (auto simp: wait_def kbind_Ret_iff pt_acquire_Ret)
qed

lemma quiet_sleep_exit: "quiet t (upd_proc i (\<lambda>p. p\<lparr>pchan := ch\<rparr>) t)"
  by (rule quiet_upd) (simp_all add: ready_def)

lemma resume_quiet:
  assumes "proc_resume kend i t t'"
  shows "quiet t t' \<and> ptlock t \<and> \<not> ptlock t'"
  using assms
proof cases
  case resume_release
  then show ?thesis by (simp add: pt_release_Ret)
next
  case (resume_sleep lk)
  then show ?thesis using quiet_sleep_exit by (auto simp: sleep_exit_def kbind_Ret_iff pt_release_Ret Let_def)
next
  case (resume_wait r)
  then have "wait_turn kend i (upd_proc i (\<lambda>p. p\<lparr>pchan := ChNull\<rparr>) t) = Ret (Done r, t')"
    by (auto simp: wait_resume_def kbind_Ret_iff sleep_exit_def)
  then show ?thesis using wait_turn_Done quiet_trans [OF quiet_sleep_exit] by fastforce
qed

lemma again_moved:
  assumes "wait_resume kend i t = Ret (Sleeping ch, t')" "i < length (procs t)" "pstate (procs t ! i) = RUNNING"
  shows "moved i t t' \<and> left i t' \<and> ptlock t"
proof -
  have "wait_turn kend i (upd_proc i (\<lambda>p. p\<lparr>pchan := ChNull\<rparr>) t) = Ret (Sleeping ch, t')"
    using assms(1) by (auto simp: wait_resume_def kbind_Ret_iff sleep_exit_def)
  then show ?thesis using wait_turn_Sleeping assms(2,3) quiet_then_moved [OF quiet_sleep_exit] by fastforce
qed

subsection \<open>Invariant\<close>

text \<open>
  The processors that hold \<^verbatim>\<open>ptable.lock\<close>, and those that execute a process. \<open>cpu_ok\<close> ties \<^verbatim>\<open>c->proc\<close> to the
  state of the process.
\<close>

definition inside :: "scpu \<Rightarrow> bool" where
  "inside k \<longleftrightarrow> cpu_at k \<in> {CScan, CRuns True, CBack}"

definition running :: "scpu \<Rightarrow> bool" where
  "running k \<longleftrightarrow> cpu_at k \<in> {CRuns True, CRuns False}"

definition cpu_ok :: "'a ptable_scheme \<Rightarrow> scpu \<Rightarrow> bool" where
  "cpu_ok t k \<longleftrightarrow>
     (if running k then cpu_proc k = Some (cpu_p k) \<and> cpu_p k < NPROC \<and> pstate (procs t ! cpu_p k) = RUNNING
      else if cpu_at k = CBack
      then cpu_proc k = Some (cpu_p k) \<and> cpu_p k < NPROC \<and> pstate (procs t ! cpu_p k) \<in> {RUNNABLE, SLEEPING, ZOMBIE}
      else cpu_proc k = None)"

definition sched_inv :: "'a ptable_scheme \<Rightarrow> scpu list \<Rightarrow> bool" where
  "sched_inv t cs \<longleftrightarrow> length (procs t) = NPROC \<and> (\<forall>i<NPROC. ready (procs t ! i)) \<and>
     (\<forall>c<length cs. cpu_ok t (cs ! c) \<and> (inside (cs ! c) \<longrightarrow> ptlock t)) \<and>
     (\<forall>c<length cs. \<forall>d<length cs. inside (cs ! c) \<longrightarrow> inside (cs ! d) \<longrightarrow> c = d) \<and>
     (\<forall>c<length cs. \<forall>d<length cs. running (cs ! c) \<longrightarrow> running (cs ! d) \<longrightarrow> cpu_p (cs ! c) = cpu_p (cs ! d) \<longrightarrow> c = d) \<and>
     (\<forall>i<NPROC. pstate (procs t ! i) = RUNNING \<longrightarrow> (\<exists>c<length cs. running (cs ! c) \<and> cpu_p (cs ! c) = i))"

lemma sched_invD:
  assumes "sched_inv t cs"
  shows "length (procs t) = NPROC" "i < NPROC \<Longrightarrow> ready (procs t ! i)" "c < length cs \<Longrightarrow> cpu_ok t (cs ! c)"
    "c < length cs \<Longrightarrow> inside (cs ! c) \<Longrightarrow> ptlock t"
    "c < length cs \<Longrightarrow> d < length cs \<Longrightarrow> inside (cs ! c) \<Longrightarrow> inside (cs ! d) \<Longrightarrow> c = d"
    "c < length cs \<Longrightarrow> d < length cs \<Longrightarrow> running (cs ! c) \<Longrightarrow> running (cs ! d) \<Longrightarrow> cpu_p (cs ! c) = cpu_p (cs ! d) \<Longrightarrow> c = d"
    "i < NPROC \<Longrightarrow> pstate (procs t ! i) = RUNNING \<Longrightarrow> \<exists>c<length cs. running (cs ! c) \<and> cpu_p (cs ! c) = i"
  using assms unfolding sched_inv_def by blast+

text \<open>A step that leaves the processors alone; when it does not take the lock, the settled processes stay as they are.\<close>

lemma inv_quiet:
  assumes "sched_inv t cs" "quiet t t'" "ptlock t' = ptlock t"
    "ptlock t \<Longrightarrow> \<forall>j<NPROC. pstate (procs t ! j) \<in> {RUNNABLE, SLEEPING, ZOMBIE} \<longrightarrow> pstate (procs t' ! j) = pstate (procs t ! j)"
  shows "sched_inv t' cs"
proof -
  note D = sched_invD [OF assms(1)]
  have q: "length (procs t') = NPROC" "\<And>j. j < NPROC \<Longrightarrow> pstate (procs t' ! j) = RUNNING \<longleftrightarrow> pstate (procs t ! j) = RUNNING"
    "\<And>j. j < NPROC \<Longrightarrow> ready (procs t' ! j)"
    using assms(2) D(1,2) by (simp_all add: quiet_def)
  have "cpu_ok t' (cs ! c)" if c: "c < length cs" for c
    using D(3) [OF c] D(4) [OF c] assms(4) q(2) by (auto simp: cpu_ok_def inside_def split: if_splits)
  then show ?thesis using D(4-7) q assms(3) unfolding sched_inv_def by simp
qed

text \<open>A step of processor \<open>c\<close>, during which no other processor holds the lock.\<close>

lemma inv_update:
  assumes "sched_inv t cs" "c < length cs" "inside (cs ! c) \<or> \<not> ptlock t" "length (procs t') = NPROC" "\<And>j. j < NPROC \<Longrightarrow> ready (procs t' ! j)"
    "cpu_ok t' k" "inside k \<Longrightarrow> ptlock t'"
    "\<And>d. d < length cs \<Longrightarrow> d \<noteq> c \<Longrightarrow> running (cs ! d) \<Longrightarrow> pstate (procs t' ! cpu_p (cs ! d)) = RUNNING \<and> (running k \<longrightarrow> cpu_p (cs ! d) \<noteq> cpu_p k)"
    "\<And>j. j < NPROC \<Longrightarrow> pstate (procs t' ! j) = RUNNING \<Longrightarrow>
      running k \<and> cpu_p k = j \<or> pstate (procs t ! j) = RUNNING \<and> (running (cs ! c) \<longrightarrow> cpu_p (cs ! c) \<noteq> j)"
  shows "sched_inv t' (cs[c := k])"
proof -
  note D = sched_invD [OF assms(1)]
  have out: "\<not> inside (cs ! d)" if "d < length cs" "d \<noteq> c" for d
    using that D(4) [OF that(1)] D(5) [OF that(1) assms(2)] assms(3) by blast
  have ok: "cpu_ok t' (cs[c := k] ! d) \<and> (inside (cs[c := k] ! d) \<longrightarrow> ptlock t')" if "d < length cs" for d
    using that D(3) [OF that] out [OF that] assms(2,6,7) assms(8) [OF that]
    by (cases "d = c") (auto simp: cpu_ok_def inside_def split: if_splits)
  have ins: "d = e" if "d < length cs" "e < length cs" "inside (cs[c := k] ! d)" "inside (cs[c := k] ! e)" for d e
    using that out by (cases "d = c"; cases "e = c") auto
  have run: "d = e" if "d < length cs" "e < length cs" "running (cs[c := k] ! d)" "running (cs[c := k] ! e)"
    "cpu_p (cs[c := k] ! d) = cpu_p (cs[c := k] ! e)" for d e
    using that D(6) [OF that(1,2)] assms(8) [OF that(1)] assms(8) [OF that(2)] by (cases "d = c"; cases "e = c") auto
  have cov: "\<exists>d<length cs. running (cs[c := k] ! d) \<and> cpu_p (cs[c := k] ! d) = j" if j: "j < NPROC" "pstate (procs t' ! j) = RUNNING" for j
  proof (cases "running k \<and> cpu_p k = j")
    case True
    then show ?thesis using assms(2) by (intro exI [of _ c]) simp
  next
    case False
    then obtain d where d: "d < length cs" "running (cs ! d)" "cpu_p (cs ! d) = j" "running (cs ! c) \<longrightarrow> cpu_p (cs ! c) \<noteq> j"
      using D(7) assms(9) [OF j] j(1) by blast
    then have "d \<noteq> c" by blast
    then show ?thesis using d by (intro exI [of _ d]) simp
  qed
  show ?thesis unfolding sched_inv_def length_list_update using assms(4,5) ok ins run cov by blast
qed

text \<open>The process on processor \<open>c\<close> goes on without the lock or leaves the processor.\<close>

lemma inv_moved:
  assumes "sched_inv t cs" "c < length cs" "running (cs ! c)" "moved (cpu_p (cs ! c)) t t'" "inside (cs ! c) \<or> \<not> ptlock t"
    "pl = CRuns False \<and> pstate (procs t' ! cpu_p (cs ! c)) = RUNNING \<or> pl = CBack \<and> left (cpu_p (cs ! c)) t'"
  shows "sched_inv t' (cs[c := (cs ! c)\<lparr>cpu_at := pl\<rparr>])"
proof (rule inv_update [OF assms(1,2,5)])
  let ?i = "cpu_p (cs ! c)" and ?k = "(cs ! c)\<lparr>cpu_at := pl\<rparr>"
  note D = sched_invD [OF assms(1)]
  show "length (procs t') = NPROC" "\<And>j. j < NPROC \<Longrightarrow> ready (procs t' ! j)" using assms(4) D(1,2) by (simp_all add: moved_def)
  have q: "j < NPROC \<Longrightarrow> j \<noteq> ?i \<Longrightarrow> pstate (procs t' ! j) = RUNNING \<longleftrightarrow> pstate (procs t ! j) = RUNNING" for j
    using assms(4) D(1) by (simp add: moved_def)
  show "cpu_ok t' ?k" "inside ?k \<Longrightarrow> ptlock t'"
    using assms(3,6) D(3) [OF assms(2)] by (auto simp: cpu_ok_def running_def inside_def left_def)
  show "pstate (procs t' ! cpu_p (cs ! d)) = RUNNING \<and> (running ?k \<longrightarrow> cpu_p (cs ! d) \<noteq> cpu_p ?k)"
    if "d < length cs" "d \<noteq> c" "running (cs ! d)" for d
  proof -
    have "cpu_p (cs ! d) \<noteq> ?i" using D(6) [OF that(1) assms(2) that(3) assms(3)] that(2) by blast
    moreover have "cpu_p (cs ! d) < NPROC" "pstate (procs t ! cpu_p (cs ! d)) = RUNNING" using D(3) [OF that(1)] that(3) by (simp_all add: cpu_ok_def)
    ultimately show ?thesis using q by simp
  qed
  show "running ?k \<and> cpu_p ?k = j \<or> pstate (procs t ! j) = RUNNING \<and> (running (cs ! c) \<longrightarrow> cpu_p (cs ! c) \<noteq> j)"
    if "j < NPROC" "pstate (procs t' ! j) = RUNNING" for j
    using that q assms(6) by (cases "j = ?i") (auto simp: running_def left_def)
qed

text \<open>The steps of the scheduler itself.\<close>

lemma inv_scan:
  assumes "sched_inv t cs" "c < length cs" "\<not> running (cs ! c)" "\<not> running k" "cpu_at k \<noteq> CBack" "cpu_proc k = None"
    "procs t' = procs t" "inside (cs ! c) \<or> \<not> ptlock t" "inside k \<Longrightarrow> ptlock t'"
  shows "sched_inv t' (cs[c := k])"
proof (rule inv_update [OF assms(1,2,8)])
  note D = sched_invD [OF assms(1)]
  show "cpu_ok t' k" using assms(4-6) by (simp add: cpu_ok_def)
  show "pstate (procs t' ! cpu_p (cs ! d)) = RUNNING \<and> (running k \<longrightarrow> cpu_p (cs ! d) \<noteq> cpu_p k)" if "d < length cs" "running (cs ! d)" for d
    using D(3) [OF that(1)] that(2) assms(4,7) by (simp add: cpu_ok_def)
qed (use sched_invD(1,2) [OF assms(1)] assms(3,4,7,9) in auto)

lemma switchuvm_ready: "ready p \<Longrightarrow> pstate p = RUNNABLE \<Longrightarrow> switchuvm (Some p) = Ret (kstack p + KSTACKSIZE, V2P (pgdir p))"
  by (auto simp: ready_def switchuvm_def)

lemma slot_cases:
  assumes "ready (procs t ! cpu_p k)"
  shows "scheduler_slot k t = Ret (if pstate (procs t ! cpu_p k) = RUNNABLE
      then (k\<lparr>cpu_proc := Some (cpu_p k), cpu_esp0 := kstack (procs t ! cpu_p k) + KSTACKSIZE, cpu_cr3 := V2P (pgdir (procs t ! cpu_p k)),
              cpu_at := CRuns True\<rparr>, upd_proc (cpu_p k) (\<lambda>p. p\<lparr>pstate := RUNNING\<rparr>) t)
      else (k\<lparr>cpu_p := cpu_p k + 1\<rparr>, t))"
  using switchuvm_ready [OF assms] by (auto simp: scheduler_slot_def Let_def)

lemma inv_dispatch:
  assumes "sched_inv t cs" "c < length cs" "cpu_at (cs ! c) = CScan" "i < NPROC" "pstate (procs t ! i) = RUNNABLE"
    "cpu_p k = i" "cpu_proc k = Some i" "cpu_at k = CRuns True"
  shows "sched_inv (upd_proc i (\<lambda>p. p\<lparr>pstate := RUNNING\<rparr>) t) (cs[c := k])"
proof -
  let ?t = "upd_proc i (\<lambda>p. p\<lparr>pstate := RUNNING\<rparr>) t"
  note D = sched_invD [OF assms(1)]
  have c: "inside (cs ! c)" "\<not> running (cs ! c)" using assms(3) by (auto simp: inside_def running_def)
  have k: "running k" using assms(8) by (auto simp: running_def)
  show ?thesis
  proof (rule inv_update [OF assms(1,2)])
    show "inside (cs ! c) \<or> \<not> ptlock t" "length (procs ?t) = NPROC" "inside k \<Longrightarrow> ptlock ?t" using c(1) D(1) D(4) [OF assms(2)] by simp_all
    show "ready (procs ?t ! j)" if "j < NPROC" for j using D(1) D(2) [OF that] assms(4,5) that by (auto simp: ready_def nth_list_update)
    show "cpu_ok ?t k" using k assms(4,6,7) D(1) by (simp add: cpu_ok_def)
    show "pstate (procs ?t ! cpu_p (cs ! d)) = RUNNING \<and> (running k \<longrightarrow> cpu_p (cs ! d) \<noteq> cpu_p k)" if "d < length cs" "running (cs ! d)" for d
      using D(3) [OF that(1)] that(2) assms(5,6) by (cases "cpu_p (cs ! d) = i") (auto simp: cpu_ok_def)
    show "running k \<and> cpu_p k = j \<or> pstate (procs t ! j) = RUNNING \<and> (running (cs ! c) \<longrightarrow> cpu_p (cs ! c) \<noteq> j)"
      if "j < NPROC" "pstate (procs ?t ! j) = RUNNING" for j
      using that k assms(6) c(2) by (cases "j = i") simp_all
  qed
qed

lemma upd_other: "pstate (procs t ! j) \<noteq> pstate (procs t ! i) \<Longrightarrow> pstate (procs (upd_proc i f t) ! j) = pstate (procs t ! j)"
  by (cases "j = i") simp_all

lemma op_settled:
  assumes "proc_op kend i t t'" "ptlock t" "pstate (procs t ! i) = RUNNING"
  shows "\<forall>j<NPROC. pstate (procs t ! j) \<in> {RUNNABLE, SLEEPING, ZOMBIE} \<longrightarrow> pstate (procs t' ! j) = pstate (procs t ! j)"
  using assms(1)
proof cases
  case (op_build j f)
  then show ?thesis using upd_other [of t _ j f] by auto
next
  case (op_own f)
  then show ?thesis using upd_other [of t _ i f] assms(3) by auto
qed (use assms(2) in \<open>auto simp: wakeup_def kill_def alloc_slot_def make_runnable_def wait_def kbind_Ret_iff pt_acquire_Ret\<close>)

lemma inv_running:
  assumes "sched_inv t cs" "c < length cs" "cpu_at (cs ! c) = CRuns h"
  shows "running (cs ! c)" "pstate (procs t ! cpu_p (cs ! c)) = RUNNING" "cpu_p (cs ! c) < length (procs t)" "inside (cs ! c) \<longleftrightarrow> h"
  using sched_invD(3) [OF assms(1,2)] sched_invD(1) [OF assms(1)] assms(3)
  by (cases h; simp add: cpu_ok_def running_def inside_def)+

lemma sched_inv_step:
  assumes "sys_step kend kpgdir t cs e t' cs'" "sched_inv t cs"
  shows "sched_inv t' cs'"
  using assms(1)
proof cases
  case (step_enter c k)
  then show ?thesis using inv_scan [OF assms(2), of c k t'] sched_invD(3) [OF assms(2), of c]
    by (auto simp: scheduler_enter_def kbind_Ret_iff pt_acquire_Ret running_def cpu_ok_def inside_def)
next
  case (step_slot c k)
  note D = sched_invD [OF assms(2)]
  have n: "\<not> running (cs ! c)" "inside (cs ! c)" "cpu_proc (cs ! c) = None" "ptlock t"
    using step_slot D(3,4) [of c] by (auto simp: running_def inside_def cpu_ok_def)
  show ?thesis
  proof (cases "pstate (procs t ! cpu_p (cs ! c)) = RUNNABLE")
    case True
    then show ?thesis using inv_dispatch [OF assms(2) step_slot(3,4,5)] slot_cases [OF D(2) [OF step_slot(5)]] step_slot(2,6) by simp
  next
    case False
    then show ?thesis using inv_scan [OF assms(2) step_slot(3) n(1), of k t] n slot_cases [OF D(2) [OF step_slot(5)]] step_slot(2,4,6)
      by (auto simp: running_def)
  qed
next
  case (step_back c)
  note D = sched_invD(4) [OF assms(2) step_back(4)]
  show ?thesis using inv_scan [OF assms(2) step_back(4), of "scheduler_back kpgdir (cs ! c)" t] step_back D
    by (auto simp: scheduler_back_def switchkvm_def running_def inside_def)
next
  case (step_leave c k)
  note D = sched_invD(3,4) [OF assms(2) step_leave(3)]
  show ?thesis using inv_scan [OF assms(2) step_leave(3), of k t'] step_leave D
    by (auto simp: scheduler_leave_def kbind_Ret_iff pt_release_Ret running_def inside_def cpu_ok_def)
next
  case (step_interrupt c ch)
  then show ?thesis using wakeup_quiet [of ch t t'] inv_quiet [OF assms(2)] by auto
next
  case (step_op c)
  note r = inv_running [OF assms(2) step_op(3,4)]
  show ?thesis using op_quiet [OF step_op(5) r(2)] op_settled [OF step_op(5) _ r(2)] inv_quiet [OF assms(2)] step_op(2) by blast
next
  case (step_switch c)
  note r = inv_running [OF assms(2) step_switch(3,4)]
  show ?thesis using leave_moved [OF step_switch(5) r(3,2)] inv_moved [OF assms(2) step_switch(3) r(1)] step_switch(2) by blast
next
  case (step_resume c)
  note r = inv_running [OF assms(2) step_resume(3,4)]
  have q: "quiet t t'" using resume_quiet step_resume(5) by blast
  then have "pstate (procs t' ! cpu_p (cs ! c)) = RUNNING" using r(2,3) by (simp add: quiet_def)
  then show ?thesis using inv_moved [OF assms(2) step_resume(3) r(1) quiet_moved [OF q]] r(4) step_resume(2) by blast
next
  case (step_again c ch)
  note r = inv_running [OF assms(2) step_again(3,4)]
  show ?thesis using again_moved [OF step_again(5) r(3,2)] inv_moved [OF assms(2) step_again(3) r(1)] r(4) step_again(2) by blast
qed

text \<open>How the states of runnable processes change: only the scheduler takes one off, and then it is dispatched.\<close>

lemma quiet_runnable: "quiet t t' \<Longrightarrow> i < length (procs t) \<Longrightarrow> pstate (procs t ! i) = RUNNABLE \<Longrightarrow> pstate (procs t' ! i) = RUNNABLE"
  by (simp add: quiet_def)

lemma moved_runnable:
  "moved j t t' \<Longrightarrow> pstate (procs t ! j) = RUNNING \<Longrightarrow> i < length (procs t) \<Longrightarrow> pstate (procs t ! i) = RUNNABLE \<Longrightarrow> pstate (procs t' ! i) = RUNNABLE"
  by (cases "i = j") (simp_all add: moved_def)

lemma runnable_step:
  assumes "sys_step kend kpgdir t cs e t' cs'" "sched_inv t cs" "i < NPROC" "pstate (procs t ! i) = RUNNABLE"
  shows "pstate (procs t' ! i) = RUNNABLE \<or> (\<exists>c. e = Dispatch c i)"
proof -
  note D = sched_invD [OF assms(2)]
  have i: "i < length (procs t)" using D(1) assms(3) by simp
  from assms(1) show ?thesis
  proof cases
    case (step_enter c k)
    then show ?thesis using assms(4) by (auto simp: scheduler_enter_def kbind_Ret_iff pt_acquire_Ret)
  next
    case (step_slot c k)
    then show ?thesis using slot_cases [OF D(2) [OF step_slot(5)]] assms(4) by (auto simp: nth_list_update split: if_splits)
  next
    case (step_leave c k)
    then show ?thesis using assms(4) by (auto simp: scheduler_leave_def kbind_Ret_iff pt_release_Ret)
  next
    case (step_interrupt c ch)
    then show ?thesis using wakeup_quiet quiet_runnable [OF _ i assms(4)] by blast
  next
    case (step_op c)
    then show ?thesis using op_quiet inv_running(2) [OF assms(2) step_op(3,4)] quiet_runnable [OF _ i assms(4)] by blast
  next
    case (step_switch c)
    then show ?thesis using leave_moved inv_running(2,3) [OF assms(2) step_switch(3,4)] moved_runnable [OF _ _ i assms(4)] by blast
  next
    case (step_resume c)
    then show ?thesis using resume_quiet quiet_runnable [OF _ i assms(4)] by blast
  next
    case (step_again c ch)
    then show ?thesis using again_moved inv_running(2,3) [OF assms(2) step_again(3,4)] moved_runnable [OF _ _ i assms(4)] by blast
  qed (use assms(4) in simp)
qed

text \<open>The first slot that the pass of a processor has still to look at.\<close>

definition ahead :: "scpu \<Rightarrow> nat" where
  "ahead k = (if cpu_at k = CScan then cpu_p k else cpu_p k + 1)"

lemma ahead_step:
  assumes "sys_step kend kpgdir t cs e t' cs'" "sched_inv t cs" "i < NPROC" "pstate (procs t ! i) = RUNNABLE"
    "c < length cs" "cpu_at (cs ! c) \<noteq> CIdle" "ahead (cs ! c) \<le> i" "e \<noteq> Finish c"
  shows "cpu_at (cs' ! c) \<noteq> CIdle \<and> (ahead (cs' ! c) \<le> i \<or> (\<exists>c. e = Dispatch c i))"
proof -
  note D = sched_invD [OF assms(2)]
  from assms(1) show ?thesis
  proof cases
    case (step_enter d k)
    then show ?thesis using assms(6,7) by (cases "d = c") auto
  next
    case (step_slot d k)
    show ?thesis
    proof (cases "d = c")
      case True
      then show ?thesis using step_slot slot_cases [OF D(2) [OF step_slot(5)]] assms(4,7)
        by (cases "pstate (procs t ! cpu_p (cs ! c)) = RUNNABLE") (auto simp: ahead_def le_eq_less_or_eq)
    qed (use step_slot assms(6,7) in simp)
  next
    case (step_back d)
    then show ?thesis using assms(5,7) by (cases "d = c") (auto simp: scheduler_back_def switchkvm_def ahead_def assms(6))
  next
    case (step_leave d k)
    then show ?thesis using assms(6-8) by (cases "d = c") auto
  next
    case (step_switch d)
    then show ?thesis using assms(6,7) by (cases "d = c") (auto simp: ahead_def)
  next
    case (step_resume d)
    then show ?thesis using assms(6,7) by (cases "d = c") (auto simp: ahead_def)
  next
    case (step_again d ch)
    then show ?thesis using assms(6,7) by (cases "d = c") (auto simp: ahead_def)
  qed (use assms(6,7) in auto)
qed

lemma step_length: "sys_step kend kpgdir t cs e t' cs' \<Longrightarrow> length cs' = length cs"
  by (cases rule: sys_step.cases) auto

lemma path_inv:
  assumes "sys_path kend kpgdir t cs es t' cs'" "sched_inv t cs"
  shows "sched_inv t' cs' \<and> length cs' = length cs"
  using assms by (induction rule: sys_path.induct) (auto dest: sched_inv_step step_length)

lemma pass_progress:
  assumes "sys_path kend kpgdir t cs es t' cs'" "sched_inv t cs" "i < NPROC" "pstate (procs t ! i) = RUNNABLE"
    "c < length cs" "cpu_at (cs ! c) = CScan" "cpu_p (cs ! c) = 0" "Finish c \<notin> set es"
  shows "(\<exists>d. Dispatch d i \<in> set es) \<or> pstate (procs t' ! i) = RUNNABLE \<and> cpu_at (cs' ! c) \<noteq> CIdle \<and> ahead (cs' ! c) \<le> i"
  using assms(1,8)
proof (induction rule: sys_path.induct)
  case path_nil
  then show ?case using assms(4,6,7) by (simp add: ahead_def)
next
  case (path_snoc es t' cs' e t'' cs'')
  note v = path_inv [OF path_snoc(1) assms(2)]
  then have c: "c < length cs'" using assms(5) by simp
  show ?case
    using path_snoc runnable_step [OF path_snoc(2) _ assms(3)] ahead_step [OF path_snoc(2) _ assms(3) _ c] v by auto
qed

lemma start_inv: "sys_start t cs \<Longrightarrow> sched_inv t cs"
  by (auto simp: sys_start_def sched_inv_def cpu_ok_def inside_def running_def)

text \<open>What the invariant says about \<^verbatim>\<open>c->proc\<close>.\<close>

lemma inv_proc:
  assumes "sched_inv t cs" "c < length cs" "cpu_proc (cs ! c) = Some i"
  shows "i < NPROC \<and> (pstate (procs t ! i) = RUNNING \<and> running (cs ! c) \<or>
      pstate (procs t ! i) \<in> {RUNNABLE, SLEEPING, ZOMBIE} \<and> cpu_at (cs ! c) = CBack \<and> ptlock t) \<and> cpu_p (cs ! c) = i"
  using sched_invD(3,4) [OF assms(1,2)] assms(3) by (auto simp: cpu_ok_def inside_def split: if_splits)

lemma inv_exclusive:
  assumes "sched_inv t cs" "c < length cs" "d < length cs" "cpu_proc (cs ! c) = Some i" "cpu_proc (cs ! d) = Some i"
  shows "c = d"
proof (cases "pstate (procs t ! i) = RUNNING")
  case True
  then show ?thesis using inv_proc [OF assms(1,2,4)] inv_proc [OF assms(1,3,5)] by (intro sched_invD(6) [OF assms(1-3)]) auto
next
  case False
  then show ?thesis using inv_proc [OF assms(1,2,4)] inv_proc [OF assms(1,3,5)] by (intro sched_invD(5) [OF assms(1-3)]) (auto simp: inside_def)
qed

text \<open>
  C27. The scheduler on any number of processors, each of which may be interrupted by the others at every point where
  \<^verbatim>\<open>ptable.lock\<close> allows it. No process is the \<^verbatim>\<open>c->proc\<close> of two processors. A process that is RUNNING is the one of
  some processor, and the one of a processor is RUNNING unless that processor holds the lock on its way back from the
  process; in particular it has not been reaped. \<^verbatim>\<open>switchuvm\<close> does not panic on the process that the scan
  has found. When a processor has gone through the table, every process that was RUNNABLE as its pass began has been
  switched to since, by this processor or another one.
\<close>

theorem scheduler_correct:
  assumes "sys_start t0 cs0" "sys_path kend kpgdir t0 cs0 es0 t cs"
  shows "(\<forall>c<length cs. \<forall>d<length cs. \<forall>i. cpu_proc (cs ! c) = Some i \<longrightarrow> cpu_proc (cs ! d) = Some i \<longrightarrow> c = d) \<and>
    (\<forall>i<NPROC. pstate (procs t ! i) = RUNNING \<longrightarrow> (\<exists>c<length cs. cpu_proc (cs ! c) = Some i)) \<and>
    (\<forall>c<length cs. \<forall>i. cpu_proc (cs ! c) = Some i \<longrightarrow> i < NPROC \<and> (pstate (procs t ! i) = RUNNING \<or>
      pstate (procs t ! i) \<in> {RUNNABLE, SLEEPING, ZOMBIE} \<and> cpu_at (cs ! c) = CBack \<and> ptlock t)) \<and>
    (\<forall>c<length cs. cpu_at (cs ! c) = CScan \<longrightarrow> cpu_p (cs ! c) < NPROC \<longrightarrow> (\<exists>k t'. scheduler_slot (cs ! c) t = Ret (k, t'))) \<and>
    (\<forall>c i es t' cs'. c < length cs \<and> cpu_at (cs ! c) = CScan \<and> cpu_p (cs ! c) = 0 \<and> i < NPROC \<and> pstate (procs t ! i) = RUNNABLE \<and>
      sys_path kend kpgdir t cs es t' cs' \<and> Finish c \<notin> set es \<and> cpu_at (cs' ! c) = CScan \<and> cpu_p (cs' ! c) = NPROC \<longrightarrow>
      (\<exists>d. Dispatch d i \<in> set es))"
proof -
  have v: "sched_inv t cs" using path_inv [OF assms(2) start_inv [OF assms(1)]] by blast
  note D = sched_invD [OF v]
  have "\<exists>c<length cs. cpu_proc (cs ! c) = Some i" if "i < NPROC" "pstate (procs t ! i) = RUNNING" for i
    using D(3,7) that unfolding cpu_ok_def by metis
  moreover have "\<exists>k t'. scheduler_slot (cs ! c) t = Ret (k, t')" if "cpu_p (cs ! c) < NPROC" for c
    using slot_cases [OF D(2) [OF that]] by (auto split: if_splits)
  moreover have "\<exists>d. Dispatch d i \<in> set es" if "c < length cs" "cpu_at (cs ! c) = CScan" "cpu_p (cs ! c) = 0" "i < NPROC"
    "pstate (procs t ! i) = RUNNABLE" "sys_path kend kpgdir t cs es t' cs'" "Finish c \<notin> set es" "cpu_at (cs' ! c) = CScan" "cpu_p (cs' ! c) = NPROC"
    for c i es t' cs'
    using pass_progress [OF that(6) v that(4,5,1,2,3,7)] that(4,8,9) by (auto simp: ahead_def)
  ultimately show ?thesis using inv_exclusive [OF v] inv_proc [OF v] by blast
qed

text \<open>
  One processor and one process, in the last slot. The scan passes over the other slots and runs it; the process
  yields and the pass is over.
\<close>

definition one_runnable :: ptable where
  "one_runnable = boot_table\<lparr>procs := replicate 63 empty_proc @ [empty_proc\<lparr>pstate := RUNNABLE, kstack := 0x80401000, pgdir := 0x80402000\<rparr>]\<rparr>"

definition idle_cpu :: scpu where
  "idle_cpu = \<lparr>cpu_proc = None, cpu_esp0 = 0, cpu_cr3 = 0, cpu_p = 0, cpu_at = CIdle\<rparr>"

lemma scan_path:
  assumes "cpu_at k = CScan" "cpu_p k = 0" "n \<le> NPROC" "\<forall>j<n. pstate (procs t ! j) \<noteq> RUNNABLE"
  shows "sys_path kend kpgdir t [k] (replicate n Other) t [k\<lparr>cpu_p := n\<rparr>]"
  using assms(3,4)
proof (induction n)
  case 0
  have "k\<lparr>cpu_p := 0\<rparr> = k" using assms(2) by (cases k) simp
  then show ?case by (simp add: path_nil)
next
  case (Suc n)
  have "scheduler_slot (k\<lparr>cpu_p := n\<rparr>) t = Ret (k\<lparr>cpu_p := Suc n\<rparr>, t)" using Suc.prems(2) by (simp add: scheduler_slot_def)
  then have "sys_step kend kpgdir t [k\<lparr>cpu_p := n\<rparr>] Other t [k\<lparr>cpu_p := Suc n\<rparr>]"
    using step_slot [of 0 "[k\<lparr>cpu_p := n\<rparr>]" t "k\<lparr>cpu_p := Suc n\<rparr>" t kend kpgdir] assms(1) Suc.prems(1) by simp
  then have "sys_path kend kpgdir t [k] (replicate n Other @ [Other]) t [k\<lparr>cpu_p := Suc n\<rparr>]"
    using Suc by (intro path_snoc [of kend kpgdir t "[k]" _ t "[k\<lparr>cpu_p := n\<rparr>]"]) simp_all
  then show ?case by (simp add: replicate_append_same)
qed

lemma one_runnable_start:
  "sys_start one_runnable [idle_cpu]" "\<not> ptlock one_runnable" "length (procs one_runnable) = NPROC"
  "procs one_runnable ! 63 = empty_proc\<lparr>pstate := RUNNABLE, kstack := 0x80401000, pgdir := 0x80402000\<rparr>"
  "j < 63 \<Longrightarrow> pstate (procs one_runnable ! j) = UNUSED"
  by (auto simp: sys_start_def one_runnable_def boot_table_def idle_cpu_def empty_proc_def ready_def nth_append)

theorem scheduler_correct_witness:
  "\<exists>t cs es t' cs'. sys_path 0x80115000 0x803FF000 one_runnable [idle_cpu] [Other] t cs \<and> pstate (procs t ! 63) = RUNNABLE \<and>
     sys_path 0x80115000 0x803FF000 t cs es t' cs' \<and> cpu_p (cs' ! 0) = NPROC \<and> (\<exists>d. Dispatch d 63 \<in> set es)"
proof -
  let ?P = "sys_path 0x80115000 0x803FF000" and ?S = "sys_step 0x80115000 0x803FF000"
  note o = one_runnable_start
  let ?t = "one_runnable\<lparr>ptlock := True\<rparr>" and ?k = "idle_cpu\<lparr>cpu_p := 0, cpu_at := CScan\<rparr>"
  have "?S one_runnable [idle_cpu] Other ?t [?k]"
    using step_enter [of 0 "[idle_cpu]" one_runnable ?k ?t] o(2) by (simp add: scheduler_enter_def kbind_Ret_iff pt_acquire_Ret idle_cpu_def)
  then have p0: "?P one_runnable [idle_cpu] [Other] ?t [?k]" using path_snoc [OF path_nil] by fastforce
  let ?k1 = "?k\<lparr>cpu_p := 63\<rparr>"
  have p1: "?P ?t [?k] (replicate 63 Other) ?t [?k1]" using o(5) by (intro scan_path) simp_all
  let ?t2 = "upd_proc 63 (\<lambda>p. p\<lparr>pstate := RUNNING\<rparr>) ?t"
  let ?k2 = "?k1\<lparr>cpu_proc := Some 63, cpu_esp0 := 0x80402000, cpu_cr3 := 0x402000, cpu_at := CRuns True\<rparr>"
  have "scheduler_slot ?k1 ?t = Ret (?k2, ?t2)" using o(4) by (simp add: scheduler_slot_def Let_def switchuvm_def V2P_def)
  then have s2: "?S ?t [?k1] (Dispatch 0 63) ?t2 [?k2]" using step_slot [of 0 "[?k1]" ?t ?k2 ?t2] by simp
  let ?t3 = "?t2\<lparr>ptlock := False\<rparr>" and ?k3 = "?k2\<lparr>cpu_at := CRuns False\<rparr>"
  have s3: "?S ?t2 [?k2] Other ?t3 [?k3]"
    using step_resume [of 0 "[?k2]" _ ?t2 ?t3] resume_release [of ?t2 ?t3] by (simp add: pt_release_Ret)
  let ?t4 = "upd_proc 63 (\<lambda>p. p\<lparr>pstate := RUNNABLE\<rparr>) (?t3\<lparr>ptlock := True\<rparr>)" and ?k4 = "?k3\<lparr>cpu_at := CBack\<rparr>"
  have "yield_enter 63 ?t3 = Ret ?t4" using o(3) by (simp add: yield_enter_def kbind_Ret_iff pt_acquire_Ret sched_checks_Ret Let_def)
  then have s4: "?S ?t3 [?k3] Other ?t4 [?k4]" using step_switch [of 0 "[?k3]" _ ?t3 ?t4] leave_yield by fastforce
  have s5: "?S ?t4 [?k4] Other ?t4 [scheduler_back 0x803FF000 ?k4]" using step_back [of 0 "[?k4]"] by simp
  define es where "es = (((replicate 63 Other @ [Dispatch 0 63]) @ [Other]) @ [Other]) @ [Other]"
  have p: "?P ?t [?k] es ?t4 [scheduler_back 0x803FF000 ?k4]"
    unfolding es_def using path_snoc [OF path_snoc [OF path_snoc [OF path_snoc [OF p1 s2] s3] s4] s5] .
  have "Finish 0 \<notin> set es" by (simp add: es_def)
  moreover have n: "cpu_p ([scheduler_back 0x803FF000 ?k4] ! 0) = NPROC" "cpu_at ([scheduler_back 0x803FF000 ?k4] ! 0) = CScan"
    by (simp_all add: scheduler_back_def switchkvm_def)
  moreover have r: "pstate (procs ?t ! 63) = RUNNABLE" using o(4) by simp
  moreover have "0 < length [?k]" "cpu_at ([?k] ! 0) = CScan" "cpu_p ([?k] ! 0) = 0" by simp_all
  moreover have "(63 :: nat) < NPROC" by simp
  ultimately have "\<exists>d. Dispatch d 63 \<in> set es"
    using scheduler_correct [OF o(1) p0, THEN conjunct2, THEN conjunct2, THEN conjunct2, THEN conjunct2] p by blast
  with p0 p n(1) r show ?thesis by blast
qed

end
