(* ===== verification/Exec.thy ===== *)
theory Exec
  imports Process
begin

text \<open>
  Loading a program: \<^verbatim>\<open>src/xv6A1/exec.c\<close>, \<^verbatim>\<open>loaduvm\<close> of \<^verbatim>\<open>src/xv6A1/vm.c\<close> and \<^verbatim>\<open>sys_exec\<close>. The headers of
  \<^verbatim>\<open>src/xv6A1/elf.h\<close> are read from the bytes that \<^verbatim>\<open>readi\<close> returns. The path is the list of its bytes,
  \<^verbatim>\<open>argv\<close> the list of its non-null pointers.
\<close>

abbreviation "ELF_MAGIC \<equiv> (0x464C457F :: uint)"
abbreviation "ELF_PROG_LOAD \<equiv> (1 :: uint)"
abbreviation "MAXARG \<equiv> (32 :: nat)"

record elfhdr =
  e_magic :: uint
  e_entry :: uint
  e_phoff :: uint
  e_phnum :: ushort

record proghdr =
  ph_type :: uint
  ph_off :: uint
  ph_vaddr :: uint
  ph_filesz :: uint
  ph_memsz :: uint

definition decode_elf :: "uchar list \<Rightarrow> elfhdr" where
  "decode_elf d = \<lparr>e_magic = get32 d 0, e_entry = get32 d 24, e_phoff = get32 d 28, e_phnum = get16 d 44\<rparr>"

definition decode_ph :: "uchar list \<Rightarrow> proghdr" where
  "decode_ph d = \<lparr>ph_type = get32 d 0, ph_off = get32 d 4, ph_vaddr = get32 d 8, ph_filesz = get32 d 16, ph_memsz = get32 d 20\<rparr>"

subsection \<open>Segments\<close>

text \<open>The loop of \<^verbatim>\<open>loaduvm\<close> over the page offsets; the result 0 is \<open>True\<close>.\<close>

primrec loaduvm_loop :: "(nat \<Rightarrow> 'a filest_scheme devsw) \<Rightarrow> nat \<Rightarrow> uint \<Rightarrow> uint \<Rightarrow> nat \<Rightarrow> uint \<Rightarrow> uint \<Rightarrow> uint list \<Rightarrow>
    'a filest_scheme \<Rightarrow> (bool \<times> 'a filest_scheme) kres" where
  "loaduvm_loop devs cur pd addr ip ofs n [] s = Ret (True, s)"
| "loaduvm_loop devs cur pd addr ip ofs n (i # is) s =
     kbind (on_kmem (walkpgdir pd (addr + i) False) s) (\<lambda>(pte, s).
       case pte of
         None \<Rightarrow> Panic ''loaduvm: address should exist''
       | Some p \<Rightarrow>
           let pa = PTE_ADDR (load32 (kmemory (lbio s)) p); k = (if n - i < PGSIZE then n - i else PGSIZE)
           in kbind (readi devs cur ip (ofs + i) k s) (\<lambda>(r, bs, s).
                let s = copy_out (P2V pa) bs s
                in if r \<noteq> k then Ret (False, s) else loaduvm_loop devs cur pd addr ip ofs n is s))"

definition loaduvm :: "(nat \<Rightarrow> 'a filest_scheme devsw) \<Rightarrow> nat \<Rightarrow> uint \<Rightarrow> uint \<Rightarrow> nat \<Rightarrow> uint \<Rightarrow> uint \<Rightarrow>
    'a filest_scheme \<Rightarrow> (bool \<times> 'a filest_scheme) kres" where
  "loaduvm devs cur pd addr ip ofs n s =
     (if addr mod PGSIZE \<noteq> 0 then Panic ''loaduvm: addr must be page aligned''
      else loaduvm_loop devs cur pd addr ip ofs n (page_range 0 n) s)"

text \<open>The loop over the program headers, \<open>k\<close> left; \<open>None\<close> is the jump to \<^verbatim>\<open>bad\<close>.\<close>

primrec load_segments :: "uint \<Rightarrow> (nat \<Rightarrow> 'a filest_scheme devsw) \<Rightarrow> nat \<Rightarrow> uint \<Rightarrow> nat \<Rightarrow> nat \<Rightarrow> uint \<Rightarrow> uint \<Rightarrow>
    'a filest_scheme \<Rightarrow> (uint option \<times> 'a filest_scheme) kres" where
  "load_segments kend devs cur pd ip 0 off n s = Ret (Some n, s)"
| "load_segments kend devs cur pd ip (Suc k) off n s =
     kbind (readi devs cur ip off 32 s) (\<lambda>(r, bs, s).
       let ph = decode_ph bs
       in if r \<noteq> 32 then Ret (None, s)
          else if ph_type ph \<noteq> ELF_PROG_LOAD then load_segments kend devs cur pd ip k (off + 32) n s
          else if ph_memsz ph < ph_filesz ph then Ret (None, s)
          else if ph_vaddr ph + ph_memsz ph < ph_vaddr ph then Ret (None, s)
          else kbind (on_kmem (allocuvm kend pd n (ph_vaddr ph + ph_memsz ph)) s) (\<lambda>(n, s).
            if n = 0 then Ret (None, s)
            else if ph_vaddr ph mod PGSIZE \<noteq> 0 then Ret (None, s)
            else kbind (loaduvm devs cur pd (ph_vaddr ph) ip (ph_off ph) (ph_filesz ph) s) (\<lambda>(ok, s).
              if \<not> ok then Ret (None, s) else load_segments kend devs cur pd ip k (off + 32) n s)))"

subsection \<open>Arguments\<close>

text \<open>
  The argument strings from the top of the stack down; \<open>us\<close> are their addresses so far, the first
  argument first. The result has the stack pointer and the addresses.
\<close>

primrec push_args :: "uint \<Rightarrow> uint list \<Rightarrow> nat \<Rightarrow> uint \<Rightarrow> uint list \<Rightarrow> 'a logst_scheme \<Rightarrow> ((uint \<times> uint list) option \<times> 'a logst_scheme) kres" where
  "push_args pd [] argc sp us s = Ret (Some (sp, us), s)"
| "push_args pd (a # as) argc sp us s =
     (if argc \<ge> MAXARG then Ret (None, s)
      else case strlen (kmemory (lbio s)) a of
             None \<Rightarrow> Spin
           | Some n \<Rightarrow>
               let sp = (sp - (of_nat n + 1)) AND NOT 3
               in kbind (on_kmem (copyout pd sp (read_bytes (kmemory (lbio s)) a (n + 1))) s) (\<lambda>(ok, s).
                    if \<not> ok then Ret (None, s) else push_args pd as (argc + 1) sp (us @ [sp]) s))"

definition word_bytes :: "uint \<Rightarrow> uchar list" where
  "word_bytes w = put32 [0, 0, 0, 0] 0 w"

text \<open>\<^verbatim>\<open>ustack\<close>: a return address, \<^verbatim>\<open>argc\<close>, \<^verbatim>\<open>argv\<close>, the argument pointers and a null pointer.\<close>

definition ustack :: "uint \<Rightarrow> uint list \<Rightarrow> uint list" where
  "ustack sp us = [0xffffffff, of_nat (length us), sp - (of_nat (length us) + 1) * 4] @ us @ [0]"

text \<open>The program name: the path after its last slash.\<close>

definition last_elem :: "uchar list \<Rightarrow> uchar list" where
  "last_elem path = rev (takeWhile (\<lambda>c. c \<noteq> slash) (rev path))"

subsection \<open>exec\<close>

text \<open>The label \<^verbatim>\<open>bad\<close>: \<open>d\<close> is the new page directory or 0, \<open>ip\<close> the inode while it is locked.\<close>

definition exec_bad :: "uint \<Rightarrow> nat \<Rightarrow> uint \<Rightarrow> nat option \<Rightarrow> 'a filest_scheme sysfun" where
  "exec_bad kend cur d ip s =
     kbind (if d \<noteq> 0 then do_kmem (freevm kend d) s else Ret s) (\<lambda>s.
       case ip of
         Some i \<Rightarrow> kbind (iunlockput cur i s) (end_with cur (-1))
       | None \<Rightarrow> Ret (-1, s))"

text \<open>From the commitment to the new image to the return.\<close>

definition exec_commit :: "uint \<Rightarrow> nat \<Rightarrow> uchar list \<Rightarrow> uint \<Rightarrow> uint \<Rightarrow> uint \<Rightarrow> uint \<Rightarrow> 'a filest_scheme sysfun" where
  "exec_commit kend cur path d n entry sp s =
     (let s = upd_cur cur (\<lambda>p. p\<lparr>pname := safestrcpy_bytes (pname p) (last_elem path) 16\<rparr>) s;
          old = pgdir (the_proc s cur);
          s = upd_cur cur (\<lambda>p. p\<lparr>pgdir := d, sz := n\<rparr>) s;
          t = tf (the_proc s cur);
          s = upd_mem (\<lambda>m. store32 (store32 m (t + TF_EIP) entry) (t + TF_ESP) sp) s;
          s = upd_cur cur (\<lambda>p. p\<lparr>handler := SIG_NONE, message := (message p)[0 := 0xff], dis_sig := 0, intr := 0\<rparr>) s
      in kbind (switchuvm (Some (the_proc s cur))) (\<lambda>_.
         kbind (do_kmem (freevm kend old) s) (\<lambda>s. Ret (0, s))))"

text \<open>From the allocation of the stack on.\<close>

definition exec_stack :: "uint \<Rightarrow> nat \<Rightarrow> uchar list \<Rightarrow> uint list \<Rightarrow> uint \<Rightarrow> uint \<Rightarrow> uint \<Rightarrow> 'a filest_scheme sysfun" where
  "exec_stack kend cur path argv d n entry s =
     (let n = PGROUNDUP n
      in kbind (on_kmem (allocuvm kend d n (n + 2 * PGSIZE)) s) (\<lambda>(n, s).
           if n = 0 then exec_bad kend cur d None s
           else kbind (do_kmem (clearpteu d (n - 2 * PGSIZE)) s) (\<lambda>s.
                kbind (push_args d argv 0 n [] s) (\<lambda>(r, s).
                  case r of
                    None \<Rightarrow> exec_bad kend cur d None s
                  | Some (sp, us) \<Rightarrow>
                      let sp' = sp - of_nat (3 + length us + 1) * 4
                      in kbind (on_kmem (copyout d sp' (concat (map word_bytes (ustack sp us)))) s) (\<lambda>(ok, s).
                           if \<not> ok then exec_bad kend cur d None s
                           else exec_commit kend cur path d n entry sp' s)))))"

definition exec :: "uint \<Rightarrow> uint \<Rightarrow> uchar list \<Rightarrow> (nat \<Rightarrow> 'a filest_scheme devsw) \<Rightarrow> nat \<Rightarrow> uchar list \<Rightarrow> uint list \<Rightarrow>
    'a filest_scheme sysfun" where
  "exec kend kdata junk devs cur path argv s =
     kbind (begin_op s) (\<lambda>s.
     kbind (namei junk devs cur path s) (\<lambda>(r, s).
       case r of
         None \<Rightarrow> end_with cur (-1) s
       | Some ip \<Rightarrow>
           kbind (ilock cur ip s) (\<lambda>s.
           kbind (readi devs cur ip 0 52 s) (\<lambda>(r, bs, s).
             let elf = decode_elf bs
             in if r \<noteq> 52 then exec_bad kend cur 0 (Some ip) s
                else if e_magic elf \<noteq> ELF_MAGIC then exec_bad kend cur 0 (Some ip) s
                else kbind (on_kmem (setupkvm kend kdata) s) (\<lambda>(d, s).
                  if d = 0 then exec_bad kend cur 0 (Some ip) s
                  else kbind (load_segments kend devs cur d ip (unat (e_phnum elf)) (e_phoff elf) 0 s) (\<lambda>(r, s).
                    case r of
                      None \<Rightarrow> exec_bad kend cur d (Some ip) s
                    | Some n \<Rightarrow>
                        kbind (iunlockput cur ip s) (\<lambda>s.
                        kbind (end_op cur s) (\<lambda>s.
                          exec_stack kend cur path argv d n (e_entry elf) s))))))))"

text \<open>The argument pointers of \<^verbatim>\<open>sys_exec\<close>; each is checked to be a string. \<open>k\<close> entries of \<^verbatim>\<open>argv\<close> are left.\<close>

primrec exec_args :: "nat \<Rightarrow> 'a logst_scheme \<Rightarrow> nat \<Rightarrow> uint \<Rightarrow> uint list option" where
  "exec_args cur s 0 a = None"
| "exec_args cur s (Suc k) a =
     (case fetchint cur (lbio s) a of
        None \<Rightarrow> None
      | Some u \<Rightarrow>
          if u = 0 then Some []
          else case fetchstr cur (lbio s) u of
                 None \<Rightarrow> None
               | Some (p, _) \<Rightarrow> map_option (\<lambda>ps. p # ps) (exec_args cur s k (a + 4)))"

definition sys_exec :: "uint \<Rightarrow> uint \<Rightarrow> uchar list \<Rightarrow> (nat \<Rightarrow> 'a filest_scheme devsw) \<Rightarrow> nat \<Rightarrow> 'a filest_scheme sysfun" where
  "sys_exec kend kdata junk devs cur s =
     (case (arg_path cur s 0, argint cur (lbio s) 1) of
        (Some path, Some uargv) \<Rightarrow>
          (case exec_args cur s MAXARG uargv of
             None \<Rightarrow> Ret (-1, s)
           | Some argv \<Rightarrow> exec kend kdata junk devs cur path argv s)
      | _ \<Rightarrow> Ret (-1, s))"

end
