(* ===== verification/Fsblock.thy ===== *)
theory Fsblock
  imports Fs
begin

text \<open>
  The block layer of the file system on the contents of the disk: reading a block, changing it inside
  a transaction, possibly while another block is held, and the block allocator \<^verbatim>\<open>balloc\<close> and \<^verbatim>\<open>bfree\<close>.
\<close>

subsection \<open>Held buffers\<close>

abbreviation fview :: "'a logst_scheme \<Rightarrow> uint \<Rightarrow> block" where
  "fview s \<equiv> view (lbio s)"

definition locks :: "'a bio_scheme \<Rightarrow> nat set" where
  "locks b = {i. i < NBUF \<and> sl_locked (b_lock (bufs b ! i))}"

definition unheld :: "'a bio_scheme \<Rightarrow> uint \<Rightarrow> bool" where
  "unheld b x \<longleftrightarrow> (\<forall>i\<in>locks b. \<not> caches b i x)"

text \<open>The held buffers are the same.\<close>

definition kept :: "'a bio_scheme \<Rightarrow> 'a bio_scheme \<Rightarrow> bool" where
  "kept b b' \<longleftrightarrow> locks b' = locks b \<and> (\<forall>i\<in>locks b. bufs b' ! i = bufs b ! i)"

lemma locks_fin [simp]: "finite (locks b)"
  by (simp add: locks_def)

lemma kept_refl [simp]: "kept b b"
  by (simp add: kept_def)

lemma kept_trans: "kept b c \<Longrightarrow> kept c d \<Longrightarrow> kept b d"
  by (simp add: kept_def)

lemma locks_but: "(\<And>j. j \<noteq> i \<Longrightarrow> bufs b' ! j = bufs b ! j) \<Longrightarrow> locks b' - {i} = locks b - {i}"
  by (auto simp: locks_def)

lemma kept_but:
  assumes "\<And>j. j \<noteq> i \<Longrightarrow> bufs b' ! j = bufs b ! j" "i \<notin> locks b" "\<not> sl_locked (b_lock (bufs b' ! i))"
  shows "kept b b'"
proof -
  have "i \<notin> locks b'" using assms(3) by (simp add: locks_def)
  then have "locks b' = locks b" using locks_but [of i b' b] assms(1,2) by blast
  then show ?thesis using assms(1,2) unfolding kept_def by metis
qed

lemma kept_unheld: "kept b b' \<Longrightarrow> unheld b' x = unheld b x"
  by (auto simp: kept_def unheld_def caches_def locks_def)

lemma quiet_iff: "bio_quiet cur b \<longleftrightarrow> bio_inv cur b \<and> locks b = {} \<and> (\<exists>e. evictable b e)"
  by (auto simp: bio_quiet_def locks_def)

lemma unheld_quiet [simp]: "locks b = {} \<Longrightarrow> unheld b x"
  by (simp add: unheld_def)

lemma unlocked_evictable:
  assumes "bio_inv cur b" "i < NBUF" "i \<notin> locks b" "\<not> b_dirty (bufs b ! i)"
  shows "evictable b i"
  using assms by (auto simp: bio_inv_def buf_wf_def locks_def evictable_def)

lemma unheld_clean:
  assumes "bio_inv cur b" "unheld b x" "\<not> pinned b x"
  shows "view b x = disk b x"
proof (cases "\<exists>i. caches b i x")
  case True
  then obtain i where i: "caches b i x" by blast
  then have "i < NBUF" "i \<notin> locks b" "\<not> b_dirty (bufs b ! i)" using assms(2,3) by (auto simp: caches_def unheld_def pinned_def)
  then show ?thesis using evictable_clean(1) [OF assms(1) _ i] unlocked_evictable [OF assms(1)] by blast
qed (use view_uncached [OF assms(1)] in blast)

text \<open>As long as the modified and the held blocks do not fill the cache, a buffer can be recycled.\<close>

lemma evictable_exists:
  assumes "bio_inv cur b" "\<And>x. pinned b x \<Longrightarrow> x \<in> set l" "length l + card (locks b) < NBUF"
  shows "\<exists>e. evictable b e"
proof (rule ccontr)
  let ?D = "{i. i < NBUF \<and> b_dirty (bufs b ! i)}"
  assume "\<not> ?thesis"
  then have sub: "{..<NBUF} \<subseteq> locks b \<union> ?D" using unlocked_evictable [OF assms(1)] by blast
  have d: "caches b i (b_blockno (bufs b ! i))" if "i \<in> ?D" for i
    using that assms(1) by (auto simp: bio_inv_def buf_wf_def caches_def)
  have "inj_on (\<lambda>i. b_blockno (bufs b ! i)) ?D" using d caches_unique [OF assms(1)] by (intro inj_onI) metis
  moreover have "(\<lambda>i. b_blockno (bufs b ! i)) ` ?D \<subseteq> set l" using d assms(2) by (auto simp: pinned_def)
  ultimately have "card ?D \<le> card (set l)" by (rule card_inj_on_le) simp
  also have "\<dots> \<le> length l" by (rule card_length)
  finally have "card (locks b \<union> ?D) < NBUF" using card_Un_le [of "locks b" ?D] assms(3) by linarith
  moreover have "NBUF \<le> card (locks b \<union> ?D)" using card_mono [OF _ sub] by simp
  ultimately show False by simp
qed

subsection \<open>Blocks in a transaction\<close>

text \<open>The modified blocks are those that the log records, each once.\<close>

definition log_tidy :: "'a logst_scheme \<Rightarrow> bool" where
  "log_tidy s \<longleftrightarrow> distinct (lh s) \<and> (\<forall>x. pinned (lbio s) x \<longleftrightarrow> x \<in> set (lh s)) \<and> sint (lg_size s) \<le> int LOGSIZE"

text \<open>Inside a transaction; and between two operations on blocks.\<close>

definition fs_calm :: "nat \<Rightarrow> 'a logst_scheme \<Rightarrow> bool" where
  "fs_calm cur s \<longleftrightarrow> bio_inv cur (lbio s) \<and> log_tidy s \<and> \<not> lg_lock s \<and> 1 \<le> outstanding s \<and>
     length (lh s) + card (locks (lbio s)) < NBUF"

definition fs_ok :: "nat \<Rightarrow> 'a logst_scheme \<Rightarrow> bool" where
  "fs_ok cur s \<longleftrightarrow> fs_calm cur s \<and> locks (lbio s) = {}"

text \<open>The log takes \<open>k\<close> more blocks.\<close>

definition slack :: "nat \<Rightarrow> 'a logst_scheme \<Rightarrow> bool" where
  "slack k s \<longleftrightarrow> length (lh s) + k \<le> LOGSIZE \<and> int (length (lh s)) + int k \<le> sint (lg_size s) - 1"

lemma slack_mono: "slack k s \<Longrightarrow> j \<le> k \<Longrightarrow> slack j s"
  by (simp add: slack_def)

lemma calm_evictable: "fs_calm cur s \<Longrightarrow> \<exists>e. evictable (lbio s) e"
  using evictable_exists [of cur "lbio s" "lh s"] by (auto simp: fs_calm_def log_tidy_def)

lemma fs_ok_quiet: "fs_ok cur s \<Longrightarrow> bio_quiet cur (lbio s)"
  using calm_evictable [of cur s] by (simp add: fs_ok_def quiet_iff fs_calm_def)

lemma fs_ok_calm: "fs_ok cur s \<Longrightarrow> fs_calm cur s" "fs_ok cur s \<Longrightarrow> locks (lbio s) = {}"
  by (simp_all add: fs_ok_def)

text \<open>What reading blocks leaves alone, and what writing block \<open>blk\<close> leaves alone.\<close>

definition fs_read :: "nat \<Rightarrow> 'a logst_scheme \<Rightarrow> 'a logst_scheme \<Rightarrow> bool" where
  "fs_read cur s s' \<longleftrightarrow> s' = s\<lparr>lbio := lbio s'\<rparr> \<and> bsame cur (lbio s) (lbio s') \<and> kept (lbio s) (lbio s') \<and>
     (\<forall>e. evictable (lbio s) e \<longrightarrow> evictable (lbio s') e)"

definition fs_wrote :: "nat \<Rightarrow> uint \<Rightarrow> block \<Rightarrow> 'a logst_scheme \<Rightarrow> 'a logst_scheme \<Rightarrow> bool" where
  "fs_wrote cur blk d s s' \<longleftrightarrow> s' = s\<lparr>lbio := lbio s', lh := (if blk \<in> set (lh s) then lh s else lh s @ [blk])\<rparr> \<and>
     fview s' = (fview s)(blk := d) \<and> kept (lbio s) (lbio s') \<and>
     disk (lbio s') = disk (lbio s) \<and> disksize (lbio s') = disksize (lbio s) \<and> who cur (lbio s') = who cur (lbio s)"

text \<open>Buffer \<open>i\<close> is held for block \<open>blk\<close>; and it has been opened in state \<open>s\<close>.\<close>

definition holds :: "nat \<Rightarrow> uint \<Rightarrow> nat \<Rightarrow> 'a logst_scheme \<Rightarrow> bool" where
  "holds cur blk i t \<longleftrightarrow> bio_inv cur (lbio t) \<and> caches (lbio t) i blk \<and> held cur (lbio t) i \<and> b_valid (bufs (lbio t) ! i)"

definition opened :: "nat \<Rightarrow> uint \<Rightarrow> 'a logst_scheme \<Rightarrow> nat \<Rightarrow> 'a logst_scheme \<Rightarrow> bool" where
  "opened cur blk s i t \<longleftrightarrow> t = s\<lparr>lbio := lbio t\<rparr> \<and> holds cur blk i t \<and> bdata t i = fview s blk \<and> bsame cur (lbio s) (lbio t) \<and>
     (\<forall>j. j \<noteq> i \<longrightarrow> bufs (lbio t) ! j = bufs (lbio s) ! j) \<and> i \<notin> locks (lbio s) \<and>
     b_dirty (bufs (lbio t) ! i) = b_dirty (bufs (lbio s) ! i)"

lemma holds_lock: "holds cur blk i t \<Longrightarrow> i \<in> locks (lbio t)"
  using held_buf [of cur "lbio t" i] by (auto simp: holds_def locks_def)

lemma opened_locks: "opened cur blk s i t \<Longrightarrow> locks (lbio t) = insert i (locks (lbio s))"
  using holds_lock [of cur blk i t] locks_but [of i "lbio t" "lbio s"] unfolding opened_def by blast

lemma fs_bread_spec:
  assumes "bio_inv cur (lbio s)" "\<exists>e. evictable (lbio s) e" "unheld (lbio s) blk" "blk < disksize (lbio s)"
  shows "\<exists>i t. fs_bread cur 1 blk s = Ret (i, t) \<and> opened cur blk s i t"
proof -
  have "\<not> sl_locked (b_lock (bufs (lbio s) ! i))" if "caches (lbio s) i blk" for i
    using assms(3) that by (auto simp: unheld_def locks_def caches_def)
  then obtain i b where "bread cur 1 blk (lbio s) = Ret (i, b)" "bio_inv cur b" "caches b i blk" "held cur b i"
      "b_valid (bufs b ! i)" "b_data (bufs b ! i) = fview s blk" "bsame cur (lbio s) b"
      "\<forall>j. j \<noteq> i \<longrightarrow> bufs b ! j = bufs (lbio s) ! j" "\<not> sl_locked (b_lock (bufs (lbio s) ! i))"
      "b_dirty (bufs b ! i) = b_dirty (bufs (lbio s) ! i)"
    using bread_spec [OF assms(1,4)] assms(2) by metis
  then show ?thesis
    by (intro exI [of _ i] exI [of _ "s\<lparr>lbio := b\<rparr>"]) (simp add: fs_bread_def opened_def holds_def locks_def)
qed

lemma fs_brelse_spec:
  assumes "bio_inv cur (lbio s)" "unheld (lbio s) blk" "opened cur blk s i t"
  shows "\<exists>s'. fs_brelse cur i t = Ret s' \<and> bio_inv cur (lbio s') \<and> fs_read cur s s'"
proof -
  note o = assms(3) [unfolded opened_def holds_def]
  have "b_dirty (bufs (lbio t) ! i) \<or> bdata t i = disk (lbio t) blk"
    using dirty_pinned [of cur "lbio t" i blk] unheld_clean [OF assms(1,2)] o by (auto simp: bsame_def)
  then obtain b where b: "brelse cur i (lbio t) = Ret b" "bio_inv cur b" "bsame cur (lbio t) b"
      "bufs b ! i = unlock_buf (bufs (lbio t) ! i)" "\<forall>j. j \<noteq> i \<longrightarrow> bufs b ! j = bufs (lbio t) ! j"
    using brelse_spec [of cur "lbio t" i blk] o by blast
  obtain tb where t: "t = s\<lparr>lbio := tb\<rparr>" using o by blast
  have j: "bufs b ! j = bufs (lbio s) ! j" if "j \<noteq> i" for j using that b(5) o by simp
  have i: "\<not> sl_locked (b_lock (bufs b ! i))" "b_dirty (bufs b ! i) = b_dirty (bufs (lbio s) ! i)" "b_refcnt (bufs b ! i) = 0"
    using b(4) o by (simp_all add: unlock_buf_def)
  have "kept (lbio s) b" using kept_but [OF j _ i(1)] o by blast
  moreover have "evictable b e" if "evictable (lbio s) e" for e
    using that j [of e] i by (cases "e = i") (simp_all add: evictable_def)
  moreover have "fs_brelse cur i t = Ret (s\<lparr>lbio := b\<rparr>)" using b(1) t by (simp add: fs_brelse_def)
  ultimately show ?thesis using bsame_trans [OF _ b(3)] b(2) o by (auto simp: fs_read_def)
qed

text \<open>Recording and releasing a block that has been changed.\<close>

lemma fs_modify_held:
  assumes "holds cur blk i t" "log_tidy t" "\<not> lg_lock t" "1 \<le> outstanding t" "slack 1 t"
  shows "\<exists>u s'. log_write i (set_bdata i d t) = Ret u \<and> fs_brelse cur i u = Ret s' \<and> bio_inv cur (lbio s') \<and> log_tidy s' \<and>
    s' = t\<lparr>lbio := lbio s', lh := (if blk \<in> set (lh t) then lh t else lh t @ [blk])\<rparr> \<and> fview s' = (fview t)(blk := d) \<and>
    disk (lbio s') = disk (lbio t) \<and> disksize (lbio s') = disksize (lbio t) \<and> who cur (lbio s') = who cur (lbio t) \<and>
    (\<forall>j. j \<noteq> i \<longrightarrow> bufs (lbio s') ! j = bufs (lbio t) ! j) \<and> \<not> sl_locked (b_lock (bufs (lbio s') ! i))"
proof -
  define tb where "tb = lbio t"
  let ?w = "set_data i d tb"
  have tb: "bio_inv cur tb" "held cur tb i" "caches tb i blk" "b_valid (bufs tb ! i)" using assms(1) by (simp_all add: tb_def holds_def)
  note w = set_data_spec [OF tb, where d = d]
  have n: "i < NBUF" "length (bufs ?w) = NBUF" using tb(2) w(1) by (simp_all add: held_def bio_inv_def)
  let ?u = "upd_buf i (\<lambda>b. b\<lparr>b_dirty := True\<rparr>) ?w"
  have blk: "b_blockno (bufs ?w ! i) = blk" "b_dev (bufs ?w ! i) = 1" using w(5) [of i blk] tb(3) by (simp_all add: caches_def)
  let ?l = "if blk \<in> set (lh t) then lh t else lh t @ [blk]"
  have lw: "log_write i (set_bdata i d t) = Ret (t\<lparr>lbio := ?u, lh := ?l\<rparr>)"
    using log_write_spec [of "set_bdata i d t" blk i] blk assms(3-5) by (simp add: set_bdata_def slack_def tb_def)
  have "buf_wf ?w ((bufs ?w ! i)\<lparr>b_dirty := True\<rparr>)"
    using held_buf(3) [OF w(1), of i] w(4) tb(2,4) blk(2) by (simp add: buf_wf_def w(6))
  then have ui: "bio_inv cur ?u"
    by (intro bio_inv_upd [OF w(1) n(1)]) (use caches_unique [OF w(1)] n in \<open>auto simp: caches_def\<close>)
  have v: "view ?u = view ?w" using view_upd_buf [OF w(1) ui n(1) refl, of blk] w(2) blk tb(3,4) caches_unique [OF w(1)]
    by (auto simp: w(6) caches_def)
  have h: "held cur ?u i" "caches ?u i blk" "b_valid (bufs ?u ! i)" "b_dirty (bufs ?u ! i)"
    using tb(2,3,4) n w(11) by (simp_all add: held_def caches_def w(6))
  then obtain b where b: "brelse cur i ?u = Ret b" "bio_inv cur b" "bsame cur ?u b"
      "bufs b ! i = unlock_buf (bufs ?u ! i)" "\<forall>j. j \<noteq> i \<longrightarrow> bufs b ! j = bufs ?u ! j"
    using brelse_spec [OF ui] by blast
  have j: "bufs b ! j = bufs tb ! j" if "j \<noteq> i" for j using that b(5) w(7) by simp
  let ?s = "t\<lparr>lbio := b, lh := ?l\<rparr>"
  have "pinned ?u x \<longleftrightarrow> pinned tb x \<or> x = blk" for x
  proof -
    have e: "bufs ?u ! k = (if k = i then (bufs ?w ! i)\<lparr>b_dirty := True\<rparr> else bufs ?w ! k)" for k using n by (cases "k = i") simp_all
    have c: "caches ?u k x = caches ?w k x" for k unfolding caches_def e by (cases "k = i") simp_all
    have "pinned ?u x \<longleftrightarrow> pinned ?w x \<or> caches ?w i x" unfolding pinned_def c e by auto
    moreover have "caches ?w i x \<longleftrightarrow> x = blk" using n(1) blk by (auto simp: caches_def)
    ultimately show ?thesis by (simp add: w(3))
  qed
  then have p: "pinned b x \<longleftrightarrow> pinned tb x \<or> x = blk" for x using b(3) by (simp add: bsame_def)
  have "log_tidy ?s" using assms(2) p by (auto simp: log_tidy_def tb_def)
  moreover have "fs_brelse cur i (t\<lparr>lbio := ?u, lh := ?l\<rparr>) = Ret ?s" using b(1) by (simp add: fs_brelse_def)
  moreover have "view b = (view tb)(blk := d)" "disk b = disk tb" "disksize b = disksize tb" "who cur b = who cur tb"
    using b(3) v w(2,8,10,11) by (simp_all add: bsame_def)
  moreover have "\<not> sl_locked (b_lock (bufs b ! i))" using b(4) by (simp add: unlock_buf_def)
  ultimately show ?thesis using lw b(2) j by (intro exI [of _ "t\<lparr>lbio := ?u, lh := ?l\<rparr>"] exI [of _ ?s]) (simp add: tb_def)
qed

lemma opened_log:
  assumes "opened cur blk s i t"
  shows "lh t = lh s" "lg_size t = lg_size s" "lg_lock t = lg_lock s" "outstanding t = outstanding s" "log_tidy t = log_tidy s"
    "slack k t = slack k s" "fview t = fview s"
proof -
  obtain tb where "t = s\<lparr>lbio := tb\<rparr>" using assms unfolding opened_def by blast
  then show "lh t = lh s" "lg_size t = lg_size s" "lg_lock t = lg_lock s" "outstanding t = outstanding s" by simp_all
  then show "log_tidy t = log_tidy s" "slack k t = slack k s" "fview t = fview s"
    using assms by (simp_all add: log_tidy_def slack_def opened_def bsame_def)
qed

lemma fs_modify_spec:
  assumes "fs_calm cur s" "slack (Suc (card (locks (lbio s)))) s" "opened cur blk s i t"
  shows "\<exists>u s'. log_write i (set_bdata i d t) = Ret u \<and> fs_brelse cur i u = Ret s' \<and> fs_calm cur s' \<and> fs_wrote cur blk d s s'"
proof -
  note o = assms(3) [unfolded opened_def] and l = opened_log [OF assms(3)]
  obtain u s' where w: "log_write i (set_bdata i d t) = Ret u" "fs_brelse cur i u = Ret s'" "bio_inv cur (lbio s')" "log_tidy s'"
      "s' = t\<lparr>lbio := lbio s', lh := (if blk \<in> set (lh t) then lh t else lh t @ [blk])\<rparr>" "fview s' = (fview t)(blk := d)"
      "disk (lbio s') = disk (lbio t)" "disksize (lbio s') = disksize (lbio t)" "who cur (lbio s') = who cur (lbio t)"
      "\<forall>j. j \<noteq> i \<longrightarrow> bufs (lbio s') ! j = bufs (lbio t) ! j" "\<not> sl_locked (b_lock (bufs (lbio s') ! i))"
    using fs_modify_held [of cur blk i t d] assms(1,2) o slack_mono [OF assms(2), of 1] by (auto simp: fs_calm_def l)
  obtain tb where t: "t = s\<lparr>lbio := tb\<rparr>" using o by blast
  define b where "b = lbio s'"
  have s': "s' = s\<lparr>lbio := b, lh := (if blk \<in> set (lh s) then lh s else lh s @ [blk])\<rparr>"
    using w(5) unfolding t b_def [symmetric] by simp
  have j: "bufs b ! j = bufs (lbio s) ! j" if "j \<noteq> i" for j using that w(10) o s' by simp
  have "kept (lbio s) b" using kept_but [OF j] w(11) o s' by simp
  moreover from this have "length (lh s') + card (locks b) < NBUF" using assms(1,2) s' by (auto simp: kept_def slack_def fs_calm_def log_tidy_def)
  ultimately have "fs_calm cur s'" "fs_wrote cur blk d s s'"
    using w(3,4,6-9) assms(1) s' o by (simp_all add: fs_calm_def fs_wrote_def bsame_def)
  with w(1,2) show ?thesis by blast
qed

lemma fs_readD: "fs_read cur s s' \<Longrightarrow> \<exists>b. s' = s\<lparr>lbio := b\<rparr>"
  unfolding fs_read_def by blast

lemma fs_wroteD: "fs_wrote cur blk d s s' \<Longrightarrow> \<exists>b. s' = s\<lparr>lbio := b, lh := (if blk \<in> set (lh s) then lh s else lh s @ [blk])\<rparr>"
  unfolding fs_wrote_def by blast

lemma fs_wrote_slack: "fs_wrote cur blk d s s' \<Longrightarrow> slack (Suc k) s \<Longrightarrow> slack k s'"
  using fs_wroteD [of cur blk d s s'] by (auto simp: slack_def)

text \<open>The blocks of \<open>W\<close> have been written and recorded, and no others.\<close>

definition wrote :: "uint set \<Rightarrow> 'a logst_scheme \<Rightarrow> 'a logst_scheme \<Rightarrow> bool" where
  "wrote W s s' \<longleftrightarrow> set (lh s') = set (lh s) \<union> W \<and> lg_size s' = lg_size s \<and> (\<forall>x. x \<notin> W \<longrightarrow> fview s' x = fview s x) \<and>
     kept (lbio s) (lbio s') \<and> disksize (lbio s') = disksize (lbio s)"

lemma wrote_trans: "wrote V s t \<Longrightarrow> wrote W t u \<Longrightarrow> wrote (V \<union> W) s u"
  using kept_trans [of "lbio s" "lbio t" "lbio u"] by (auto simp: wrote_def)

lemma wrote_none [simp]: "wrote {} s s"
  by (simp add: wrote_def)

lemma fs_read_wrote: "fs_read cur s s' \<Longrightarrow> wrote {} s s'"
  using fs_readD [of cur s s'] by (auto simp: wrote_def fs_read_def bsame_def)

lemma fs_wrote_wrote: "fs_wrote cur blk d s s' \<Longrightarrow> wrote {blk} s s'"
  using fs_wroteD [of cur blk d s s'] by (auto simp: wrote_def fs_wrote_def split: if_splits)

lemma wrote_slack:
  assumes "wrote W s s'" "log_tidy s" "log_tidy s'" "slack (k + card (W - set (lh s))) s"
  shows "slack k s'"
proof -
  have "card (set (lh s) \<union> W) = card (set (lh s)) + card (W - set (lh s))"
    using card_Un_disjoint [of "set (lh s)" "W - set (lh s)"] finite [of W] by (simp add: Diff_disjoint)
  then have "length (lh s') = length (lh s) + card (W - set (lh s))"
    using assms(1-3) by (simp add: wrote_def log_tidy_def flip: distinct_card)
  with assms(1,4) show ?thesis by (auto simp: slack_def wrote_def)
qed

lemma bzero_spec:
  assumes "fs_calm cur s" "slack (Suc (card (locks (lbio s)))) s" "bno < disksize (lbio s)" "unheld (lbio s) bno"
  shows "\<exists>s'. bzero cur 1 bno s = Ret s' \<and> fs_calm cur s' \<and> fs_wrote cur bno (replicate BSIZE 0) s s'"
proof -
  have inv: "bio_inv cur (lbio s)" using assms(1) by (simp add: fs_calm_def)
  obtain i t where t: "fs_bread cur 1 bno s = Ret (i, t)" "opened cur bno s i t"
    using fs_bread_spec [OF inv calm_evictable [OF assms(1)] assms(4,3)] by blast
  from fs_modify_spec [OF assms(1,2) t(2), of "replicate BSIZE 0"] t(1) show ?thesis by (auto simp: bzero_def)
qed

subsection \<open>The bitmap\<close>

lemma bit_free_iff: "bit_free d x \<longleftrightarrow> \<not> bit (d ! (x div 8)) (x mod 8)"
  by (simp add: bit_free_def bit_mask_def and_exp_eq_0_iff_not_bit flip: push_bit_eq_mult)

lemma bit_mask_bit: "bit (bit_mask y) n \<longleftrightarrow> n = y mod 8"
  by (auto simp: bit_mask_def bit_exp_iff possible_bit_word)

lemma div_mod_eq: "(x :: nat) div 8 = y div 8 \<Longrightarrow> x mod 8 = y mod 8 \<Longrightarrow> x = y"
  by (metis div_mult_mod_eq)

lemma bit_free_set:
  assumes "length d = BSIZE" "y < BPB"
  shows "bit_free (d[y div 8 := d ! (y div 8) OR bit_mask y]) x \<longleftrightarrow> bit_free d x \<and> x \<noteq> y"
  using assms div_mod_eq [of x y] by (cases "x div 8 = y div 8") (auto simp: bit_free_iff bit_or_iff bit_mask_bit)

lemma bit_free_clear:
  assumes "length d = BSIZE" "y < BPB"
  shows "bit_free (d[y div 8 := d ! (y div 8) AND NOT (bit_mask y)]) x \<longleftrightarrow> bit_free d x \<or> x = y"
  using assms div_mod_eq [of x y]
  by (cases "x div 8 = y div 8") (auto simp: bit_free_iff bit_and_iff bit_not_iff bit_mask_bit)

text \<open>The blocks in use according to the map, and a map that fits the disk and marks its own blocks.\<close>

definition used :: "superblock \<Rightarrow> (uint \<Rightarrow> block) \<Rightarrow> uint \<Rightarrow> bool" where
  "used v m c \<longleftrightarrow> \<not> bit_free (m (BBLOCK c v)) (unat c mod BPB)"

definition bitmap_ok :: "'a fsst_scheme \<Rightarrow> bool" where
  "bitmap_ok s \<longleftrightarrow> unat (sb_size (sb s)) + BPB < 2 ^ 31 \<and> sb_size (sb s) \<le> disksize (lbio s) \<and>
     (\<forall>c < sb_size (sb s). BBLOCK c (sb s) < sb_size (sb s) \<and> length (fview s (BBLOCK c (sb s))) = BSIZE \<and>
        used (sb s) (fview s) (BBLOCK c (sb s)))"

lemma bblock_in_row:
  assumes "unat b mod BPB = 0" "bi < BPB" "unat b + bi < 2 ^ 32"
  shows "unat (b + of_nat bi) = unat b + bi" "BBLOCK (b + of_nat bi) v = BBLOCK b v" "unat (b + of_nat bi) mod BPB = bi"
proof -
  have bi: "unat (of_nat bi :: uint) = bi" using assms(2) by (simp add: unat_of_nat_32)
  show u: "unat (b + of_nat bi) = unat b + bi" using assms(3) bi by (simp add: unat_word_ariths)
  show "unat (b + of_nat bi) mod BPB = bi" using u assms(1,2) by (simp add: mod_add_left_eq [symmetric])
  have "(unat b + bi) div BPB = unat b div BPB" using assms(1,2) by (simp add: div_add1_eq)
  then have "(b + of_nat bi) div of_nat BPB = b div of_nat BPB" using u by (simp add: word_unat_eq_iff unat_div)
  then show "BBLOCK (b + of_nat bi) v = BBLOCK b v" by (simp add: BBLOCK_def)
qed

text \<open>What \<^verbatim>\<open>balloc\<close> does to the disk: it marks block \<open>c\<close> and clears it.\<close>

definition marked :: "superblock \<Rightarrow> uint \<Rightarrow> (uint \<Rightarrow> block) \<Rightarrow> uint \<Rightarrow> block" where
  "marked v c m = m(BBLOCK c v := (let d = m (BBLOCK c v); bi = unat c mod BPB in d[bi div 8 := d ! (bi div 8) OR bit_mask bi]))"

definition balloced :: "nat \<Rightarrow> uint \<Rightarrow> 'a fsst_scheme \<Rightarrow> 'a fsst_scheme \<Rightarrow> bool" where
  "balloced cur c s s' \<longleftrightarrow> s' = s\<lparr>lbio := lbio s', lh := lh s'\<rparr> \<and>
     fview s' = (marked (sb s) c (fview s))(c := replicate BSIZE 0) \<and> wrote {BBLOCK c (sb s), c} s s' \<and>
     who cur (lbio s') = who cur (lbio s)"

text \<open>No block that the allocator touches is held.\<close>

definition alloc_clear :: "'a fsst_scheme \<Rightarrow> bool" where
  "alloc_clear s \<longleftrightarrow> (\<forall>x < sb_size (sb s). unheld (lbio s) (BBLOCK x (sb s)) \<and> (\<not> used (sb s) (fview s) x \<longrightarrow> unheld (lbio s) x))"

definition map_blocks :: "superblock \<Rightarrow> uint set" where
  "map_blocks v = (\<lambda>x. BBLOCK x v) ` {x. x < sb_size v}"

lemma fs_read_slack: "fs_read cur s s' \<Longrightarrow> slack k s' = slack k s"
  using fs_readD [of cur s s'] by (auto simp: slack_def)

lemma fs_read_calm: "fs_calm cur s \<Longrightarrow> fs_read cur s s' \<Longrightarrow> bio_inv cur (lbio s') \<Longrightarrow> fs_calm cur s'"
  using fs_readD [of cur s s'] by (auto simp: fs_calm_def log_tidy_def fs_read_def bsame_def kept_def)

lemma fs_read_ok: "fs_ok cur s \<Longrightarrow> fs_read cur s s' \<Longrightarrow> bio_inv cur (lbio s') \<Longrightarrow> fs_ok cur s'"
  using fs_read_calm [of cur s s'] by (simp add: fs_ok_def fs_read_def kept_def)

lemma fs_read_quiet: "bio_quiet cur (lbio s) \<Longrightarrow> fs_read cur s s' \<Longrightarrow> bio_inv cur (lbio s') \<Longrightarrow> bio_quiet cur (lbio s')"
  by (auto simp: quiet_iff fs_read_def kept_def)

lemma fs_bread_quiet:
  assumes "bio_quiet cur (lbio s)" "blk < disksize (lbio s)"
  shows "\<exists>i t. fs_bread cur 1 blk s = Ret (i, t) \<and> opened cur blk s i t"
  using fs_bread_spec [of cur s blk] assms by (simp add: quiet_iff)

lemma fs_brelse_quiet:
  assumes "bio_quiet cur (lbio s)" "opened cur blk s i t"
  shows "\<exists>s'. fs_brelse cur i t = Ret s' \<and> bio_quiet cur (lbio s') \<and> fs_read cur s s'"
  using fs_brelse_spec [of cur s blk i t] fs_read_quiet [OF assms(1)] assms by (auto simp: quiet_iff)

lemma fs_read_view: "fs_read cur s s' \<Longrightarrow> fview s' = fview s \<and> disksize (lbio s') = disksize (lbio s)"
  by (simp add: fs_read_def bsame_def)

lemma fs_read_bitmap:
  fixes s s' :: "'a fsst_scheme"
  shows "fs_read cur s s' \<Longrightarrow> bitmap_ok s' = bitmap_ok s \<and> sb s' = sb s"
  using fs_readD [of cur s s'] fs_read_view [of cur s s'] by (auto simp: bitmap_ok_def)

text \<open>A row of the map with a free block.\<close>

lemma balloc_row:
  fixes s :: "'a fsst_scheme"
  assumes "fs_calm cur s" "slack (card (map_blocks (sb s) - set (lh s)) + card (locks (lbio s)) + 2) s" "alloc_clear s" "bitmap_ok s"
    "unat b mod BPB = 0" "b < sb_size (sb s)"
    "first_index (bit_free (fview s (BBLOCK b (sb s)))) [0..<min BPB (unat (sb_size (sb s) - b))] = Some bi"
  shows "\<exists>s'. balloc_loop cur 1 b s = Ret (b + of_nat bi, s') \<and> fs_calm cur s' \<and> balloced cur (b + of_nat bi) s s'"
proof -
  let ?blk = "BBLOCK b (sb s)" and ?c = "b + of_nat bi"
  have inv: "bio_inv cur (lbio s)" using assms(1) by (simp add: fs_calm_def)
  have bi: "bi < BPB" "bi < unat (sb_size (sb s) - b)" "bit_free (fview s ?blk) bi" using assms(7) by (auto simp: first_index_Some)
  then have lt: "unat b + bi < unat (sb_size (sb s))" using assms(6) by (simp add: unat_sub less_imp_le)
  then have "unat b + bi < 4294967296" using unat_less_32 [of "sb_size (sb s)"] by linarith
  then have "unat b + bi < 2 ^ 32" by simp
  note row = bblock_in_row [OF assms(5) bi(1) this]
  have c: "?c < sb_size (sb s)" using lt row(1) by (simp add: word_less_nat_alt)
  have rng: "?blk < disksize (lbio s)" "?c < disksize (lbio s)"
    using assms(4,6) c less_le_trans unfolding bitmap_ok_def by blast+
  have un: "unheld (lbio s) ?blk" "unheld (lbio s) ?c"
    using assms(3,6) c bi(3) row by (auto simp: alloc_clear_def used_def)
  obtain i t where t: "fs_bread cur 1 ?blk s = Ret (i, t)" "opened cur ?blk s i t"
    using fs_bread_spec [OF inv calm_evictable [OF assms(1)] un(1) rng(1)] by blast
  obtain tb where tb: "t = s\<lparr>lbio := tb\<rparr>" and d: "bdata t i = fview s ?blk" using t(2) unfolding opened_def by blast
  let ?d = "(fview s ?blk)[bi div 8 := fview s ?blk ! (bi div 8) OR bit_mask bi]"
  have "slack (Suc (card (locks (lbio s)))) s" by (rule slack_mono [OF assms(2)]) simp
  then obtain u s1 where 1: "log_write i (set_bdata i ?d t) = Ret u" "fs_brelse cur i u = Ret s1" "fs_calm cur s1" "fs_wrote cur ?blk ?d s s1"
    using fs_modify_spec [OF assms(1) _ t(2), of ?d] by blast
  note w = fs_wrote_wrote [OF 1(4)]
  have "?blk \<in> map_blocks (sb s)" using assms(6) by (simp add: map_blocks_def)
  then have "card ({?blk} - set (lh s)) \<le> card (map_blocks (sb s) - set (lh s))" by (intro card_mono) auto
  then have "slack (Suc (card (locks (lbio s))) + card ({?blk} - set (lh s))) s" by (intro slack_mono [OF assms(2)]) simp
  then have sl: "slack (Suc (card (locks (lbio s1)))) s1"
    using wrote_slack [OF w] assms(1) 1(3) w by (simp add: fs_calm_def wrote_def kept_def)
  have "?c < disksize (lbio s1)" "unheld (lbio s1) ?c" using rng(2) un(2) w kept_unheld by (auto simp: wrote_def)
  then obtain s2 where 2: "bzero cur 1 ?c s1 = Ret s2" "fs_calm cur s2" "fs_wrote cur ?c (replicate BSIZE 0) s1 s2"
    using bzero_spec [OF 1(3) sl] by auto
  have "balloc_loop cur 1 b s = Ret (?c, s2)"
    by (subst balloc_loop.simps) (use assms(6,7) t(1) tb d 1(1,2) 2(1) in \<open>simp\<close>)
  moreover have wr: "wrote {BBLOCK ?c (sb s), ?c} s s2"
    using wrote_trans [OF w fs_wrote_wrote [OF 2(3)]] row(2) [of "sb s"] by (simp add: insert_commute)
  have "s2 = s\<lparr>lbio := lbio s2, lh := lh s2\<rparr>" using fs_wroteD [OF 1(4)] fs_wroteD [OF 2(3)] by auto
  then have "balloced cur ?c s s2" unfolding balloced_def using 1(4) 2(3) row wr by (simp add: fs_wrote_def marked_def Let_def)
  ultimately show ?thesis using 2(2) by blast
qed

text \<open>A row without a free block: all its blocks are in use, and the scan goes on with the next row.\<close>

lemma balloc_skip:
  fixes s :: "'a fsst_scheme"
  assumes "fs_calm cur s" "alloc_clear s" "bitmap_ok s" "b < sb_size (sb s)"
    "first_index (bit_free (fview s (BBLOCK b (sb s)))) [0..<min BPB (unat (sb_size (sb s) - b))] = None"
  shows "\<exists>s'. balloc_loop cur 1 b s = balloc_loop cur 1 (b + of_nat BPB) s' \<and> fs_calm cur s' \<and> fs_read cur s s'"
proof -
  let ?blk = "BBLOCK b (sb s)"
  have inv: "bio_inv cur (lbio s)" using assms(1) by (simp add: fs_calm_def)
  have rng: "?blk < disksize (lbio s)" using assms(3,4) less_le_trans unfolding bitmap_ok_def by blast
  have un: "unheld (lbio s) ?blk" using assms(2,4) by (simp add: alloc_clear_def)
  obtain i t where t: "fs_bread cur 1 ?blk s = Ret (i, t)" "opened cur ?blk s i t"
    using fs_bread_spec [OF inv calm_evictable [OF assms(1)] un rng] by blast
  obtain tb where tb: "t = s\<lparr>lbio := tb\<rparr>" and d: "bdata t i = fview s ?blk" using t(2) unfolding opened_def by blast
  obtain s' where s': "fs_brelse cur i t = Ret s'" "bio_inv cur (lbio s')" "fs_read cur s s'"
    using fs_brelse_spec [OF inv un t(2)] by blast
  have "unat b < unat (sb_size (sb s))" "unat (sb_size (sb s)) + BPB < 2 ^ 31"
    using assms(3,4) by (simp_all add: bitmap_ok_def word_less_nat_alt)
  then have "\<not> unat b + BPB \<ge> 2 ^ 31" by linarith
  then have "balloc_loop cur 1 b s = balloc_loop cur 1 (b + of_nat BPB) s'"
    by (subst balloc_loop.simps) (use assms(4,5) t(1) tb d s'(1) in \<open>simp\<close>)
  with s' fs_read_calm [OF assms(1) s'(3,2)] show ?thesis by blast
qed

lemma row_used:
  assumes "bitmap_ok s" "unat b mod BPB = 0" "b < sb_size (sb s)" "b \<le> z" "z < sb_size (sb s)" "unat z < unat b + k" "k \<le> BPB"
    "\<forall>j<k. \<not> bit_free (fview s (BBLOCK b (sb s))) j"
  shows "used (sb s) (fview s) z"
proof -
  define j where "j = unat z - unat b"
  have z: "unat z = unat b + j" using assms(4) by (simp add: j_def word_le_nat_alt)
  have j: "j < BPB" using z assms(6,7) by linarith
  have "unat b + j < 2 ^ 32" using z unat_less_32 [of z] by simp
  note row = bblock_in_row [OF assms(2) j this]
  have "z = b + of_nat j" using z row(1) by (simp add: word_unat_eq_iff)
  then show ?thesis using row assms(6,8) z by (simp add: used_def)
qed

lemma balloc_loop_spec:
  fixes s :: "'a fsst_scheme"
  assumes "fs_calm cur s" "slack (card (map_blocks (sb s) - set (lh s)) + card (locks (lbio s)) + 2) s" "alloc_clear s" "bitmap_ok s"
    "unat b mod BPB = 0" "b \<le> z" "z < sb_size (sb s)" "\<not> used (sb s) (fview s) z"
  shows "\<exists>c s'. balloc_loop cur 1 b s = Ret (c, s') \<and> c < sb_size (sb s) \<and> \<not> used (sb s) (fview s) c \<and>
    (\<forall>x. b \<le> x \<longrightarrow> x < c \<longrightarrow> used (sb s) (fview s) x) \<and> fs_calm cur s' \<and> balloced cur c s s'"
  using assms
proof (induction "unat (sb_size (sb s)) - unat b" arbitrary: b s rule: less_induct)
  case less
  let ?d = "fview s (BBLOCK b (sb s))" and ?n = "min BPB (unat (sb_size (sb s) - b))"
  have b: "b < sb_size (sb s)" using less.prems(6,7) by simp
  have n: "unat (sb_size (sb s) - b) = unat (sb_size (sb s)) - unat b" using b by (simp add: unat_sub less_imp_le)
  show ?case
  proof (cases "first_index (bit_free ?d) [0..<?n]")
    case (Some bi)
    let ?c = "b + of_nat bi"
    have bi: "bi < BPB" "bi < unat (sb_size (sb s)) - unat b" "bit_free ?d bi" "\<forall>j<bi. \<not> bit_free ?d j"
      using Some n by (auto simp: first_index_Some)
    then have lt: "unat b + bi < unat (sb_size (sb s))" by linarith
    then have "unat b + bi < 4294967296" using unat_less_32 [of "sb_size (sb s)"] by linarith
    then have "unat b + bi < 2 ^ 32" by simp
    note row = bblock_in_row [OF less.prems(5) bi(1) this]
    have c: "?c < sb_size (sb s)" using lt row(1) by (simp add: word_less_nat_alt)
    have "\<not> used (sb s) (fview s) ?c" using row bi(3) by (simp add: used_def)
    moreover have "used (sb s) (fview s) x" if "b \<le> x" "x < ?c" for x
    proof (rule row_used [OF less.prems(4,5) b that(1), of bi])
      show "x < sb_size (sb s)" using that(2) c by simp
      show "unat x < unat b + bi" using that(2) row(1) by (simp add: word_less_nat_alt)
    qed (use bi in simp_all)
    ultimately show ?thesis using balloc_row [OF less.prems(1-5) b Some] c by blast
  next
    case None
    have none: "\<forall>j<?n. \<not> bit_free ?d j" using None by (simp add: first_index_None)
    obtain s' where s': "balloc_loop cur 1 b s = balloc_loop cur 1 (b + of_nat BPB) s'" "fs_calm cur s'" "fs_read cur s s'"
      using balloc_skip [OF less.prems(1,3,4) b None] by blast
    have sb: "sb s' = sb s" "bitmap_ok s'" using fs_read_bitmap [OF s'(3)] less.prems(4) by simp_all
    have v: "fview s' = fview s" using fs_read_view [OF s'(3)] by simp
    have r: "lh s' = lh s" "locks (lbio s') = locks (lbio s)"
      using fs_readD [OF s'(3)] s'(3) by (auto simp: fs_read_def kept_def)
    have sl: "slack (card (map_blocks (sb s') - set (lh s')) + card (locks (lbio s')) + 2) s'"
      using less.prems(2) fs_read_slack [OF s'(3)] r sb(1) by simp
    have cl: "alloc_clear s'" using less.prems(3) v sb(1) s'(3) kept_unheld by (auto simp: alloc_clear_def fs_read_def)
    have "unat (sb_size (sb s)) + BPB < 2 ^ 31" using less.prems(4) by (simp add: bitmap_ok_def)
    moreover have "unat b < unat (sb_size (sb s))" using b by (simp add: word_less_nat_alt)
    ultimately have nb: "unat (b + of_nat BPB) = unat b + BPB" by (simp add: unat_word_ariths)
    have row: "used (sb s) (fview s) x" if "b \<le> x" "x < sb_size (sb s)" "unat x < unat b + BPB" for x
    proof (rule row_used [OF less.prems(4,5) b that(1,2), of ?n])
      show "unat x < unat b + ?n" using that n by (simp add: word_less_nat_alt)
    qed (use none in simp_all)
    have "\<not> unat z < unat b + BPB" using row [OF less.prems(6,7)] less.prems(8) by blast
    then have z: "b + of_nat BPB \<le> z" using nb by (simp add: word_le_nat_alt)
    have "unat (sb_size (sb s')) - unat (b + of_nat BPB) < unat (sb_size (sb s)) - unat b"
      using nb b sb(1) by (simp add: word_less_nat_alt)
    moreover have "unat (b + of_nat BPB) mod BPB = 0" using nb less.prems(5) by simp
    ultimately obtain c t where c: "balloc_loop cur 1 (b + of_nat BPB) s' = Ret (c, t)" "c < sb_size (sb s)" "\<not> used (sb s) (fview s) c"
        "\<forall>x. b + of_nat BPB \<le> x \<longrightarrow> x < c \<longrightarrow> used (sb s) (fview s) x" "fs_calm cur t" "balloced cur c s' t"
      using less.hyps [of s' "b + of_nat BPB"] s'(2) sl cl sb z less.prems(7,8) v by auto
    have "wrote {BBLOCK c (sb s), c} s t" using wrote_trans [OF fs_read_wrote [OF s'(3)], of "{BBLOCK c (sb s), c}" t] c(6) sb(1)
      by (simp add: balloced_def)
    then have "balloced cur c s t" using c(6) s'(3) sb(1) v fs_readD [OF s'(3)] by (auto simp: balloced_def fs_read_def bsame_def)
    moreover have "used (sb s) (fview s) x" if "b \<le> x" "x < c" for x
    proof (cases "unat x < unat b + BPB")
      case True
      then show ?thesis using row that c(2) by simp
    next
      case False
      then show ?thesis using c(4) that nb by (simp add: word_le_nat_alt)
    qed
    ultimately show ?thesis using s'(1) c by auto
  qed
qed

subsection \<open>The allocator\<close>

lemma bblock_eq:
  "BBLOCK x v = BBLOCK c v \<Longrightarrow> unat x mod BPB = unat c mod BPB \<Longrightarrow> x = c"
proof -
  assume a: "BBLOCK x v = BBLOCK c v" "unat x mod BPB = unat c mod BPB"
  then have "x div of_nat BPB = c div of_nat BPB" by (simp add: BBLOCK_def)
  then have "unat x div BPB = unat c div BPB" by (simp add: word_unat_eq_iff unat_div)
  then have "unat x = unat c" using a(2) by (metis div_mult_mod_eq)
  then show ?thesis by (simp add: word_unat_eq_iff)
qed

text \<open>Writing the row of \<open>c\<close> so that only the bit of \<open>c\<close> changes.\<close>

lemma used_row:
  assumes "\<And>x. bit_free d' x \<longleftrightarrow> (if x = unat c mod BPB then f else bit_free (m (BBLOCK c v)) x)"
  shows "used v (m(BBLOCK c v := d')) x \<longleftrightarrow> (if x = c then \<not> f else used v m x)"
  using assms bblock_eq [of x v c] by (auto simp: used_def)

lemma bitmap_not_free:
  assumes "bitmap_ok s" "x < sb_size (sb s)" "\<not> used (sb s) (fview s) c"
  shows "BBLOCK x (sb s) \<noteq> c"
  using assms unfolding bitmap_ok_def by metis

lemma balloced_used:
  fixes s :: "'a fsst_scheme"
  assumes "bitmap_ok s" "c < sb_size (sb s)" "\<not> used (sb s) (fview s) c" "balloced cur c s s'" "x < sb_size (sb s)"
  shows "used (sb s) (fview s') x \<longleftrightarrow> used (sb s) (fview s) x \<or> x = c" "length (fview s' (BBLOCK x (sb s))) = BSIZE"
proof -
  let ?y = "unat c mod BPB" and ?d = "fview s (BBLOCK c (sb s))"
  have len: "length ?d = BSIZE" using assms(1,2) by (simp add: bitmap_ok_def)
  have "used (sb s) (fview s') x = used (sb s) (marked (sb s) c (fview s)) x"
    using assms(4) bitmap_not_free [OF assms(1,5,3)] by (simp add: used_def balloced_def)
  also have "\<dots> = (used (sb s) (fview s) x \<or> x = c)"
    using used_row [of "?d[?y div 8 := ?d ! (?y div 8) OR bit_mask ?y]" c False "fview s" "sb s" x] bit_free_set [OF len, of ?y]
    by (auto simp: marked_def Let_def)
  finally show "used (sb s) (fview s') x \<longleftrightarrow> used (sb s) (fview s) x \<or> x = c" .
  show "length (fview s' (BBLOCK x (sb s))) = BSIZE"
    using assms(1,2,4,5) bitmap_not_free [OF assms(1,5,3)] by (simp add: balloced_def marked_def Let_def bitmap_ok_def)
qed

lemma balloc_spec:
  fixes s :: "'a fsst_scheme"
  assumes "fs_calm cur s" "slack (card (map_blocks (sb s) - set (lh s)) + card (locks (lbio s)) + 2) s" "alloc_clear s" "bitmap_ok s"
    "z < sb_size (sb s)" "\<not> used (sb s) (fview s) z"
  shows "\<exists>c s'. balloc cur 1 s = Ret (c, s') \<and> c < sb_size (sb s) \<and> \<not> used (sb s) (fview s) c \<and> (\<forall>x<c. used (sb s) (fview s) x) \<and>
    (\<forall>x < sb_size (sb s). used (sb s) (fview s') x \<longleftrightarrow> used (sb s) (fview s) x \<or> x = c) \<and>
    fview s' c = replicate BSIZE 0 \<and> fs_calm cur s' \<and> bitmap_ok s' \<and> wrote {BBLOCK c (sb s), c} s s' \<and>
    s' = s\<lparr>lbio := lbio s', lh := lh s'\<rparr> \<and> who cur (lbio s') = who cur (lbio s)"
proof -
  obtain c s' where c: "balloc_loop cur 1 0 s = Ret (c, s')" "c < sb_size (sb s)" "\<not> used (sb s) (fview s) c"
      "\<forall>x<c. used (sb s) (fview s) x" "fs_calm cur s'" "balloced cur c s s'"
    using balloc_loop_spec [OF assms(1-4), of 0 z] assms(5,6) by auto
  note u = balloced_used [OF assms(4) c(2,3,6)]
  have b: "sb s' = sb s" "disksize (lbio s') = disksize (lbio s)"
    using c(6) unfolding balloced_def wrote_def by (auto dest: arg_cong [of _ _ sb])
  have "bitmap_ok s'" using assms(4) u b by (simp add: bitmap_ok_def)
  with c u b show ?thesis by (auto simp: balloc_def balloced_def marked_def)
qed

text \<open>When every block is in use, each row is passed over and the scan ends in a panic.\<close>

lemma full_row:
  assumes "unat b mod BPB = 0" "b < sb_size (sb s)" "\<forall>x < sb_size (sb s). used (sb s) (fview s) x"
  shows "first_index (bit_free (fview s (BBLOCK b (sb s)))) [0..<min BPB (unat (sb_size (sb s) - b))] = None"
proof (unfold first_index_None, intro ballI)
  fix j assume "j \<in> set [0..<min BPB (unat (sb_size (sb s) - b))]"
  then have j: "j < BPB" "unat b + j < unat (sb_size (sb s))" using assms(2) by (auto simp: unat_sub less_imp_le word_less_nat_alt)
  have "unat b + j < 4294967296" using less_trans [OF j(2) unat_less_32] .
  then have "unat b + j < 2 ^ 32" by simp
  note row = bblock_in_row [OF assms(1) j(1) this]
  then have "used (sb s) (fview s) (b + of_nat j)" using assms(3) j(2) by (simp add: word_less_nat_alt)
  then show "\<not> bit_free (fview s (BBLOCK b (sb s))) j" using row by (simp add: used_def)
qed

lemma balloc_loop_full:
  fixes s :: "'a fsst_scheme"
  assumes "fs_calm cur s" "alloc_clear s" "bitmap_ok s" "unat b mod BPB = 0" "\<forall>x < sb_size (sb s). used (sb s) (fview s) x"
  shows "balloc_loop cur 1 b s = Panic ''balloc: out of blocks''"
  using assms
proof (induction "unat (sb_size (sb s)) - unat b" arbitrary: b s rule: less_induct)
  case less
  show ?case
  proof (cases "b < sb_size (sb s)")
    case False
    then show ?thesis by (subst balloc_loop.simps) simp
  next
    case True
    obtain s' where s': "balloc_loop cur 1 b s = balloc_loop cur 1 (b + of_nat BPB) s'" "fs_calm cur s'" "fs_read cur s s'"
      using balloc_skip [OF less.prems(1-3) True full_row [OF less.prems(4) True less.prems(5)]] by blast
    have sb: "sb s' = sb s" "bitmap_ok s'" "fview s' = fview s"
      using fs_read_bitmap [OF s'(3)] fs_read_view [OF s'(3)] less.prems(3) by simp_all
    have cl: "alloc_clear s'" using less.prems(2) sb s'(3) kept_unheld by (auto simp: alloc_clear_def fs_read_def)
    have "unat (sb_size (sb s)) + BPB < 2 ^ 31" using less.prems(3) by (simp add: bitmap_ok_def)
    then have nb: "unat (b + of_nat BPB) = unat b + BPB" using True by (simp add: unat_word_ariths word_less_nat_alt)
    then have "unat (sb_size (sb s')) - unat (b + of_nat BPB) < unat (sb_size (sb s)) - unat b" "unat (b + of_nat BPB) mod BPB = 0"
      using True less.prems(4) sb(1) by (simp_all add: word_less_nat_alt)
    then show ?thesis using less.hyps [of s' "b + of_nat BPB"] s'(1,2) cl sb less.prems(5) by simp
  qed
qed

lemma clear_quiet: "locks (lbio s) = {} \<Longrightarrow> alloc_clear s"
  by (simp add: alloc_clear_def)

text \<open>
  C13. \<^verbatim>\<open>balloc\<close> returns a block that was free, the first one; afterwards exactly this block is in use in
  addition, it is all zeros, and no other block outside the map has changed. When every block of the disk is in
  use it panics.
\<close>

theorem balloc_correct:
  fixes s :: "'a fsst_scheme"
  assumes "fs_ok cur s" "slack (card (map_blocks (sb s) - set (lh s)) + 2) s" "bitmap_ok s"
  shows "if \<exists>z < sb_size (sb s). \<not> used (sb s) (fview s) z
    then \<exists>c s'. balloc cur 1 s = Ret (c, s') \<and> c < sb_size (sb s) \<and> \<not> used (sb s) (fview s) c \<and>
      (\<forall>x<c. used (sb s) (fview s) x) \<and>
      (\<forall>x < sb_size (sb s). used (sb s) (fview s') x \<longleftrightarrow> used (sb s) (fview s) x \<or> x = c) \<and>
      fview s' c = replicate BSIZE 0 \<and> (\<forall>x. x \<noteq> c \<longrightarrow> x \<noteq> BBLOCK c (sb s) \<longrightarrow> fview s' x = fview s x) \<and>
      set (lh s') = set (lh s) \<union> {BBLOCK c (sb s), c} \<and> fs_ok cur s' \<and> bitmap_ok s' \<and> sb s' = sb s
    else balloc cur 1 s = Panic ''balloc: out of blocks''"
proof (cases "\<exists>z < sb_size (sb s). \<not> used (sb s) (fview s) z")
  note q = fs_ok_calm [OF assms(1)]
  case True
  then obtain z where z: "z < sb_size (sb s)" "\<not> used (sb s) (fview s) z" by blast
  obtain c s' where c: "balloc cur 1 s = Ret (c, s')" "c < sb_size (sb s)" "\<not> used (sb s) (fview s) c"
      "\<forall>x<c. used (sb s) (fview s) x" "\<forall>x < sb_size (sb s). used (sb s) (fview s') x \<longleftrightarrow> used (sb s) (fview s) x \<or> x = c"
      "fview s' c = replicate BSIZE 0" "fs_calm cur s'" "bitmap_ok s'" "wrote {BBLOCK c (sb s), c} s s'" "s' = s\<lparr>lbio := lbio s', lh := lh s'\<rparr>"
    using balloc_spec [OF q(1) _ clear_quiet [OF q(2)] assms(3) z] assms(2) q(2) by auto
  have "sb s' = sb s" using arg_cong [OF c(10), of sb] by simp
  with c q(2) True show ?thesis by (auto simp: wrote_def fs_ok_def kept_def)
next
  case False
  then show ?thesis using balloc_loop_full [OF fs_ok_calm(1) [OF assms(1)] clear_quiet [OF fs_ok_calm(2) [OF assms(1)]] assms(3), of 0]
    by (auto simp: balloc_def)
qed

lemma decode_fs_read:
  fixes s :: "'a fsst_scheme"
  assumes "bio_quiet cur (lbio s)" "1 < disksize (lbio s)" "decode_sb (fview s 1) = sb s"
  shows "\<exists>s'. readsb cur 1 s = Ret s' \<and> bio_quiet cur (lbio s') \<and> fs_read cur s s'"
proof -
  obtain i t where t: "fs_bread cur 1 1 s = Ret (i, t)" "opened cur 1 s i t" using fs_bread_quiet [OF assms(1,2)] by blast
  then obtain tb where "t = s\<lparr>lbio := tb\<rparr>" "bdata t i = fview s 1" unfolding opened_def by blast
  then have "t\<lparr>sb := decode_sb (bdata t i)\<rparr> = t" using assms(3) by simp
  with t fs_brelse_quiet [OF assms(1) t(2)] show ?thesis by (auto simp: readsb_def)
qed

text \<open>
  C24. \<^verbatim>\<open>bfree\<close> of a block that is in use makes exactly this block free and changes no block outside
  the map; a block that is free makes it panic.
\<close>

theorem bfree_correct:
  fixes s :: "'a fsst_scheme"
  assumes "fs_ok cur s" "slack 1 s" "bitmap_ok s" "1 < disksize (lbio s)" "decode_sb (fview s 1) = sb s" "c < sb_size (sb s)"
  shows "if used (sb s) (fview s) c
    then \<exists>s'. bfree cur 1 c s = Ret s' \<and> fs_ok cur s' \<and> (\<forall>x. used (sb s) (fview s') x \<longleftrightarrow> used (sb s) (fview s) x \<and> x \<noteq> c) \<and>
      (\<forall>x. x \<noteq> BBLOCK c (sb s) \<longrightarrow> fview s' x = fview s x)
    else bfree cur 1 c s = Panic ''freeing free block''"
proof -
  let ?blk = "BBLOCK c (sb s)" and ?y = "unat c mod BPB"
  let ?d = "fview s ?blk"
  obtain r where r: "readsb cur 1 s = Ret r" "bio_quiet cur (lbio r)" "fs_read cur s r"
    using decode_fs_read [OF fs_ok_quiet [OF assms(1)] assms(4,5)] by blast
  have "bio_inv cur (lbio r)" using r(2) by (simp add: quiet_iff)
  then have ok: "fs_ok cur r" "fs_calm cur r" "slack (Suc (card (locks (lbio r)))) r"
    using fs_read_ok [OF assms(1) r(3)] fs_read_slack [OF r(3)] assms(2) by (simp_all add: fs_ok_def)
  have v: "fview r = fview s" "sb r = sb s" "disksize (lbio r) = disksize (lbio s)"
    using fs_read_view [OF r(3)] fs_read_bitmap [OF r(3)] by simp_all
  have rng: "?blk < disksize (lbio r)" using assms(3,6) less_le_trans v(3) unfolding bitmap_ok_def by metis
  have len: "length ?d = BSIZE" using assms(3,6) by (simp add: bitmap_ok_def)
  obtain i t where t: "fs_bread cur 1 ?blk r = Ret (i, t)" "opened cur ?blk r i t" using fs_bread_quiet [OF r(2) rng] by blast
  then obtain tb where tb: "t = r\<lparr>lbio := tb\<rparr>" and d: "bdata t i = ?d" using v(1) unfolding opened_def by metis
  show ?thesis
  proof (cases "used (sb s) (fview s) c")
    case False
    then show ?thesis using r(1) t(1) d v(2) by (simp add: bfree_def used_def Let_def)
  next
    case True
    let ?e = "?d[?y div 8 := ?d ! (?y div 8) AND NOT (bit_mask ?y)]"
    obtain u s' where w: "log_write i (set_bdata i ?e t) = Ret u" "fs_brelse cur i u = Ret s'" "fs_calm cur s'" "fs_wrote cur ?blk ?e r s'"
      using fs_modify_spec [OF ok(2,3) t(2), of ?e] by blast
    then have "fs_ok cur s'" using ok(1) by (simp add: fs_ok_def fs_wrote_def kept_def)
    have "bfree cur 1 c s = Ret s'" using True r(1) t(1) d v(2) w(1,2) by (simp add: bfree_def used_def Let_def)
    moreover have "used (sb s) (fview s') x \<longleftrightarrow> used (sb s) (fview s) x \<and> x \<noteq> c" for x
      using used_row [of ?e c True "fview s" "sb s" x] bit_free_clear [OF len, of ?y] w(4) v(1) by (auto simp: fs_wrote_def)
    moreover have "fview s' x = fview s x" if "x \<noteq> ?blk" for x using that w(4) v(1) by (simp add: fs_wrote_def)
    ultimately show ?thesis using True \<open>fs_ok cur s'\<close> by auto
  qed
qed

subsection \<open>A small disk\<close>

text \<open>Blocks 0 to 3 are in use; the super block is block 1 and the map block 3.\<close>

definition sb0 :: superblock where
  "sb0 = \<lparr>sb_size = 1000, sb_nblocks = 900, sb_ninodes = 200, sb_nlog = 30, sb_logstart = 2, sb_inodestart = 32, sb_bmapstart = 3\<rparr>"

definition disk0 :: "uint \<Rightarrow> block" where
  "disk0 = (\<lambda>_. replicate BSIZE 0)(1 := put_words (replicate BSIZE 0) 0 [1000, 900, 200, 30, 2, 32, 3], 3 := 15 # replicate 511 0)"

definition inode0 :: inode where
  "inode0 = \<lparr>i_dev = 0, i_inum = 0, i_ref = 0, i_lock = initsleeplock, i_valid = False, i_type = 0, i_major = 0, i_minor = 0,
     i_nlink = 0, i_size = 0, i_addrs = replicate 13 0\<rparr>"

definition fs0 :: fsst where
  "fs0 = \<lparr>lbio = bio0\<lparr>disk := disk0\<rparr>, lg_lock = False, lg_start = 2, lg_size = 30, outstanding = 1, committing = False,
     lg_dev = 1, lh = [], sb = sb0, ic_lock = False, inodes = replicate NINODE inode0\<rparr>"

lemma fresh_cache:
  "view (bio0\<lparr>disk := d\<rparr>) = d" "bio_quiet 0 (bio0\<lparr>disk := d\<rparr>)" "\<not> pinned (bio0\<lparr>disk := d\<rparr>) x" "disksize (bio0\<lparr>disk := d\<rparr>) = 1000"
proof -
  have inv: "bio_inv 0 (bio0\<lparr>disk := d\<rparr>)"
    by (auto simp: bio_inv_def bio0_def buf_wf_def empty_buf_def initsleeplock_def sleeper_table_def)
  have "evictable (bio0\<lparr>disk := d\<rparr>) 0" by (simp add: bio0_def evictable_def empty_buf_def)
  with inv show "bio_quiet 0 (bio0\<lparr>disk := d\<rparr>)" by (auto simp: bio_quiet_def) (simp add: bio0_def empty_buf_def initsleeplock_def)
  have "\<not> caches (bio0\<lparr>disk := d\<rparr>) i x" for i x by (auto simp: bio0_def caches_def empty_buf_def)
  then show "view (bio0\<lparr>disk := d\<rparr>) = d" using view_uncached [of 0 "bio0\<lparr>disk := d\<rparr>"] inv by (simp add: fun_eq_iff)
  show "\<not> pinned (bio0\<lparr>disk := d\<rparr>) x" using bio0_quiet(4) by (simp add: pinned_def caches_def)
  show "disksize (bio0\<lparr>disk := d\<rparr>) = 1000" by (simp add: bio0_def)
qed

lemma fs0_view: "fview fs0 = disk0"
  by (simp add: fs0_def fresh_cache)

lemma fresh_fs:
  "lh s = [] \<Longrightarrow> lbio s = bio0\<lparr>disk := d\<rparr> \<Longrightarrow> lg_size s = 30 \<Longrightarrow> \<not> lg_lock s \<Longrightarrow> 1 \<le> outstanding s \<Longrightarrow> fs_ok 0 s"
  using fresh_cache(2,3) [of d] by (simp add: fs_ok_def fs_calm_def log_tidy_def quiet_iff)

lemma BBLOCK_sb0: "x < 1000 \<Longrightarrow> BBLOCK x sb0 = 3"
proof -
  assume "x < 1000"
  then have "unat x < 1000" by (simp add: word_less_nat_alt)
  then have "x div 4096 = 0" by (simp add: word_unat_eq_iff unat_div)
  then show ?thesis by (simp add: BBLOCK_def sb0_def)
qed

lemma map_blocks_sb0: "map_blocks sb0 = {3}"
proof -
  have "sb_size sb0 = 1000" by (simp add: sb0_def)
  then have "map_blocks sb0 = (\<lambda>_. 3) ` {x :: uint. x < 1000}" unfolding map_blocks_def using BBLOCK_sb0 by (intro image_cong) auto
  also have "\<dots> = {3}" using image_constant [of "0 :: uint" "{x. x < 1000}" 3] by simp
  finally show ?thesis .
qed

lemma fs0_facts: "fs_ok 0 fs0" "k \<le> 29 \<Longrightarrow> slack k fs0" "map_blocks (sb fs0) = {3}" "bitmap_ok fs0" "1 < disksize (lbio fs0)"
  "decode_sb (fview fs0 1) = sb fs0" "sb_size (sb fs0) = 1000" "x < 1000 \<Longrightarrow> used (sb fs0) (fview fs0) x \<longleftrightarrow> x < 4"
proof -
  show "fs_ok 0 fs0" by (rule fresh_fs [of _ disk0]) (simp_all add: fs0_def)
  show "slack k fs0" if "k \<le> 29" using that by (simp add: slack_def fs0_def)
  show "1 < disksize (lbio fs0)" "sb_size (sb fs0) = 1000" by (simp_all add: fs0_def bio0_def sb0_def)
  show "map_blocks (sb fs0) = {3}" by (simp add: fs0_def map_blocks_sb0)
  note B = BBLOCK_sb0
  show u: "used (sb fs0) (fview fs0) x \<longleftrightarrow> x < 4" if "x < 1000" for x
  proof -
    have x: "unat x < 1000" using that by (simp add: word_less_nat_alt)
    have "bit (15 :: uchar) k \<longleftrightarrow> k < 4" if "k < 8" for k
      using that by (auto simp: numeral_eq_Suc less_Suc_eq bit_Suc)
    then have "bit ((15 # replicate 511 0 :: block) ! (unat x div 8)) (unat x mod 8) \<longleftrightarrow> unat x < 4"
      using x by (cases "unat x div 8") (auto simp: nth_Cons')
    then show ?thesis using x B [OF that] unfolding fs0_view
      by (simp add: fs0_def used_def bit_free_iff disk0_def word_less_nat_alt)
  qed
  show "bitmap_ok fs0" using u [of 3] B unfolding bitmap_ok_def fs0_view by (simp add: fs0_def bio0_def) (simp add: sb0_def disk0_def)
  show "decode_sb (fview fs0 1) = sb fs0" unfolding fs0_view
    by (simp add: disk0_def decode_sb_def fs0_def sb0_def blk_simps get32_put32_other)
qed

theorem balloc_correct_witness: "\<exists>s'. balloc 0 1 fs0 = Ret (4, s') \<and> fview s' 4 = replicate BSIZE 0 \<and> used sb0 (fview s') 4"
proof -
  obtain c s' where c: "balloc 0 1 fs0 = Ret (c, s')" "c < sb_size (sb fs0)" "\<not> used (sb fs0) (fview fs0) c"
    "\<forall>x<c. used (sb fs0) (fview fs0) x" "\<forall>x < sb_size (sb fs0). used (sb fs0) (fview s') x \<longleftrightarrow> used (sb fs0) (fview fs0) x \<or> x = c"
    "fview s' c = replicate BSIZE 0"
    using balloc_correct [OF fs0_facts(1,2,4)] fs0_facts(3,7) fs0_facts(8) [of 10] by (auto simp: fs0_def split: if_splits)
  have "\<not> c < 4" using c(2,3) fs0_facts(7,8) by simp
  moreover have "\<not> 4 < c" using c(4) fs0_facts(8) [of 4] by auto
  ultimately have "c = 4" by simp
  with c fs0_facts(7) show ?thesis by (auto simp: fs0_def)
qed

theorem bfree_correct_witness: "\<exists>s'. bfree 0 1 2 fs0 = Ret s' \<and> \<not> used sb0 (fview s') 2"
  using bfree_correct [OF fs0_facts(1,2,4,5,6), of 2] fs0_facts(7) fs0_facts(8) [of 2] by (auto simp: fs0_def)

end
