(* ===== verification/Fsmap.thy ===== *)
theory Fsmap
  imports Fsblock
begin

text \<open>
  The blocks of a file. \<open>slot\<close> lists the addresses that an inode holds: those of the 140 blocks of the file, in the inode and in its indirect
  block, and that of the indirect block. \<^verbatim>\<open>bmap\<close> finds the address of a block of the file and allocates what is missing.
\<close>

abbreviation "MAXFILE \<equiv> (140 :: nat)"

definition file_block :: "'a fsst_scheme \<Rightarrow> nat \<Rightarrow> nat \<Rightarrow> uint" where
  "file_block s i k =
     (let a = i_addrs (inodes s ! i)
      in if k < NDIRECT then a ! k else if a ! NDIRECT = 0 then 0 else get32 (fview s (a ! NDIRECT)) (4 * (k - NDIRECT)))"

definition slot :: "'a fsst_scheme \<Rightarrow> nat \<Rightarrow> nat \<Rightarrow> uint" where
  "slot s i k = (if k < MAXFILE then file_block s i k else i_addrs (inodes s ! i) ! NDIRECT)"

lemma slot_simps:
  "k < NDIRECT \<Longrightarrow> slot s i k = i_addrs (inodes s ! i) ! k"
  "NDIRECT \<le> k \<Longrightarrow> k < MAXFILE \<Longrightarrow> slot s i k = (if slot s i MAXFILE = 0 then 0 else get32 (fview s (slot s i MAXFILE)) (4 * (k - NDIRECT)))"
  "slot s i MAXFILE = i_addrs (inodes s ! i) ! NDIRECT"
  by (simp_all add: slot_def file_block_def Let_def)

text \<open>A block that is in use for the data of a file.\<close>

definition data_block :: "'a fsst_scheme \<Rightarrow> nat \<Rightarrow> uint \<Rightarrow> bool" where
  "data_block s i x \<longleftrightarrow> x < sb_size (sb s) \<and> used (sb s) (fview s) x \<and> x \<notin> map_blocks (sb s) \<and>
     x \<noteq> IBLOCK (i_inum (inodes s ! i)) (sb s) \<and> length (fview s x) = BSIZE"

text \<open>The map of the disk is in order, and the boot block and the block of the inode are in use.\<close>

definition meta_ok :: "'a fsst_scheme \<Rightarrow> nat \<Rightarrow> bool" where
  "meta_ok s i \<longleftrightarrow> bitmap_ok s \<and> 0 < sb_size (sb s) \<and> used (sb s) (fview s) 0 \<and> 0 \<notin> map_blocks (sb s) \<and>
     (let b = IBLOCK (i_inum (inodes s ! i)) (sb s)
      in b \<noteq> 0 \<and> b < sb_size (sb s) \<and> used (sb s) (fview s) b \<and> b \<notin> map_blocks (sb s) \<and> length (fview s b) = BSIZE)"

definition file_wf :: "'a fsst_scheme \<Rightarrow> nat \<Rightarrow> bool" where
  "file_wf s i \<longleftrightarrow> i < length (inodes s) \<and> i_dev (inodes s ! i) = 1 \<and> length (i_addrs (inodes s ! i)) = 13 \<and> meta_ok s i \<and>
     (\<forall>j\<le>MAXFILE. \<forall>k\<le>MAXFILE. slot s i j = slot s i k \<longrightarrow> j = k \<or> slot s i k = 0) \<and>
     (\<forall>k\<le>MAXFILE. slot s i k \<noteq> 0 \<longrightarrow> data_block s i (slot s i k))"

definition nfree :: "'a fsst_scheme \<Rightarrow> nat" where
  "nfree s = card {x. x < sb_size (sb s) \<and> \<not> used (sb s) (fview s) x}"

lemma file_wfD:
  assumes "file_wf s i"
  shows "i < length (inodes s)" "i_dev (inodes s ! i) = 1" "length (i_addrs (inodes s ! i)) = 13" "bitmap_ok s"
    "j \<le> MAXFILE \<Longrightarrow> k \<le> MAXFILE \<Longrightarrow> slot s i j = slot s i k \<Longrightarrow> j = k \<or> slot s i k = 0"
    "k \<le> MAXFILE \<Longrightarrow> slot s i k \<noteq> 0 \<Longrightarrow> data_block s i (slot s i k)"
  using assms by (auto simp: file_wf_def meta_ok_def)

text \<open>Only the cache, the record of the log and the inodes have changed.\<close>

definition frame :: "nat \<Rightarrow> 'a fsst_scheme \<Rightarrow> 'a fsst_scheme \<Rightarrow> bool" where
  "frame cur s s' \<longleftrightarrow> s' = s\<lparr>lbio := lbio s', lh := lh s', inodes := inodes s'\<rparr> \<and> who cur (lbio s') = who cur (lbio s)"

lemma frameI: "s' = s\<lparr>lbio := b, lh := l, inodes := is\<rparr> \<Longrightarrow> who cur b = who cur (lbio s) \<Longrightarrow> frame cur s s'"
  by (simp add: frame_def)

lemma frameD: "frame cur s s' \<Longrightarrow> \<exists>b l is. s' = s\<lparr>lbio := b, lh := l, inodes := is\<rparr> \<and> who cur b = who cur (lbio s)"
  unfolding frame_def by metis

lemma frame_trans: "frame cur s t \<Longrightarrow> frame cur t u \<Longrightarrow> frame cur s u"
  by (drule frameD)+ (auto intro!: frameI)

lemma frame_refl [simp]: "frame cur s s"
  by (simp add: frame_def)

lemma frame_log: "s' = s\<lparr>lbio := b, lh := l\<rparr> \<Longrightarrow> who cur b = who cur (lbio s) \<Longrightarrow> frame cur s s'"
  by (simp add: frame_def)

lemma frame_inode: "frame cur s s' \<Longrightarrow> frame cur s (upd_inode i f s')"
  by (drule frameD) (auto simp: upd_inode_def intro!: frameI)

text \<open>One more block: slot \<open>j\<close> gets the free block \<open>c\<close>, which is cleared.\<close>

definition grown :: "nat \<Rightarrow> nat \<Rightarrow> nat \<Rightarrow> uint \<Rightarrow> 'a fsst_scheme \<Rightarrow> 'a fsst_scheme \<Rightarrow> bool" where
  "grown cur i j c s s' \<longleftrightarrow> fs_ok cur s' \<and> frame cur s s' \<and> c < sb_size (sb s) \<and> \<not> used (sb s) (fview s) c \<and> sb s' = sb s \<and> bitmap_ok s' \<and>
     (\<forall>x < sb_size (sb s). used (sb s) (fview s') x \<longleftrightarrow> used (sb s) (fview s) x \<or> x = c) \<and> fview s' c = replicate BSIZE 0 \<and>
     (\<forall>k\<le>MAXFILE. slot s' i k = (if k = j then c else slot s i k)) \<and>
     (\<exists>a. length a = 13 \<and> inodes s' = (inodes s)[i := (inodes s ! i)\<lparr>i_addrs := a\<rparr>]) \<and>
     (\<exists>W. wrote W s s' \<and> W \<subseteq> insert c (insert (slot s' i MAXFILE) (map_blocks (sb s))) - {0}) \<and>
     (slot s i MAXFILE \<noteq> 0 \<longrightarrow> length (fview s' (slot s i MAXFILE)) = BSIZE)"

lemma grownI:
  assumes "frame cur s s'" "fs_ok cur s'" "c < sb_size (sb s)" "\<not> used (sb s) (fview s) c" "sb s' = sb s" "bitmap_ok s'"
    "\<forall>x < sb_size (sb s). used (sb s) (fview s') x \<longleftrightarrow> used (sb s) (fview s) x \<or> x = c" "fview s' c = replicate BSIZE 0"
    "\<And>k. k \<le> MAXFILE \<Longrightarrow> slot s' i k = (if k = j then c else slot s i k)"
    "length a = 13" "inodes s' = (inodes s)[i := (inodes s ! i)\<lparr>i_addrs := a\<rparr>]"
    "wrote W s s'" "W \<subseteq> insert c (insert (slot s' i MAXFILE) (map_blocks (sb s))) - {0}"
    "slot s i MAXFILE \<noteq> 0 \<Longrightarrow> length (fview s' (slot s i MAXFILE)) = BSIZE"
  shows "grown cur i j c s s'"
  unfolding grown_def using assms(10-13) by (intro conjI exI [of _ a] exI [of _ W] assms(1-8) impI assms(14)) (simp_all add: assms(9))

lemma fresh_block:
  assumes "file_wf s i" "c < sb_size (sb s)" "\<not> used (sb s) (fview s) c"
  shows "c \<noteq> 0" "c \<notin> map_blocks (sb s)" "c \<noteq> IBLOCK (i_inum (inodes s ! i)) (sb s)" "k \<le> MAXFILE \<Longrightarrow> slot s i k \<noteq> c"
proof -
  show c0: "c \<noteq> 0" using assms by (auto simp: file_wf_def meta_ok_def)
  show "c \<notin> map_blocks (sb s)" using assms bitmap_not_free [of s _ c] by (auto simp: file_wf_def meta_ok_def map_blocks_def)
  show "c \<noteq> IBLOCK (i_inum (inodes s ! i)) (sb s)" using assms by (auto simp: file_wf_def meta_ok_def Let_def)
  show "slot s i k \<noteq> c" if "k \<le> MAXFILE" using file_wfD(6) [OF assms(1) that] assms(3) c0 by (auto simp: data_block_def)
qed

lemma grown_keeps:
  assumes "file_wf s i" "slot s i j = 0" "j \<le> MAXFILE" "grown cur i j c s s'"
  shows "k < MAXFILE \<Longrightarrow> slot s i k \<noteq> 0 \<Longrightarrow> fview s' (slot s i k) = fview s (slot s i k)"
    "x \<notin> map_blocks (sb s) \<Longrightarrow> x \<noteq> c \<Longrightarrow> x \<noteq> slot s' i MAXFILE \<Longrightarrow> fview s' x = fview s x" "inodes s' ! i = (inodes s ! i)\<lparr>i_addrs := i_addrs (inodes s' ! i)\<rparr>"
proof -
  note g = assms(4) [unfolded grown_def] and f = fresh_block [OF assms(1), of c]
  show v: "fview s' x = fview s x" if "x \<notin> map_blocks (sb s)" "x \<noteq> c" "x \<noteq> slot s' i MAXFILE" for x
    using g that unfolding wrote_def by blast
  show "fview s' (slot s i k) = fview s (slot s i k)" if "k < MAXFILE" "slot s i k \<noteq> 0"
  proof (rule v)
    have k: "k \<le> MAXFILE" using that(1) by simp
    show "slot s i k \<notin> map_blocks (sb s)" using file_wfD(6) [OF assms(1) k that(2)] by (simp add: data_block_def)
    show "slot s i k \<noteq> c" using f(4) g k by blast
    then show "slot s i k \<noteq> slot s' i MAXFILE" using g file_wfD(5) [OF assms(1), of MAXFILE k] that k by (auto split: if_splits)
  qed
  show "inodes s' ! i = (inodes s ! i)\<lparr>i_addrs := i_addrs (inodes s' ! i)\<rparr>" using g file_wfD(1) [OF assms(1)] by auto
qed

lemma grown_wf:
  assumes "file_wf s i" "slot s i j = 0" "j \<le> MAXFILE" "grown cur i j c s s'"
  shows "file_wf s' i" "Suc (nfree s') = nfree s"
proof -
  note g = assms(4) [unfolded grown_def] and w = file_wfD [OF assms(1)] and K = grown_keeps [OF assms]
  have c: "c < sb_size (sb s)" "\<not> used (sb s) (fview s) c" using g by blast+
  note f = fresh_block [OF assms(1) c]
  obtain a where a: "length a = 13" "inodes s' = (inodes s)[i := (inodes s ! i)\<lparr>i_addrs := a\<rparr>]" using g by blast
  have I: "inodes s' ! i = (inodes s ! i)\<lparr>i_addrs := a\<rparr>" "length (inodes s') = length (inodes s)" using a w(1) by simp_all
  have sl: "slot s' i k = (if k = j then c else slot s i k)" if "k \<le> MAXFILE" for k using g that by blast
  have u: "used (sb s) (fview s') x \<longleftrightarrow> used (sb s) (fview s) x \<or> x = c" if "x < sb_size (sb s)" for x using g that by blast
  have b: "sb s' = sb s" "bitmap_ok s'" "fview s' c = replicate BSIZE 0" using g by blast+
  let ?I = "IBLOCK (i_inum (inodes s ! i)) (sb s)"
  have m: "0 < sb_size (sb s)" "used (sb s) (fview s) 0" "?I < sb_size (sb s)" "used (sb s) (fview s) ?I" "?I \<notin> map_blocks (sb s)" "length (fview s ?I) = BSIZE" "?I \<noteq> 0" "0 \<notin> map_blocks (sb s)"
    using assms(1) by (simp_all add: file_wf_def meta_ok_def Let_def)
  have "?I \<noteq> slot s' i MAXFILE" using sl [of MAXFILE] f(3) file_wfD(6) [OF assms(1), of MAXFILE] m by (cases "slot s i MAXFILE = 0")
      (auto simp: data_block_def split: if_splits)
  then have vi: "fview s' ?I = fview s ?I" using K(2) m(5) f(3) by blast
  have meta: "meta_ok s' i" using m b vi u by (simp add: meta_ok_def I(1))
  have len: "length (fview s' (slot s i k)) = BSIZE" if "k \<le> MAXFILE" "slot s i k \<noteq> 0" for k
    using that g K(1) [of k] w(6) [OF that] by (cases "k = MAXFILE") (auto simp: data_block_def)
  have d: "data_block s' i (slot s' i k)" if "k \<le> MAXFILE" "slot s' i k \<noteq> 0" for k
  proof (cases "k = j")
    case True
    then show ?thesis using sl [OF that(1)] c b f u by (simp add: data_block_def I(1))
  next
    case False
    then have "slot s' i k = slot s i k" using sl [OF that(1)] by simp
    then show ?thesis using w(6) [OF that(1)] that(2) len [OF that(1)] u b by (auto simp: data_block_def I(1))
  qed
  have "x = k \<or> slot s' i k = 0" if "x \<le> MAXFILE" "k \<le> MAXFILE" "slot s' i x = slot s' i k" for x k
    using w(5) [OF that(1,2)] that(3) f(4) [OF that(1)] f(4) [OF that(2)] unfolding sl [OF that(1)] sl [OF that(2)] by (auto split: if_splits)
  then show "file_wf s' i" using meta d I w(1,2) a(1) by (simp add: file_wf_def)
  have "{x. x < sb_size (sb s) \<and> \<not> used (sb s) (fview s) x} = insert c {x. x < sb_size (sb s') \<and> \<not> used (sb s') (fview s') x}"
    using c u b(1) by auto
  moreover have "c \<notin> {x. x < sb_size (sb s') \<and> \<not> used (sb s') (fview s') x}" using u [OF c(1)] b(1) by simp
  ultimately show "Suc (nfree s') = nfree s" by (simp add: nfree_def)
qed

lemma get32_zeros: "k < NINDIRECT \<Longrightarrow> get32 (replicate BSIZE 0) (4 * k) = 0"
  by (simp add: get32_def)

lemma ok_upd_inode [simp]:
  "fs_ok cur (upd_inode i f s) = fs_ok cur s" "lbio (upd_inode i f s) = lbio s" "lh (upd_inode i f s) = lh s" "sb (upd_inode i f s) = sb s"
  "bitmap_ok (upd_inode i f s) = bitmap_ok s" "wrote W s' (upd_inode i f s) = wrote W s' s" "slack k (upd_inode i f s) = slack k s"
  "inodes (upd_inode i f s) = (inodes s)[i := f (inodes s ! i)]" "nfree (upd_inode i f s) = nfree s"
  by (simp_all add: upd_inode_def fs_ok_def fs_calm_def log_tidy_def bitmap_ok_def wrote_def slack_def nfree_def)

lemma free_exists: "0 < nfree s \<Longrightarrow> \<exists>z. z < sb_size (sb s) \<and> \<not> used (sb s) (fview s) z"
  unfolding nfree_def by (metis (mono_tags, lifting) card.empty empty_Collect_eq less_irrefl)

text \<open>The index of a slot of the inode itself.\<close>

abbreviation addr_slot :: "nat \<Rightarrow> nat" where
  "addr_slot j \<equiv> (if j = NDIRECT then MAXFILE else j)"

lemma grow_inode:
  fixes s :: "'a fsst_scheme"
  assumes "fs_ok cur s" "file_wf s i" "slack (card (map_blocks (sb s) - set (lh s)) + 2) s" "0 < nfree s" "j \<le> NDIRECT"
    "i_addrs (inodes s ! i) ! j = 0"
  shows "\<exists>c s1. balloc cur 1 s = Ret (c, s1) \<and> grown cur i (addr_slot j) c s (upd_inode i (\<lambda>ip. ip\<lparr>i_addrs := (i_addrs ip)[j := c]\<rparr>) s1)"
proof -
  note q = fs_ok_calm [OF assms(1)] and w = file_wfD [OF assms(2)]
  obtain z where z: "z < sb_size (sb s)" "\<not> used (sb s) (fview s) z" using free_exists [OF assms(4)] by blast
  obtain c s1 where c: "balloc cur 1 s = Ret (c, s1)" "c < sb_size (sb s)" "\<not> used (sb s) (fview s) c"
      "\<forall>x < sb_size (sb s). used (sb s) (fview s1) x \<longleftrightarrow> used (sb s) (fview s) x \<or> x = c"
      "fview s1 c = replicate BSIZE 0" "fs_calm cur s1" "bitmap_ok s1" "wrote {BBLOCK c (sb s), c} s s1" "s1 = s\<lparr>lbio := lbio s1, lh := lh s1\<rparr>"
      "who cur (lbio s1) = who cur (lbio s)"
    using balloc_spec [OF q(1) _ clear_quiet [OF q(2)] w(4) z] assms(3) q(2) by auto
  note f = fresh_block [OF assms(2) c(2,3)]
  let ?s = "upd_inode i (\<lambda>ip. ip\<lparr>i_addrs := (i_addrs ip)[j := c]\<rparr>) s1"
  have e: "sb s1 = sb s" "inodes s1 = inodes s" using arg_cong [OF c(9), of sb] arg_cong [OF c(9), of inodes] by simp_all
  have I: "inodes ?s ! i = (inodes s ! i)\<lparr>i_addrs := (i_addrs (inodes s ! i))[j := c]\<rparr>" using w(1) e by simp
  have ok: "fs_ok cur s1" using c(6,8) q(2) by (simp add: fs_ok_def wrote_def kept_def)
  have B: "BBLOCK c (sb s) \<in> map_blocks (sb s)" using c(2) by (auto simp: map_blocks_def)
  have ind: "fview s1 (slot s i MAXFILE) = fview s (slot s i MAXFILE)" if "slot s i MAXFILE \<noteq> 0"
  proof -
    have "slot s i MAXFILE \<noteq> BBLOCK c (sb s)" using B w(6) [OF order_refl that] unfolding data_block_def by metis
    then show ?thesis using c(8) f(4) [of MAXFILE] by (simp add: wrote_def)
  qed
  have sm: "slot ?s i MAXFILE = (if j = NDIRECT then c else slot s i MAXFILE)"
    using w(3) by (simp only: slot_simps(3) I) simp
  have sl: "slot ?s i k = (if k = addr_slot j then c else slot s i k)" if k: "k \<le> MAXFILE" for k
  proof -
    consider "k < NDIRECT" | "NDIRECT \<le> k" "k < MAXFILE" | "k = MAXFILE" using k by linarith
    then show ?thesis
    proof cases
      case 1
      then show ?thesis unfolding slot_simps(1) [OF 1] I using assms(5) w(3) by simp
    next
      case 2
      have z: "slot s i MAXFILE = 0" if "j = NDIRECT" using that assms(6) by (simp add: slot_simps(3))
      have "k - NDIRECT < NINDIRECT" using 2 by simp
      then show ?thesis unfolding slot_simps(2) [OF 2] sm using 2 c(5) f(1) ind z assms(5) by (auto simp: get32_zeros)
    next
      case 3
      then show ?thesis using sm assms(5) by simp
    qed
  qed
  have b0: "BBLOCK c (sb s) \<noteq> 0" using B assms(2) by (auto simp: file_wf_def meta_ok_def)
  have len: "length (fview ?s (slot s i MAXFILE)) = BSIZE" if "slot s i MAXFILE \<noteq> 0"
    using that ind w(6) [of MAXFILE] by (simp add: data_block_def)
  have "inodes ?s = (inodes s)[i := (inodes s ! i)\<lparr>i_addrs := (i_addrs (inodes s ! i))[j := c]\<rparr>]" using e by simp
  moreover have "{BBLOCK c (sb s), c} \<subseteq> insert c (insert (slot ?s i MAXFILE) (map_blocks (sb s))) - {0}" using B b0 f(1) by auto
  moreover have "wrote {BBLOCK c (sb s), c} s ?s" "length ((i_addrs (inodes s ! i))[j := c]) = 13" using c(8) w(3) by simp_all
  moreover have "fs_ok cur ?s" "sb ?s = sb s" "bitmap_ok ?s" "fview ?s c = replicate BSIZE 0"
      "\<forall>x < sb_size (sb s). used (sb s) (fview ?s) x \<longleftrightarrow> used (sb s) (fview s) x \<or> x = c" using ok e(1) c(4,5,7) by simp_all
  moreover have "frame cur s ?s" by (rule frame_inode [OF frame_log [OF c(9,10)]])
  ultimately have "grown cur i (addr_slot j) c s ?s" using c(2,3) sl len by (intro grownI)
  with c(1) show ?thesis by blast
qed

lemma get32_entry:
  assumes "length d = BSIZE" "k < NINDIRECT" "x < NINDIRECT"
  shows "get32 (put32 d (4 * k) c) (4 * x) = (if x = k then c else get32 d (4 * x))"
proof (cases "x = k")
  case False
  then have "4 * k + 4 \<le> 4 * x \<or> 4 * x + 4 \<le> 4 * k" by linarith
  then show ?thesis using False by (simp add: get32_put32_other)
qed (use assms in \<open>simp add: get32_put32\<close>)

text \<open>Allocating a block while the indirect block \<open>a\<close> is held.\<close>

lemma balloc_held:
  fixes s :: "'a fsst_scheme"
  assumes "fs_ok cur s" "file_wf s i" "slack (card (map_blocks (sb s) - set (lh s)) + 3) s" "0 < nfree s"
    "data_block s i a" "opened cur a s bp t"
  shows "\<exists>c t'. balloc cur 1 t = Ret (c, t') \<and> c < sb_size (sb s) \<and> \<not> used (sb s) (fview s) c \<and>
    (\<forall>x < sb_size (sb s). used (sb s) (fview t') x \<longleftrightarrow> used (sb s) (fview s) x \<or> x = c) \<and>
    fview t' c = replicate BSIZE 0 \<and> fs_calm cur t' \<and> bitmap_ok t' \<and> wrote {BBLOCK c (sb s), c} t t' \<and>
    t' = s\<lparr>lbio := lbio t', lh := lh t'\<rparr> \<and> holds cur a bp t' \<and> bdata t' bp = fview s a \<and> locks (lbio t') = {bp} \<and> slack 1 t' \<and>
    who cur (lbio t') = who cur (lbio s)"
proof -
  note q = fs_ok_calm [OF assms(1)] and w = file_wfD [OF assms(2)] and o = assms(6) [unfolded opened_def] and l = opened_log [OF assms(6)]
  obtain tb where t: "t = s\<lparr>lbio := tb\<rparr>" using o by blast
  have e: "sb t = sb s" using t by simp
  have lk: "locks (lbio t) = {bp}" using opened_locks [OF assms(6)] q(2) by simp
  have ds: "disksize (lbio t) = disksize (lbio s)" using o by (simp add: bsame_def)
  have calm: "fs_calm cur t" using q(1) o lk assms(3) by (simp add: fs_calm_def holds_def l slack_def)
  have bm: "bitmap_ok t" using w(4) by (simp add: bitmap_ok_def e l ds)
  have "unheld (lbio t) x \<longleftrightarrow> x \<noteq> a" for x using o unfolding unheld_def lk holds_def caches_def by auto
  then have cl: "alloc_clear t" using assms(5) unfolding alloc_clear_def by (auto simp: e l(7) data_block_def map_blocks_def)
  obtain z where z: "z < sb_size (sb t)" "\<not> used (sb t) (fview t) z" using free_exists [OF assms(4)] e l by auto
  have "slack (card (map_blocks (sb t) - set (lh t)) + card (locks (lbio t)) + 2) t" using assms(3) lk by (simp add: l e numeral_3_eq_3)
  from balloc_spec [OF calm this cl bm z] obtain c t' where c: "balloc cur 1 t = Ret (c, t')" "c < sb_size (sb s)" "\<not> used (sb s) (fview s) c"
      "\<forall>x < sb_size (sb s). used (sb s) (fview t') x \<longleftrightarrow> used (sb s) (fview s) x \<or> x = c"
      "fview t' c = replicate BSIZE 0" "fs_calm cur t'" "bitmap_ok t'" "wrote {BBLOCK c (sb s), c} t t'" "t' = t\<lparr>lbio := lbio t', lh := lh t'\<rparr>"
      "who cur (lbio t') = who cur (lbio t)"
    by (auto simp: e l(7))
  have k: "locks (lbio t') = {bp}" "bufs (lbio t') ! bp = bufs (lbio t) ! bp" using c(8) lk by (auto simp: wrote_def kept_def)
  have h: "holds cur a bp t'" using o k(2) c(6,10) by (simp add: holds_def caches_def held_def fs_calm_def)
  have "{BBLOCK c (sb s), c} - set (lh t) \<subseteq> insert c (map_blocks (sb s) - set (lh s))" using c(2) by (auto simp: map_blocks_def l)
  then have "card ({BBLOCK c (sb s), c} - set (lh t)) \<le> card (insert c (map_blocks (sb s) - set (lh s)))" by (intro card_mono) simp
  also have "\<dots> \<le> Suc (card (map_blocks (sb s) - set (lh s)))" by (simp add: card_insert_if)
  finally have "card ({BBLOCK c (sb s), c} - set (lh t)) \<le> Suc (card (map_blocks (sb s) - set (lh s)))" .
  then have "slack (1 + card ({BBLOCK c (sb s), c} - set (lh t))) t" by (simp only: l(6)) (rule slack_mono [OF assms(3)], simp)
  then have "slack 1 t'" using wrote_slack [OF c(8)] calm c(6) by (simp add: fs_calm_def)
  moreover have "t\<lparr>lbio := x, lh := y\<rparr> = s\<lparr>lbio := x, lh := y\<rparr>" for x y using t by simp
  then have "t' = s\<lparr>lbio := lbio t', lh := lh t'\<rparr>" using c(9) by metis
  moreover have "bdata t' bp = fview s a" using o k(2) by simp
  moreover have "who cur (lbio t') = who cur (lbio s)" using c(10) o by (simp add: bsame_def)
  ultimately show ?thesis using c h k(1) by blast
qed

lemma grow_entry:
  fixes s :: "'a fsst_scheme"
  assumes "fs_ok cur s" "file_wf s i" "slack (card (map_blocks (sb s) - set (lh s)) + 3) s" "0 < nfree s"
    "NDIRECT \<le> k" "k < MAXFILE" "slot s i k = 0" "slot s i MAXFILE \<noteq> 0" "opened cur (slot s i MAXFILE) s bp t"
  shows "\<exists>c t' u s'. balloc cur 1 t = Ret (c, t') \<and>
    log_write bp (set_bdata bp (put32 (bdata t' bp) (4 * (k - NDIRECT)) c) t') = Ret u \<and> fs_brelse cur bp u = Ret s' \<and> grown cur i k c s s'"
proof -
  let ?a = "slot s i MAXFILE" and ?e = "4 * (k - NDIRECT)"
  note q = fs_ok_calm [OF assms(1)] and w = file_wfD [OF assms(2)] and l = opened_log [OF assms(9)]
  have da: "data_block s i ?a" using w(6) assms(8) by blast
  obtain c t' where c: "balloc cur 1 t = Ret (c, t')" "c < sb_size (sb s)" "\<not> used (sb s) (fview s) c"
      "\<forall>x < sb_size (sb s). used (sb s) (fview t') x \<longleftrightarrow> used (sb s) (fview s) x \<or> x = c"
      "fview t' c = replicate BSIZE 0" "fs_calm cur t'" "bitmap_ok t'" "wrote {BBLOCK c (sb s), c} t t'"
      "t' = s\<lparr>lbio := lbio t', lh := lh t'\<rparr>" "holds cur ?a bp t'" "bdata t' bp = fview s ?a" "locks (lbio t') = {bp}" "slack 1 t'"
      "who cur (lbio t') = who cur (lbio s)"
    using balloc_held [OF assms(1-4) da assms(9)] by blast
  note f = fresh_block [OF assms(2) c(2,3)]
  let ?d = "put32 (fview s ?a) ?e c"
  obtain u s' where u: "log_write bp (set_bdata bp ?d t') = Ret u" "fs_brelse cur bp u = Ret s'" "bio_inv cur (lbio s')" "log_tidy s'"
      "s' = t'\<lparr>lbio := lbio s', lh := (if ?a \<in> set (lh t') then lh t' else lh t' @ [?a])\<rparr>" "fview s' = (fview t')(?a := ?d)"
      "disksize (lbio s') = disksize (lbio t')" "\<forall>j. j \<noteq> bp \<longrightarrow> bufs (lbio s') ! j = bufs (lbio t') ! j" "\<not> sl_locked (b_lock (bufs (lbio s') ! bp))"
      "who cur (lbio s') = who cur (lbio t')"
    using fs_modify_held [OF c(10), of ?d] c(6,13) unfolding fs_calm_def by blast
  have e: "sb s' = sb s" "inodes s' = inodes s" "lg_size s' = lg_size s" "lg_lock s' = lg_lock t'" "outstanding s' = outstanding t'"
      "set (lh s') = insert ?a (set (lh t'))" "length (lh s') \<le> Suc (length (lh t'))"
    using arg_cong [OF u(5), of sb] arg_cong [OF c(9), of sb] arg_cong [OF u(5), of inodes] arg_cong [OF c(9), of inodes]
      arg_cong [OF u(5), of lg_size] arg_cong [OF c(9), of lg_size] arg_cong [OF u(5), of lg_lock] arg_cong [OF u(5), of outstanding]
      arg_cong [OF u(5), of lh] by auto
  have lk: "locks (lbio s') = {}" using locks_but [of bp "lbio s'" "lbio t'"] u(8,9) c(12) by (auto simp: locks_def)
  have lgs: "lg_size t' = lg_size s" using arg_cong [OF c(9), of lg_size] by simp
  have "length (lh s') < NBUF" using e(7) c(13) q(1) by (simp add: slack_def lgs fs_calm_def log_tidy_def)
  then have ok: "fs_ok cur s'" using u(3,4) c(6) e lk by (simp add: fs_ok_def fs_calm_def)
  have ac: "?a \<noteq> c" "?a \<notin> map_blocks (sb s)" "length (fview s ?a) = BSIZE" using f(4) da by (auto simp: data_block_def)
  have v: "fview s' x = fview s x" if "x \<notin> {BBLOCK c (sb s), c, ?a}" for x using that u(6) c(8) l(7) by (simp add: wrote_def)
  have M: "BBLOCK x (sb s) \<noteq> ?a" if "x < sb_size (sb s)" for x using ac(2) that unfolding map_blocks_def by (metis imageI mem_Collect_eq)
  have us: "used (sb s) (fview s') x = used (sb s) (fview t') x" if "x < sb_size (sb s)" for x using M [OF that] u(6) by (simp add: used_def)
  have bm: "bitmap_ok s'" using c(7) M us u(6,7) arg_cong [OF c(9), of sb] by (simp add: bitmap_ok_def e)
  have sm: "slot s' i MAXFILE = ?a" by (simp add: slot_simps(3) e)
  have sl: "slot s' i x = (if x = k then c else slot s i x)" if x: "x \<le> MAXFILE" for x
  proof -
    consider "x < NDIRECT" | "NDIRECT \<le> x" "x < MAXFILE" | "x = MAXFILE" using x by linarith
    then show ?thesis
    proof cases
      case 1
      then show ?thesis using assms(5) by (simp add: slot_simps(1) e)
    next
      case 2
      then have "x - NDIRECT < NINDIRECT" "k - NDIRECT < NINDIRECT" "x - NDIRECT = k - NDIRECT \<longleftrightarrow> x = k" using assms(5,6) by auto
      then show ?thesis unfolding slot_simps(2) [OF 2] sm using u(6) get32_entry [OF ac(3)] assms(8) by simp
    next
      case 3
      then show ?thesis using sm assms(6) by simp
    qed
  qed
  have "wrote {BBLOCK c (sb s), c, ?a} s s'"
    using v e(6) c(8) l lk q(2) assms(9) u(7) unfolding wrote_def opened_def bsame_def kept_def by (auto simp: e(3))
  moreover have "BBLOCK c (sb s) \<in> map_blocks (sb s)" "0 \<notin> map_blocks (sb s)" using c(2) assms(2) by (auto simp: map_blocks_def file_wf_def meta_ok_def)
  then have "{BBLOCK c (sb s), c, ?a} \<subseteq> insert c (insert (slot s' i MAXFILE) (map_blocks (sb s))) - {0}" using sm f(1) assms(8) by auto
  moreover have "fview s' c = replicate BSIZE 0" "length (fview s' ?a) = BSIZE" using u(6) c(5) ac by simp_all
  moreover have "inodes s' = (inodes s)[i := (inodes s ! i)\<lparr>i_addrs := i_addrs (inodes s ! i)\<rparr>]" using e(2) by simp
  moreover have "\<forall>x < sb_size (sb s). used (sb s) (fview s') x \<longleftrightarrow> used (sb s) (fview s) x \<or> x = c" using c(4) us by blast
  moreover have "frame cur s s'" by (rule frame_trans [OF frame_log [OF c(9,14)] frame_log [OF u(5,10)]])
  ultimately have "grown cur i k c s s'" using ok c(2,3) e(1) bm sl w(3) by (intro grownI)
  then show ?thesis using c(1,11) u(1,2) by (intro exI [of _ c] exI [of _ t'] exI [of _ u] exI [of _ s']) simp
qed

subsection \<open>Extending a file\<close>

text \<open>
  Some of the slots of \<open>K\<close>, and that of the indirect block, have been filled with blocks that were free, and blocks of these slots
  may have been written.
\<close>

definition ext :: "nat \<Rightarrow> nat \<Rightarrow> nat set \<Rightarrow> 'a fsst_scheme \<Rightarrow> 'a fsst_scheme \<Rightarrow> bool" where
  "ext cur i K s s' \<longleftrightarrow> fs_ok cur s' \<and> frame cur s s' \<and> file_wf s' i \<and> sb s' = sb s \<and>
     (\<forall>x\<le>MAXFILE. slot s i x \<noteq> 0 \<or> x \<notin> insert MAXFILE K \<longrightarrow> slot s' i x = slot s i x) \<and>
     (\<forall>x\<le>MAXFILE. slot s' i x \<noteq> slot s i x \<longrightarrow> \<not> used (sb s) (fview s) (slot s' i x)) \<and>
     (\<forall>x < sb_size (sb s). used (sb s) (fview s) x \<longrightarrow> used (sb s) (fview s') x) \<and>
     (\<exists>a. inodes s' = (inodes s)[i := (inodes s ! i)\<lparr>i_addrs := a\<rparr>]) \<and>
     (\<exists>W. wrote W s s' \<and> W \<subseteq> map_blocks (sb s) \<union> slot s' i ` insert MAXFILE K - {0}) \<and>
     nfree s \<le> nfree s' + card {x. x \<le> MAXFILE \<and> slot s i x = 0 \<and> slot s' i x \<noteq> 0}"

lemma ext_refl: "fs_ok cur s \<Longrightarrow> file_wf s i \<Longrightarrow> ext cur i K s s"
  unfolding ext_def by (intro conjI exI [of _ "i_addrs (inodes s ! i)"] exI [of _ "{}"]) auto

lemma ext_slot: "ext cur i K s s' \<Longrightarrow> x \<le> MAXFILE \<Longrightarrow> slot s i x \<noteq> 0 \<or> x \<notin> insert MAXFILE K \<Longrightarrow> slot s' i x = slot s i x"
  unfolding ext_def by blast

lemma ext_ok: "ext cur i K s s' \<Longrightarrow> fs_ok cur s'" "ext cur i K s s' \<Longrightarrow> file_wf s' i" "ext cur i K s s' \<Longrightarrow> sb s' = sb s"
  unfolding ext_def by blast+

lemma ext_frame: "ext cur i K s s' \<Longrightarrow> frame cur s s'"
  unfolding ext_def by blast

lemma ext_wrote: "ext cur i K s s' \<Longrightarrow> \<exists>W. wrote W s s' \<and> W \<subseteq> map_blocks (sb s) \<union> slot s' i ` insert MAXFILE K - {0}"
  unfolding ext_def by blast

lemma ext_free: "ext cur i K s s' \<Longrightarrow> nfree s \<le> nfree s' + card {x. x \<le> MAXFILE \<and> slot s i x = 0 \<and> slot s' i x \<noteq> 0}"
  unfolding ext_def by blast

lemma ext_fresh: "ext cur i K s s' \<Longrightarrow> x \<le> MAXFILE \<Longrightarrow> slot s' i x \<noteq> slot s i x \<Longrightarrow> \<not> used (sb s) (fview s) (slot s' i x)"
  unfolding ext_def by blast

lemma ext_used: "ext cur i K s s' \<Longrightarrow> x < sb_size (sb s) \<Longrightarrow> used (sb s) (fview s) x \<Longrightarrow> used (sb s) (fview s') x"
  unfolding ext_def by blast

lemma ext_inode: "ext cur i K s s' \<Longrightarrow> \<exists>a. inodes s' = (inodes s)[i := (inodes s ! i)\<lparr>i_addrs := a\<rparr>]"
  unfolding ext_def by blast

lemma ext_indirect: "ext cur i (insert MAXFILE K) s s' = ext cur i K s s'"
  unfolding ext_def insert_absorb2 by (rule refl)

lemma ext_mono:
  assumes "ext cur i K s s'" "K \<subseteq> L"
  shows "ext cur i L s s'"
proof -
  have "map_blocks (sb s) \<union> slot s' i ` insert MAXFILE K - {0} \<subseteq> map_blocks (sb s) \<union> slot s' i ` insert MAXFILE L - {0}" using assms(2) by blast
  then have "\<exists>W. wrote W s s' \<and> W \<subseteq> map_blocks (sb s) \<union> slot s' i ` insert MAXFILE L - {0}" using ext_wrote [OF assms(1)] by blast
  moreover have "\<forall>x\<le>MAXFILE. slot s i x \<noteq> 0 \<or> x \<notin> insert MAXFILE L \<longrightarrow> slot s' i x = slot s i x" using ext_slot [OF assms(1)] assms(2) by blast
  ultimately show ?thesis using assms(1) unfolding ext_def by (elim conjE) (intro conjI)
qed

text \<open>What is left of the log and of the free blocks.\<close>

lemma ext_budget:
  fixes s s' :: "'a fsst_scheme"
  assumes "fs_ok cur s" "ext cur i K s s'" "finite K" "slack (card (map_blocks (sb s)) + card K + 1 + B) s"
  shows "slack (card (map_blocks (sb s') - set (lh s')) + B + of_bool (slot s' i MAXFILE = 0)) s'"
proof -
  let ?M = "map_blocks (sb s)" and ?z = "of_bool (slot s' i MAXFILE = 0) :: nat" and ?S = "slot s' i ` insert MAXFILE K - {0}"
  obtain W where W: "wrote W s s'" "W \<subseteq> ?M \<union> ?S" using ext_wrote [OF assms(2)] by blast
  have "?S \<subseteq> slot s' i ` K \<union> (if slot s' i MAXFILE = 0 then {} else {slot s' i MAXFILE})" by auto
  then have "card ?S \<le> card (slot s' i ` K \<union> (if slot s' i MAXFILE = 0 then {} else {slot s' i MAXFILE}))" using assms(3) by (intro card_mono) auto
  also have "\<dots> \<le> card K + (1 - ?z)" using card_image_le [OF assms(3), of "slot s' i"]
    by (intro order.trans [OF card_Un_le] add_mono) auto
  finally have S: "card ?S + ?z \<le> card K + 1" by (auto split: if_splits)
  have "card (?M - set (lh s')) + card (W - set (lh s)) = card ((?M - set (lh s')) \<union> (W - set (lh s)))"
    using W(1) by (subst card_Un_disjoint) (auto simp: wrote_def)
  also have "\<dots> \<le> card (?M \<union> ?S)" using W(2) by (intro card_mono) auto
  also have "\<dots> \<le> card ?M + card ?S" by (rule card_Un_le)
  finally have "slack (card (?M - set (lh s')) + B + ?z + card (W - set (lh s))) s" using S by (intro slack_mono [OF assms(4)]) linarith
  then show ?thesis using wrote_slack [OF W(1)] assms(1) ext_ok(1,3) [OF assms(2)] by (simp add: fs_ok_def fs_calm_def)
qed

text \<open>The number of blocks that are missing for a file of \<open>n\<close> blocks.\<close>

definition missing :: "'a fsst_scheme \<Rightarrow> nat \<Rightarrow> nat \<Rightarrow> nat" where
  "missing s i n = card {k. (k < n \<or> k = MAXFILE) \<and> slot s i k = 0}"

lemma missing_fin [simp]: "finite {k. (k < n \<or> k = m) \<and> P k}" for n m :: nat
  by (rule finite_subset [of _ "{..max n m}"]) auto

lemma missing_room:
  assumes "missing s i n \<le> nfree s" "k < n" "k < MAXFILE" "slot s i k = 0"
  shows "1 + of_bool (slot s i MAXFILE = 0) \<le> nfree s"
proof -
  have "(if slot s i MAXFILE = 0 then {k, MAXFILE} else {k}) \<subseteq> {k. (k < n \<or> k = MAXFILE) \<and> slot s i k = 0}" using assms(2,4) by auto
  then have "card (if slot s i MAXFILE = 0 then {k, MAXFILE} else {k}) \<le> missing s i n" unfolding missing_def by (intro card_mono) simp
  then show ?thesis using assms(1,3) by (auto split: if_splits)
qed

lemma missing_mono: "m \<le> n \<Longrightarrow> missing s i m \<le> missing s i n"
  unfolding missing_def by (intro card_mono) auto

lemma ext_missing:
  assumes "ext cur i K s s'" "K \<subseteq> {..<n}" "n \<le> MAXFILE" "missing s i n \<le> nfree s"
  shows "missing s' i n \<le> nfree s'"
proof -
  let ?M = "\<lambda>s. {k. (k < n \<or> k = MAXFILE) \<and> slot s i k = 0}" and ?N = "{x. x \<le> MAXFILE \<and> slot s i x = 0 \<and> slot s' i x \<noteq> 0}"
  have "x < n \<or> x = MAXFILE" if "x \<le> MAXFILE" "slot s i x = 0" "slot s' i x \<noteq> 0" for x
    using ext_slot [OF assms(1) that(1)] that assms(2) by auto
  then have N: "?N \<subseteq> ?M s" by blast
  have "slot s i x = 0" if "x \<le> MAXFILE" "slot s' i x = 0" for x using ext_slot [OF assms(1) that(1)] that(2) by metis
  then have "?M s' \<subseteq> ?M s - ?N" using assms(3) by auto
  then have "card (?M s') \<le> card (?M s - ?N)" by (intro card_mono) simp_all
  also have "\<dots> = card (?M s) - card ?N" using N by (intro card_Diff_subset) (auto intro: finite_subset)
  finally show ?thesis using ext_free [OF assms(1)] assms(4) by (simp add: missing_def)
qed

lemma ext_trans:
  assumes "ext cur i K s t" "ext cur i L t u" "K \<subseteq> {..MAXFILE}"
  shows "ext cur i (K \<union> L) s u"
proof -
  note st = ext_slot [OF assms(1)] and tu = ext_slot [OF assms(2)] and b = ext_ok(3) [OF assms(1)] ext_ok(3) [OF assms(2)]
  have 1: "slot u i x = slot s i x" if "x \<le> MAXFILE" "slot s i x \<noteq> 0 \<or> x \<notin> insert MAXFILE (K \<union> L)" for x
    using that st [of x] tu [of x] by auto
  have 2: "\<not> used (sb s) (fview s) (slot u i x)" if x: "x \<le> MAXFILE" "slot u i x \<noteq> slot s i x" for x
  proof (cases "slot t i x = slot s i x")
    case True
    then have n: "\<not> used (sb s) (fview t) (slot u i x)" using ext_fresh [OF assms(2) x(1)] x(2) b by simp
    have "slot u i x \<noteq> 0" using n ext_ok(2) [OF assms(1)] b(1) by (auto simp: file_wf_def meta_ok_def)
    then have "slot u i x < sb_size (sb s)" using file_wfD(6) [OF ext_ok(2) [OF assms(2)] x(1)] b by (simp add: data_block_def)
    then show ?thesis using ext_used [OF assms(1)] n by blast
  next
    case False
    then have "slot u i x = slot t i x" using st [OF x(1)] tu [OF x(1)] ext_fresh [OF assms(1) x(1)] ext_ok(2) [OF assms(1)] by metis
    then show ?thesis using ext_fresh [OF assms(1) x(1) False] by simp
  qed
  obtain V W where V: "wrote V s t" "V \<subseteq> map_blocks (sb s) \<union> slot t i ` insert MAXFILE K - {0}"
    and W: "wrote W t u" "W \<subseteq> map_blocks (sb s) \<union> slot u i ` insert MAXFILE L - {0}"
    using ext_wrote [OF assms(1)] ext_wrote [OF assms(2)] b by auto
  have "slot t i x \<in> slot u i ` insert MAXFILE (K \<union> L)" if "x \<in> insert MAXFILE K" "slot t i x \<noteq> 0" for x
  proof -
    have "x \<le> MAXFILE" using that(1) assms(3) by auto
    then have "slot t i x = slot u i x" using tu that(2) by simp
    then show ?thesis using that(1) by blast
  qed
  then have "slot t i ` insert MAXFILE K - {0} \<subseteq> slot u i ` insert MAXFILE (K \<union> L)" by blast
  moreover have "slot u i ` insert MAXFILE L \<subseteq> slot u i ` insert MAXFILE (K \<union> L)" by blast
  ultimately have "V \<union> W \<subseteq> map_blocks (sb s) \<union> slot u i ` insert MAXFILE (K \<union> L) - {0}" using V(2) W(2) by blast
  then have 3: "\<exists>W. wrote W s u \<and> W \<subseteq> map_blocks (sb s) \<union> slot u i ` insert MAXFILE (K \<union> L) - {0}" using wrote_trans [OF V(1) W(1)] by blast
  let ?N = "\<lambda>s t. {x. x \<le> MAXFILE \<and> slot s i x = 0 \<and> slot t i x \<noteq> 0}"
  have "slot u i x \<noteq> 0" if "x \<le> MAXFILE" "slot t i x \<noteq> 0" for x using tu [OF that(1)] that(2) by simp
  moreover have "slot s i x = 0" if "x \<le> MAXFILE" "slot t i x = 0" for x using st [OF that(1)] that(2) by metis
  ultimately have "?N s t \<union> ?N t u \<subseteq> ?N s u" by blast
  then have "card (?N s t \<union> ?N t u) \<le> card (?N s u)" by (intro card_mono) simp_all
  moreover have "card (?N s t \<union> ?N t u) = card (?N s t) + card (?N t u)" by (rule card_Un_disjoint) auto
  ultimately have "card (?N s t) + card (?N t u) \<le> card (?N s u)" by linarith
  then have 4: "nfree s \<le> nfree u + card (?N s u)" using ext_free [OF assms(1)] ext_free [OF assms(2)] by linarith
  obtain a c where "inodes t = (inodes s)[i := (inodes s ! i)\<lparr>i_addrs := a\<rparr>]" "inodes u = (inodes t)[i := (inodes t ! i)\<lparr>i_addrs := c\<rparr>]"
    using ext_inode [OF assms(1)] ext_inode [OF assms(2)] by blast
  then have 5: "\<exists>a. inodes u = (inodes s)[i := (inodes s ! i)\<lparr>i_addrs := a\<rparr>]" using file_wfD(1) [OF ext_ok(2) [OF assms(1)]] by auto
  have 6: "used (sb s) (fview u) x" if "x < sb_size (sb s)" "used (sb s) (fview s) x" for x
    using that ext_used [OF assms(1)] ext_used [OF assms(2)] b by simp
  show ?thesis unfolding ext_def using ext_ok(1,2) [OF assms(2)] frame_trans [OF ext_frame [OF assms(1)] ext_frame [OF assms(2)]] b 1 2 3 4 5 6 by simp
qed

lemma grown_ext:
  assumes "file_wf s i" "slot s i j = 0" "j \<le> MAXFILE" "grown cur i j c s s'"
  shows "ext cur i {j} s s'"
proof -
  note g = assms(4) [unfolded grown_def] and w = grown_wf [OF assms]
  have c: "c < sb_size (sb s)" "\<not> used (sb s) (fview s) c" using g by blast+
  note f = fresh_block [OF assms(1) c]
  have sl: "slot s' i k = (if k = j then c else slot s i k)" if "k \<le> MAXFILE" for k using g that by blast
  obtain W where W: "wrote W s s'" "W \<subseteq> insert c (insert (slot s' i MAXFILE) (map_blocks (sb s))) - {0}" using g by blast
  have "c = slot s' i j" using sl [OF assms(3)] by simp
  then have "W \<subseteq> map_blocks (sb s) \<union> slot s' i ` insert MAXFILE {j} - {0}" using W(2) by auto
  moreover have "{x. x \<le> MAXFILE \<and> slot s i x = 0 \<and> slot s' i x \<noteq> 0} = {j}" using sl assms(2,3) f(1) by (auto split: if_splits)
  then have "nfree s \<le> nfree s' + card {x. x \<le> MAXFILE \<and> slot s i x = 0 \<and> slot s' i x \<noteq> 0}" using w(2) by simp
  moreover have "\<exists>a. inodes s' = (inodes s)[i := (inodes s ! i)\<lparr>i_addrs := a\<rparr>]" using g by blast
  moreover have "\<forall>x\<le>MAXFILE. slot s i x \<noteq> 0 \<or> x \<notin> insert MAXFILE {j} \<longrightarrow> slot s' i x = slot s i x" using sl assms(2) by auto
  moreover have "\<forall>x\<le>MAXFILE. slot s' i x \<noteq> slot s i x \<longrightarrow> \<not> used (sb s) (fview s) (slot s' i x)" using sl c(2) by auto
  moreover have "\<forall>x < sb_size (sb s). used (sb s) (fview s) x \<longrightarrow> used (sb s) (fview s') x" "fs_ok cur s'" "sb s' = sb s" "frame cur s s'" using g by blast+
  ultimately show ?thesis unfolding ext_def using w(1) W(1) by blast
qed

lemma same_view_slots:
  assumes "inodes s' = inodes s" "fview s' = fview s"
  shows "slot s' i k = slot s i k"
  using assms by (simp add: slot_def file_block_def Let_def)

lemma fs_read_ext:
  fixes s s' :: "'a fsst_scheme"
  assumes "fs_ok cur s" "file_wf s i" "fs_read cur s s'" "bio_inv cur (lbio s')"
  shows "ext cur i K s s'" "inodes s' = inodes s" "slot s' i k = slot s i k" "fview s' = fview s"
proof -
  show i: "inodes s' = inodes s" using fs_readD [OF assms(3)] by auto
  show v: "fview s' = fview s" using fs_read_view [OF assms(3)] by simp
  show sl: "slot s' i k = slot s i k" for k using same_view_slots [OF i v] .
  have b: "sb s' = sb s" "bitmap_ok s' = bitmap_ok s" using fs_read_bitmap [OF assms(3)] by simp_all
  have "file_wf s' i" using assms(2) by (simp add: file_wf_def meta_ok_def data_block_def i v b sl)
  moreover have "nfree s' = nfree s" by (simp add: nfree_def b v)
  moreover have "\<exists>a. inodes s' = (inodes s)[i := (inodes s ! i)\<lparr>i_addrs := a\<rparr>]" using i by (intro exI [of _ "i_addrs (inodes s ! i)"]) simp
  moreover have "frame cur s s'" using fs_readD [OF assms(3)] assms(3) by (auto simp: frame_def fs_read_def bsame_def)
  ultimately show "ext cur i K s s'" unfolding ext_def using fs_read_ok [OF assms(1,3,4)] b(1) sl v fs_read_wrote [OF assms(3)] by auto
qed

text \<open>Writing a block that is neither a part of the map nor the indirect block.\<close>

lemma fs_wrote_wf:
  fixes s s' :: "'a fsst_scheme"
  assumes "file_wf s i" "fs_wrote cur b d s s'" "b \<notin> map_blocks (sb s)" "b \<noteq> slot s i MAXFILE" "length d = BSIZE"
  shows "file_wf s' i" "inodes s' = inodes s" "sb s' = sb s" "x \<le> MAXFILE \<Longrightarrow> slot s' i x = slot s i x" "nfree s' = nfree s"
    "c < sb_size (sb s) \<Longrightarrow> used (sb s) (fview s') c = used (sb s) (fview s) c"
proof -
  note w = file_wfD [OF assms(1)]
  have v: "fview s' = (fview s)(b := d)" "disksize (lbio s') = disksize (lbio s)" using assms(2) by (simp_all add: fs_wrote_def)
  show i: "inodes s' = inodes s" and b: "sb s' = sb s" using fs_wroteD [OF assms(2)] by auto
  have M: "BBLOCK x (sb s) \<noteq> b" if "x < sb_size (sb s)" for x
    using assms(3) that unfolding map_blocks_def by (metis imageI mem_Collect_eq)
  show u: "used (sb s) (fview s') x = used (sb s) (fview s) x" if "x < sb_size (sb s)" for x using M [OF that] v by (simp add: used_def)
  have bm: "bitmap_ok s'" using w(4) M u v b by (simp add: bitmap_ok_def)
  have m: "slot s' i MAXFILE = slot s i MAXFILE" "fview s' (slot s i MAXFILE) = fview s (slot s i MAXFILE)" using i v assms(4) by (simp_all add: slot_simps(3))
  show sl: "slot s' i x = slot s i x" if x: "x \<le> MAXFILE" for x
  proof -
    consider "x < NDIRECT" | "NDIRECT \<le> x" "x < MAXFILE" | "x = MAXFILE" using x by linarith
    then show ?thesis by cases (simp_all add: slot_simps(1,2) m i)
  qed
  have meta: "meta_ok s' i" using assms(1,5) bm u v by (auto simp: file_wf_def meta_ok_def i b Let_def)
  have "data_block s' i (slot s i x)" if "x \<le> MAXFILE" "slot s i x \<noteq> 0" for x
    using w(6) [OF that] u v assms(5) by (auto simp: data_block_def i b)
  then show "file_wf s' i" using assms(1) meta sl by (auto simp: file_wf_def i)
  have "{x. x < sb_size (sb s) \<and> \<not> used (sb s) (fview s') x} = {x. x < sb_size (sb s) \<and> \<not> used (sb s) (fview s) x}" using u by auto
  then show "nfree s' = nfree s" by (simp add: nfree_def b)
qed

lemma fs_wrote_ext:
  fixes s s' :: "'a fsst_scheme"
  assumes "file_wf s i" "fs_calm cur s'" "fs_ok cur s" "fs_wrote cur (slot s i k) d s s'" "k < MAXFILE" "slot s i k \<noteq> 0" "length d = BSIZE"
  shows "ext cur i {k} s s'" "inodes s' = inodes s" "x \<le> MAXFILE \<Longrightarrow> slot s' i x = slot s i x"
proof -
  let ?b = "slot s i k"
  have "?b \<notin> map_blocks (sb s)" "?b \<noteq> slot s i MAXFILE"
    using file_wfD(6) [OF assms(1), of k] file_wfD(5) [OF assms(1), of MAXFILE k] assms(5,6) by (auto simp: data_block_def)
  note r = fs_wrote_wf [OF assms(1,4) this assms(7)]
  show "inodes s' = inodes s" "x \<le> MAXFILE \<Longrightarrow> slot s' i x = slot s i x" using r by blast+
  have "\<exists>a. inodes s' = (inodes s)[i := (inodes s ! i)\<lparr>i_addrs := a\<rparr>]" using r(2) by (intro exI [of _ "i_addrs (inodes s ! i)"]) simp
  moreover have "fs_ok cur s'" using assms(2,3,4) by (simp add: fs_ok_def kept_def fs_wrote_def)
  moreover have "\<exists>W. wrote W s s' \<and> W \<subseteq> map_blocks (sb s) \<union> slot s' i ` insert MAXFILE {k} - {0}"
    using fs_wrote_wrote [OF assms(4)] r(4) [of k] assms(5,6) by (intro exI [of _ "{?b}"]) simp
  moreover have "frame cur s s'" using fs_wroteD [OF assms(4)] assms(4) by (auto simp: frame_def fs_wrote_def)
  ultimately show "ext cur i {k} s s'" unfolding ext_def using r by auto
qed

subsection \<open>\<^verbatim>\<open>bmap\<close>\<close>

text \<open>The part of \<^verbatim>\<open>bmap\<close> that looks into the indirect block.\<close>

definition bmap_entry :: "nat \<Rightarrow> nat \<Rightarrow> nat \<Rightarrow> uint \<Rightarrow> 'a fsst_scheme \<Rightarrow> (uint \<times> 'a fsst_scheme) kres" where
  "bmap_entry cur i k addr s =
     kbind (fs_bread cur (i_dev (inodes s ! i)) addr s) (\<lambda>(bp, s).
     kbind (if get32 (bdata s bp) (4 * k) = 0
            then kbind (balloc cur (i_dev (inodes s ! i)) s) (\<lambda>(addr, s).
                 kbind (log_write bp (set_bdata bp (put32 (bdata s bp) (4 * k) addr) s)) (\<lambda>s. Ret (addr, s)))
            else Ret (get32 (bdata s bp) (4 * k), s)) (\<lambda>(addr, s).
     kbind (fs_brelse cur bp s) (\<lambda>s. Ret (addr, s))))"

lemma bmap_cases:
  assumes "k < MAXFILE"
  shows "bmap cur i (of_nat k) s =
    (if k < NDIRECT then
       if slot s i k = 0 then kbind (balloc cur (i_dev (inodes s ! i)) s) (\<lambda>(addr, s).
         Ret (addr, upd_inode i (\<lambda>ip. ip\<lparr>i_addrs := (i_addrs ip)[k := addr]\<rparr>) s)) else Ret (slot s i k, s)
     else if slot s i MAXFILE = 0 then kbind (balloc cur (i_dev (inodes s ! i)) s) (\<lambda>(addr, s).
         bmap_entry cur i (k - NDIRECT) addr (upd_inode i (\<lambda>ip. ip\<lparr>i_addrs := (i_addrs ip)[NDIRECT := addr]\<rparr>) s))
     else bmap_entry cur i (k - NDIRECT) (slot s i MAXFILE) s)"
proof -
  have u: "unat (of_nat k :: uint) = k" using assms by (simp add: unat_of_nat_32)
  show ?thesis
  proof (cases "k < NDIRECT")
    case True
    then show ?thesis using u by (simp add: bmap_def Let_def slot_simps(1))
  next
    case False
    then have "unat (of_nat k - of_nat NDIRECT :: uint) = k - NDIRECT"
      using u by (subst unat_sub) (simp_all add: word_le_nat_alt)
    moreover have "k - NDIRECT < NINDIRECT" using assms False by simp
    ultimately show ?thesis using False u by (simp add: bmap_def Let_def slot_simps(3) kbind_assoc bmap_entry_def case_prod_unfold)
  qed
qed

lemma bmap_entry_spec:
  fixes s :: "'a fsst_scheme"
  assumes "fs_ok cur s" "file_wf s i" "slack (card (map_blocks (sb s) - set (lh s)) + 3) s" "slot s i k = 0 \<Longrightarrow> 0 < nfree s"
    "NDIRECT \<le> k" "k < MAXFILE" "slot s i MAXFILE \<noteq> 0"
  shows "\<exists>s'. bmap_entry cur i (k - NDIRECT) (slot s i MAXFILE) s = Ret (slot s' i k, s') \<and> slot s' i k \<noteq> 0 \<and> ext cur i {k} s s' \<and>
    (\<forall>x<MAXFILE. slot s i x \<noteq> 0 \<longrightarrow> fview s' (slot s i x) = fview s (slot s i x)) \<and> (slot s i k \<noteq> 0 \<longrightarrow> inodes s' = inodes s)"
proof -
  let ?a = "slot s i MAXFILE"
  note w = file_wfD [OF assms(2)] and q = fs_ok_quiet [OF assms(1)]
  have a: "data_block s i ?a" using w(6) assms(7) by blast
  then have "?a < disksize (lbio s)" using w(4) less_le_trans unfolding bitmap_ok_def data_block_def by blast
  then obtain bp t where t: "fs_bread cur 1 ?a s = Ret (bp, t)" "opened cur ?a s bp t" using fs_bread_quiet [OF q] by blast
  then obtain tb where tb: "t = s\<lparr>lbio := tb\<rparr>" and d: "bdata t bp = fview s ?a" unfolding opened_def by blast
  have it: "inodes t = inodes s" using tb by simp
  have g: "get32 (bdata t bp) (4 * (k - NDIRECT)) = slot s i k" using assms(5-7) d by (simp add: slot_simps(2))
  show ?thesis
  proof (cases "slot s i k = 0")
    case True
    obtain c t' u s' where c: "balloc cur 1 t = Ret (c, t')" "log_write bp (set_bdata bp (put32 (bdata t' bp) (4 * (k - NDIRECT)) c) t') = Ret u"
        "fs_brelse cur bp u = Ret s'" "grown cur i k c s s'"
      using grow_entry [OF assms(1-3) assms(4) [OF True] assms(5,6) True assms(7) t(2)] by blast
    have k: "k \<le> MAXFILE" using assms(6) by simp
    have "slot s' i k = c" "c \<noteq> 0" using c(4) k fresh_block(1) [OF assms(2), of c] unfolding grown_def by auto
    moreover have "bmap_entry cur i (k - NDIRECT) ?a s = Ret (c, s')" using t(1) w(2) it g True c(1-3) by (simp add: bmap_entry_def)
    ultimately show ?thesis using grown_ext [OF assms(2) True k c(4)] grown_keeps(1) [OF assms(2) True k c(4)] True by auto
  next
    case False
    obtain s' where s': "fs_brelse cur bp t = Ret s'" "bio_inv cur (lbio s')" "fs_read cur s s'"
      using fs_brelse_quiet [OF q t(2)] by (auto simp: quiet_iff)
    note r = fs_read_ext [OF assms(1,2) s'(3,2)]
    have "bmap_entry cur i (k - NDIRECT) ?a s = Ret (slot s i k, s')" using t(1) w(2) it g False s'(1) by (simp add: bmap_entry_def)
    then show ?thesis using r False by auto
  qed
qed

lemma bmap_spec:
  fixes s :: "'a fsst_scheme"
  assumes "fs_ok cur s" "file_wf s i" "k < MAXFILE"
    "slack (card (map_blocks (sb s) - set (lh s)) + 3 + of_bool (slot s i MAXFILE = 0)) s" "slot s i k = 0 \<Longrightarrow> 1 + of_bool (slot s i MAXFILE = 0) \<le> nfree s"
  shows "\<exists>s'. bmap cur i (of_nat k) s = Ret (slot s' i k, s') \<and> slot s' i k \<noteq> 0 \<and> ext cur i {k} s s' \<and>
    (\<forall>x<MAXFILE. slot s i x \<noteq> 0 \<longrightarrow> fview s' (slot s i x) = fview s (slot s i x)) \<and> (slot s i k \<noteq> 0 \<longrightarrow> inodes s' = inodes s)"
proof -
  note w = file_wfD [OF assms(2)] and e = ext_refl [OF assms(1,2)]
  have sl: "slack (card (map_blocks (sb s) - set (lh s)) + 2) s" "slack (card (map_blocks (sb s) - set (lh s)) + 3) s"
    by (rule slack_mono [OF assms(4)], simp)+
  have fr: "0 < nfree s" if "slot s i k = 0" using assms(5) [OF that] by simp
  have k: "k \<le> MAXFILE" using assms(3) by simp
  consider (old) "k < NDIRECT" "slot s i k \<noteq> 0" | (new) "k < NDIRECT" "slot s i k = 0" | (entry) "NDIRECT \<le> k" "slot s i MAXFILE \<noteq> 0"
    | (both) "NDIRECT \<le> k" "slot s i MAXFILE = 0" by linarith
  then show ?thesis
  proof cases
    case old
    then show ?thesis using e by (intro exI [of _ s]) (simp add: bmap_cases [OF assms(3)])
  next
    case new
    have "i_addrs (inodes s ! i) ! k = 0" using new by (simp add: slot_simps(1))
    then obtain c s1 where c: "balloc cur 1 s = Ret (c, s1)" "grown cur i k c s (upd_inode i (\<lambda>ip. ip\<lparr>i_addrs := (i_addrs ip)[k := c]\<rparr>) s1)"
      using grow_inode [OF assms(1,2) sl(1) fr [OF new(2)], of k] new by auto
    let ?s = "upd_inode i (\<lambda>ip. ip\<lparr>i_addrs := (i_addrs ip)[k := c]\<rparr>) s1"
    have "slot ?s i k = c" "c \<noteq> 0" using c(2) k fresh_block(1) [OF assms(2), of c] unfolding grown_def by auto
    moreover have "bmap cur i (of_nat k) s = Ret (c, ?s)" using new c(1) w(2) by (simp add: bmap_cases [OF assms(3)])
    ultimately show ?thesis using grown_ext [OF assms(2) new(2) k c(2)] grown_keeps(1) [OF assms(2) new(2) k c(2)] new by (intro exI [of _ ?s]) simp
  next
    case entry
    then show ?thesis using bmap_entry_spec [OF assms(1,2) sl(2) fr entry(1) assms(3) entry(2)] by (simp add: bmap_cases [OF assms(3)])
  next
    case both
    then have z: "slot s i k = 0" using assms(3) by (simp add: slot_simps(2))
    have "i_addrs (inodes s ! i) ! NDIRECT = 0" using both by (simp add: slot_simps(3))
    then obtain c s1 where c: "balloc cur 1 s = Ret (c, s1)"
        "grown cur i MAXFILE c s (upd_inode i (\<lambda>ip. ip\<lparr>i_addrs := (i_addrs ip)[NDIRECT := c]\<rparr>) s1)"
      using grow_inode [OF assms(1,2) sl(1) fr [OF z], of NDIRECT] by auto
    define s2 where "s2 = upd_inode i (\<lambda>ip. ip\<lparr>i_addrs := (i_addrs ip)[NDIRECT := c]\<rparr>) s1"
    note g = c(2) [folded s2_def]
    note x = grown_ext [OF assms(2) both(2) order_refl g] and f = grown_keeps(1) [OF assms(2) both(2) order_refl g]
      and wf = grown_wf [OF assms(2) both(2) order_refl g]
    have s2: "slot s2 i MAXFILE = c" "c \<noteq> 0" "slot s2 i y = slot s i y" if "y < MAXFILE" for y
      using g fresh_block(1) [OF assms(2), of c] that unfolding grown_def by auto
    obtain W where W: "wrote W s s2" "W \<subseteq> map_blocks (sb s) \<union> {c}" using g s2(1) [OF assms(3)] unfolding grown_def by auto
    have "card (map_blocks (sb s2) - set (lh s2)) + card (W - set (lh s)) = card ((map_blocks (sb s) - set (lh s2)) \<union> (W - set (lh s)))"
      using W(1) ext_ok(3) [OF x] by (subst card_Un_disjoint) (auto simp: wrote_def)
    also have "\<dots> \<le> card (insert c (map_blocks (sb s) - set (lh s)))" using W by (intro card_mono) (auto simp: wrote_def)
    also have "\<dots> \<le> Suc (card (map_blocks (sb s) - set (lh s)))" by (simp add: card_insert_if)
    finally have "slack (card (map_blocks (sb s2) - set (lh s2)) + 3 + card (W - set (lh s))) s"
      using both(2) by (intro slack_mono [OF assms(4)]) simp
    then have "slack (card (map_blocks (sb s2) - set (lh s2)) + 3) s2"
      using wrote_slack [OF W(1)] assms(1) ext_ok(1) [OF x] by (simp add: fs_ok_def fs_calm_def)
    moreover have "0 < nfree s2" using wf(2) assms(5) [OF z] both(2) by simp
    ultimately obtain s' where s': "bmap_entry cur i (k - NDIRECT) (slot s2 i MAXFILE) s2 = Ret (slot s' i k, s')" "slot s' i k \<noteq> 0" "ext cur i {k} s2 s'"
        "\<forall>x<MAXFILE. slot s2 i x \<noteq> 0 \<longrightarrow> fview s' (slot s2 i x) = fview s2 (slot s2 i x)"
      using bmap_entry_spec [OF ext_ok(1,2) [OF x] _ _ both(1) assms(3)] s2(1,2) [OF assms(3)] by auto
    have "bmap cur i (of_nat k) s = Ret (slot s' i k, s')"
      using both c(1) w(2) s'(1) s2(1) [OF assms(3)] by (simp add: bmap_cases [OF assms(3)] s2_def)
    moreover have "ext cur i {k} s s'" using ext_trans [OF x s'(3)] ext_indirect [of cur i "{k}" s s'] by (simp add: insert_commute)
    ultimately show ?thesis using s'(2,4) f s2(3) z by auto
  qed
qed

end
