(* ===== verification/Fsfile.thy ===== *)
theory Fsfile
  imports Fsmap
begin

text \<open>
  The contents of a file as a sequence of bytes, and \<^verbatim>\<open>readi\<close> and \<^verbatim>\<open>writei\<close> on it. A write may extend the file by blocks that it allocates.
\<close>

declare readi_loop.simps [simp del] writei_loop.simps [simp del]

subsection \<open>The bytes of a file\<close>

definition file_byte :: "'a fsst_scheme \<Rightarrow> nat \<Rightarrow> nat \<Rightarrow> uchar" where
  "file_byte s i j = fview s (file_block s i (j div BSIZE)) ! (j mod BSIZE)"

text \<open>The first \<open>n\<close> blocks of the file are allocated, on the disk, and whole.\<close>

definition mapped :: "'a fsst_scheme \<Rightarrow> nat \<Rightarrow> nat \<Rightarrow> bool" where
  "mapped s i n \<longleftrightarrow> i_dev (inodes s ! i) = 1 \<and> n \<le> NDIRECT + NINDIRECT \<and>
     (\<forall>k<n. file_block s i k \<noteq> 0 \<and> file_block s i k < disksize (lbio s) \<and> length (fview s (file_block s i k)) = BSIZE) \<and>
     (NDIRECT < n \<longrightarrow> i_addrs (inodes s ! i) ! NDIRECT \<noteq> 0 \<and> i_addrs (inodes s ! i) ! NDIRECT < disksize (lbio s))"

lemma fs_read_refl [simp]: "fs_read cur s s"
  by (simp add: fs_read_def)

lemma fs_read_trans: "fs_read cur s t \<Longrightarrow> fs_read cur t u \<Longrightarrow> fs_read cur s u"
  using fs_readD [of cur s t] fs_readD [of cur t u] by (auto simp: fs_read_def bsame_def intro: kept_trans)

lemma fs_read_file:
  fixes s s' :: "'a fsst_scheme"
  assumes "fs_read cur s s'"
  shows "inodes s' = inodes s" "file_block s' = file_block s" "file_byte s' = file_byte s" "mapped s' = mapped s"
proof -
  show i: "inodes s' = inodes s" using fs_readD [OF assms] by auto
  show b: "file_block s' = file_block s" using i fs_read_view [OF assms] by (intro ext) (simp add: file_block_def Let_def)
  show "file_byte s' = file_byte s" using b fs_read_view [OF assms] by (intro ext) (simp add: file_byte_def)
  show "mapped s' = mapped s" using b i fs_read_view [OF assms] by (intro ext) (simp add: mapped_def)
qed

lemma bmap_mapped:
  fixes s :: "'a fsst_scheme"
  assumes "bio_quiet cur (lbio s)" "mapped s i n" "k < n"
  shows "\<exists>s'. bmap cur i (of_nat k) s = Ret (file_block s i k, s') \<and> bio_quiet cur (lbio s') \<and> fs_read cur s s'"
proof -
  note m = assms(2) [unfolded mapped_def]
  have k: "k < NDIRECT + NINDIRECT" using assms(3) m by linarith
  then have u: "unat (of_nat k :: uint) = k" by (simp add: unat_of_nat_32)
  show ?thesis
  proof (cases "k < NDIRECT")
    case True
    then show ?thesis using m assms(1,3) u by (auto simp: bmap_def Let_def file_block_def)
  next
    case False
    let ?a = "i_addrs (inodes s ! i) ! NDIRECT"
    have a: "?a \<noteq> 0" "?a < disksize (lbio s)" using False m assms(3) by simp_all
    have sub: "unat (of_nat k - of_nat NDIRECT :: uint) = k - NDIRECT"
      using False u by (subst unat_sub) (simp_all add: word_le_nat_alt)
    obtain b t where t: "fs_bread cur 1 ?a s = Ret (b, t)" "opened cur ?a s b t" using fs_bread_quiet [OF assms(1) a(2)] by blast
    then have d: "bdata t b = fview s ?a" unfolding opened_def by blast
    obtain s' where s': "fs_brelse cur b t = Ret s'" "bio_quiet cur (lbio s')" "fs_read cur s s'"
      using fs_brelse_quiet [OF assms(1) t(2)] by blast
    have "get32 (fview s ?a) (4 * (k - NDIRECT)) \<noteq> 0" using m assms(3) False by (auto simp: file_block_def Let_def split: if_splits)
    then have "bmap cur i (of_nat k) s = Ret (file_block s i k, s')"
      using False k u sub a(1) m t(1) d s'(1) by (simp add: bmap_def Let_def file_block_def)
    with s' show ?thesis by blast
  qed
qed

subsection \<open>Reading\<close>

lemma block_offset:
  assumes "j mod BSIZE + x < BSIZE"
  shows "(j + x) div BSIZE = j div BSIZE" "(j + x) mod BSIZE = j mod BSIZE + x"
proof -
  have "j + x = (j mod BSIZE + x) + j div BSIZE * BSIZE" by simp
  then show "(j + x) mod BSIZE = j mod BSIZE + x" "(j + x) div BSIZE = j div BSIZE" using assms by (metis mod_mult_self1 mod_less, linarith)
qed

lemma file_bytes_chunk:
  assumes "length (fview s (file_block s i (j div BSIZE))) = BSIZE" "j mod BSIZE + m \<le> BSIZE"
  shows "take m (drop (j mod BSIZE) (fview s (file_block s i (j div BSIZE)))) = map (file_byte s i) [j..<j + m]"
proof (rule nth_equalityI)
  show "length (take m (drop (j mod BSIZE) (fview s (file_block s i (j div BSIZE))))) = length (map (file_byte s i) [j..<j + m])"
    using assms by simp
next
  fix x assume "x < length (take m (drop (j mod BSIZE) (fview s (file_block s i (j div BSIZE)))))"
  then have x: "x < m" using assms by simp
  then have "j mod BSIZE + x < BSIZE" using assms(2) by linarith
  from block_offset [OF this] show "take m (drop (j mod BSIZE) (fview s (file_block s i (j div BSIZE)))) ! x = map (file_byte s i) [j..<j + m] ! x"
    using x assms by (simp add: file_byte_def)
qed

text \<open>Getting hold of the block of byte \<open>off\<close>, as both loops do.\<close>

lemma open_file_block:
  fixes s :: "'a fsst_scheme"
  assumes "bio_quiet cur (lbio s)" "mapped s i N" "unat off < N * BSIZE"
  defines "blk \<equiv> file_block s i (unat off div BSIZE)"
  shows "\<exists>s1 bp t. bmap cur i (off div of_nat BSIZE) s = Ret (blk, s1) \<and> bio_quiet cur (lbio s1) \<and> fs_read cur s s1 \<and>
    fs_bread cur (i_dev (inodes s1 ! i)) blk s1 = Ret (bp, t) \<and> opened cur blk s1 bp t \<and> bdata t bp = fview s blk"
proof -
  have k: "unat off div BSIZE < N" using assms(3) by (simp add: less_mult_imp_div_less)
  have "unat off div BSIZE < 4294967296" using unat_less_32 [of off] by (meson div_le_dividend le_less_trans)
  then have w: "off div of_nat BSIZE = of_nat (unat off div BSIZE)" by (simp add: word_unat_eq_iff unat_div unat_of_nat_32)
  obtain s1 where s1: "bmap cur i (off div of_nat BSIZE) s = Ret (blk, s1)" "bio_quiet cur (lbio s1)" "fs_read cur s s1"
    using bmap_mapped [OF assms(1,2) k] unfolding w blk_def by blast
  note f = fs_read_file [OF s1(3)] fs_read_view [OF s1(3)]
  have "blk < disksize (lbio s1)" "i_dev (inodes s1 ! i) = 1" using assms(2) k f by (simp_all add: mapped_def blk_def)
  with fs_bread_quiet [OF s1(2), of blk] obtain bp t where "fs_bread cur (i_dev (inodes s1 ! i)) blk s1 = Ret (bp, t)" "opened cur blk s1 bp t"
    by auto
  moreover from this(2) have "bdata t bp = fview s blk" using f unfolding opened_def by metis
  ultimately show ?thesis using s1 by blast
qed

lemma upt_split: "m \<le> r \<Longrightarrow> [a..<a + r] = [a..<a + m] @ [a + m..<a + r]"
  using upt_add_eq_append [of a "a + m" "r - m"] by simp

lemma readi_loop_spec:
  fixes s :: "'a fsst_scheme"
  assumes "bio_quiet cur (lbio s)" "mapped s i N" "tot \<le> n" "unat off + (unat n - unat tot) \<le> N * BSIZE"
  shows "\<exists>s'. readi_loop cur i tot off n s = Ret (map (file_byte s i) [unat off..<unat off + (unat n - unat tot)], s') \<and>
    bio_quiet cur (lbio s') \<and> fs_read cur s s'"
  using assms
proof (induction "unat n - unat tot" arbitrary: tot off s rule: less_induct)
  case less
  show ?case
  proof (cases "tot < n")
    case False
    then show ?thesis using less.prems by (subst readi_loop.simps) (simp add: word_less_nat_alt)
  next
    case True
    let ?m = "chunk tot off n" and ?r = "unat n - unat tot" and ?k = "unat off div BSIZE"
    let ?blk = "file_block s i ?k"
    note c = chunk_bounds [OF True, of off]
    have r: "0 < ?r" using True by (simp add: word_less_nat_alt)
    have offN: "unat off < N * BSIZE" using less.prems(4) r by linarith
    then have k: "?k < N" by (simp add: less_mult_imp_div_less)
    obtain s1 bp t where 1: "bmap cur i (off div of_nat BSIZE) s = Ret (?blk, s1)" "bio_quiet cur (lbio s1)" "fs_read cur s s1"
        "fs_bread cur (i_dev (inodes s1 ! i)) ?blk s1 = Ret (bp, t)" "opened cur ?blk s1 bp t" "bdata t bp = fview s ?blk"
      using open_file_block [OF less.prems(1,2) offN] by blast
    obtain s2 where 2: "fs_brelse cur bp t = Ret s2" "bio_quiet cur (lbio s2)" "fs_read cur s1 s2"
      using fs_brelse_quiet [OF 1(2,5)] by blast
    have s2: "fs_read cur s s2" using fs_read_trans [OF 1(3) 2(3)] .
    have "N * BSIZE \<le> 71680" using less.prems(2) by (simp add: mapped_def)
    then have off: "unat (off + ?m) = unat off + unat ?m" using c(2) less.prems(4) by (simp add: unat_word_ariths)
    have le: "tot + ?m \<le> n" using c(2,4) True by (simp add: word_le_nat_alt word_less_nat_alt)
    have rest: "unat n - unat (tot + ?m) = ?r - unat ?m" using c(4) by simp
    then have lt: "unat n - unat (tot + ?m) < ?r" using c(1) r by linarith
    have e: "unat (off + ?m) + (unat n - unat (tot + ?m)) = unat off + ?r" using off rest c(2) by linarith
    have len: "length (fview s ?blk) = BSIZE" using less.prems(2) k by (simp add: mapped_def)
    obtain s3 where 3: "readi_loop cur i (tot + ?m) (off + ?m) n s2 = Ret (map (file_byte s i) [unat off + unat ?m..<unat off + ?r], s3)"
        "bio_quiet cur (lbio s3)" "fs_read cur s2 s3"
      using less.hyps [OF lt 2(2) _ le, of "off + ?m"] less.prems(2,4) fs_read_file [OF s2] unfolding e by (auto simp: off)
    have "unat (off mod of_nat BSIZE) = unat off mod BSIZE" by (simp add: unat_mod)
    then have "take (unat ?m) (drop (unat (off mod of_nat BSIZE)) (fview s ?blk)) = map (file_byte s i) [unat off..<unat off + unat ?m]"
      using file_bytes_chunk [OF len, of "unat ?m"] c(3) by simp
    moreover have "[unat off..<unat off + ?r] = [unat off..<unat off + unat ?m] @ [unat off + unat ?m..<unat off + ?r]"
      by (rule upt_split [OF c(2)])
    ultimately show ?thesis using True 1 2 3 fs_read_trans [OF s2 3(3)]
      by (subst readi_loop.simps) (simp add: Let_def)
  qed
qed

text \<open>A file whose blocks are all there.\<close>

definition file_ok :: "'a fsst_scheme \<Rightarrow> nat \<Rightarrow> bool" where
  "file_ok s i \<longleftrightarrow> i_type (inodes s ! i) \<noteq> T_DEV \<and> mapped s i ((unat (i_size (inodes s ! i)) + 511) div BSIZE)"

text \<open>
  C10. \<^verbatim>\<open>readi\<close> fails on an offset past the end of the file or on a length that wraps around; otherwise it
  completes and returns the bytes of the file from the offset on, as many as asked for or as there are.
\<close>

theorem readi_correct:
  fixes s :: "'a fsst_scheme"
  assumes "bio_quiet cur (lbio s)" "file_ok s i"
  defines "len \<equiv> i_size (inodes s ! i)"
  shows "if off > len \<or> off + n < off then readi devs cur i off n s = Ret (-1, [], s)
    else \<exists>s'. readi devs cur i off n s =
        Ret (of_nat (min (unat n) (unat len - unat off)),
             map (file_byte s i) [unat off..<min (unat off + unat n) (unat len)], s') \<and>
      bio_quiet cur (lbio s') \<and> fs_read cur s s'"
proof (cases "off > len \<or> off + n < off")
  case True
  then show ?thesis using assms(2) by (auto simp: readi_def file_ok_def len_def Let_def)
next
  case False
  let ?n = "if off + n > len then len - off else n"
  have ov: "unat (off + n) = unat off + unat n" using False by (metis unat_plus_simple not_less)
  have le: "unat off \<le> unat len" using False by (simp add: word_le_nat_alt not_less)
  have n: "unat ?n = min (unat n) (unat len - unat off)"
    using le ov by (auto simp: word_less_nat_alt unat_sub word_le_nat_alt)
  have ends: "unat off + unat ?n = min (unat off + unat n) (unat len)" using n le by simp
  have "unat off + (unat ?n - unat (0 :: uint)) \<le> ((unat len + 511) div BSIZE) * BSIZE" unfolding unat_0 using ends by simp
  from readi_loop_spec [OF assms(1) _ _ this] assms(2) obtain s' where
    s': "readi_loop cur i 0 off ?n s = Ret (map (file_byte s i) [unat off..<unat off + unat ?n], s')" "bio_quiet cur (lbio s')" "fs_read cur s s'"
    by (auto simp: file_ok_def len_def)
  have "readi devs cur i off n s = kbind (readi_loop cur i 0 off ?n s) (\<lambda>(ds, s). Ret (?n, ds, s))"
    using False assms(2) by (simp add: readi_def Let_def file_ok_def len_def)
  then have "readi devs cur i off n s = Ret (?n, map (file_byte s i) [unat off..<unat off + unat ?n], s')"
    unfolding s'(1) by simp
  moreover have "?n = of_nat (min (unat n) (unat len - unat off))" unfolding n [symmetric] by simp
  ultimately have "readi devs cur i off n s = Ret (of_nat (min (unat n) (unat len - unat off)),
      map (file_byte s i) [unat off..<min (unat off + unat n) (unat len)], s')" unfolding ends by (simp only:)
  with False s'(2,3) show ?thesis by auto
qed

subsection \<open>Writing\<close>

text \<open>The number of blocks that \<open>r\<close> bytes from byte \<open>j\<close> on touch.\<close>

definition touched :: "nat \<Rightarrow> nat \<Rightarrow> nat" where
  "touched j r = (if r = 0 then 0 else (j mod BSIZE + r + 511) div BSIZE)"

text \<open>The block of byte \<open>j\<close> with \<open>m\<close> bytes of \<open>src\<close>, from its byte \<open>t\<close> on, written into it.\<close>

lemma patched_byte:
  assumes "length d = BSIZE" "j mod BSIZE + m \<le> BSIZE" "t + m \<le> length src" "x div BSIZE = j div BSIZE"
  shows "(take (j mod BSIZE) d @ take m (drop t src) @ drop (j mod BSIZE + m) d) ! (x mod BSIZE) =
    (if j \<le> x \<and> x < j + m then src ! (t + (x - j)) else d ! (x mod BSIZE))"
proof -
  let ?o = "j mod BSIZE" and ?y = "x mod BSIZE"
  have jx: "j = j div BSIZE * BSIZE + ?o" "x = j div BSIZE * BSIZE + ?y" using assms(4) by (metis div_mult_mod_eq)+
  have y: "?y < BSIZE" by simp
  consider "?y < ?o" | "?o \<le> ?y" "?y < ?o + m" | "?o + m \<le> ?y" by linarith
  then show ?thesis
  proof cases
    case 1
    then have "\<not> j \<le> x" using jx by linarith
    then show ?thesis using 1 assms(1) by (simp add: nth_append)
  next
    case 2
    then have "j \<le> x \<and> x < j + m" "x - j = ?y - ?o" "?y - ?o < m" "?y - ?o < length src - t" using jx assms(3) by linarith+
    then show ?thesis using 2 assms y by (simp add: nth_append)
  next
    case 3
    then have "\<not> x < j + m" "\<not> ?y - ?o < m" "\<not> ?y < ?o" using jx by linarith+
    moreover have "?o + m + (?y - ?o - m) = ?y" using 3 by linarith
    ultimately show ?thesis using 3 assms y by (simp add: nth_append)
  qed
qed

lemma file_byte_slot: "j < MAXFILE * BSIZE \<Longrightarrow> file_byte s i j = fview s (slot s i (j div BSIZE)) ! (j mod BSIZE)"
  by (simp add: file_byte_def slot_def less_mult_imp_div_less)

lemma block_before: "j < e \<Longrightarrow> j div BSIZE < (e + 511) div BSIZE"
  using div_le_mono [of "j + BSIZE" "e + 511" BSIZE] by simp

lemma last_block: "e \<le> MAXFILE * BSIZE \<Longrightarrow> (e + 511) div BSIZE \<le> MAXFILE"
  using div_le_mono [of "e + 511" "MAXFILE * BSIZE + 511" BSIZE] by simp

lemma full_block:
  assumes "m + j mod BSIZE = BSIZE"
  shows "j + m = Suc (j div BSIZE) * BSIZE"
proof -
  have "j + m = j div BSIZE * BSIZE + (m + j mod BSIZE)" using div_mult_mod_eq [of j BSIZE] by (metis add.assoc add.commute)
  then show ?thesis unfolding assms by simp
qed

lemma div_full: "m + j mod BSIZE = BSIZE \<Longrightarrow> (j + m) div BSIZE = Suc (j div BSIZE)"
  using full_block [of m j] by (metis nonzero_mult_div_cancel_right zero_neq_numeral)

text \<open>The range of blocks of \<open>m\<close> bytes inside one block.\<close>

lemma one_block:
  assumes "0 < m" "j mod BSIZE + m \<le> BSIZE"
  shows "(j + m + 511) div BSIZE = Suc (j div BSIZE)"
proof -
  define d where "d = BSIZE - j mod BSIZE"
  have d: "d + j mod BSIZE = BSIZE" "m \<le> d" using assms(2) by (simp_all add: d_def)
  have "(j + m + 511) div BSIZE \<le> (j + d + 511) div BSIZE" using d(2) by (intro div_le_mono) simp
  also have "j + d + 511 = 511 + Suc (j div BSIZE) * BSIZE" using full_block [OF d(1)] by (simp only: add.commute)
  also have "\<dots> div BSIZE = Suc (j div BSIZE) + 511 div BSIZE" by (rule div_mult_self1) simp
  also have "\<dots> = Suc (j div BSIZE)" by simp
  finally show ?thesis using block_before [of j "j + m"] assms(1) by linarith
qed

text \<open>The bytes from \<open>a\<close> to \<open>b\<close> of the file have been replaced by bytes of \<open>src\<close> from \<open>t\<close> on.\<close>

definition written :: "nat \<Rightarrow> nat \<Rightarrow> uchar list \<Rightarrow> nat \<Rightarrow> nat \<Rightarrow> nat \<Rightarrow> 'a fsst_scheme \<Rightarrow> 'a fsst_scheme \<Rightarrow> bool" where
  "written cur i src t a b s s' \<longleftrightarrow> ext cur i {a div BSIZE..<(b + 511) div BSIZE} s s' \<and>
     (\<forall>x. a < b \<longrightarrow> a div BSIZE \<le> x \<longrightarrow> x < (b + 511) div BSIZE \<longrightarrow> slot s' i x \<noteq> 0) \<and>
     ((\<forall>x. a div BSIZE \<le> x \<longrightarrow> x < (b + 511) div BSIZE \<longrightarrow> slot s i x \<noteq> 0) \<longrightarrow> inodes s' = inodes s) \<and>
     (\<forall>j<MAXFILE * BSIZE. (a \<le> j \<and> j < b) \<or> slot s i (j div BSIZE) \<noteq> 0 \<longrightarrow>
        file_byte s' i j = (if a \<le> j \<and> j < b then src ! (t + (j - a)) else file_byte s i j))"

lemma writtenD:
  assumes "written cur i src t a b s s'"
  shows "ext cur i {a div BSIZE..<(b + 511) div BSIZE} s s'"
    "a < b \<Longrightarrow> a div BSIZE \<le> x \<Longrightarrow> x < (b + 511) div BSIZE \<Longrightarrow> slot s' i x \<noteq> 0"
    "(\<And>x. a div BSIZE \<le> x \<Longrightarrow> x < (b + 511) div BSIZE \<Longrightarrow> slot s i x \<noteq> 0) \<Longrightarrow> inodes s' = inodes s"
    "j < MAXFILE * BSIZE \<Longrightarrow> a \<le> j \<Longrightarrow> j < b \<Longrightarrow> file_byte s' i j = src ! (t + (j - a))"
    "j < MAXFILE * BSIZE \<Longrightarrow> \<not> (a \<le> j \<and> j < b) \<Longrightarrow> slot s i (j div BSIZE) \<noteq> 0 \<Longrightarrow> file_byte s' i j = file_byte s i j"
  using assms unfolding written_def by (blast, blast, blast, metis, metis)

lemma written_refl: "fs_ok cur s \<Longrightarrow> file_wf s i \<Longrightarrow> written cur i src t a a s s"
  unfolding written_def using ext_refl [of cur s i] by auto

lemma written_trans:
  assumes "written cur i src t a b s s2" "written cur i src (t + (b - a)) b e s2 s3" "a \<le> b" "b \<le> e" "e \<le> MAXFILE * BSIZE"
  shows "written cur i src t a e s s3"
proof -
  note p = writtenD [OF assms(1)] and q = writtenD [OF assms(2)]
  let ?n = "\<lambda>j. (j + 511) div BSIZE"
  have mx: "?n e \<le> MAXFILE" using last_block [OF assms(5)] .
  have ord: "a div BSIZE \<le> b div BSIZE" "?n b \<le> ?n e" "b div BSIZE \<le> ?n b" using assms(3,4) by (simp_all add: div_le_mono)
  then have sub: "{a div BSIZE..<?n b} \<union> {b div BSIZE..<?n e} \<subseteq> {a div BSIZE..<?n e}" by auto
  have "{a div BSIZE..<?n b} \<subseteq> {..MAXFILE}" using ord mx by auto
  from ext_mono [OF ext_trans [OF p(1) q(1) this] sub] have 1: "ext cur i {a div BSIZE..<?n e} s s3" .
  have k2: "slot s2 i x \<noteq> 0" if "x \<le> MAXFILE" "slot s i x \<noteq> 0" for x using ext_slot [OF p(1) that(1)] that(2) by simp
  have k3: "slot s3 i x \<noteq> 0" if "x \<le> MAXFILE" "slot s2 i x \<noteq> 0" for x using ext_slot [OF q(1) that(1)] that(2) by simp
  have 2: "slot s3 i x \<noteq> 0" if "a < e" "a div BSIZE \<le> x" "x < ?n e" for x
  proof (cases "a < b \<and> x < ?n b")
    case True
    then show ?thesis using p(2) [of x] k3 [of x] that mx by simp
  next
    case False
    then have "b < e" "b div BSIZE \<le> x" using that assms(3,4) ord by (auto simp: not_less)
    then show ?thesis using q(2) that(3) by blast
  qed
  have 3: "inodes s3 = inodes s" if h: "\<And>x. a div BSIZE \<le> x \<Longrightarrow> x < ?n e \<Longrightarrow> slot s i x \<noteq> 0"
  proof -
    have "inodes s2 = inodes s" by (rule p(3)) (use h ord(2) in simp)
    moreover have "inodes s3 = inodes s2" by (rule q(3)) (use h k2 ord(1) mx in simp)
    ultimately show ?thesis by simp
  qed
  have 4: "file_byte s3 i j = (if a \<le> j \<and> j < e then src ! (t + (j - a)) else file_byte s i j)"
    if j: "j < MAXFILE * BSIZE" "(a \<le> j \<and> j < e) \<or> slot s i (j div BSIZE) \<noteq> 0" for j
  proof -
    have m: "j div BSIZE \<le> MAXFILE" using j(1) by (simp add: less_mult_imp_div_less less_imp_le)
    consider (1) "a \<le> j" "j < b" | (2) "b \<le> j" "j < e" | (3) "\<not> (a \<le> j \<and> j < e)" using j by linarith
    then show ?thesis
    proof cases
      case 1
      then have "slot s2 i (j div BSIZE) \<noteq> 0" using p(2) block_before [of j b] by (simp add: div_le_mono)
      then have "file_byte s3 i j = file_byte s2 i j" using q(5) [OF j(1)] 1 by simp
      then show ?thesis using p(4) [OF j(1)] 1 assms(4) by simp
    next
      case 2
      then have "t + (b - a) + (j - b) = t + (j - a)" using assms(3) by linarith
      then show ?thesis using q(4) [OF j(1) 2] 2 assms(3) by simp
    next
      case 3
      then have z: "slot s i (j div BSIZE) \<noteq> 0" using j(2) by blast
      have n: "\<not> (b \<le> j \<and> j < e)" "\<not> (a \<le> j \<and> j < b)" using 3 assms(3,4) by linarith+
      have "file_byte s3 i j = file_byte s i j" using q(5) [OF j(1) n(1) k2 [OF m z]] p(5) [OF j(1) n(2) z] by simp
      then show ?thesis using 3 by (simp only: if_False)
    qed
  qed
  show ?thesis unfolding written_def using 1 2 3 4 by blast
qed

text \<open>One turn of the loop: the block of byte \<open>off\<close> is found or allocated, and \<open>m\<close> bytes are written into it.\<close>

lemma write_turn:
  fixes s :: "'a fsst_scheme"
  assumes "fs_ok cur s" "file_wf s i" "unat off < MAXFILE * BSIZE" "unat off mod BSIZE + m \<le> BSIZE" "0 < m" "t + m \<le> length src"
    "slack (card (map_blocks (sb s) - set (lh s)) + 3 + of_bool (slot s i MAXFILE = 0)) s"
    "slot s i (unat off div BSIZE) = 0 \<Longrightarrow> 1 + of_bool (slot s i MAXFILE = 0) \<le> nfree s" "\<And>s1. ext cur i {unat off div BSIZE} s s1 \<Longrightarrow> slack 1 s1"
  defines "k \<equiv> unat off div BSIZE" and "ko \<equiv> unat off mod BSIZE"
  shows "\<exists>b s1 bp u v s2. bmap cur i (off div of_nat BSIZE) s = Ret (b, s1) \<and> fs_bread cur (i_dev (inodes s1 ! i)) b s1 = Ret (bp, u) \<and>
    log_write bp (set_bdata bp (take ko (bdata u bp) @ take m (drop t src) @ drop (ko + m) (bdata u bp)) u) = Ret v \<and>
    fs_brelse cur bp v = Ret s2 \<and> written cur i src t (unat off) (unat off + m) s s2"
proof -
  have k: "k < MAXFILE" using assms(3) by (simp add: k_def less_mult_imp_div_less)
  have "unat off div BSIZE < 4294967296" using unat_less_32 [of off] by (meson div_le_dividend le_less_trans)
  then have w: "off div of_nat BSIZE = of_nat k" by (simp add: k_def word_unat_eq_iff unat_div unat_of_nat_32)
  obtain s1 where 1: "bmap cur i (of_nat k) s = Ret (slot s1 i k, s1)" "slot s1 i k \<noteq> 0" "ext cur i {k} s s1"
      "\<forall>x<MAXFILE. slot s i x \<noteq> 0 \<longrightarrow> fview s1 (slot s i x) = fview s (slot s i x)" "slot s i k \<noteq> 0 \<longrightarrow> inodes s1 = inodes s"
    using bmap_spec [OF assms(1,2) k assms(7)] assms(8) unfolding k_def by blast
  let ?b = "slot s1 i k"
  note ok = ext_ok [OF 1(3)] and wf = file_wfD [OF ext_ok(2) [OF 1(3)]]
  have db: "data_block s1 i ?b" using wf(6) k 1(2) by simp
  then have "?b < disksize (lbio s1)" using wf(4) less_le_trans unfolding bitmap_ok_def data_block_def by blast
  then obtain bp u where u: "fs_bread cur 1 ?b s1 = Ret (bp, u)" "opened cur ?b s1 bp u" using fs_bread_quiet [OF fs_ok_quiet [OF ok(1)]] by blast
  have d: "bdata u bp = fview s1 ?b" using u(2) unfolding opened_def by blast
  have len: "length (fview s1 ?b) = BSIZE" using db by (simp add: data_block_def)
  let ?d = "take ko (fview s1 ?b) @ take m (drop t src) @ drop (ko + m) (fview s1 ?b)"
  have ld: "length ?d = BSIZE" using len assms(4,6) by (simp add: ko_def)
  have "slack (Suc (card (locks (lbio s1)))) s1" using assms(9) 1(3) fs_ok_calm(2) [OF ok(1)] by (simp add: k_def)
  then obtain v s2 where v: "log_write bp (set_bdata bp ?d u) = Ret v" "fs_brelse cur bp v = Ret s2" "fs_calm cur s2" "fs_wrote cur ?b ?d s1 s2"
    using fs_modify_spec [OF fs_ok_calm(1) [OF ok(1)] _ u(2), of ?d] by blast
  note x = fs_wrote_ext [OF ok(2) v(3) ok(1) v(4) k 1(2) ld]
  have "ext cur i {k} s s2" using ext_trans [OF 1(3) x(1)] k by simp
  moreover have "file_byte s2 i j = (if unat off \<le> j \<and> j < unat off + m then src ! (t + (j - unat off)) else file_byte s i j)"
    if j: "j < MAXFILE * BSIZE" "(unat off \<le> j \<and> j < unat off + m) \<or> slot s i (j div BSIZE) \<noteq> 0" for j
  proof -
    have q: "j div BSIZE < MAXFILE" using j(1) by (simp add: less_mult_imp_div_less)
    have f2: "file_byte s2 i j = fview s2 (slot s1 i (j div BSIZE)) ! (j mod BSIZE)" using file_byte_slot [OF j(1), of s2 i] x(3) [OF less_imp_le [OF q]] by (simp only:)
    show ?thesis
    proof (cases "j div BSIZE = k")
      case True
      have "file_byte s2 i j = ?d ! (j mod BSIZE)" using f2 True v(4) by (simp add: fs_wrote_def)
      also have "\<dots> = (if unat off \<le> j \<and> j < unat off + m then src ! (t + (j - unat off)) else fview s1 ?b ! (j mod BSIZE))"
        using patched_byte [OF len assms(4,6)] True by (simp add: k_def ko_def)
      moreover have "fview s1 ?b ! (j mod BSIZE) = file_byte s i j" if "\<not> (unat off \<le> j \<and> j < unat off + m)"
      proof -
        have nz: "slot s i k \<noteq> 0" using that j(2) True by blast
        then have "?b = slot s i k" using ext_slot [OF 1(3), of k] k by simp
        then have "fview s1 ?b = fview s (slot s i k)" using 1(4) nz k by metis
        then show ?thesis using file_byte_slot [OF j(1), of s i] True by simp
      qed
      ultimately show ?thesis by simp
    next
      case False
      have "\<not> (unat off \<le> j \<and> j < unat off + m)"
      proof
        assume "unat off \<le> j \<and> j < unat off + m"
        then have "unat off mod BSIZE + (j - unat off) < BSIZE" "j = unat off + (j - unat off)" using assms(4) by linarith+
        then show False using block_offset(1) False k_def by metis
      qed
      moreover from this have nz: "slot s i (j div BSIZE) \<noteq> 0" using j(2) by blast
      moreover have e: "slot s1 i (j div BSIZE) = slot s i (j div BSIZE)" using ext_slot [OF 1(3), of "j div BSIZE"] q nz by simp
      moreover have "slot s1 i (j div BSIZE) \<noteq> ?b" using wf(5) [of "j div BSIZE" k] q k False 1(2) by auto
      ultimately have "fview s2 (slot s1 i (j div BSIZE)) = fview s (slot s i (j div BSIZE))" using v(4) 1(4) q by (simp add: fs_wrote_def)
      then show ?thesis using f2 file_byte_slot [OF j(1), of s i] \<open>\<not> (unat off \<le> j \<and> j < unat off + m)\<close> by (simp only: if_False)
    qed
  qed
  ultimately have "written cur i src t (unat off) (unat off + m) s s2"
    unfolding written_def one_block [OF assms(5,4)] k_def [symmetric] using 1(2,5) x(2) x(3) [of k] k by (auto simp: le_less_Suc_eq)
  then show ?thesis using 1(1) u(1) wf(2) v(1,2) d unfolding w
    by (intro exI [of _ ?b] exI [of _ s1] exI [of _ bp] exI [of _ u] exI [of _ v] exI [of _ s2]) simp
qed

lemma writei_loop_spec:
  fixes s :: "'a fsst_scheme"
  assumes "fs_ok cur s0" "ext cur i {k0..<q} s0 s" "tot \<le> n" "unat n \<le> length src" "unat off + (unat n - unat tot) = e" "e \<le> MAXFILE * BSIZE"
    "tot < n \<longrightarrow> q \<le> unat off div BSIZE" "k0 \<le> unat off div BSIZE"
    "slack (card (map_blocks (sb s0)) + ((e + 511) div BSIZE - k0) + 3) s0" "missing s i ((e + 511) div BSIZE) \<le> nfree s"
  shows "\<exists>s'. writei_loop cur i src tot off n s = Ret (off + (n - tot), s') \<and> written cur i src (unat tot) (unat off) e s s'"
  using assms
proof (induction "unat n - unat tot" arbitrary: tot off s q rule: less_induct)
  case less
  note p = less.prems
  show ?case
  proof (cases "tot < n")
    case False
    then show ?thesis using p(3,5) written_refl [OF ext_ok(1,2) [OF p(2)]] by (subst writei_loop.simps) auto
  next
    case True
    let ?m = "chunk tot off n" and ?r = "unat n - unat tot" and ?ke = "(e + 511) div BSIZE"
    define k where "k = unat off div BSIZE"
    note c = chunk_bounds [OF True, of off]
    have r: "0 < ?r" using True by (simp add: word_less_nat_alt)
    have lt: "unat off < e" "unat off < MAXFILE * BSIZE" using r p(5,6) by linarith+
    have k: "k < ?ke" "?ke \<le> MAXFILE" "k0 \<le> k" "q \<le> k"
      using block_before [OF lt(1)] last_block [OF p(6)] p(7,8) True by (simp_all add: k_def)
    have K: "{k0..<q} \<subseteq> {..MAXFILE}" using k by auto
    have sl: "slack (card (map_blocks (sb s0)) + card {k0..<q} + 1 + 3) s0" using k by (intro slack_mono [OF p(9)]) simp
    have rm: "1 + of_bool (slot s i MAXFILE = 0) \<le> nfree s" if "slot s i (unat off div BSIZE) = 0"
      using missing_room [OF p(10) k(1)] k(1,2) that by (simp add: k_def)
    have s1: "slack 1 s1" if "ext cur i {unat off div BSIZE} s s1" for s1
    proof -
      have x: "ext cur i ({k0..<q} \<union> {k}) s0 s1" using ext_trans [OF p(2) that K] by (simp add: k_def)
      have "card ({k0..<q} \<union> {k}) \<le> q - k0 + 1" using card_Un_le [of "{k0..<q}" "{k}"] by simp
      then have "slack (card (map_blocks (sb s0)) + card ({k0..<q} \<union> {k}) + 1 + 1) s0" using k by (intro slack_mono [OF p(9)]) linarith
      from ext_budget [OF p(1) x _ this] show ?thesis by (rule slack_mono) simp_all
    qed
    have sm: "unat tot + unat ?m \<le> length src" and c3: "unat off mod BSIZE + unat ?m \<le> BSIZE" using c(2,3) r p(4) by linarith+
    obtain b t1 bp u v s2 where w: "bmap cur i (off div of_nat BSIZE) s = Ret (b, t1)" "fs_bread cur (i_dev (inodes t1 ! i)) b t1 = Ret (bp, u)"
        "log_write bp (set_bdata bp (take (unat off mod BSIZE) (bdata u bp) @ take (unat ?m) (drop (unat tot) src) @ drop (unat off mod BSIZE + unat ?m) (bdata u bp)) u) = Ret v"
        "fs_brelse cur bp v = Ret s2" "written cur i src (unat tot) (unat off) (unat off + unat ?m) s s2"
      using write_turn [OF ext_ok(1,2) [OF p(2)] lt(2) c3 c(1) sm ext_budget [OF p(1,2) finite_atLeastLessThan sl] rm s1] by blast
    have off: "unat (off + ?m) = unat off + unat ?m" using c(2) p(5,6) by (simp add: unat_word_ariths)
    have le: "tot + ?m \<le> n" using c(2,4) True by (simp add: word_le_nat_alt word_less_nat_alt)
    have dec: "unat n - unat (tot + ?m) < ?r" and e: "unat (off + ?m) + (unat n - unat (tot + ?m)) = e" "unat off + unat ?m \<le> e"
      using c(1,2,4) r off p(5) by linarith+
    have x1: "ext cur i {k} s s2" using writtenD(1) [OF w(5)] unfolding one_block [OF c(1) c3] k_def [symmetric] by (simp add: atLeastLessThanSuc)
    have "{k0..<q} \<union> {k} \<subseteq> {k0..<Suc k}" using k by auto
    then have x2: "ext cur i {k0..<Suc k} s0 s2" using ext_mono [OF ext_trans [OF p(2) x1 K]] by blast
    have ms: "missing s2 i ?ke \<le> nfree s2" using ext_missing [OF x1 _ k(2) p(10)] k(1) by simp
    have nx: "tot + ?m < n \<longrightarrow> Suc k \<le> unat (off + ?m) div BSIZE"
    proof
      assume "tot + ?m < n"
      then have "unat ?m \<noteq> ?r" using c(4) by (auto simp: word_less_nat_alt)
      then show "Suc k \<le> unat (off + ?m) div BSIZE" using div_full c(5) unfolding off k_def by (metis order_refl)
    qed
    have k0: "k0 \<le> unat (off + ?m) div BSIZE" using k(3) div_le_mono [of "unat off" "unat off + unat ?m" BSIZE] unfolding off k_def by linarith
    obtain s3 where 3: "writei_loop cur i src (tot + ?m) (off + ?m) n s2 = Ret (off + ?m + (n - (tot + ?m)), s3)"
        "written cur i src (unat tot + unat ?m) (unat off + unat ?m) e s2 s3"
      using less.hyps [OF dec p(1) x2 le p(4) e(1) p(6) nx k0 p(9) ms] unfolding off c(4) by blast
    have "written cur i src (unat tot) (unat off) e s s3" using written_trans [OF w(5) _ _ e(2) p(6), of s3] 3(2) by simp
    moreover have "unat (off mod of_nat BSIZE) = unat off mod BSIZE" by (simp add: unat_mod)
    then have "writei_loop cur i src tot off n s = Ret (off + (n - tot), s3)"
      using True w(1-4) 3(1) by (subst writei_loop.simps) (simp add: Let_def)
    ultimately show ?thesis by blast
  qed
qed

subsection \<open>The inode\<close>

abbreviation inode_block :: "'a fsst_scheme \<Rightarrow> nat \<Rightarrow> uint" where
  "inode_block s i \<equiv> IBLOCK (i_inum (inodes s ! i)) (sb s)"

text \<open>The inode on the disk is that of the cache.\<close>

definition on_disk :: "'a fsst_scheme \<Rightarrow> nat \<Rightarrow> bool" where
  "on_disk s i \<longleftrightarrow> read_dinode (fview s (inode_block s i)) (dinode_ofs (i_inum (inodes s ! i))) (inodes s ! i) = inodes s ! i"

lemma read_write_dinode:
  assumes "length d = BSIZE" "length (i_addrs ip) = 13"
  shows "read_dinode (write_dinode d (dinode_ofs n) ip) (dinode_ofs n) ip = ip"
proof -
  have "unat (n mod IPB) < 8" by (simp add: unat_mod)
  then have o: "dinode_ofs n + 64 \<le> BSIZE" by (simp add: dinode_ofs_def)
  let ?o = "dinode_ofs n"
  have w: "get_words (put_words e (?o + 12) (i_addrs ip)) (?o + 12) 13 = i_addrs ip" if "length e = BSIZE" for e
    using get_words_put_words [of "?o + 12" "i_addrs ip" e] that o assms(2) by simp
  have b: "get16 (put_words e (?o + 12) ws) j = get16 e j" if "j + 2 \<le> ?o + 12" for e j ws
    using that by (rule get16_put_words_before)
  show ?thesis unfolding read_dinode_def write_dinode_def using o assms(1)
    by (simp add: w b get32_put_words_before blk_simps)
qed

lemma iupdate_spec:
  fixes s :: "'a fsst_scheme"
  assumes "fs_ok cur s" "file_wf s i" "slack 1 s"
  shows "\<exists>s'. iupdate cur i s = Ret s' \<and> fs_ok cur s' \<and> file_wf s' i \<and> inodes s' = inodes s \<and> sb s' = sb s \<and> on_disk s' i \<and>
    (\<forall>x\<le>MAXFILE. slot s' i x = slot s i x) \<and> (\<forall>x. x \<noteq> inode_block s i \<longrightarrow> fview s' x = fview s x) \<and> frame cur s s' \<and>
    (\<forall>x < sb_size (sb s). used (sb s) (fview s') x = used (sb s) (fview s) x) \<and> nfree s' = nfree s \<and> wrote {inode_block s i} s s'"
proof -
  let ?b = "inode_block s i" and ?o = "dinode_ofs (i_inum (inodes s ! i))"
  note q = fs_ok_calm [OF assms(1)] and w = file_wfD [OF assms(2)]
  have b: "?b < sb_size (sb s)" "?b \<noteq> 0" "?b \<notin> map_blocks (sb s)" "length (fview s ?b) = BSIZE"
    using assms(2) by (simp_all add: file_wf_def meta_ok_def Let_def)
  then have "?b < disksize (lbio s)" using w(4) less_le_trans unfolding bitmap_ok_def by blast
  then obtain bp t where t: "fs_bread cur 1 ?b s = Ret (bp, t)" "opened cur ?b s bp t" using fs_bread_quiet [OF fs_ok_quiet [OF assms(1)]] by blast
  have d: "bdata t bp = fview s ?b" using t(2) unfolding opened_def by blast
  let ?d = "write_dinode (fview s ?b) ?o (inodes s ! i)"
  have "slack (Suc (card (locks (lbio s)))) s" using assms(3) q(2) by simp
  then obtain u s' where u: "log_write bp (set_bdata bp ?d t) = Ret u" "fs_brelse cur bp u = Ret s'" "fs_calm cur s'" "fs_wrote cur ?b ?d s s'"
    using fs_modify_spec [OF q(1) _ t(2), of ?d] by blast
  have l: "length ?d = BSIZE" using b(4) by (simp add: write_dinode_def)
  have "?b \<noteq> slot s i MAXFILE" using w(6) [of MAXFILE] b(2) by (cases "slot s i MAXFILE = 0") (auto simp: data_block_def)
  note r = fs_wrote_wf [OF assms(2) u(4) b(3) this l]
  have v: "fview s' = (fview s)(?b := ?d)" "kept (lbio s) (lbio s')" using u(4) by (simp_all add: fs_wrote_def)
  have "iupdate cur i s = Ret s'" using t(1) w(2) d u(1,2) by (simp add: iupdate_def Let_def)
  moreover have "fs_ok cur s'" using u(3) q(2) v(2) by (simp add: fs_ok_def kept_def)
  moreover have "on_disk s' i" unfolding on_disk_def r(2,3) v(1) using read_write_dinode [OF b(4) w(3)] by simp
  moreover have "frame cur s s'" using fs_wroteD [OF u(4)] u(4) by (auto simp: frame_def fs_wrote_def)
  moreover have "wrote {?b} s s'" by (rule fs_wrote_wrote [OF u(4)])
  ultimately show ?thesis using r v(1) by auto
qed

lemma resized:
  fixes s :: "'a fsst_scheme" and z :: uint
  assumes "i < length (inodes s)"
  defines "s' \<equiv> upd_inode i (\<lambda>ip. ip\<lparr>i_size := z\<rparr>) s"
  shows "file_wf s' i = file_wf s i" "slot s' i x = slot s i x" "file_byte s' i j = file_byte s i j"
    "inodes s' ! i = (inodes s ! i)\<lparr>i_size := z\<rparr>" "inode_block s' i = inode_block s i"
proof -
  show I: "inodes s' ! i = (inodes s ! i)\<lparr>i_size := z\<rparr>" using assms by simp
  then have f: "file_block s' i y = file_block s i y" for y by (simp add: file_block_def s'_def Let_def)
  show sl: "slot s' i x = slot s i x" for x using f I by (simp add: slot_def)
  show "file_byte s' i j = file_byte s i j" using f by (simp add: file_byte_def s'_def)
  have b: "sb s' = sb s" "fview s' = fview s" "bitmap_ok s' = bitmap_ok s" "length (inodes s') = length (inodes s)" by (simp_all add: s'_def)
  then show "inode_block s' i = inode_block s i" using I by simp
  show "file_wf s' i = file_wf s i" unfolding file_wf_def meta_ok_def data_block_def sl b I by simp
qed

subsection \<open>\<^verbatim>\<open>writei\<close>\<close>

definition contents :: "'a fsst_scheme \<Rightarrow> nat \<Rightarrow> uchar list" where
  "contents s i = map (file_byte s i) [0..<unat (i_size (inodes s ! i))]"

lemma file_size:
  assumes "file_ok s i"
  shows "unat (i_size (inodes s ! i)) \<le> MAXFILE * BSIZE"
proof (rule ccontr)
  assume "\<not> ?thesis"
  then have "(MAXFILE * BSIZE + BSIZE) div BSIZE \<le> (unat (i_size (inodes s ! i)) + 511) div BSIZE" by (intro div_le_mono) simp
  moreover have "(unat (i_size (inodes s ! i)) + 511) div BSIZE \<le> NDIRECT + NINDIRECT" using assms by (simp only: file_ok_def mapped_def)
  ultimately show False by simp
qed

text \<open>Every block up to the end of the file is there.\<close>

lemma file_ok_slots:
  assumes "file_wf s i" "i_type (inodes s ! i) \<noteq> T_DEV" "unat (i_size (inodes s ! i)) \<le> MAXFILE * BSIZE"
  shows "file_ok s i \<longleftrightarrow> (\<forall>k < (unat (i_size (inodes s ! i)) + 511) div BSIZE. slot s i k \<noteq> 0)"
proof -
  let ?n = "(unat (i_size (inodes s ! i)) + 511) div BSIZE"
  note w = file_wfD [OF assms(1)]
  have n: "?n \<le> MAXFILE" using last_block [OF assms(3)] .
  have b: "file_block s i k = slot s i k" if "k < ?n" for k using that n by (simp add: slot_def)
  have d: "x < disksize (lbio s)" "length (fview s x) = BSIZE" if "data_block s i x" for x
    using that w(4) less_le_trans unfolding data_block_def bitmap_ok_def by blast+
  have m: "slot s i MAXFILE \<noteq> 0" if "NDIRECT < ?n" "\<forall>k<?n. slot s i k \<noteq> 0"
  proof -
    have "slot s i NDIRECT \<noteq> 0" using that by blast
    then show ?thesis using slot_simps(2) [of NDIRECT s i] by (simp split: if_splits)
  qed
  have "mapped s i ?n" if h: "\<forall>k<?n. slot s i k \<noteq> 0"
  proof -
    have k: "data_block s i (slot s i k)" if "k < ?n" for k using that n h w(6) [of k] by simp
    have a: "data_block s i (slot s i MAXFILE)" "slot s i MAXFILE \<noteq> 0" if "NDIRECT < ?n" using m [OF that h] w(6) by blast+
    show ?thesis unfolding mapped_def using w(2) n b h d(1) [OF k] d(2) [OF k] a d(1) by (simp add: slot_simps(3))
  qed
  moreover have "slot s i k \<noteq> 0" if "mapped s i ?n" "k < ?n" for k using that b [OF that(2)] unfolding mapped_def by metis
  ultimately show ?thesis using assms(2) unfolding file_ok_def by blast
qed

text \<open>The blocks that belong to neither the file, nor its inode, nor the map.\<close>

definition foreign :: "'a fsst_scheme \<Rightarrow> nat \<Rightarrow> uint \<Rightarrow> bool" where
  "foreign s i x \<longleftrightarrow> x < sb_size (sb s) \<and> used (sb s) (fview s) x \<and> x \<notin> map_blocks (sb s) \<and> x \<noteq> inode_block s i \<and> (\<forall>k\<le>MAXFILE. slot s i k \<noteq> x)"

lemma ext_foreign:
  fixes s s' :: "'a fsst_scheme"
  assumes "ext cur i K s s'" "file_wf s i" "K \<subseteq> {..MAXFILE}" "foreign s i x"
  shows "fview s' x = fview s x" "foreign s' i x"
proof -
  obtain W where W: "wrote W s s'" "W \<subseteq> map_blocks (sb s) \<union> slot s' i ` insert MAXFILE K - {0}" using ext_wrote [OF assms(1)] by blast
  have sl: "slot s' i k \<noteq> x" if "k \<le> MAXFILE" for k
    using ext_fresh [OF assms(1) that] assms(4) that unfolding foreign_def by metis
  then have "x \<notin> slot s' i ` insert MAXFILE K" using assms(3) by blast
  then have "x \<notin> W" using W(2) assms(4) unfolding foreign_def by blast
  then show "fview s' x = fview s x" using W(1) by (simp add: wrote_def)
  have "inode_block s' i = inode_block s i" using ext_inode [OF assms(1)] ext_ok(3) [OF assms(1)] file_wfD(1) [OF assms(2)] by auto
  then show "foreign s' i x" using sl assms(4) ext_used [OF assms(1)] ext_ok(3) [OF assms(1)] by (simp add: foreign_def)
qed

lemma splice_eq:
  assumes "a \<le> length c" "n \<le> length src" "\<And>j. j < max (length c) (a + n) \<Longrightarrow> f j = (if a \<le> j \<and> j < a + n then src ! (j - a) else c ! j)"
  shows "map f [0..<max (length c) (a + n)] = take a c @ take n src @ drop (a + n) c"
proof (rule nth_equalityI)
  fix j assume "j < length (map f [0..<max (length c) (a + n)])"
  then have j: "j < max (length c) (a + n)" by simp
  consider "j < a" | "a \<le> j" "j < a + n" | "a + n \<le> j" by linarith
  then show "map f [0..<max (length c) (a + n)] ! j = (take a c @ take n src @ drop (a + n) c) ! j"
    using assms(1,2) assms(3) [OF j] j by cases (auto simp: nth_append min_def)
qed (use assms(1,2) in auto)

lemma written_contents:
  assumes "written cur i src 0 a (a + n) s s'" "file_wf s i" "file_ok s i" "a \<le> unat (i_size (inodes s ! i))" "a + n \<le> MAXFILE * BSIZE" "n \<le> length src"
  shows "map (file_byte s' i) [0..<max (unat (i_size (inodes s ! i))) (a + n)] = take a (contents s i) @ take n src @ drop (a + n) (contents s i)"
proof -
  let ?len = "unat (i_size (inodes s ! i))"
  note w = writtenD [OF assms(1)]
  have m: "?len \<le> MAXFILE * BSIZE" and t: "i_type (inodes s ! i) \<noteq> T_DEV" using file_size [OF assms(3)] assms(3) by (simp_all add: file_ok_def)
  have l: "length (contents s i) = ?len" by (simp add: contents_def)
  have "file_byte s' i j = (if a \<le> j \<and> j < a + n then src ! (j - a) else contents s i ! j)" if j: "j < max ?len (a + n)" for j
  proof (cases "a \<le> j \<and> j < a + n")
    case True
    then show ?thesis using w(4) [of j] assms(5) by simp
  next
    case False
    then have jl: "j < ?len" using j assms(4) by auto
    then have "slot s i (j div BSIZE) \<noteq> 0" using file_ok_slots [OF assms(2) t m] assms(3) block_before [OF jl] by blast
    moreover have "j < MAXFILE * BSIZE" using jl m by linarith
    ultimately have "file_byte s' i j = file_byte s i j" using w(5) False by blast
    moreover have "contents s i ! j = file_byte s i j" using jl by (simp add: contents_def)
    ultimately show ?thesis using False by (simp only: if_False)
  qed
  then show ?thesis using splice_eq [of a "contents s i" n src "file_byte s' i"] assms(4,6) unfolding l by blast
qed

lemma ext_inode_block:
  fixes s s' :: "'a fsst_scheme"
  assumes "ext cur i K s s'" "file_wf s i" "K \<subseteq> {..MAXFILE}"
  shows "fview s' (inode_block s i) = fview s (inode_block s i)"
proof -
  let ?b = "inode_block s i"
  obtain W where W: "wrote W s s'" "W \<subseteq> map_blocks (sb s) \<union> slot s' i ` insert MAXFILE K - {0}" using ext_wrote [OF assms(1)] by blast
  have "inode_block s' i = ?b" using ext_inode [OF assms(1)] ext_ok(3) [OF assms(1)] file_wfD(1) [OF assms(2)] by auto
  then have n: "slot s' i k \<noteq> ?b" if "k \<le> MAXFILE" "slot s' i k \<noteq> 0" for k
    using file_wfD(6) [OF ext_ok(2) [OF assms(1)] that] by (simp add: data_block_def)
  have "?b \<notin> slot s' i ` insert MAXFILE K - {0}"
  proof
    assume "?b \<in> slot s' i ` insert MAXFILE K - {0}"
    then obtain k where k: "k \<in> insert MAXFILE K" "?b = slot s' i k" "?b \<noteq> 0" by blast
    then have "k \<le> MAXFILE" using assms(3) by auto
    then show False using n k by metis
  qed
  moreover have "?b \<notin> map_blocks (sb s)" using assms(2) by (simp add: file_wf_def meta_ok_def Let_def)
  ultimately show ?thesis using W unfolding wrote_def by blast
qed

text \<open>What writing to file \<open>i\<close> may change: its inode, its blocks, the map, and the inode block.\<close>

definition own :: "'a fsst_scheme \<Rightarrow> nat \<Rightarrow> uint set" where
  "own s i = insert (inode_block s i) (map_blocks (sb s) \<union> (slot s i ` {..MAXFILE} - {0}))"

definition changed :: "nat \<Rightarrow> nat \<Rightarrow> nat \<Rightarrow> 'a fsst_scheme \<Rightarrow> 'a fsst_scheme \<Rightarrow> bool" where
  "changed cur i N s s' \<longleftrightarrow> frame cur s s' \<and> (\<forall>x. foreign s i x \<longrightarrow> foreign s' i x \<and> fview s' x = fview s x) \<and>
     (\<exists>al z. inodes s' = (inodes s)[i := (inodes s ! i)\<lparr>i_addrs := al, i_size := z\<rparr>]) \<and>
     (\<forall>m. N \<le> m \<longrightarrow> m \<le> MAXFILE \<longrightarrow> missing s i m \<le> nfree s \<longrightarrow> missing s' i m \<le> nfree s') \<and>
     own s i \<subseteq> own s' i \<and> (\<exists>W. wrote W s s' \<and> W \<subseteq> own s' i)"

lemma changedI:
  assumes "frame cur s s'" "\<And>x. foreign s i x \<Longrightarrow> foreign s' i x \<and> fview s' x = fview s x"
    "inodes s' = (inodes s)[i := (inodes s ! i)\<lparr>i_addrs := al, i_size := z\<rparr>]"
    "\<And>m. N \<le> m \<Longrightarrow> m \<le> MAXFILE \<Longrightarrow> missing s i m \<le> nfree s \<Longrightarrow> missing s' i m \<le> nfree s'"
    "own s i \<subseteq> own s' i" "wrote W s s'" "W \<subseteq> own s' i"
  shows "changed cur i N s s'"
  unfolding changed_def using assms by blast

lemma changed_foreign: "changed cur i N s s' \<Longrightarrow> foreign s i x \<Longrightarrow> fview s' x = fview s x"
  unfolding changed_def by blast

lemma changed_refl [simp]: "changed cur i N s s"
proof -
  have "inodes s = (inodes s)[i := (inodes s ! i)\<lparr>i_addrs := i_addrs (inodes s ! i), i_size := i_size (inodes s ! i)\<rparr>]" by simp
  moreover have "wrote {} s s" "{} \<subseteq> own s i" by simp_all
  ultimately show ?thesis unfolding changed_def by (intro conjI) (blast | simp)+
qed

lemma changedD:
  assumes "changed cur i N s s'"
  shows "frame cur s s'" "foreign s i x \<Longrightarrow> foreign s' i x" "own s i \<subseteq> own s' i" "\<exists>W. wrote W s s' \<and> W \<subseteq> own s' i"
    "\<exists>al z. inodes s' = (inodes s)[i := (inodes s ! i)\<lparr>i_addrs := al, i_size := z\<rparr>]"
    "N \<le> m \<Longrightarrow> m \<le> MAXFILE \<Longrightarrow> missing s i m \<le> nfree s \<Longrightarrow> missing s' i m \<le> nfree s'"
  using assms unfolding changed_def by blast+

lemma changed_trans:
  assumes "changed cur i N s t" "changed cur i N t u"
  shows "changed cur i N s u"
proof -
  note p = changedD [OF assms(1)] and q = changedD [OF assms(2)]
  obtain V W where W: "wrote V s t" "V \<subseteq> own t i" "wrote W t u" "W \<subseteq> own u i" using p(4) q(4) by blast
  obtain a z b y where "inodes t = (inodes s)[i := (inodes s ! i)\<lparr>i_addrs := a, i_size := z\<rparr>]" "inodes u = (inodes t)[i := (inodes t ! i)\<lparr>i_addrs := b, i_size := y\<rparr>]"
    using p(5) q(5) by blast
  then have I: "inodes u = (inodes s)[i := (inodes s ! i)\<lparr>i_addrs := b, i_size := y\<rparr>]"
    by (cases "i < length (inodes s)") (simp_all add: list_update_beyond)
  show ?thesis
  proof (rule changedI [OF frame_trans [OF p(1) q(1)] _ I])
    show "foreign u i x \<and> fview u x = fview s x" if "foreign s i x" for x
      using p(2) q(2) that changed_foreign [OF assms(1) that] changed_foreign [OF assms(2) p(2) [OF that]] by simp
    show "wrote (V \<union> W) s u" by (rule wrote_trans [OF W(1,3)])
    show "own s i \<subseteq> own u i" "V \<union> W \<subseteq> own u i" using p(3) q(3) W(2,4) by blast+
  qed (use p(6) q(6) in blast)
qed

lemma changed_ext:
  fixes s s' :: "'a fsst_scheme"
  assumes "ext cur i K s s'" "file_wf s i" "K \<subseteq> {..<N}" "N \<le> MAXFILE"
  shows "changed cur i N s s'"
proof -
  obtain W where W: "wrote W s s'" "W \<subseteq> map_blocks (sb s) \<union> slot s' i ` insert MAXFILE K - {0}" using ext_wrote [OF assms(1)] by blast
  have K: "K \<subseteq> {..MAXFILE}" using assms(3,4) by auto
  have ib: "inode_block s' i = inode_block s i" using ext_inode [OF assms(1)] ext_ok(3) [OF assms(1)] file_wfD(1) [OF assms(2)] by auto
  have "slot s i x \<in> slot s' i ` {..MAXFILE}" if "x \<le> MAXFILE" "slot s i x \<noteq> 0" for x
    using ext_slot [OF assms(1) that(1)] that by (metis atMost_iff imageI)
  then have "own s i \<subseteq> own s' i" unfolding own_def ib unfolding ext_ok(3) [OF assms(1)] by blast
  moreover have "insert MAXFILE K \<subseteq> {..MAXFILE}" using K by blast
  then have "W \<subseteq> own s' i" unfolding own_def ext_ok(3) [OF assms(1)] using W(2) by blast
  moreover obtain a where "inodes s' = (inodes s)[i := (inodes s ! i)\<lparr>i_addrs := a\<rparr>]" using ext_inode [OF assms(1)] by blast
  then have I: "inodes s' = (inodes s)[i := (inodes s ! i)\<lparr>i_addrs := a, i_size := i_size (inodes s ! i)\<rparr>]" by simp
  moreover have "missing s' i m \<le> nfree s'" if "N \<le> m" "m \<le> MAXFILE" "missing s i m \<le> nfree s" for m
    using ext_missing [OF assms(1) _ that(2,3)] assms(3) that(1) by force
  ultimately show ?thesis using ext_foreign [OF assms(1,2) K] by (intro changedI [OF ext_frame [OF assms(1)] _ I _ _ W(1)]) simp_all
qed

lemma changed_resize:
  fixes s :: "'a fsst_scheme"
  assumes "i < length (inodes s)"
  shows "changed cur i N s (upd_inode i (\<lambda>ip. ip\<lparr>i_size := z\<rparr>) s)"
proof -
  let ?s = "upd_inode i (\<lambda>ip. ip\<lparr>i_size := z\<rparr>) s"
  note r = resized [OF assms, where z = z]
  have "inodes ?s = (inodes s)[i := (inodes s ! i)\<lparr>i_addrs := i_addrs (inodes s ! i), i_size := z\<rparr>]" by simp
  moreover have "foreign ?s i x = foreign s i x" "missing ?s i m = missing s i m" "own ?s i = own s i" for x m
    using r(2,5) by (simp_all add: foreign_def missing_def own_def)
  moreover have "frame cur s ?s" "wrote {} s ?s" by (simp_all add: frame_inode)
  ultimately show ?thesis by (intro changedI [where W = "{}"]) (assumption | simp)+
qed

lemma changed_iupdate:
  fixes s :: "'a fsst_scheme"
  assumes "fs_ok cur s" "file_wf s i" "slack 1 s" "iupdate cur i s = Ret s'"
  shows "changed cur i N s s'"
proof -
  have u: "inodes s' = inodes s" "sb s' = sb s" "\<forall>x\<le>MAXFILE. slot s' i x = slot s i x" "\<forall>x. x \<noteq> inode_block s i \<longrightarrow> fview s' x = fview s x"
      "frame cur s s'" "\<forall>x < sb_size (sb s). used (sb s) (fview s') x = used (sb s) (fview s) x" "nfree s' = nfree s" "wrote {inode_block s i} s s'"
    using iupdate_spec [OF assms(1-3)] assms(4) by auto
  have "foreign s' i x \<and> fview s' x = fview s x" if "foreign s i x" for x using that u by (simp add: foreign_def)
  moreover have "missing s' i m = missing s i m" if "m \<le> MAXFILE" for m
  proof -
    have "{k. (k < m \<or> k = MAXFILE) \<and> slot s' i k = 0} = {k. (k < m \<or> k = MAXFILE) \<and> slot s i k = 0}" using u(3) that by auto
    then show ?thesis by (simp add: missing_def)
  qed
  moreover have "slot s' i ` {..MAXFILE} = slot s i ` {..MAXFILE}" using u(3) by (intro image_cong) auto
  then have "own s' i = own s i" by (simp add: own_def u(1,2))
  moreover have "inode_block s i \<in> own s i" by (simp add: own_def)
  moreover have I: "inodes s' = (inodes s)[i := (inodes s ! i)\<lparr>i_addrs := i_addrs (inodes s ! i), i_size := i_size (inodes s ! i)\<rparr>]" using u(1) by simp
  ultimately show ?thesis using u(7) by (intro changedI [OF u(5) _ I _ _ u(8)]) simp_all
qed

text \<open>After the loop: the inode is written back when the file has grown.\<close>

lemma write_end:
  fixes s s1 :: "'a fsst_scheme"
  assumes "file_wf s i" "file_ok s i" "written cur i src 0 a (a + n) s s1" "0 < n" "a \<le> unat (i_size (inodes s ! i))" "a + n \<le> MAXFILE * BSIZE"
    "n \<le> length src" "slack 1 s1" "unat e = a + n"
  shows "\<exists>s'. (if e > i_size (inodes s1 ! i) then kbind (iupdate cur i (upd_inode i (\<lambda>ip. ip\<lparr>i_size := e\<rparr>) s1)) (\<lambda>s. Ret (x, s)) else Ret (x, s1)) = Ret (x, s') \<and>
    fs_ok cur s' \<and> file_wf s' i \<and> file_ok s' i \<and> contents s' i = take a (contents s i) @ take n src @ drop (a + n) (contents s i) \<and>
    (on_disk s i \<longrightarrow> on_disk s' i) \<and> changed cur i ((a + n + 511) div BSIZE) s s'"
proof -
  let ?len = "unat (i_size (inodes s ! i))" and ?K = "{a div BSIZE..<(a + n + 511) div BSIZE}"
  note w = writtenD [OF assms(3)]
  note ok = ext_ok [OF w(1)] and fc = written_contents [OF assms(3,1,2,5,6,7)]
  have t: "i_type (inodes s ! i) \<noteq> T_DEV" and len: "?len \<le> MAXFILE * BSIZE" using assms(2) file_size [OF assms(2)] by (simp_all add: file_ok_def)
  have sl: "slot s i k \<noteq> 0" if "k < (?len + 511) div BSIZE" for k using file_ok_slots [OF assms(1) t len] assms(2) that by blast
  have K: "?K \<subseteq> {..MAXFILE}" using last_block [OF assms(6)] by auto
  obtain al where "inodes s1 = (inodes s)[i := (inodes s ! i)\<lparr>i_addrs := al\<rparr>]" using ext_inode [OF w(1)] by blast
  then have I: "inodes s1 ! i = (inodes s ! i)\<lparr>i_addrs := al\<rparr>" using file_wfD(1) [OF assms(1)] by simp
  have ib: "inode_block s1 i = inode_block s i" using I ok(3) by simp
  have ch: "changed cur i ((a + n + 511) div BSIZE) s s1" by (rule changed_ext [OF w(1) assms(1) _ last_block [OF assms(6)]]) auto
  show ?thesis
  proof (cases "e > i_size (inodes s1 ! i)")
    case False
    then have le: "a + n \<le> ?len" using I assms(9) by (simp add: word_less_nat_alt)
    have "(a + n + 511) div BSIZE \<le> (?len + 511) div BSIZE" using le by (intro div_le_mono) simp
    then have i1: "inodes s1 = inodes s" by (intro w(3) sl) simp
    have "slot s1 i k \<noteq> 0" if "k < (?len + 511) div BSIZE" for k
      using ext_slot [OF w(1), of k] sl [OF that] that last_block [OF len] by simp
    then have "file_ok s1 i" using file_ok_slots [OF ok(2)] t len by (simp add: i1)
    moreover have "contents s1 i = take a (contents s i) @ take n src @ drop (a + n) (contents s i)"
      using fc le by (simp add: contents_def i1 max_def)
    moreover have "on_disk s i \<longrightarrow> on_disk s1 i" using ib ext_inode_block [OF w(1) assms(1) K] by (simp add: on_disk_def i1)
    ultimately show ?thesis using False ok(1,2) ch by auto
  next
    case True
    define s2 where "s2 = upd_inode i (\<lambda>ip. ip\<lparr>i_size := e\<rparr>) s1"
    note r = resized [OF file_wfD(1) [OF ok(2)], where z = e, folded s2_def]
    have k2: "fs_ok cur s2" "slack 1 s2" "file_wf s2 i" using ok assms(8) r(1) by (simp_all add: s2_def)
    obtain s3 where 3: "iupdate cur i s2 = Ret s3" "fs_ok cur s3" "file_wf s3 i" "inodes s3 = inodes s2"
        "sb s3 = sb s2" "on_disk s3 i" "\<forall>x\<le>MAXFILE. slot s3 i x = slot s2 i x" "\<forall>x. x \<noteq> inode_block s2 i \<longrightarrow> fview s3 x = fview s2 x" "\<And>N. changed cur i N s2 s3"
      using iupdate_spec [OF k2(1,3,2)] changed_iupdate [OF k2(1,3,2)] by blast
    have v2: "fview s2 = fview s1" by (simp add: s2_def)
    have gt: "max ?len (a + n) = unat e" using True I assms(9) by (simp add: word_less_nat_alt)
    have nz: "slot s1 i k \<noteq> 0" if k: "k < (unat e + 511) div BSIZE" for k
    proof (cases "k < a div BSIZE")
      case True
      have "a div BSIZE \<le> (?len + 511) div BSIZE" using assms(5) by (intro div_le_mono) simp
      then show ?thesis using True ext_slot [OF w(1), of k] sl [of k] last_block [OF len] by simp
    qed (use w(2) k assms(4,9) in simp)
    have i3: "inodes s3 ! i = (inodes s ! i)\<lparr>i_addrs := al, i_size := e\<rparr>" using 3(4) r(4) I by simp
    have mx: "(unat e + 511) div BSIZE \<le> MAXFILE" using last_block assms(6,9) by simp
    then have "file_ok s3 i" using file_ok_slots [OF 3(3)] t nz 3(7) r(2) assms(6,9) by (simp add: i3)
    moreover have "file_byte s3 i j = file_byte s1 i j" if j: "j < unat e" for j
    proof -
      have q: "j div BSIZE < MAXFILE" "j < MAXFILE * BSIZE" using block_before [OF j] mx j assms(6,9) by linarith+
      have "slot s1 i (j div BSIZE) \<noteq> inode_block s2 i"
        using file_wfD(6) [OF ok(2), of "j div BSIZE"] nz [OF block_before [OF j]] q(1) r(5) by (simp add: data_block_def)
      then have "fview s3 (slot s1 i (j div BSIZE)) = fview s1 (slot s1 i (j div BSIZE))" using 3(8) v2 by metis
      then show ?thesis using file_byte_slot [OF q(2), of s3 i] file_byte_slot [OF q(2), of s1 i] 3(7) r(2) q(1) by (metis less_imp_le)
    qed
    then have "map (file_byte s3 i) [0..<unat e] = map (file_byte s1 i) [0..<unat e]" by simp
    then have "contents s3 i = take a (contents s i) @ take n src @ drop (a + n) (contents s i)"
      using fc unfolding gt contents_def [of s3] i3 by simp
    moreover have "changed cur i ((a + n + 511) div BSIZE) s s3"
      using changed_trans [OF changed_trans [OF ch changed_resize [OF file_wfD(1) [OF ok(2)], of cur _ e]] 3(9) [unfolded s2_def]] by blast
    ultimately show ?thesis using True 3(1,2,3,6) by (auto simp: s2_def)
  qed
qed

lemma touched_blocks: "0 < n \<Longrightarrow> (a + n + 511) div BSIZE - a div BSIZE = touched a n"
proof -
  assume "0 < n"
  have "a + n + 511 = (a mod BSIZE + n + 511) + a div BSIZE * BSIZE" using div_mult_mod_eq [of a BSIZE] by linarith
  then have "(a + n + 511) div BSIZE = a div BSIZE + (a mod BSIZE + n + 511) div BSIZE" by (metis div_mult_self1 zero_neq_numeral)
  then show ?thesis using \<open>0 < n\<close> by (simp add: touched_def)
qed

lemma writei_spec:
  fixes s :: "'a fsst_scheme"
  assumes "fs_ok cur s" "file_wf s i" "file_ok s i" "unat n \<le> length src"
    "slack (card (map_blocks (sb s)) + touched (unat off) (unat n) + 3) s" "missing s i ((unat off + unat n + 511) div BSIZE) \<le> nfree s"
  shows "if off > i_size (inodes s ! i) \<or> off + n < off \<or> off + n > MAXBYTES then writei devs cur i src off n s = Ret (-1, s)
    else \<exists>s'. writei devs cur i src off n s = Ret (n, s') \<and> fs_ok cur s' \<and> file_wf s' i \<and> file_ok s' i \<and>
      contents s' i = take (unat off) (contents s i) @ take (unat n) src @ drop (unat off + unat n) (contents s i) \<and>
      (on_disk s i \<longrightarrow> on_disk s' i) \<and> changed cur i ((unat off + unat n + 511) div BSIZE) s s'"
proof (cases "off > i_size (inodes s ! i) \<or> off + n < off \<or> off + n > MAXBYTES")
  case True
  then show ?thesis using assms(3) by (auto simp: writei_def file_ok_def Let_def)
next
  case False
  let ?a = "unat off" and ?n = "unat n"
  have e: "unat (off + n) = ?a + ?n" using False by (metis unat_plus_simple not_less)
  have le: "?a \<le> unat (i_size (inodes s ! i))" "?a + ?n \<le> MAXFILE * BSIZE" using False e by (simp_all add: word_less_nat_alt not_less)
  have W: "writei devs cur i src off n s = kbind (writei_loop cur i src 0 off n s) (\<lambda>(off, s). if n > 0 \<and> off > i_size (inodes s ! i)
      then kbind (iupdate cur i (upd_inode i (\<lambda>ip. ip\<lparr>i_size := off\<rparr>) s)) (\<lambda>s. Ret (n, s)) else Ret (n, s))"
    using False assms(3) by (auto simp: writei_def Let_def file_ok_def)
  show ?thesis
  proof (cases "n = 0")
    case True
    then have "writei devs cur i src off n s = Ret (n, s)" unfolding W by (subst writei_loop.simps) simp
    then show ?thesis using False assms(1-3) True changed_refl by simp
  next
    case n: False
    then have n0: "0 < ?n" by (simp add: unat_gt_0)
    note t = touched_blocks [OF n0, of ?a]
    let ?K = "{?a div BSIZE..<?a div BSIZE}"
    have "slack (card (map_blocks (sb s)) + ((?a + ?n + 511) div BSIZE - ?a div BSIZE) + 3) s" unfolding t by (rule assms(5))
    from writei_loop_spec [OF assms(1) ext_refl [OF assms(1,2), of ?K] _ assms(4) _ le(2) _ order_refl this assms(6), where tot = 0]
    obtain s1 where s1: "writei_loop cur i src 0 off n s = Ret (off + n, s1)" "written cur i src 0 ?a (?a + ?n) s s1" by auto
    have "slack (card (map_blocks (sb s)) + card {?a div BSIZE..<(?a + ?n + 511) div BSIZE} + 1 + 1) s"
      unfolding card_atLeastLessThan t by (rule slack_mono [OF assms(5)]) simp
    from ext_budget [OF assms(1) writtenD(1) [OF s1(2)] _ this] have "slack 1 s1" by (rule slack_mono) simp_all
    from write_end [OF assms(2,3) s1(2) n0 le assms(4) this e, of n] show ?thesis
      using False n n0 unfolding W s1(1) by (simp add: word_gt_0)
  qed
qed

text \<open>
  C5. \<^verbatim>\<open>writei\<close>, in a transaction whose log has room for the blocks it touches, for the indirect block, the inode and the map, and on a disk with
  enough free blocks, completes: the bytes of the file from the offset on become those of the source, the file grows when the range ends
  past its end, the blocks it needs are allocated, the inode on the disk is kept up to date, and the blocks of other files stay. An offset
  past the end, a length that wraps around and an end past the largest file are refused.
\<close>

theorem writei_correct:
  fixes s :: "'a fsst_scheme"
  assumes "fs_ok cur s" "file_wf s i" "file_ok s i" "unat n \<le> length src"
    "slack (card (map_blocks (sb s)) + touched (unat off) (unat n) + 3) s" "missing s i ((unat off + unat n + 511) div BSIZE) \<le> nfree s"
  shows "if off > i_size (inodes s ! i) \<or> off + n < off \<or> off + n > MAXBYTES then writei devs cur i src off n s = Ret (-1, s)
    else \<exists>s'. writei devs cur i src off n s = Ret (n, s') \<and> fs_ok cur s' \<and> file_wf s' i \<and> file_ok s' i \<and>
      contents s' i = take (unat off) (contents s i) @ take (unat n) src @ drop (unat off + unat n) (contents s i) \<and>
      (on_disk s i \<longrightarrow> on_disk s' i) \<and> (\<forall>x. foreign s i x \<longrightarrow> fview s' x = fview s x)"
proof (cases "off > i_size (inodes s ! i) \<or> off + n < off \<or> off + n > MAXBYTES")
  case True
  then show ?thesis using writei_spec [OF assms, of devs] by simp
next
  case False
  then obtain s' where "writei devs cur i src off n s = Ret (n, s')" "fs_ok cur s'" "file_wf s' i" "file_ok s' i"
      "contents s' i = take (unat off) (contents s i) @ take (unat n) src @ drop (unat off + unat n) (contents s i)"
      "on_disk s i \<longrightarrow> on_disk s' i" "changed cur i ((unat off + unat n + 511) div BSIZE) s s'"
    using writei_spec [OF assms, of devs] by auto
  then show ?thesis using False changed_foreign by auto
qed

subsection \<open>A small file\<close>

text \<open>1022 bytes in blocks 100 and 101; in use are also the blocks 0 to 3 and block 32 with the inode.\<close>

definition bitmap1 :: block where
  "bitmap1 = (replicate BSIZE 0)[0 := 15, 4 := 1, 12 := 48]"

definition disk1 :: "uint \<Rightarrow> block" where
  "disk1 = disk0(3 := bitmap1)"

definition fs1 :: fsst where
  "fs1 = fs0\<lparr>lbio := bio0\<lparr>disk := disk1\<rparr>,
     inodes := (inodes fs0)[0 := inode0\<lparr>i_dev := 1, i_type := T_FILE, i_size := 1022, i_addrs := [100, 101] @ replicate 11 0\<rparr>]\<rparr>"

lemma fs1_simps:
  "sb fs1 = sb0" "fview fs1 = disk1" "lh fs1 = []" "lg_size fs1 = 30" "length (inodes fs1) = 50" "disksize (lbio fs1) = 1000"
  "inodes fs1 ! 0 = inode0\<lparr>i_dev := 1, i_type := T_FILE, i_size := 1022, i_addrs := [100, 101] @ replicate 11 0\<rparr>"
  by (simp_all add: fs1_def fs0_def fresh_cache)

lemma fs1_used: "k < 1000 \<Longrightarrow> used sb0 disk1 (of_nat k) \<longleftrightarrow> bit (bitmap1 ! (k div 8)) (k mod 8)"
proof -
  assume k: "k < 1000"
  then have u: "unat (of_nat k :: uint) = k" by (simp add: unat_of_nat_32)
  then have "(of_nat k :: uint) < 1000" using k by (simp add: word_less_nat_alt)
  then show ?thesis using k u by (simp add: used_def BBLOCK_sb0 disk1_def bit_free_iff)
qed

lemma fs1_used_blocks:
  "used sb0 disk1 0" "used sb0 disk1 3" "used sb0 disk1 32" "used sb0 disk1 100" "used sb0 disk1 101"
  "\<not> used sb0 disk1 200" "\<not> used sb0 disk1 201" "\<not> used sb0 disk1 202"
  using fs1_used [of 0] fs1_used [of 3] fs1_used [of 32] fs1_used [of 100] fs1_used [of 101] fs1_used [of 200] fs1_used [of 201] fs1_used [of 202]
  by (simp_all add: bitmap1_def bit_numeral_rec)

lemma fs1_slots:
  assumes "k \<le> MAXFILE"
  shows "slot fs1 0 k = (if k = 0 then 100 else if k = 1 then 101 else 0)"
proof -
  have m: "slot fs1 0 MAXFILE = 0" by (simp add: slot_simps(3) fs1_simps(7))
  consider "k < NDIRECT" | "NDIRECT \<le> k" "k < MAXFILE" | "k = MAXFILE" using assms by linarith
  then show ?thesis
  proof cases
    case 1
    then show ?thesis by (auto simp: slot_simps(1) fs1_simps(7) nth_Cons')
  qed (use m in \<open>auto simp: slot_simps(2)\<close>)
qed

lemma fs1_wf: "file_wf fs1 0"
proof -
  have I: "inode_block fs1 0 = 32" by (simp add: fs1_simps IBLOCK_def inode0_def sb0_def)
  have d: "disk1 32 = replicate BSIZE 0" "disk1 100 = replicate BSIZE 0" "disk1 101 = replicate BSIZE 0" "length (disk1 3) = BSIZE"
    by (simp_all add: disk1_def disk0_def bitmap1_def)
  have sz: "sb_size sb0 = 1000" by (simp add: sb0_def)
  have "bitmap_ok fs1" unfolding bitmap_ok_def fs1_simps sz using BBLOCK_sb0 fs1_used_blocks(2) d(4) by simp
  then have meta: "meta_ok fs1 0" unfolding meta_ok_def I Let_def unfolding fs1_simps sz map_blocks_sb0 using fs1_used_blocks d by simp
  have "slot fs1 0 k \<noteq> 0 \<Longrightarrow> data_block fs1 0 (slot fs1 0 k)" if "k \<le> MAXFILE" for k
    unfolding fs1_slots [OF that] data_block_def I unfolding fs1_simps sz map_blocks_sb0 using fs1_used_blocks d by (auto split: if_splits)
  moreover have "j = k \<or> slot fs1 0 k = 0" if "j \<le> MAXFILE" "k \<le> MAXFILE" "slot fs1 0 j = slot fs1 0 k" for j k
    using that(3) unfolding fs1_slots [OF that(1)] fs1_slots [OF that(2)] by (auto split: if_splits)
  moreover have "i_dev (inodes fs1 ! 0) = 1" "length (i_addrs (inodes fs1 ! 0)) = 13" "0 < length (inodes fs1)" by (simp_all add: fs1_simps)
  ultimately show ?thesis unfolding file_wf_def using meta by blast
qed

lemma fs1_facts:
  "fs_ok 0 fs1" "file_ok fs1 0" "k \<le> 29 \<Longrightarrow> slack k fs1" "2 < nfree fs1" "contents fs1 0 = replicate 1022 0" "i_size (inodes fs1 ! 0) = 1022"
  "j < 1022 \<Longrightarrow> file_byte fs1 0 j = 0"
proof -
  show "fs_ok 0 fs1" by (rule fresh_fs [of _ disk1]) (simp_all add: fs1_def fs0_def)
  show sz: "i_size (inodes fs1 ! 0) = 1022" by (simp add: fs1_simps)
  have "slot fs1 0 k \<noteq> 0" if "k < 2" for k using that fs1_slots [of k] by auto
  then show "file_ok fs1 0" using file_ok_slots [OF fs1_wf] by (simp add: fs1_simps)
  show "slack k fs1" if "k \<le> 29" using that by (simp add: slack_def fs1_simps)
  have "{200, 201, 202} \<subseteq> {x. x < sb_size (sb fs1) \<and> \<not> used (sb fs1) (fview fs1) x}" using fs1_used_blocks by (simp add: fs1_simps) (simp add: sb0_def)
  then have "card {200, 201, 202 :: uint} \<le> nfree fs1" unfolding nfree_def by (intro card_mono) simp_all
  then show "2 < nfree fs1" by simp
  have b: "file_byte fs1 0 j = 0" if "j < 1022" for j
  proof -
    have "j div BSIZE < 2" using that by (simp add: less_mult_imp_div_less)
    then have "slot fs1 0 (j div BSIZE) = 100 \<or> slot fs1 0 (j div BSIZE) = 101" using fs1_slots [of "j div BSIZE"] by auto
    moreover have "disk1 100 = replicate BSIZE 0" "disk1 101 = replicate BSIZE 0" by (simp_all add: disk1_def disk0_def)
    ultimately show ?thesis using file_byte_slot [of j fs1 0] that by (auto simp: fs1_simps)
  qed
  then show "j < 1022 \<Longrightarrow> file_byte fs1 0 j = 0" by blast
  show "contents fs1 0 = replicate 1022 0" unfolding contents_def sz using b by (intro replicate_eqI) auto
qed

theorem readi_correct_witness:
  "\<exists>s'. readi (\<lambda>_. \<lparr>dev_read = None, dev_write = None\<rparr>) 0 0 1018 10 fs1 = Ret (4, replicate 4 0, s')"
proof -
  have "\<not> ((1018 :: uint) > 1022 \<or> (1018 :: uint) + 10 < 1018)" by simp
  moreover have "map (file_byte fs1 0) [1018..<1022] = replicate 4 0" using fs1_facts(7) by (intro replicate_eqI) auto
  ultimately show ?thesis
    using readi_correct [OF fs_ok_quiet [OF fs1_facts(1)] fs1_facts(2), of 1018 10 "\<lambda>_. \<lparr>dev_read = None, dev_write = None\<rparr>"] fs1_facts(6) by auto
qed

theorem writei_correct_witness:
  "\<exists>s'. writei (\<lambda>_. \<lparr>dev_read = None, dev_write = None\<rparr>) 0 0 [1, 2, 3, 4] 1022 4 fs1 = Ret (4, s') \<and> contents s' 0 = replicate 1022 0 @ [1, 2, 3, 4]"
proof -
  have t: "touched (unat (1022 :: uint)) (unat (4 :: uint)) = 2" by (simp add: touched_def)
  have "card (map_blocks (sb fs1)) = 1" by (simp add: fs1_simps map_blocks_sb0)
  then have "slack (card (map_blocks (sb fs1)) + touched (unat (1022 :: uint)) (unat (4 :: uint)) + 3) fs1" unfolding t by (simp add: fs1_facts(3))
  moreover have "{k. (k < 3 \<or> k = MAXFILE) \<and> slot fs1 0 k = 0} \<subseteq> {2, MAXFILE}"
    using fs1_slots [of 0] fs1_slots [of 1] by (auto simp: numeral_3_eq_3 less_Suc_eq)
  then have "missing fs1 0 3 \<le> card {2, MAXFILE}" unfolding missing_def by (intro card_mono) simp_all
  then have "missing fs1 0 ((unat (1022 :: uint) + unat (4 :: uint) + 511) div BSIZE) \<le> nfree fs1" using fs1_facts(4) by simp
  moreover have "unat (4 :: uint) \<le> length [1, 2, 3, 4 :: uchar]" by simp
  ultimately show ?thesis
    using writei_correct [OF fs1_facts(1) fs1_wf fs1_facts(2), of 4 "[1, 2, 3, 4]" 1022 "\<lambda>_. \<lparr>dev_read = None, dev_write = None\<rparr>"]
      fs1_facts(5,6) by auto
qed

end
