(* ===== verification/Icache.thy ===== *)
theory Icache
  imports Fsblock
begin

text \<open>
  The inode cache and path names: every cached inode has one entry, and \<^verbatim>\<open>skipelem\<close> takes a path apart into its
  elements.
\<close>

subsection \<open>The table of inodes\<close>

definition live :: "'a fsst_scheme \<Rightarrow> nat \<Rightarrow> uint \<Rightarrow> uint \<Rightarrow> bool" where
  "live s i dev inum \<longleftrightarrow> i < NINODE \<and> 0 < i_ref (inodes s ! i) \<and> i_dev (inodes s ! i) = dev \<and> i_inum (inodes s ! i) = inum"

definition icache_wf :: "'a fsst_scheme \<Rightarrow> bool" where
  "icache_wf s \<longleftrightarrow> length (inodes s) = NINODE \<and> \<not> ic_lock s \<and> (\<forall>i<NINODE. 0 \<le> i_ref (inodes s ! i) \<and> i_ref (inodes s ! i) \<le> INT_MAX) \<and>
     (\<forall>i j dev inum. live s i dev inum \<longrightarrow> live s j dev inum \<longrightarrow> i = j)"

lemma ic_lock_simps [pt_simps]:
  "\<not> ic_lock s \<Longrightarrow> ic_acquire s = Ret (s\<lparr>ic_lock := True\<rparr>)"
  "ic_lock s \<Longrightarrow> ic_release s = Ret (s\<lparr>ic_lock := False\<rparr>)"
  by (simp_all add: ic_acquire_def ic_release_def)

lemma upd_inode_simps [simp]:
  "inodes (upd_inode i f s) = (inodes s)[i := f (inodes s ! i)]" "ic_lock (upd_inode i f s) = ic_lock s"
  "lbio (upd_inode i f s) = lbio s" "lh (upd_inode i f s) = lh s" "sb (upd_inode i f s) = sb s"
  by (simp_all add: upd_inode_def)

lemma icache_locked: "\<not> ic_lock s \<Longrightarrow> (upd_inode i f (s\<lparr>ic_lock := True\<rparr>))\<lparr>ic_lock := False\<rparr> = upd_inode i f s"
  by (cases s) (simp add: upd_inode_def)

lemma live_index:
  assumes "length (inodes s) = NINODE" "first_index (\<lambda>ip. i_ref ip > 0 \<and> i_dev ip = dev \<and> i_inum ip = inum) (inodes s) = Some i"
  shows "live s i dev inum"
  using assms by (simp add: first_index_Some live_def)

lemma iget_live:
  assumes "icache_wf s" "live s i dev inum"
  shows "iget dev inum s = (if i_ref (inodes s ! i) < INT_MAX
    then Ret (i, upd_inode i (\<lambda>ip. ip\<lparr>i_ref := i_ref (inodes s ! i) + 1\<rparr>) s) else Fault ''int overflow'')"
proof -
  let ?P = "\<lambda>ip. i_ref ip > 0 \<and> i_dev ip = dev \<and> i_inum ip = inum"
  have wf: "length (inodes s) = NINODE" "\<not> ic_lock s" "\<And>j. live s j dev inum \<Longrightarrow> j = i"
    using assms unfolding icache_wf_def by blast+
  have "inodes s ! i \<in> set (inodes s)" "?P (inodes s ! i)" using assms(2) wf(1) by (simp_all add: live_def)
  then obtain j where j: "first_index ?P (inodes s) = Some j" using first_index_ex [of "inodes s ! i" "inodes s" ?P] by blast
  then have "j = i" using live_index [OF wf(1)] wf(3) by blast
  then show ?thesis using j wf(2) by (simp add: iget_def pt_simps icache_locked cinc_def)
qed

lemma iget_new:
  assumes "icache_wf s" "\<forall>i. \<not> live s i dev inum"
  shows "iget dev inum s = (case first_index (\<lambda>ip. i_ref ip = 0) (inodes s) of
    None \<Rightarrow> Panic ''iget: no inodes''
  | Some i \<Rightarrow> Ret (i, upd_inode i (\<lambda>ip. ip\<lparr>i_dev := dev, i_inum := inum, i_ref := 1, i_valid := False\<rparr>) s))"
proof -
  let ?P = "\<lambda>ip. i_ref ip > 0 \<and> i_dev ip = dev \<and> i_inum ip = inum"
  have wf: "length (inodes s) = NINODE" "\<not> ic_lock s" using assms unfolding icache_wf_def by blast+
  have "first_index ?P (inodes s) = None"
  proof (cases "first_index ?P (inodes s)")
    case (Some i)
    then show ?thesis using live_index [OF wf(1)] assms(2) by blast
  qed
  then show ?thesis using wf(2) by (simp add: iget_def pt_simps icache_locked split: option.split)
qed

text \<open>
  C20. On a well-formed inode cache, \<^verbatim>\<open>iget\<close> returns an entry of the table for the inode asked for with one more reference:
  the entry that holds it already, when there is one, and otherwise an entry that was free. No other entry
  changes and the cache stays well-formed; in particular the reference counts stay in the range of an \<^verbatim>\<open>int\<close>.
  Without such an entry it panics, and when the entry already has the largest count the increment overflows.
\<close>

theorem iget_correct:
  assumes "icache_wf s"
  shows "if \<exists>i. live s i dev inum \<and> i_ref (inodes s ! i) = INT_MAX then iget dev inum s = Fault ''int overflow''
    else if (\<exists>i. live s i dev inum) \<or> (\<exists>i<NINODE. i_ref (inodes s ! i) = 0)
    then \<exists>i s'. iget dev inum s = Ret (i, s') \<and> live s' i dev inum \<and> icache_wf s' \<and>
      (if \<exists>j. live s j dev inum then live s i dev inum \<and> inodes s' ! i = (inodes s ! i)\<lparr>i_ref := i_ref (inodes s ! i) + 1\<rparr>
       else i_ref (inodes s ! i) = 0 \<and> i_ref (inodes s' ! i) = 1 \<and> \<not> i_valid (inodes s' ! i)) \<and>
      (\<forall>j. j \<noteq> i \<longrightarrow> inodes s' ! j = inodes s ! j)
    else iget dev inum s = Panic ''iget: no inodes''"
proof (cases "\<exists>i. live s i dev inum")
  case True
  then obtain i where i: "live s i dev inum" by blast
  have u: "live s j dev inum \<longleftrightarrow> j = i" for j using i assms unfolding icache_wf_def by blast
  let ?s = "upd_inode i (\<lambda>ip. ip\<lparr>i_ref := i_ref (inodes s ! i) + 1\<rparr>) s"
  have n: "i < NINODE" "length (inodes s) = NINODE" "i_ref (inodes s ! i) \<le> INT_MAX" using i assms by (simp_all add: live_def icache_wf_def)
  show ?thesis
  proof (cases "i_ref (inodes s ! i) = INT_MAX")
    case True
    then show ?thesis using iget_live [OF assms i] u by simp
  next
    case False
    have l: "live ?s j d m \<longleftrightarrow> live s j d m" for j d m using n i by (cases "j = i") (auto simp: live_def)
    have "0 \<le> i_ref (inodes ?s ! j) \<and> i_ref (inodes ?s ! j) \<le> INT_MAX" if "j < NINODE" for j
      using that n assms False by (cases "j = i") (auto simp: icache_wf_def)
    moreover have "ic_lock ?s = ic_lock s" "length (inodes ?s) = NINODE" using n by simp_all
    ultimately have "icache_wf ?s" using assms unfolding icache_wf_def l by auto
    then show ?thesis using iget_live [OF assms i] u l n False by (auto intro!: exI [of _ i])
  qed
next
  case False
  then have new: "\<forall>i. \<not> live s i dev inum" by blast
  have n: "length (inodes s) = NINODE" using assms by (simp add: icache_wf_def)
  show ?thesis
  proof (cases "first_index (\<lambda>ip. i_ref ip = 0) (inodes s)")
    case None
    then have "\<forall>ip\<in>set (inodes s). i_ref ip \<noteq> 0" using first_index_None [of "\<lambda>ip. i_ref ip = 0" "inodes s"] by blast
    then have "\<not> (\<exists>i<NINODE. i_ref (inodes s ! i) = 0)" using n nth_mem [of _ "inodes s"] by auto
    then show ?thesis using iget_new [OF assms new] None False by simp
  next
    case (Some i)
    then have i: "i < NINODE" "i_ref (inodes s ! i) = 0" using n by (simp_all add: first_index_Some)
    let ?s = "upd_inode i (\<lambda>ip. ip\<lparr>i_dev := dev, i_inum := inum, i_ref := 1, i_valid := False\<rparr>) s"
    have l: "live ?s j d m \<longleftrightarrow> (if j = i then d = dev \<and> m = inum else live s j d m)" for j d m
      using n i by (cases "j = i") (auto simp: live_def)
    have "0 \<le> i_ref (inodes ?s ! j) \<and> i_ref (inodes ?s ! j) \<le> INT_MAX" if "j < NINODE" for j
      using that n assms by (cases "j = i") (auto simp: icache_wf_def)
    moreover have "ic_lock ?s = ic_lock s" "length (inodes ?s) = NINODE" using n by simp_all
    moreover have "j = k" if "live ?s j d m" "live ?s k d m" for j k d m
      using that new assms unfolding l icache_wf_def by (metis (full_types))
    ultimately have "icache_wf ?s" using assms unfolding icache_wf_def by auto
    moreover have "iget dev inum s = Ret (i, ?s)" using iget_new [OF assms new] Some by simp
    ultimately show ?thesis using False i l n by (auto intro!: exI [of _ i])
  qed
qed

theorem iget_correct_witness:
  "icache_wf fs0 \<and> (\<exists>i s'. iget 1 7 fs0 = Ret (i, s') \<and> live s' i 1 7 \<and> icache_wf s')"
proof -
  have wf: "icache_wf fs0" by (auto simp: icache_wf_def live_def fs0_def inode0_def)
  have "i_ref (inodes fs0 ! 0) = 0" by (simp add: fs0_def inode0_def)
  then have "(\<exists>i. live fs0 i 1 7) \<or> (\<exists>i<NINODE. i_ref (inodes fs0 ! i) = 0)" by (intro disjI2 exI [of _ 0]) simp
  moreover have "\<not> (\<exists>i. live fs0 i 1 7 \<and> i_ref (inodes fs0 ! i) = INT_MAX)" by (auto simp: live_def fs0_def inode0_def)
  ultimately show ?thesis using iget_correct [OF wf, of 1 7] wf by (auto split: if_splits)
qed

subsection \<open>Path elements\<close>

text \<open>The specification: a path split at every slash, without the empty pieces.\<close>

primrec split_slash :: "uchar list \<Rightarrow> uchar list list" where
  "split_slash [] = [[]]"
| "split_slash (c # cs) = (if c = slash then [] # split_slash cs else (c # hd (split_slash cs)) # tl (split_slash cs))"

definition path_elems :: "uchar list \<Rightarrow> uchar list list" where
  "path_elems path = filter (\<lambda>e. e \<noteq> []) (split_slash path)"

lemma split_slash_eq:
  "split_slash p = takeWhile (\<lambda>c. c \<noteq> slash) p # (case dropWhile (\<lambda>c. c \<noteq> slash) p of [] \<Rightarrow> [] | _ # r \<Rightarrow> split_slash r)"
  by (induction p) (auto split: list.splits)

lemma path_elems_slash: "path_elems (dropWhile (\<lambda>c. c = slash) p) = path_elems p"
  by (induction p) (auto simp: path_elems_def)

lemma path_elems_step:
  assumes "p \<noteq> []" "hd p \<noteq> slash"
  shows "path_elems p = takeWhile (\<lambda>c. c \<noteq> slash) p # path_elems (dropWhile (\<lambda>c. c \<noteq> slash) p)"
proof -
  have "takeWhile (\<lambda>c. c \<noteq> slash) p \<noteq> []" using assms by (cases p) auto
  moreover have "hd (dropWhile (\<lambda>c. c \<noteq> slash) p) = slash" if "dropWhile (\<lambda>c. c \<noteq> slash) p \<noteq> []"
    using hd_dropWhile [OF that] by simp
  ultimately show ?thesis using split_slash_eq [of p]
    by (cases "dropWhile (\<lambda>c. c \<noteq> slash) p") (auto simp: path_elems_def simp del: dropWhile_eq_Nil_conv)
qed

lemma path_elems_Nil: "p = [] \<or> hd p \<noteq> slash \<Longrightarrow> path_elems p = [] \<longleftrightarrow> p = []"
  using path_elems_step [of p] by (cases "p = []") (auto simp: path_elems_def)

text \<open>The C string in a name buffer.\<close>

definition buf_name :: "uchar list \<Rightarrow> uchar list" where
  "buf_name name = takeWhile (\<lambda>c. c \<noteq> 0) name"

text \<open>
  C26. \<^verbatim>\<open>skipelem\<close> takes off the first element of a path: it fails exactly when the path has none, and otherwise
  the buffer holds the first element, cut to \<^verbatim>\<open>DIRSIZ\<close> bytes, and the rest has the remaining elements,
  no leading slash, and is empty exactly when the element was the last one.
\<close>

theorem skipelem_correct:
  assumes "0 \<notin> set path" "length name = DIRSIZ"
  shows "case path_elems path of
      [] \<Rightarrow> skipelem path name = None
    | e # es \<Rightarrow> \<exists>rest name'. skipelem path name = Some (rest, name') \<and> path_elems rest = es \<and> (rest = [] \<longleftrightarrow> es = []) \<and>
        (rest \<noteq> [] \<longrightarrow> hd rest \<noteq> slash) \<and> length name' = DIRSIZ \<and> buf_name name' = take DIRSIZ e"
proof -
  let ?p = "dropWhile (\<lambda>c. c = slash) path"
  let ?e = "takeWhile (\<lambda>c. c \<noteq> slash) ?p" and ?r = "dropWhile (\<lambda>c. c = slash) (dropWhile (\<lambda>c. c \<noteq> slash) ?p)"
  show ?thesis
  proof (cases "?p = []")
    case True
    then have "path_elems path = path_elems []" using path_elems_slash [of path] by (simp only:)
    with True show ?thesis by (simp add: skipelem_def path_elems_def)
  next
    case False
    have hd: "hd ?p \<noteq> slash" using hd_dropWhile [OF False] .
    have r: "?r \<noteq> [] \<longrightarrow> hd ?r \<noteq> slash" using hd_dropWhile [of "\<lambda>c. c = slash"] by blast
    have es: "path_elems path = ?e # path_elems ?r"
      using path_elems_slash [of path] path_elems_step [OF False hd] path_elems_slash [of "dropWhile (\<lambda>c. c \<noteq> slash) ?p"] by simp
    let ?n = "if length ?e \<ge> DIRSIZ then take DIRSIZ ?e else ?e @ 0 # drop (length ?e + 1) name"
    have "c \<noteq> 0" if "c \<in> set ?e" for c using that assms(1) by (meson set_dropWhileD set_takeWhileD)
    then have z: "\<And>c. c \<in> set ?e \<Longrightarrow> c \<noteq> 0" "\<And>c. c \<in> set (take DIRSIZ ?e) \<Longrightarrow> c \<noteq> 0" by (auto dest: in_set_takeD)
    have "buf_name ?n = take DIRSIZ ?e"
    proof (cases "length ?e \<ge> DIRSIZ")
      case True
      then show ?thesis using z(2) by (simp add: buf_name_def takeWhile_eq_all_conv)
    next
      case False
      then show ?thesis using z(1) by (simp add: buf_name_def takeWhile_append2)
    qed
    moreover have "length ?n = DIRSIZ" using assms(2) by simp
    moreover have "skipelem path name = Some (?r, ?n)" using False by (simp add: skipelem_def Let_def)
    ultimately show ?thesis unfolding es using r path_elems_Nil [of ?r] by auto
  qed
qed

theorem skipelem_correct_witness:
  "path_elems [47, 47, 97, 47, 98] = [[97], [98]] \<and>
   (\<exists>rest name'. skipelem [47, 47, 97, 47, 98] (replicate DIRSIZ 0) = Some (rest, name') \<and> path_elems rest = [[98]] \<and> buf_name name' = [97])"
proof -
  have "path_elems [47, 47, 97, 47, 98] = [[97], [98]]" by (simp add: path_elems_def)
  with skipelem_correct [of "[47, 47, 97, 47, 98]" "replicate DIRSIZ 0"] show ?thesis by auto
qed

end
