(* ===== verification/Pagetable.thy ===== *)
theory Pagetable
  imports Vm
begin

text \<open>
  Address spaces. What a page directory maps, \<open>xlate\<close>, as the processor reads it: a word of the
  directory and a word of a page table. \<open>as_ok\<close> says that the directory and its tables are
  different pages that are not free. The lemmas give the effect of \<^verbatim>\<open>walkpgdir\<close>, \<^verbatim>\<open>mappages\<close> and
  \<^verbatim>\<open>deallocuvm\<close> of \<^verbatim>\<open>src/xv6A1/vm.c\<close> on it.
\<close>

definition pde :: "mem \<Rightarrow> uint \<Rightarrow> uint \<Rightarrow> uint" where
  "pde m pd va = load32 m (pd + 4 * PDX va)"

definition ptab :: "mem \<Rightarrow> uint \<Rightarrow> uint \<Rightarrow> uint" where
  "ptab m pd va = P2V (PTE_ADDR (pde m pd va))"

definition pte :: "mem \<Rightarrow> uint \<Rightarrow> uint \<Rightarrow> uint" where
  "pte m pd va = load32 m (ptab m pd va + 4 * PTX va)"

definition xlate :: "mem \<Rightarrow> uint \<Rightarrow> uint \<Rightarrow> uint option" where
  "xlate m pd va = (if present (pde m pd va) \<and> present (pte m pd va) then Some (pte m pd va) else None)"

definition as_ok :: "uint \<Rightarrow> kmem \<Rightarrow> uint \<Rightarrow> uint list \<Rightarrow> bool" where
  "as_ok kend s pd ps \<longleftrightarrow> kmem_inv kend s ps \<and> page_ok kend pd \<and> pd \<notin> set ps \<and>
     (\<forall>va. present (pde (kmem_mem s) pd va) \<longrightarrow> page_ok kend (ptab (kmem_mem s) pd va) \<and>
        ptab (kmem_mem s) pd va \<notin> set ps \<and> ptab (kmem_mem s) pd va \<noteq> pd) \<and>
     (\<forall>va va'. present (pde (kmem_mem s) pd va) \<longrightarrow> present (pde (kmem_mem s) pd va') \<longrightarrow>
        ptab (kmem_mem s) pd va = ptab (kmem_mem s) pd va' \<longrightarrow> PDX va = PDX va')"

lemma as_okI:
  assumes "kmem_inv kend s ps" "kmem_mem s = m" "page_ok kend pd" "pd \<notin> set ps"
    "\<And>x. present (pde m pd x) \<Longrightarrow> page_ok kend (ptab m pd x) \<and> ptab m pd x \<notin> set ps \<and> ptab m pd x \<noteq> pd"
    "\<And>x y. present (pde m pd x) \<Longrightarrow> present (pde m pd y) \<Longrightarrow> ptab m pd x = ptab m pd y \<Longrightarrow> PDX x = PDX y"
  shows "as_ok kend s pd ps"
  using assms(1,3-6) unfolding as_ok_def assms(2) by blast

lemma as_okD:
  assumes "as_ok kend s pd ps"
  shows "kmem_inv kend s ps" "page_ok kend pd" "pd \<notin> set ps"
    "present (pde (kmem_mem s) pd x) \<Longrightarrow> page_ok kend (ptab (kmem_mem s) pd x) \<and> ptab (kmem_mem s) pd x \<notin> set ps \<and> ptab (kmem_mem s) pd x \<noteq> pd"
    "present (pde (kmem_mem s) pd x) \<Longrightarrow> present (pde (kmem_mem s) pd y) \<Longrightarrow> ptab (kmem_mem s) pd x = ptab (kmem_mem s) pd y \<Longrightarrow> PDX x = PDX y"
  using assms unfolding as_ok_def by blast+

text \<open>The number of the page of an address.\<close>

definition vpn :: "uint \<Rightarrow> nat" where
  "vpn va = unat va div 4096"

lemma unat_index: "unat (drop_bit k va AND 0x3FF :: uint) = unat va div 2 ^ k mod 1024"
proof -
  have "(drop_bit k va AND 0x3FF :: uint) = take_bit 10 (drop_bit k va)" by (simp add: take_bit_eq_mask mask_eq_exp_minus_1)
  then show ?thesis by (simp only: unsigned_take_bit_eq unsigned_drop_bit_eq) (simp add: take_bit_eq_mod drop_bit_eq_div)
qed

lemma unat_PDX: "unat (PDX va) = vpn va div 1024"
proof -
  have "unat (PDX va) = unat va div 4194304 mod 1024" using unat_index [of 22 va] by (simp add: PDX_def)
  also have "\<dots> = unat va div 4194304" using unat_less_32 [of va] by (intro mod_less) (simp del: unat_less_32)
  finally show ?thesis by (simp add: vpn_def div_mult2_eq [symmetric])
qed

lemma unat_PTX: "unat (PTX va) = vpn va mod 1024"
  using unat_index [of 12 va] by (simp add: PTX_def vpn_def)

lemma PDX_eq: "PDX va = PDX va' \<longleftrightarrow> vpn va div 1024 = vpn va' div 1024"
  by (simp add: word_unat_eq_iff unat_PDX)

lemma PTX_eq: "PTX va = PTX va' \<longleftrightarrow> vpn va mod 1024 = vpn va' mod 1024"
  by (simp add: word_unat_eq_iff unat_PTX)

lemma page_eq: "PDX va = PDX va' \<and> PTX va = PTX va' \<longleftrightarrow> vpn va = vpn va'"
  unfolding PDX_eq PTX_eq by (metis div_mult_mod_eq)

lemma index_less: "unat (PDX va) < 1024" "unat (PTX va) < 1024"
  using unat_less_32 [of va] by (auto simp: unat_PDX unat_PTX vpn_def simp del: unat_less_32)

lemma unat_word_offset: "unat i < 1024 \<Longrightarrow> unat (4 * i :: uint) = 4 * unat i"
  by (simp add: unat_word_ariths)

subsection \<open>Frames\<close>

lemma word_in_page: "unat i < 1024 \<Longrightarrow> in_block (p + 4 * i) 4 b \<Longrightarrow> in_block p 4096 b"
  by (rule in_block_inner [of p "4 * i" 4]) (simp_all add: unat_word_offset)

lemma load32_page_frame:
  assumes "page_ok kend p" "page_ok kend v" "p \<noteq> v" "\<And>a. \<not> in_block v 4096 a \<Longrightarrow> m' a = m a" "unat i < 1024"
  shows "load32 m' (p + 4 * i) = load32 m (p + 4 * i)"
proof (rule load32_cong)
  fix b assume "in_block (p + 4 * i) 4 b"
  then have "in_block p 4096 b" using word_in_page assms(5) by blast
  then show "m' b = m b" using pages_disjoint [OF assms(1-3)] assms(4) by blast
qed

lemma load32_word_frame:
  assumes "unat i < 1024" "unat j < 1024" "i \<noteq> j"
  shows "load32 (store32 m (p + 4 * i) v) (p + 4 * j) = load32 m (p + 4 * j)"
proof (rule load32_store32_apart)
  have "unat i \<noteq> unat j" using assms(3) by (simp add: word_unat_eq_iff)
  moreover have "p + 4 * j - (p + 4 * i) = 4 * j - 4 * i" "p + 4 * i - (p + 4 * j) = 4 * i - 4 * j" by simp_all
  ultimately show "4 \<le> unat (p + 4 * j - (p + 4 * i))" "4 \<le> unat (p + 4 * i - (p + 4 * j))"
    using assms(1,2) by (auto simp: unat_sub_if_32 unat_word_offset)
qed

lemma store32_page: "unat i < 1024 \<Longrightarrow> \<not> in_block p 4096 a \<Longrightarrow> store32 m (p + 4 * i) v a = m a"
  using store32_other word_in_page by blast

subsection \<open>Entries\<close>

lemma present_iff: "present e \<longleftrightarrow> bit e 0"
  by (simp add: bit_0 and_one_eq odd_iff_mod_2_eq_one)

lemma present_or [simp]: "present (e OR f OR PTE_P)" "present (e OR 7)"
  by (simp_all add: present_iff bit_or_iff)

lemma P2V_V2P [simp]: "P2V (V2P a) = a" "V2P (P2V a) = a"
  by (simp_all add: P2V_def V2P_def)

lemma PTE_ADDR_table:
  assumes "p mod PGSIZE = 0"
  shows "PTE_ADDR (V2P p OR PTE_P OR PTE_W OR PTE_U) = V2P p"
proof -
  have m: "(0xFFF :: uint) = mask 12" "(7 :: uint) = mask 3" by (simp_all add: mask_eq_exp_minus_1)
  obtain k where k: "unat p = 4096 * k" using page_multiple [OF assms] by blast
  then have "unat (V2P p) = 4096 * (if 524288 \<le> k then k - 524288 else k + 524288)" by (simp add: V2P_def unat_sub_if_32 diff_mult_distrib2)
  then have "unat (take_bit 12 (V2P p)) = 0" by (simp only: unsigned_take_bit_eq) (simp add: take_bit_eq_mod)
  then have "take_bit 12 (V2P p) = 0" by (simp only: unat_eq_0)
  then have b: "n < 12 \<Longrightarrow> \<not> bit (V2P p) n" for n by (metis bit_take_bit_iff bit_0_eq bot_apply bot_bool_def)
  have "V2P p OR PTE_P OR PTE_W OR PTE_U = V2P p OR mask 3" unfolding m(2) [symmetric] by (simp add: or.assoc)
  moreover have "(V2P p OR mask 3) AND NOT (mask 12) = V2P p"
    using b by (intro bit_word_eqI) (auto simp: bit_and_iff bit_or_iff bit_not_iff bit_mask_iff not_less intro: leI)
  ultimately show ?thesis by (simp add: PTE_ADDR_def m(1) del: mask_numeral)
qed

subsection \<open>Operations\<close>

lemma xlate_cong:
  assumes "pde m' pd va = pde m pd va" "present (pde m pd va) \<Longrightarrow> pte m' pd va = pte m pd va"
  shows "xlate m' pd va = xlate m pd va"
  using assms by (auto simp: xlate_def)

text \<open>Writing to a page that is neither the directory nor a table changes no translation.\<close>

lemma as_ok_frame:
  assumes "as_ok kend s pd ps" "page_ok kend v" "v \<noteq> pd" "\<And>va. present (pde (kmem_mem s) pd va) \<Longrightarrow> ptab (kmem_mem s) pd va \<noteq> v"
    "\<And>a. \<not> in_block v 4096 a \<Longrightarrow> m' a = kmem_mem s a"
  shows "pde m' pd va = pde (kmem_mem s) pd va" "xlate m' pd va = xlate (kmem_mem s) pd va"
proof -
  show d: "pde m' pd va = pde (kmem_mem s) pd va" unfolding pde_def
    using assms(1,3) by (intro load32_page_frame [OF _ assms(2) _ assms(5)] index_less) (auto simp: as_ok_def)
  show "xlate m' pd va = xlate (kmem_mem s) pd va"
  proof (rule xlate_cong [OF d])
    assume p: "present (pde (kmem_mem s) pd va)"
    have t: "ptab m' pd va = ptab (kmem_mem s) pd va" by (simp add: ptab_def d)
    have "page_ok kend (ptab (kmem_mem s) pd va)" using assms(1) p unfolding as_ok_def by blast
    then show "pte m' pd va = pte (kmem_mem s) pd va" unfolding pte_def t
      by (rule load32_page_frame [OF _ assms(2) assms(4) [OF p]]) (simp_all add: assms(5) index_less)
  qed
qed

text \<open>Storing an entry of a page table.\<close>

lemma set_pte:
  fixes s :: kmem and v :: uint
  defines "m \<equiv> kmem_mem s"
  assumes "as_ok kend s pd ps" "present (pde m pd va)"
  defines "m' \<equiv> store32 m (ptab m pd va + 4 * PTX va) v"
  shows "as_ok kend (s\<lparr>kmem_mem := m'\<rparr>) pd ps" "pde m' pd va' = pde m pd va'"
    "xlate m' pd va' = (if vpn va' = vpn va then if present v then Some v else None else xlate m pd va')"
proof -
  have t: "page_ok kend (ptab m pd va)" "ptab m pd va \<notin> set ps" "ptab m pd va \<noteq> pd"
    using assms(2,3) by (auto simp: as_ok_def m_def)
  have f: "m' a = m a" if "\<not> in_block (ptab m pd va) 4096 a" for a
    using that unfolding m'_def by (intro store32_page index_less)
  have d: "pde m' pd x = pde m pd x" for x unfolding pde_def
    using assms(2) t(3) by (intro load32_page_frame [OF _ t(1) _ f] index_less) (auto simp: as_ok_def)
  then show "pde m' pd va' = pde m pd va'" .
  have p: "ptab m' pd x = ptab m pd x" for x by (simp add: ptab_def d)
  have u: "kmem_mem (s\<lparr>kmem_mem := m'\<rparr>) = m'" by simp
  have "kmem_inv kend (s\<lparr>kmem_mem := m'\<rparr>) ps"
    using assms(2) by (intro kmem_inv_write [OF _ t(1,2)]) (auto simp: as_ok_def f [unfolded m_def] m_def)
  then show "as_ok kend (s\<lparr>kmem_mem := m'\<rparr>) pd ps" using assms(2) [unfolded as_ok_def, folded m_def]
    unfolding as_ok_def u d p by blast
  show "xlate m' pd va' = (if vpn va' = vpn va then if present v then Some v else None else xlate m pd va')"
  proof (cases "PDX va' = PDX va")
    case True
    then have e: "pde m pd va' = pde m pd va" "ptab m pd va' = ptab m pd va" by (simp_all add: pde_def ptab_def)
    have "pte m' pd va' = (if PTX va' = PTX va then v else pte m pd va')"
      unfolding pte_def p e(2) unfolding m'_def using load32_word_frame [OF index_less(2) index_less(2), of va va'] by auto
    then show ?thesis using assms(3) True page_eq [of va' va] by (auto simp: xlate_def d e(1))
  next
    case False
    then have n: "vpn va' \<noteq> vpn va" by (auto simp: PDX_eq)
    have "pte m' pd va' = pte m pd va'" if "present (pde m pd va')"
    proof -
      have "page_ok kend (ptab m pd va')" "ptab m pd va' \<noteq> ptab m pd va"
        using assms(2,3) that False unfolding as_ok_def m_def by blast+
      then show ?thesis unfolding pte_def p by (intro load32_page_frame [OF _ t(1) _ f] index_less)
    qed
    then show ?thesis using n xlate_cong [of m' pd va' m] d by simp
  qed
qed

lemma load32_zero: "(\<And>b. in_block a 4 b \<Longrightarrow> m b = 0) \<Longrightarrow> load32 m a = 0"
  using load32_cong [of a m "\<lambda>_. 0"] by (simp add: load32_def)

text \<open>Adding a page table: the new table is the first free page, and it maps nothing.\<close>

lemma new_table:
  fixes s :: kmem
  defines "m \<equiv> kmem_mem s"
  assumes "as_ok kend s pd (p # qs)" "\<not> present (pde m pd va)" "kmem_inv kend t qs" "kmem_mem t = m"
  defines "m' \<equiv> store32 (memset m p 0 PGSIZE) (pd + 4 * PDX va) (V2P p OR PTE_P OR PTE_W OR PTE_U)"
  shows "as_ok kend (t\<lparr>kmem_mem := m'\<rparr>) pd qs" "ptab m' pd va = p" "xlate m' pd x = xlate m pd x"
    "present (pde m' pd x) \<longleftrightarrow> present (pde m pd x) \<or> PDX x = PDX va"
proof -
  let ?e = "V2P p OR PTE_P OR PTE_W OR PTE_U" and ?m = "memset m p 0 PGSIZE"
  have k: "page_ok kend p" "page_ok kend pd" "p \<noteq> pd" "p \<notin> set qs" "pd \<notin> set qs"
    using assms(2) by (auto simp: as_ok_def kmem_inv_def)
  have f1: "?m a = m a" if "\<not> in_block p 4096 a" for a using that by (simp add: memset_eq)
  have f2: "m' a = ?m a" if "\<not> in_block pd 4096 a" for a
    using that unfolding m'_def by (intro store32_page index_less)
  have o: "load32 m' (q + 4 * i) = load32 m (q + 4 * i)" if "page_ok kend q" "q \<noteq> p" "q \<noteq> pd" "unat i < 1024" for q i
    using load32_page_frame [where m = ?m and m' = m', OF that(1) k(2) that(3) f2 that(4)]
      load32_page_frame [where m = m and m' = ?m, OF that(1) k(1) that(2) f1 that(4)] by simp
  have d: "pde m' pd x = (if PDX x = PDX va then ?e else pde m pd x)" for x
    using load32_word_frame [OF index_less(1) index_less(1), of va x ?m pd ?e]
      load32_page_frame [where m = m and m' = ?m, OF k(2,1) k(3) [symmetric] f1 index_less(1), of x]
    by (auto simp: pde_def m'_def)
  have t: "ptab m' pd x = (if PDX x = PDX va then p else ptab m pd x)" for x
    using PTE_ADDR_table [of p] k(1) by (simp add: ptab_def d page_ok_def)
  show "ptab m' pd va = p" "present (pde m' pd x) \<longleftrightarrow> present (pde m pd x) \<or> PDX x = PDX va" by (simp_all add: d t)
  have z: "pte m' pd x = 0" if "PDX x = PDX va" for x
  proof -
    have "load32 m' (p + 4 * PTX x) = load32 ?m (p + 4 * PTX x)"
      by (rule load32_page_frame [where v = pd, OF k(1,2,3) f2 index_less(2)])
    also have "\<dots> = 0" by (rule load32_zero) (use word_in_page [OF index_less(2)] in \<open>auto simp: memset_eq\<close>)
    finally show ?thesis using that by (simp add: pte_def t)
  qed
  have a: "page_ok kend (ptab m pd x) \<and> ptab m pd x \<notin> set qs \<and> ptab m pd x \<noteq> p \<and> ptab m pd x \<noteq> pd" if "present (pde m pd x)" for x
    using assms(2) that unfolding as_ok_def m_def by auto
  show "xlate m' pd x = xlate m pd x"
  proof (cases "PDX x = PDX va")
    case True
    then have "pde m pd x = pde m pd va" by (simp add: pde_def)
    then show ?thesis using assms(3) z [OF True] by (simp add: xlate_def)
  next
    case False
    then show ?thesis using a [of x] o [of "ptab m pd x" "PTX x"] index_less(2) [of x]
      by (intro xlate_cong) (simp_all add: d t pte_def)
  qed
  have ki: "kmem_inv kend (t\<lparr>kmem_mem := m'\<rparr>) qs"
    using kmem_inv_write [of kend "t\<lparr>kmem_mem := ?m\<rparr>" qs pd m'] kmem_inv_write [of kend t qs p ?m] assms(4,5) k f1 f2 by simp
  have i: "PDX x = PDX y" if "present (pde m pd x)" "present (pde m pd y)" "ptab m pd x = ptab m pd y" for x y
    using assms(2) that unfolding as_ok_def m_def by blast
  have b1: "page_ok kend (ptab m' pd x) \<and> ptab m' pd x \<notin> set qs \<and> ptab m' pd x \<noteq> pd" if "present (pde m' pd x)" for x
    using a [of x] k that by (cases "PDX x = PDX va") (simp_all add: d t)
  have b2: "PDX x = PDX y" if "present (pde m' pd x)" "present (pde m' pd y)" "ptab m' pd x = ptab m' pd y" for x y
    using a [of x] a [of y] i [of x y] that by (cases "PDX x = PDX va"; cases "PDX y = PDX va") (auto simp: d t)
  have u: "kmem_mem (t\<lparr>kmem_mem := m'\<rparr>) = m'" by simp
  show "as_ok kend (t\<lparr>kmem_mem := m'\<rparr>) pd qs" by (rule as_okI [OF ki u k(2,5)]) (fact b1 b2)+
qed

lemma walk_alloc:
  assumes "as_ok kend s pd ps" "present (pde (kmem_mem s) pd va) \<or> ps \<noteq> []"
  shows "\<exists>s'. walkpgdir pd va True s = Ret (Some (ptab (kmem_mem s') pd va + 4 * PTX va), s') \<and>
    as_ok kend s' pd (drop (if present (pde (kmem_mem s) pd va) then 0 else 1) ps) \<and>
    (\<forall>x. xlate (kmem_mem s') pd x = xlate (kmem_mem s) pd x) \<and>
    (\<forall>x. present (pde (kmem_mem s') pd x) \<longleftrightarrow> present (pde (kmem_mem s) pd x) \<or> PDX x = PDX va)"
proof (cases "present (pde (kmem_mem s) pd va)")
  case True
  then have "walkpgdir pd va True s = Ret (Some (ptab (kmem_mem s) pd va + 4 * PTX va), s)"
    by (simp add: walkpgdir_def Let_def pde_def ptab_def)
  moreover have "PDX x = PDX va \<Longrightarrow> present (pde (kmem_mem s) pd x)" for x using True by (simp add: pde_def)
  ultimately show ?thesis using assms(1) True by (intro exI [of _ s]) auto
next
  case False
  then obtain p qs where ps: "ps = p # qs" using assms(2) by (cases ps) auto
  then obtain t where t: "kalloc s = Ret (p, t)" "kmem_inv kend t qs" "kmem_mem t = kmem_mem s"
    using assms(1) kalloc_Cons [of kend s p qs] by (auto simp: as_ok_def)
  have "p \<noteq> 0" using assms(1) page_nonzero by (auto simp: as_ok_def kmem_inv_def ps)
  let ?s = "t\<lparr>kmem_mem := store32 (memset (kmem_mem s) p 0 PGSIZE) (pd + 4 * PDX va) (V2P p OR PTE_P OR PTE_W OR PTE_U)\<rparr>"
  note n = new_table [OF assms(1) [unfolded ps] False t(2,3)]
  have "walkpgdir pd va True s = Ret (Some (p + 4 * PTX va), ?s)"
    using False \<open>p \<noteq> 0\<close> t by (simp add: walkpgdir_def Let_def pde_def)
  then show ?thesis using n False by (intro exI [of _ ?s]) (simp add: ps)
qed

text \<open>A page that needs a table when no page is free, and a page that is mapped already.\<close>

lemma walk_no_memory:
  assumes "as_ok kend s pd []" "\<not> present (pde (kmem_mem s) pd va)"
  shows "walkpgdir pd va True s = Ret (None, s)"
  using assms kalloc_Nil [of kend s] by (simp add: walkpgdir_def Let_def pde_def as_ok_def)

lemma walk_mapped:
  assumes "xlate (kmem_mem s) pd va \<noteq> None"
  shows "\<exists>p. walkpgdir pd va al s = Ret (Some p, s) \<and> present (load32 (kmem_mem s) p)"
  using assms by (auto simp: walkpgdir_def Let_def pde_def ptab_def pte_def xlate_def split: if_splits)

lemma map_page:
  fixes pa perm :: uint
  defines "v \<equiv> pa OR perm OR PTE_P"
  assumes "as_ok kend s pd ps" "present (pde (kmem_mem s) pd va) \<or> ps \<noteq> []" "xlate (kmem_mem s) pd va = None"
  shows "\<exists>p s'. walkpgdir pd va True s = Ret (Some p, s') \<and> \<not> present (load32 (kmem_mem s') p) \<and>
    as_ok kend (poke p v s') pd (drop (if present (pde (kmem_mem s) pd va) then 0 else 1) ps) \<and>
    xlate (kmem_mem (poke p v s')) pd = (\<lambda>x. if vpn x = vpn va then Some v else xlate (kmem_mem s) pd x) \<and>
    (\<forall>x. present (pde (kmem_mem (poke p v s')) pd x) \<longleftrightarrow> present (pde (kmem_mem s) pd x) \<or> PDX x = PDX va)"
proof -
  obtain s' where s': "walkpgdir pd va True s = Ret (Some (ptab (kmem_mem s') pd va + 4 * PTX va), s')"
    "as_ok kend s' pd (drop (if present (pde (kmem_mem s) pd va) then 0 else 1) ps)"
    "\<And>x. xlate (kmem_mem s') pd x = xlate (kmem_mem s) pd x"
    "\<And>x. present (pde (kmem_mem s') pd x) \<longleftrightarrow> present (pde (kmem_mem s) pd x) \<or> PDX x = PDX va"
    using walk_alloc [OF assms(2,3)] by blast
  have p: "present (pde (kmem_mem s') pd va)" using s'(4) [of va] by simp
  have "\<not> present (pte (kmem_mem s') pd va)" using assms(4) p s'(3) [of va] by (simp add: xlate_def split: if_splits)
  moreover have "present v" by (simp add: v_def)
  moreover note set_pte [OF s'(2) p, of v]
  ultimately show ?thesis using s'(1,3,4) by (intro exI [of _ "ptab (kmem_mem s') pd va + 4 * PTX va"] exI [of _ s'])
    (simp add: pte_def fun_eq_iff)
qed

text \<open>
  The page directory entries that are present, by their number, and those that mapping a range of page numbers
  adds. Each of these takes one free page for its page table.
\<close>

definition tables :: "mem \<Rightarrow> uint \<Rightarrow> nat set" where
  "tables m pd = {unat (PDX x) | x. present (pde m pd x)}"

definition new_tables :: "mem \<Rightarrow> uint \<Rightarrow> nat \<Rightarrow> nat \<Rightarrow> nat set" where
  "new_tables m pd lo hi = (\<lambda>q. q div 1024) ` {lo..<hi} - tables m pd"

lemma tables_iff: "unat (PDX x) \<in> tables m pd \<longleftrightarrow> present (pde m pd x)"
proof
  assume "unat (PDX x) \<in> tables m pd"
  then obtain y where "PDX y = PDX x" "present (pde m pd y)" by (auto simp: tables_def word_unat_eq_iff)
  then show "present (pde m pd x)" by (simp add: pde_def)
qed (auto simp: tables_def)

lemma card_new_tables_Suc:
  assumes "vpn x = hi" "lo \<le> hi"
  shows "card (new_tables m pd lo (Suc hi)) =
    card (new_tables m pd lo hi) + (if unat (PDX x) \<in> tables m pd \<union> (\<lambda>q. q div 1024) ` {lo..<hi} then 0 else 1)"
proof -
  have "{lo..<Suc hi} = insert hi {lo..<hi}" using assms(2) by auto
  moreover have "unat (PDX x) = hi div 1024" by (simp add: unat_PDX assms(1))
  ultimately show ?thesis by (auto simp: new_tables_def insert_Diff_if insert_absorb)
qed

lemma vpn_next: "unat a + 4096 < 4294967296 \<Longrightarrow> vpn (a + PGSIZE) = Suc (vpn a)"
  by (simp add: vpn_def unat_add_no_wrap)

lemma vpn_add: "unat a + 4096 * j < 4294967296 \<Longrightarrow> vpn (a + of_nat j * PGSIZE) = vpn a + j"
  by (subst vpn_def, subst unat_add_no_wrap) (simp_all add: vpn_def unat_word_ariths unat_of_nat)

definition mapped_range :: "uint \<Rightarrow> nat \<Rightarrow> uint \<Rightarrow> uint \<Rightarrow> (uint \<Rightarrow> uint option) \<Rightarrow> uint \<Rightarrow> uint option" where
  "mapped_range a k pa perm f x = (if vpn a \<le> vpn x \<and> vpn x < vpn a + k
     then Some ((pa + of_nat (vpn x - vpn a) * PGSIZE) OR perm OR PTE_P) else f x)"

lemma mapped_range_Suc: "mapped_range a (Suc j) pa perm f =
  (\<lambda>x. if vpn x = vpn a + j then Some ((pa + of_nat j * PGSIZE) OR perm OR PTE_P) else mapped_range a j pa perm f x)"
  by (auto simp: mapped_range_def fun_eq_iff)

text \<open>One page of the loop, and the pages before the one where it stops.\<close>

lemma mappages_step:
  assumes "as_ok kend s pd ps" "present (pde (kmem_mem s) pd a) \<or> ps \<noteq> []" "xlate (kmem_mem s) pd a = None"
  shows "\<exists>s'. mappages_loop pd perm 0 a pa s = Ret (True, s') \<and>
    (\<forall>k. mappages_loop pd perm (Suc k) a pa s = mappages_loop pd perm k (a + PGSIZE) (pa + PGSIZE) s') \<and>
    as_ok kend s' pd (drop (if unat (PDX a) \<in> tables (kmem_mem s) pd then 0 else 1) ps) \<and>
    xlate (kmem_mem s') pd = (\<lambda>x. if vpn x = vpn a then Some (pa OR perm OR PTE_P) else xlate (kmem_mem s) pd x) \<and>
    tables (kmem_mem s') pd = insert (vpn a div 1024) (tables (kmem_mem s) pd)"
proof -
  obtain p t where p: "walkpgdir pd a True s = Ret (Some p, t)" "\<not> present (load32 (kmem_mem t) p)"
    and s': "as_ok kend (poke p (pa OR perm OR PTE_P) t) pd (drop (if present (pde (kmem_mem s) pd a) then 0 else 1) ps)"
      "xlate (kmem_mem (poke p (pa OR perm OR PTE_P) t)) pd = (\<lambda>x. if vpn x = vpn a then Some (pa OR perm OR PTE_P) else xlate (kmem_mem s) pd x)"
      "\<And>x. present (pde (kmem_mem (poke p (pa OR perm OR PTE_P) t)) pd x) \<longleftrightarrow> present (pde (kmem_mem s) pd x) \<or> PDX x = PDX a"
    using map_page [OF assms, of pa perm] by blast
  have "tables (kmem_mem (poke p (pa OR perm OR PTE_P) t)) pd = insert (vpn a div 1024) (tables (kmem_mem s) pd)"
    unfolding tables_def s'(3) unat_PDX [symmetric] by auto
  with p s'(1,2) show ?thesis
    by (intro exI [of _ "poke p (pa OR perm OR PTE_P) t"]) (simp only: mappages_loop.simps kbind.simps tables_iff prod.case option.case if_False HOL.simp_thms, blast?)
qed

lemma mappages_prefix:
  assumes "as_ok kend s pd ps" "unat a + 4096 * k < 4294967296"
  shows "j \<le> k \<Longrightarrow> (\<And>x. vpn a \<le> vpn x \<Longrightarrow> vpn x < vpn a + j \<Longrightarrow> xlate (kmem_mem s) pd x = None) \<Longrightarrow>
    card (new_tables (kmem_mem s) pd (vpn a) (vpn a + j)) \<le> length ps \<Longrightarrow>
    \<exists>s'. mappages_loop pd perm k a pa s = mappages_loop pd perm (k - j) (a + of_nat j * PGSIZE) (pa + of_nat j * PGSIZE) s' \<and>
      as_ok kend s' pd (drop (card (new_tables (kmem_mem s) pd (vpn a) (vpn a + j))) ps) \<and>
      xlate (kmem_mem s') pd = mapped_range a j pa perm (xlate (kmem_mem s) pd) \<and>
      tables (kmem_mem s') pd = tables (kmem_mem s) pd \<union> (\<lambda>q. q div 1024) ` {vpn a..<vpn a + j}"
proof (induction j)
  case 0
  then show ?case using assms(1) by (intro exI [of _ s]) (auto simp: new_tables_def mapped_range_def fun_eq_iff)
next
  case (Suc j)
  let ?a = "a + of_nat j * PGSIZE" and ?pa = "pa + of_nat j * PGSIZE" and ?c = "card (new_tables (kmem_mem s) pd (vpn a) (vpn a + j))"
  have v: "vpn ?a = vpn a + j" using Suc.prems(1) assms(2) by (intro vpn_add) simp
  note c = card_new_tables_Suc [OF v le_add1, of "kmem_mem s" pd]
  obtain t where t: "mappages_loop pd perm k a pa s = mappages_loop pd perm (k - j) ?a ?pa t" "as_ok kend t pd (drop ?c ps)"
    "xlate (kmem_mem t) pd = mapped_range a j pa perm (xlate (kmem_mem s) pd)"
    "tables (kmem_mem t) pd = tables (kmem_mem s) pd \<union> (\<lambda>q. q div 1024) ` {vpn a..<vpn a + j}"
    using Suc.IH Suc.prems c by (auto simp: less_Suc_eq)
  have "present (pde (kmem_mem t) pd ?a) \<or> drop ?c ps \<noteq> []"
    using Suc.prems(3) c unfolding tables_iff [symmetric] t(4) by (auto split: if_splits)
  moreover have "xlate (kmem_mem t) pd ?a = None" using Suc.prems(2) [of ?a] v by (simp add: t(3) mapped_range_def)
  ultimately obtain s' where s': "\<And>k. mappages_loop pd perm (Suc k) ?a ?pa t = mappages_loop pd perm k (?a + PGSIZE) (?pa + PGSIZE) s'"
    "as_ok kend s' pd (drop (if unat (PDX ?a) \<in> tables (kmem_mem t) pd then 0 else 1) (drop ?c ps))"
    "xlate (kmem_mem s') pd = (\<lambda>x. if vpn x = vpn ?a then Some (?pa OR perm OR PTE_P) else xlate (kmem_mem t) pd x)"
    "tables (kmem_mem s') pd = insert (vpn ?a div 1024) (tables (kmem_mem t) pd)"
    using mappages_step [OF t(2), of ?a perm ?pa] by blast
  have k: "k - j = Suc (k - Suc j)" using Suc.prems(1) by simp
  have "card (new_tables (kmem_mem s) pd (vpn a) (vpn a + Suc j)) = (if unat (PDX ?a) \<in> tables (kmem_mem t) pd then 0 else 1) + ?c"
    using c by (simp add: t(4))
  moreover have "{vpn a..<vpn a + Suc j} = insert (vpn a + j) {vpn a..<vpn a + j}" by auto
  ultimately show ?case using t(1) s'(2-4) unfolding k s'(1) v mapped_range_Suc t(3,4)
    by (intro exI [of _ s']) (simp add: algebra_simps)
qed

lemma vpn_down: "vpn (PGROUNDDOWN va) = vpn va" "unat (PGROUNDDOWN va) = 4096 * vpn va"
proof -
  have "PGROUNDDOWN va = va - take_bit 12 va" using page_ofs [of va] by (simp add: algebra_simps)
  moreover have "unat (take_bit 12 va) = unat va mod 4096" by (simp only: unsigned_take_bit_eq) (simp add: take_bit_eq_mod)
  ultimately have "unat (PGROUNDDOWN va) = unat va - unat va mod 4096" by (simp add: unat_sub_if_32)
  then show "unat (PGROUNDDOWN va) = 4096 * vpn va" by (simp add: vpn_def minus_mod_eq_mult_div)
  then show "vpn (PGROUNDDOWN va) = vpn va" by (simp add: vpn_def)
qed

lemma last_byte:
  assumes "0 < n" "unat va + unat n \<le> 4294967296"
  shows "unat (va + n - 1) = unat va + (unat n - 1)" "vpn va \<le> vpn (va + n - 1)"
proof -
  have "0 < unat n" using assms(1) by (simp add: word_less_nat_alt)
  then have "unat (n - 1) = unat n - 1" by (simp add: unat_sub_if_32)
  then have "unat (va + (n - 1)) = unat va + (unat n - 1)" using assms(2) \<open>0 < unat n\<close> by (subst unat_add_no_wrap) simp_all
  then show e: "unat (va + n - 1) = unat va + (unat n - 1)" by (simp add: algebra_simps)
  then show "vpn va \<le> vpn (va + n - 1)" by (simp add: vpn_def div_le_mono)
qed

lemma mappages_pages:
  assumes "0 < n" "unat va + unat n \<le> 4294967296"
  shows "mappages pd va n pa perm s = mappages_loop pd perm (vpn (va + n - 1) - vpn va) (PGROUNDDOWN va) pa s"
    "unat (PGROUNDDOWN va) + 4096 * (vpn (va + n - 1) - vpn va) < 4294967296"
proof -
  note le = last_byte(2) [OF assms]
  then show "mappages pd va n pa perm s = mappages_loop pd perm (vpn (va + n - 1) - vpn va) (PGROUNDDOWN va) pa s"
    by (simp add: mappages_def Let_def unat_sub_if_32 vpn_down diff_mult_distrib2 [symmetric])
  have "4096 * vpn (va + n - 1) \<le> unat (va + n - 1)" by (simp add: vpn_def)
  then show "unat (PGROUNDDOWN va) + 4096 * (vpn (va + n - 1) - vpn va) < 4294967296"
    using le unat_less_32 [of "va + n - 1"] by (simp add: vpn_down diff_mult_distrib2 del: unat_less_32)
qed

lemma xlate_same_page: "vpn x = vpn a \<Longrightarrow> xlate m pd x = xlate m pd a"
  using page_eq [of x a] by (simp add: xlate_def pde_def pte_def ptab_def)

text \<open>The three ways in which \<^verbatim>\<open>mappages\<close> ends.\<close>

lemma mappages_until:
  assumes "as_ok kend s pd ps" "0 < n" "unat va + unat n \<le> 4294967296" "lo = vpn va" "hi = vpn (va + n - 1)"
    "lo \<le> q" "q \<le> hi" "\<forall>x. lo \<le> vpn x \<and> vpn x < q \<longrightarrow> xlate (kmem_mem s) pd x = None"
    "card (new_tables (kmem_mem s) pd lo q) \<le> length ps"
  shows "\<exists>s' a pa'. mappages pd va n pa perm s = mappages_loop pd perm (hi - q) a pa' s' \<and> vpn a = q \<and> pa' = pa + of_nat (q - lo) * PGSIZE \<and>
      as_ok kend s' pd (drop (card (new_tables (kmem_mem s) pd lo q)) ps) \<and>
      (\<forall>x. xlate (kmem_mem s') pd x = (if lo \<le> vpn x \<and> vpn x < q
         then Some ((pa + of_nat (vpn x - lo) * PGSIZE) OR perm OR PTE_P) else xlate (kmem_mem s) pd x)) \<and>
      tables (kmem_mem s') pd = tables (kmem_mem s) pd \<union> (\<lambda>q. q div 1024) ` {lo..<q}"
proof -
  note m = mappages_pages [OF assms(2,3), folded assms(4,5)] and d = vpn_down(1) [of va, folded assms(4)]
  have q: "lo + (q - lo) = q" "hi - lo - (q - lo) = hi - q" "q - lo \<le> hi - lo" using assms(6,7) by simp_all
  have "vpn (PGROUNDDOWN va + of_nat (q - lo) * PGSIZE) = q" using m(2) q(1,3) d vpn_add [of "PGROUNDDOWN va" "q - lo"] by simp
  moreover note mappages_prefix [OF assms(1) m(2) q(3), unfolded d q mapped_range_def fun_eq_iff, of perm pa]
  ultimately show ?thesis unfolding m(1) using assms(8,9) by blast
qed

lemma mappages_all:
  assumes "as_ok kend s pd ps" "0 < n" "unat va + unat n \<le> 4294967296" "lo = vpn va" "hi = vpn (va + n - 1)"
    "\<forall>x. lo \<le> vpn x \<and> vpn x \<le> hi \<longrightarrow> xlate (kmem_mem s) pd x = None" "card (new_tables (kmem_mem s) pd lo (Suc hi)) \<le> length ps"
  shows "\<exists>s'. mappages pd va n pa perm s = Ret (True, s') \<and> as_ok kend s' pd (drop (card (new_tables (kmem_mem s) pd lo (Suc hi))) ps) \<and>
        (\<forall>x. xlate (kmem_mem s') pd x = (if lo \<le> vpn x \<and> vpn x \<le> hi
           then Some ((pa + of_nat (vpn x - lo) * PGSIZE) OR perm OR PTE_P) else xlate (kmem_mem s) pd x))"
proof -
  have le: "lo \<le> hi" using last_byte(2) [OF assms(2,3)] assms(4,5) by simp
  let ?c = "card (new_tables (kmem_mem s) pd lo hi)"
  have "?c \<le> length ps" using assms(7) card_new_tables_Suc [OF assms(5) [symmetric] le, of "kmem_mem s" pd] by simp
  then obtain t a pa' where t: "mappages pd va n pa perm s = mappages_loop pd perm 0 a pa' t" and v: "vpn a = hi" and pa': "pa' = pa + of_nat (hi - lo) * PGSIZE"
    and u: "as_ok kend t pd (drop ?c ps)" and x: "\<And>x. xlate (kmem_mem t) pd x = (if lo \<le> vpn x \<and> vpn x < hi
         then Some ((pa + of_nat (vpn x - lo) * PGSIZE) OR perm OR PTE_P) else xlate (kmem_mem s) pd x)"
    and T: "tables (kmem_mem t) pd = tables (kmem_mem s) pd \<union> (\<lambda>q. q div 1024) ` {lo..<hi}"
    using mappages_until [OF assms(1-5) le order_refl, of pa perm, unfolded diff_self_eq_0] assms(6) order.strict_implies_order by blast
  note c = card_new_tables_Suc [OF v le, of "kmem_mem s" pd, folded T]
  have "present (pde (kmem_mem t) pd a) \<or> drop ?c ps \<noteq> []" using assms(7) c unfolding tables_iff [symmetric] by (auto split: if_splits)
  moreover have "xlate (kmem_mem t) pd a = None" using assms(6) v le by (simp add: x)
  ultimately obtain s' where "mappages_loop pd perm 0 a pa' t = Ret (True, s')"
    "as_ok kend s' pd (drop (if unat (PDX a) \<in> tables (kmem_mem t) pd then 0 else 1) (drop ?c ps))"
    "xlate (kmem_mem s') pd = (\<lambda>x. if vpn x = vpn a then Some (pa' OR perm OR PTE_P) else xlate (kmem_mem t) pd x)"
    using mappages_step [OF u, of a perm pa'] by blast
  then show ?thesis using le by (intro exI [of _ s']) (auto simp: t c x v pa' add.commute)
qed

lemma mappages_remap:
  assumes "as_ok kend s pd ps" "0 < n" "unat va + unat n \<le> 4294967296" "lo = vpn va" "hi = vpn (va + n - 1)"
    "lo \<le> vpn y" "vpn y \<le> hi" "xlate (kmem_mem s) pd y \<noteq> None" "\<forall>x. lo \<le> vpn x \<and> vpn x < vpn y \<longrightarrow> xlate (kmem_mem s) pd x = None"
    "card (new_tables (kmem_mem s) pd lo (vpn y)) \<le> length ps"
  shows "mappages pd va n pa perm s = Panic ''remap''"
proof -
  obtain t a pa' where t: "mappages pd va n pa perm s = mappages_loop pd perm (hi - vpn y) a pa' t" and v: "vpn a = vpn y"
    and x: "\<And>x. xlate (kmem_mem t) pd x = (if lo \<le> vpn x \<and> vpn x < vpn y
         then Some ((pa + of_nat (vpn x - lo) * PGSIZE) OR perm OR PTE_P) else xlate (kmem_mem s) pd x)"
    using mappages_until [OF assms(1-7,9,10), of pa perm] by blast
  have "xlate (kmem_mem t) pd a \<noteq> None" using assms(8) x [of y] unfolding xlate_same_page [OF v] by simp
  then obtain p where "walkpgdir pd a True t = Ret (Some p, t)" "present (load32 (kmem_mem t) p)" using walk_mapped by blast
  then show ?thesis unfolding t by (cases "hi - vpn y") simp_all
qed

lemma mappages_no_memory:
  assumes "as_ok kend s pd ps" "0 < n" "unat va + unat n \<le> 4294967296" "lo = vpn va" "hi = vpn (va + n - 1)"
    "lo \<le> q" "q \<le> hi" "\<forall>x. lo \<le> vpn x \<and> vpn x < q \<longrightarrow> xlate (kmem_mem s) pd x = None"
    "card (new_tables (kmem_mem s) pd lo q) \<le> length ps" "length ps < card (new_tables (kmem_mem s) pd lo (Suc q))"
  shows "\<exists>s'. mappages pd va n pa perm s = Ret (False, s') \<and> as_ok kend s' pd [] \<and>
        (\<forall>x. xlate (kmem_mem s') pd x = (if lo \<le> vpn x \<and> vpn x < q
           then Some ((pa + of_nat (vpn x - lo) * PGSIZE) OR perm OR PTE_P) else xlate (kmem_mem s) pd x))"
proof -
  let ?c = "card (new_tables (kmem_mem s) pd lo q)"
  obtain t a pa' where t: "mappages pd va n pa perm s = mappages_loop pd perm (hi - q) a pa' t" and v: "vpn a = q"
    and u: "as_ok kend t pd (drop ?c ps)" and x: "\<forall>x. xlate (kmem_mem t) pd x = (if lo \<le> vpn x \<and> vpn x < q
         then Some ((pa + of_nat (vpn x - lo) * PGSIZE) OR perm OR PTE_P) else xlate (kmem_mem s) pd x)"
    and T: "tables (kmem_mem t) pd = tables (kmem_mem s) pd \<union> (\<lambda>q. q div 1024) ` {lo..<q}"
    using mappages_until [OF assms(1-9), of pa perm] by blast
  note c = card_new_tables_Suc [OF v assms(6), of "kmem_mem s" pd, folded T]
  have n: "unat (PDX a) \<notin> tables (kmem_mem t) pd" "?c = length ps" using assms(9,10) c by (auto split: if_splits)
  then have o: "as_ok kend t pd []" using u by simp
  then have "walkpgdir pd a True t = Ret (None, t)" using n(1) walk_no_memory unfolding tables_iff by blast
  then have "mappages pd va n pa perm s = Ret (False, t)" unfolding t by (cases "hi - q") simp_all
  then show ?thesis using o x by blast
qed

subsection \<open>Unmapping\<close>

abbreviation frame :: "uint \<Rightarrow> uint" where "frame e \<equiv> P2V (PTE_ADDR e)"

text \<open>The pages mapped in a range of page numbers are different pages in use, none a page of the tables.\<close>

definition frame_used :: "uint \<Rightarrow> kmem \<Rightarrow> uint \<Rightarrow> uint list \<Rightarrow> uint \<Rightarrow> bool" where
  "frame_used kend s pd ps e \<longleftrightarrow> PTE_ADDR e \<noteq> 0 \<and> page_ok kend (frame e) \<and> frame e \<notin> set ps \<and> frame e \<noteq> pd \<and>
     (\<forall>y. present (pde (kmem_mem s) pd y) \<longrightarrow> ptab (kmem_mem s) pd y \<noteq> frame e)"

definition frames_ok :: "uint \<Rightarrow> kmem \<Rightarrow> uint \<Rightarrow> uint list \<Rightarrow> nat \<Rightarrow> nat \<Rightarrow> bool" where
  "frames_ok kend s pd ps lo hi \<longleftrightarrow>
     (\<forall>x e. lo \<le> vpn x \<longrightarrow> vpn x < hi \<longrightarrow> xlate (kmem_mem s) pd x = Some e \<longrightarrow> frame_used kend s pd ps e) \<and>
     (\<forall>x y e e'. lo \<le> vpn x \<longrightarrow> vpn x < hi \<longrightarrow> xlate (kmem_mem s) pd x = Some e \<longrightarrow> lo \<le> vpn y \<longrightarrow> vpn y < hi \<longrightarrow>
        xlate (kmem_mem s) pd y = Some e' \<longrightarrow> frame e = frame e' \<longrightarrow> vpn x = vpn y)"

lemma frames_okD:
  assumes "frames_ok kend s pd ps lo hi" "lo \<le> vpn x" "vpn x < hi" "xlate (kmem_mem s) pd x = Some e"
  shows "frame_used kend s pd ps e" "lo \<le> vpn y \<Longrightarrow> vpn y < hi \<Longrightarrow> xlate (kmem_mem s) pd y = Some e' \<Longrightarrow> frame e = frame e' \<Longrightarrow> vpn x = vpn y"
  using assms unfolding frames_ok_def by blast+

definition frames :: "(uint \<Rightarrow> uint option) \<Rightarrow> nat \<Rightarrow> nat \<Rightarrow> uint set" where
  "frames f lo hi = {frame e | x e. lo \<le> vpn x \<and> vpn x < hi \<and> f x = Some e}"

definition unmapped :: "nat \<Rightarrow> nat \<Rightarrow> (uint \<Rightarrow> uint option) \<Rightarrow> uint \<Rightarrow> uint option" where
  "unmapped lo hi f x = (if lo \<le> vpn x \<and> vpn x < hi then None else f x)"

lemma frames_ok_mono: "frames_ok kend s pd ps lo hi \<Longrightarrow> lo \<le> lo' \<Longrightarrow> frames_ok kend s pd ps lo' hi"
  unfolding frames_ok_def by (meson order_trans)

lemma kfree_frame:
  assumes "as_ok kend s pd ps" "page_ok kend v" "v \<notin> set ps" "v \<noteq> pd"
    "\<And>x. present (pde (kmem_mem s) pd x) \<Longrightarrow> ptab (kmem_mem s) pd x \<noteq> v"
  shows "\<exists>s'. kfree kend v s = Ret s' \<and> as_ok kend s' pd (v # ps) \<and>
    (\<forall>x. pde (kmem_mem s') pd x = pde (kmem_mem s) pd x \<and> xlate (kmem_mem s') pd x = xlate (kmem_mem s) pd x)"
proof -
  obtain s' where s': "kfree kend v s = Ret s'" "kmem_inv kend s' (v # ps)" "\<And>a. \<not> in_block v 4096 a \<Longrightarrow> kmem_mem s' a = kmem_mem s a"
    using kfree_Cons [OF _ assms(2,3), of s] assms(1) unfolding as_ok_def by blast
  have d: "pde (kmem_mem s') pd x = pde (kmem_mem s) pd x" "xlate (kmem_mem s') pd x = xlate (kmem_mem s) pd x" for x
    using as_ok_frame [OF assms(1,2,4) _ s'(3)] assms(5) by blast+
  have t: "ptab (kmem_mem s') pd x = ptab (kmem_mem s) pd x" for x by (simp add: ptab_def d)
  have "as_ok kend s' pd (v # ps)"
  proof (rule as_okI [OF s'(2) refl as_okD(2) [OF assms(1)]])
    show "pd \<notin> set (v # ps)" using as_okD(3) [OF assms(1)] assms(4) by simp
    show "page_ok kend (ptab (kmem_mem s') pd x) \<and> ptab (kmem_mem s') pd x \<notin> set (v # ps) \<and> ptab (kmem_mem s') pd x \<noteq> pd"
      if "present (pde (kmem_mem s') pd x)" for x
      using as_okD(4) [OF assms(1), of x] assms(5) [of x] that unfolding d t by simp
    show "PDX x = PDX y" if "present (pde (kmem_mem s') pd x)" "present (pde (kmem_mem s') pd y)" "ptab (kmem_mem s') pd x = ptab (kmem_mem s') pd y" for x y
      using as_okD(5) [OF assms(1)] that unfolding d t by blast
  qed
  with s'(1) d show ?thesis by blast
qed

lemma unmap_page:
  assumes "as_ok kend s pd ps" "frames_ok kend s pd ps (vpn a) hi" "vpn a < hi" "xlate (kmem_mem s) pd a = Some e"
  defines "p \<equiv> ptab (kmem_mem s) pd a + 4 * PTX a"
  shows "\<exists>s'. kfree kend (frame e) s = Ret s' \<and> as_ok kend (poke p 0 s') pd (frame e # ps) \<and>
    frames_ok kend (poke p 0 s') pd (frame e # ps) (Suc (vpn a)) hi \<and>
    xlate (kmem_mem (poke p 0 s')) pd = unmapped (vpn a) (Suc (vpn a)) (xlate (kmem_mem s) pd)"
proof -
  have f: "PTE_ADDR e \<noteq> 0" "page_ok kend (frame e)" "frame e \<notin> set ps" "frame e \<noteq> pd"
    "\<And>x. present (pde (kmem_mem s) pd x) \<Longrightarrow> ptab (kmem_mem s) pd x \<noteq> frame e"
    using frames_okD(1) [OF assms(2) order_refl assms(3,4)] unfolding frame_used_def by blast+
  obtain s' where s': "kfree kend (frame e) s = Ret s'" "as_ok kend s' pd (frame e # ps)"
    "\<And>x. pde (kmem_mem s') pd x = pde (kmem_mem s) pd x" "\<And>x. xlate (kmem_mem s') pd x = xlate (kmem_mem s) pd x"
    using kfree_frame [OF assms(1) f(2-5)] by blast
  have t: "ptab (kmem_mem s') pd x = ptab (kmem_mem s) pd x" for x by (simp add: ptab_def s'(3))
  have "present (pde (kmem_mem s') pd a)" using assms(4) by (simp add: xlate_def s'(3) split: if_splits)
  note w = set_pte [OF s'(2) this, of 0, unfolded t, folded p_def]
  let ?s = "poke p 0 s'"
  have x: "xlate (kmem_mem ?s) pd = unmapped (vpn a) (Suc (vpn a)) (xlate (kmem_mem s) pd)"
    by (rule ext) (simp add: w(3) s'(4) unmapped_def le_less_Suc_eq eq_commute)
  have d: "pde (kmem_mem ?s) pd y = pde (kmem_mem s) pd y" for y using w(2) s'(3) by simp
  have o: "xlate (kmem_mem s) pd z = Some g" if "xlate (kmem_mem ?s) pd z = Some g" for z g
    using that unfolding x by (simp add: unmapped_def split: if_splits)
  have "frame_used kend ?s pd (frame e # ps) g" if z: "Suc (vpn a) \<le> vpn z" "vpn z < hi" "xlate (kmem_mem ?s) pd z = Some g" for z g
    using frames_okD(1) [OF assms(2) _ z(2) o [OF z(3)]] frames_okD(2) [OF assms(2) _ z(2) o [OF z(3)], of a e] z(1) assms(3,4)
    unfolding frame_used_def ptab_def d by auto
  moreover have "vpn y = vpn z" if "Suc (vpn a) \<le> vpn y" "vpn y < hi" "xlate (kmem_mem ?s) pd y = Some g"
    "Suc (vpn a) \<le> vpn z" "vpn z < hi" "xlate (kmem_mem ?s) pd z = Some g'" "frame g = frame g'" for y z g g'
    using frames_okD(2) [OF assms(2) _ that(2) o [OF that(3)] _ that(5) o [OF that(6)] that(7)] that(1,4) by linarith
  ultimately have "frames_ok kend ?s pd (frame e # ps) (Suc (vpn a)) hi" unfolding frames_ok_def by blast
  with s'(1) w(1) x show ?thesis by blast
qed

text \<open>The start of the next page table's range.\<close>

lemma next_table:
  assumes "unat a < 0x80000000"
  defines "b \<equiv> PGADDR (PDX a + 1) 0 0"
  shows "vpn a < vpn b" "unat b = 4096 * vpn b" "\<And>x. vpn a \<le> vpn x \<Longrightarrow> vpn x < vpn b \<Longrightarrow> PDX x = PDX a" "a < b"
proof -
  have u: "unat (PDX a) < 512" using assms(1) by (simp add: unat_PDX vpn_def)
  then have "unat (PDX a + 1) = unat (PDX a) + 1" by (subst unat_add_no_wrap) simp_all
  then have "unat b = (unat (PDX a) + 1) * 4194304" using u
    by (simp add: b_def PGADDR_def push_bit_eq_mult unat_word_ariths)
  then have b: "unat b = 4096 * (1024 * (vpn a div 1024 + 1))" by (simp add: unat_PDX)
  then have v: "vpn b = 1024 * (vpn a div 1024 + 1)" by (simp add: vpn_def)
  show "vpn a < vpn b" unfolding v by simp
  show "unat b = 4096 * vpn b" using b v by simp
  show "PDX x = PDX a" if "vpn a \<le> vpn x" "vpn x < vpn b" for x
    using div_le_mono [OF that(1), of 1024] less_mult_imp_div_less [of "vpn x" "vpn a div 1024 + 1" 1024] that(2)
    unfolding PDX_eq v by (simp add: mult.commute)
  show "a < b" using \<open>vpn a < vpn b\<close> unfolding word_less_nat_alt vpn_def by (meson div_le_mono not_le)
qed

lemma skip_pages:
  assumes "\<And>x. lo \<le> vpn x \<Longrightarrow> vpn x < mid \<Longrightarrow> f x = None" "lo \<le> mid"
  shows "frames f lo hi = frames f mid hi" "unmapped lo hi f = unmapped mid hi f"
proof -
  have "lo \<le> vpn x \<Longrightarrow> f x = Some e \<Longrightarrow> mid \<le> vpn x" for x e using assms(1) [of x] by (cases "vpn x < mid") auto
  then show "frames f lo hi = frames f mid hi" unfolding frames_def using assms(2) by (meson order_trans)
  show "unmapped lo hi f = unmapped mid hi f"
    using assms by (auto simp: unmapped_def fun_eq_iff not_le intro: order_trans)
qed

lemma free_page:
  assumes "f a = Some e" "\<And>x. vpn x = vpn a \<Longrightarrow> f x = f a" "vpn a < hi"
  defines "g \<equiv> unmapped (vpn a) (Suc (vpn a)) f"
  shows "frames f (vpn a) hi = insert (frame e) (frames g (Suc (vpn a)) hi)" "unmapped (Suc (vpn a)) hi g = unmapped (vpn a) hi f"
proof -
  have g: "g x = f x" if "vpn x \<noteq> vpn a" for x using that by (auto simp: g_def unmapped_def)
  show "frames f (vpn a) hi = insert (frame e) (frames g (Suc (vpn a)) hi)"
  proof (intro equalityI subsetI)
    fix p assume "p \<in> frames f (vpn a) hi"
    then obtain x d where x: "p = frame d" "vpn a \<le> vpn x" "vpn x < hi" "f x = Some d" by (auto simp: frames_def)
    then show "p \<in> insert (frame e) (frames g (Suc (vpn a)) hi)"
      using assms(1) assms(2) [of x] g [of x] by (cases "vpn x = vpn a") (auto simp: frames_def Suc_le_eq)
  next
    fix p assume "p \<in> insert (frame e) (frames g (Suc (vpn a)) hi)"
    then show "p \<in> frames f (vpn a) hi"
      using assms(1,3) g by (auto simp: frames_def) (metis Suc_le_eq less_imp_le less_irrefl)
  qed
  show "unmapped (Suc (vpn a)) hi g = unmapped (vpn a) hi f"
    using g assms(3) by (auto simp: unmapped_def fun_eq_iff g_def)
qed

lemma page_step:
  assumes "unat a = 4096 * vpn a" "unat a < 0x80000000"
  shows "vpn (a + PGSIZE) = Suc (vpn a)" "unat (a + PGSIZE) = 4096 * vpn (a + PGSIZE)" "a < a + PGSIZE"
proof -
  have u: "unat (a + PGSIZE) = unat a + 4096" using assms(2) by (subst unat_add_no_wrap) simp_all
  then show "a < a + PGSIZE" by (simp add: word_less_nat_alt)
  show "vpn (a + PGSIZE) = Suc (vpn a)" by (simp add: vpn_def u)
  then show "unat (a + PGSIZE) = 4096 * vpn (a + PGSIZE)" using assms(1) u by simp
qed

lemma dealloc_step:
  fixes s :: kmem
  assumes "as_ok kend s pd ps" "frames_ok kend s pd ps (vpn a) hi" "unat a = 4096 * vpn a" "vpn a < hi" "a < oldsz" "oldsz \<le> KERNBASE"
  shows "\<exists>b s1 gs. deallocuvm_loop kend pd oldsz a s = deallocuvm_loop kend pd oldsz b s1 \<and> vpn a < vpn b \<and> unat b = 4096 * vpn b \<and>
    as_ok kend s1 pd (gs @ ps) \<and> frames_ok kend s1 pd (gs @ ps) (vpn b) hi \<and>
    frames (xlate (kmem_mem s) pd) (vpn a) hi = set gs \<union> frames (xlate (kmem_mem s1) pd) (vpn b) hi \<and>
    unmapped (vpn b) hi (xlate (kmem_mem s1) pd) = unmapped (vpn a) hi (xlate (kmem_mem s) pd)"
proof -
  have a: "unat a < 0x80000000" using assms(5,6) by (simp add: word_less_nat_alt word_le_nat_alt)
  note n = page_step [OF assms(3) a] and t = next_table [OF a]
  have skip: ?thesis if b: "deallocuvm_loop kend pd oldsz a s = deallocuvm_loop kend pd oldsz b s" "vpn a < vpn b" "unat b = 4096 * vpn b"
    "\<And>x. vpn a \<le> vpn x \<Longrightarrow> vpn x < vpn b \<Longrightarrow> xlate (kmem_mem s) pd x = None" for b
    using b(1-3) assms(1) frames_ok_mono [OF assms(2), of "vpn b"] skip_pages [of "vpn a" "vpn b" "xlate (kmem_mem s) pd" hi, OF b(4)]
    by (intro exI [of _ b] exI [of _ s] exI [of _ "[]"]) simp
  consider "\<not> present (pde (kmem_mem s) pd a)" | "present (pde (kmem_mem s) pd a)" "\<not> present (pte (kmem_mem s) pd a)"
    | e where "present (pde (kmem_mem s) pd a)" "present (pte (kmem_mem s) pd a)" "xlate (kmem_mem s) pd a = Some e" "e = pte (kmem_mem s) pd a"
    by (auto simp: xlate_def)
  then show ?thesis
  proof cases
    case 1
    then have "walkpgdir pd a False s = Ret (None, s)" by (simp add: walkpgdir_def Let_def pde_def)
    then have "deallocuvm_loop kend pd oldsz a s = deallocuvm_loop kend pd oldsz (PGADDR (PDX a + 1) 0 0) s"
      using assms(5) by (subst deallocuvm_loop.simps) (simp add: dealloc_page_def)
    moreover have "xlate (kmem_mem s) pd x = None" if "vpn a \<le> vpn x" "vpn x < vpn (PGADDR (PDX a + 1) 0 0)" for x
      using t(3) [OF that] 1 by (simp add: xlate_def pde_def)
    ultimately show ?thesis using t(1,2) by (intro skip)
  next
    case 2
    then have "walkpgdir pd a False s = Ret (Some (ptab (kmem_mem s) pd a + 4 * PTX a), s)"
      by (simp add: walkpgdir_def Let_def pde_def ptab_def)
    then have "deallocuvm_loop kend pd oldsz a s = deallocuvm_loop kend pd oldsz (a + PGSIZE) s"
      using assms(5) 2(2) by (subst deallocuvm_loop.simps) (simp add: dealloc_page_def pte_def)
    moreover have "xlate (kmem_mem s) pd x = None" if "vpn a \<le> vpn x" "vpn x < vpn (a + PGSIZE)" for x
    proof -
      have "vpn x = vpn a" using that n(1) by simp
      then show ?thesis using xlate_same_page [of x a] 2(2) by (simp add: xlate_def)
    qed
    moreover have "vpn a < vpn (a + PGSIZE)" using n(1) by simp
    ultimately show ?thesis using n(2) by (intro skip)
  next
    case (3 e)
    let ?p = "ptab (kmem_mem s) pd a + 4 * PTX a"
    obtain s' where s': "kfree kend (frame e) s = Ret s'" "as_ok kend (poke ?p 0 s') pd (frame e # ps)"
      "frames_ok kend (poke ?p 0 s') pd (frame e # ps) (Suc (vpn a)) hi"
      "xlate (kmem_mem (poke ?p 0 s')) pd = unmapped (vpn a) (Suc (vpn a)) (xlate (kmem_mem s) pd)"
      using unmap_page [OF assms(1,2,4) 3(3)] by blast
    have "walkpgdir pd a False s = Ret (Some ?p, s)" using 3(1) by (simp add: walkpgdir_def Let_def pde_def ptab_def)
    moreover have "PTE_ADDR e \<noteq> 0" using frames_okD(1) [OF assms(2) _ assms(4) 3(3)] by (simp add: frame_used_def)
    ultimately have "deallocuvm_loop kend pd oldsz a s = deallocuvm_loop kend pd oldsz (a + PGSIZE) (poke ?p 0 s')"
      using assms(5) 3(2,4) s'(1) by (subst deallocuvm_loop.simps) (simp add: dealloc_page_def pte_def Let_def)
    moreover note free_page [of "xlate (kmem_mem s) pd" a e hi, OF 3(3) xlate_same_page assms(4)]
    ultimately show ?thesis using s'(2-4) n(1,2)
      by (intro exI [of _ "a + PGSIZE"] exI [of _ "poke ?p 0 s'"] exI [of _ "[frame e]"]) simp
  qed
qed

lemma dealloc_loop_spec:
  assumes "as_ok kend s pd ps" "frames_ok kend s pd ps (vpn a) hi" "unat a = 4096 * vpn a" "oldsz \<le> KERNBASE" "hi = (unat oldsz + 4095) div 4096"
  shows "\<exists>s' fs. deallocuvm_loop kend pd oldsz a s = Some (Ret s') \<and> as_ok kend s' pd (fs @ ps) \<and>
    set fs = frames (xlate (kmem_mem s) pd) (vpn a) hi \<and> xlate (kmem_mem s') pd = unmapped (vpn a) hi (xlate (kmem_mem s) pd)"
  using assms(1-3)
proof (induction "hi - vpn a" arbitrary: a s ps rule: less_induct)
  case less
  have lt: "a < oldsz \<longleftrightarrow> vpn a < hi" unfolding word_less_nat_alt less.prems(3) assms(5) by auto
  show ?case
  proof (cases "a < oldsz")
    case False
    then have "deallocuvm_loop kend pd oldsz a s = Some (Ret s)" by (simp add: deallocuvm_loop.simps)
    moreover have "hi \<le> vpn a" using False lt by simp
    ultimately show ?thesis using less.prems(1)
      by (intro exI [of _ s] exI [of _ "[]"]) (auto simp: frames_def unmapped_def fun_eq_iff)
  next
    case True
    then obtain b s1 gs where b: "deallocuvm_loop kend pd oldsz a s = deallocuvm_loop kend pd oldsz b s1" "vpn a < vpn b" "unat b = 4096 * vpn b"
      "as_ok kend s1 pd (gs @ ps)" "frames_ok kend s1 pd (gs @ ps) (vpn b) hi"
      "frames (xlate (kmem_mem s) pd) (vpn a) hi = set gs \<union> frames (xlate (kmem_mem s1) pd) (vpn b) hi"
      "unmapped (vpn b) hi (xlate (kmem_mem s1) pd) = unmapped (vpn a) hi (xlate (kmem_mem s) pd)"
      using dealloc_step [OF less.prems _ True assms(4)] lt by blast
    have "hi - vpn b < hi - vpn a" using b(2) True lt by linarith
    from less.hyps [OF this b(4,5,3)] obtain s' fs where "deallocuvm_loop kend pd oldsz b s1 = Some (Ret s')" "as_ok kend s' pd ((fs @ gs) @ ps)"
      "set fs = frames (xlate (kmem_mem s1) pd) (vpn b) hi" "xlate (kmem_mem s') pd = unmapped (vpn b) hi (xlate (kmem_mem s1) pd)"
      unfolding append_assoc by blast
    then show ?thesis using b(1,6,7) by (intro exI [of _ s'] exI [of _ "fs @ gs"]) auto
  qed
qed

lemma vpn_up:
  assumes "unat n + 4096 \<le> 4294967296"
  shows "vpn (PGROUNDUP n) = (unat n + 4095) div 4096" "unat (PGROUNDUP n) = 4096 * vpn (PGROUNDUP n)"
proof -
  have "PGROUNDUP n = PGROUNDDOWN (n + 4095)" by (simp add: PGROUNDUP_def PGROUNDDOWN_def add.commute)
  moreover have "unat (n + 4095) = unat n + 4095" using assms by (subst unat_add_no_wrap) simp_all
  ultimately show "vpn (PGROUNDUP n) = (unat n + 4095) div 4096" "unat (PGROUNDUP n) = 4096 * vpn (PGROUNDUP n)"
    using vpn_down [of "n + 4095"] by (simp_all add: vpn_def)
qed

text \<open>
  A directory at 0x80402000 with one table at 0x80403000, which maps page 1 to the physical page of
  0x80401000; one page is free.
\<close>

definition one_mapping :: kmem where
  "one_mapping = \<lparr>kmem_lock = False, use_lock = True, freelist = 0x80400000,
     kmem_mem = store32 (store32 (\<lambda>_. 0) (0x80402000 + 4 * 0) 0x403007) (0x80403000 + 4 * 1) 0x401007\<rparr>"

lemma load32_entry:
  assumes "unat i < 1024" "unat j < 1024"
  shows "load32 (store32 m (p + 4 * i) v) (p + 4 * j) = (if i = j then v else load32 m (p + 4 * j))"
  using assms load32_word_frame by auto

lemma one_mapping_pages: "page_ok 0x80115000 0x80400000" "page_ok 0x80115000 0x80401000" "page_ok 0x80115000 0x80402000" "page_ok 0x80115000 0x80403000"
  by (simp_all add: page_ok_def V2P_def)

lemma one_mapping_tables:
  "pde (kmem_mem one_mapping) 0x80402000 x = (if PDX x = 0 then 0x403007 else 0)"
  "PDX x = 0 \<Longrightarrow> ptab (kmem_mem one_mapping) 0x80402000 x = 0x80403000"
  "xlate (kmem_mem one_mapping) 0x80402000 x = (if vpn x = 1 then Some 0x401007 else None)"
proof -
  let ?m = "store32 (\<lambda>_. 0) (0x80402000 + 4 * 0) 0x403007 :: mem"
  have m: "kmem_mem one_mapping = store32 ?m (0x80403000 + 4 * 1) 0x401007" by (simp add: one_mapping_def)
  have z: "load32 (\<lambda>_. 0) a = 0" for a by (rule load32_zero) simp
  have f: "load32 ?m (0x80403000 + 4 * i) = 0" if "unat i < 1024" for i
    using load32_page_frame [where m = "\<lambda>_. 0" and m' = ?m, OF one_mapping_pages(4,3) _ _ that] store32_page [of 0 "0x80402000"] z by simp
  have "load32 (kmem_mem one_mapping) (0x80402000 + 4 * PDX x) = load32 ?m (0x80402000 + 4 * PDX x)"
    unfolding m by (rule load32_page_frame [OF one_mapping_pages(3,4) _ _ index_less(1)]) (simp, rule store32_page, simp_all)
  also have "\<dots> = (if PDX x = 0 then 0x403007 else 0)" using index_less(1) [of x] by (subst load32_entry) (auto simp: z)
  finally show d: "pde (kmem_mem one_mapping) 0x80402000 x = (if PDX x = 0 then 0x403007 else 0)" by (simp only: pde_def)
  show t: "PDX x = 0 \<Longrightarrow> ptab (kmem_mem one_mapping) 0x80402000 x = 0x80403000" by (simp add: ptab_def d PTE_ADDR_def P2V_def)
  have "load32 (kmem_mem one_mapping) (0x80403000 + 4 * PTX x) = (if PTX x = 1 then 0x401007 else 0)"
    unfolding m using index_less(2) [of x] f [OF index_less(2), of x] by (subst load32_entry) auto
  moreover have "vpn x = 1 \<longleftrightarrow> PDX x = 0 \<and> PTX x = 1"
    using page_eq [of x "0x1000"] by (simp add: PDX_def PTX_def vpn_def)
  ultimately show "xlate (kmem_mem one_mapping) 0x80402000 x = (if vpn x = 1 then Some 0x401007 else None)"
    using t by (auto simp: xlate_def pte_def d)
qed

lemma one_mapping_ok: "as_ok 0x80115000 one_mapping 0x80402000 [0x80400000]"
  "frames_ok 0x80115000 one_mapping 0x80402000 [0x80400000] 1 3"
proof -
  have "load32 (kmem_mem one_mapping) 0x80400000 = 0" by (simp add: one_mapping_def load32_def store32_def)
  then have "kmem_inv 0x80115000 one_mapping [0x80400000]" using one_mapping_pages(1) by (simp add: kmem_inv_def one_mapping_def)
  then show "as_ok 0x80115000 one_mapping 0x80402000 [0x80400000]"
    using one_mapping_pages by (intro as_okI [OF _ refl]) (auto simp: one_mapping_tables split: if_splits)
  show "frames_ok 0x80115000 one_mapping 0x80402000 [0x80400000] 1 3"
    using one_mapping_pages by (auto simp: frames_ok_def frame_used_def one_mapping_tables PTE_ADDR_def P2V_def split: if_splits)
qed

text \<open>
  C7. \<^verbatim>\<open>deallocuvm\<close> returns when the old size is at most \<^verbatim>\<open>KERNBASE\<close>: its loop ends although it jumps over
  absent page tables with wrapping arithmetic. The pages of the range are then unmapped and all others
  translate as before, and exactly the physical pages that were mapped in the range have become free.
\<close>

theorem deallocuvm_terminates:
  assumes "as_ok kend s pd ps" "oldsz \<le> KERNBASE" "newsz < oldsz"
    "lo = (unat newsz + 4095) div 4096" "hi = (unat oldsz + 4095) div 4096" "frames_ok kend s pd ps lo hi"
  shows "\<exists>s' fs. deallocuvm kend pd oldsz newsz s = Ret (newsz, s') \<and> as_ok kend s' pd (fs @ ps) \<and>
    set fs = {P2V (PTE_ADDR e) | x e. lo \<le> vpn x \<and> vpn x < hi \<and> xlate (kmem_mem s) pd x = Some e} \<and>
    (\<forall>x. xlate (kmem_mem s') pd x = (if lo \<le> vpn x \<and> vpn x < hi then None else xlate (kmem_mem s) pd x))"
proof -
  have "unat newsz + 4096 \<le> 4294967296" using assms(2,3) by (simp add: word_less_nat_alt word_le_nat_alt)
  from vpn_up [OF this] have v: "vpn (PGROUNDUP newsz) = lo" "unat (PGROUNDUP newsz) = 4096 * vpn (PGROUNDUP newsz)" by (simp_all add: assms(4))
  from dealloc_loop_spec [OF assms(1) _ v(2) assms(2,5), unfolded v(1), OF assms(6)]
  obtain s' fs where "deallocuvm_loop kend pd oldsz (PGROUNDUP newsz) s = Some (Ret s')" "as_ok kend s' pd (fs @ ps)"
    "set fs = frames (xlate (kmem_mem s) pd) lo hi" "xlate (kmem_mem s') pd = unmapped lo hi (xlate (kmem_mem s) pd)" by blast
  then show ?thesis using assms(3)
    by (intro exI [of _ s'] exI [of _ fs]) (auto simp: deallocuvm_def frames_def unmapped_def)
qed

theorem deallocuvm_terminates_witness:
  "\<exists>s' fs. deallocuvm 0x80115000 0x80402000 0x3000 0x1000 one_mapping = Ret (0x1000, s') \<and>
     as_ok 0x80115000 s' 0x80402000 (fs @ [0x80400000]) \<and> set fs = {0x80401000} \<and> xlate (kmem_mem s') 0x80402000 0x1234 = None"
proof -
  have e: "{P2V (PTE_ADDR e) | x e. 1 \<le> vpn x \<and> vpn x < 3 \<and> xlate (kmem_mem one_mapping) 0x80402000 x = Some e} = {0x80401000}"
    using exI [of "\<lambda>x. vpn x = 1" "0x1000"] by (auto simp: one_mapping_tables PTE_ADDR_def P2V_def vpn_def)
  have h: "(0x3000 :: uint) \<le> KERNBASE" "(0x1000 :: uint) < 0x3000" "1 = (unat (0x1000 :: uint) + 4095) div 4096"
    "3 = (unat (0x3000 :: uint) + 4095) div 4096" by simp_all
  obtain s' fs where d: "deallocuvm 0x80115000 0x80402000 0x3000 0x1000 one_mapping = Ret (0x1000, s')"
    "as_ok 0x80115000 s' 0x80402000 (fs @ [0x80400000])"
    "set fs = {P2V (PTE_ADDR e) | x e. 1 \<le> vpn x \<and> vpn x < 3 \<and> xlate (kmem_mem one_mapping) 0x80402000 x = Some e}"
    and x: "\<forall>x. xlate (kmem_mem s') 0x80402000 x = (if 1 \<le> vpn x \<and> vpn x < 3 then None else xlate (kmem_mem one_mapping) 0x80402000 x)"
    using deallocuvm_terminates [OF one_mapping_ok(1) h one_mapping_ok(2)] by blast
  have "xlate (kmem_mem s') 0x80402000 0x1234 = None" using x [rule_format, of "0x1234"] by (simp add: vpn_def)
  then show ?thesis using d(1,2) trans [OF d(3) e] by blast
qed

text \<open>
  C11. \<^verbatim>\<open>mappages\<close> works through the pages of its range and needs a free page for each page table that the range
  is missing. When no page of the range is mapped and there are enough free pages, it maps each page to the matching
  physical page with the given permissions, changes no other translation, and takes exactly one free page for each
  new table. It panics at any page of the range that is mapped already, when it gets there. It fails at the first
  page whose table cannot be allocated, with the pages before it mapped and no page left.
\<close>

theorem mappages_correct:
  assumes "as_ok kend s pd ps" "0 < n" "unat va + unat n \<le> 4294967296" "lo = vpn va" "hi = vpn (va + n - 1)"
  shows "((\<forall>x. lo \<le> vpn x \<and> vpn x \<le> hi \<longrightarrow> xlate (kmem_mem s) pd x = None) \<and>
      card (new_tables (kmem_mem s) pd lo (Suc hi)) \<le> length ps \<longrightarrow>
      (\<exists>s'. mappages pd va n pa perm s = Ret (True, s') \<and> as_ok kend s' pd (drop (card (new_tables (kmem_mem s) pd lo (Suc hi))) ps) \<and>
        (\<forall>x. xlate (kmem_mem s') pd x = (if lo \<le> vpn x \<and> vpn x \<le> hi
           then Some ((pa + of_nat (vpn x - lo) * PGSIZE) OR perm OR PTE_P) else xlate (kmem_mem s) pd x)))) \<and>
    (\<forall>y. lo \<le> vpn y \<and> vpn y \<le> hi \<and> xlate (kmem_mem s) pd y \<noteq> None \<and>
      (\<forall>x. lo \<le> vpn x \<and> vpn x < vpn y \<longrightarrow> xlate (kmem_mem s) pd x = None) \<and>
      card (new_tables (kmem_mem s) pd lo (vpn y)) \<le> length ps \<longrightarrow> mappages pd va n pa perm s = Panic ''remap'') \<and>
    (\<forall>q. lo \<le> q \<and> q \<le> hi \<and> (\<forall>x. lo \<le> vpn x \<and> vpn x < q \<longrightarrow> xlate (kmem_mem s) pd x = None) \<and>
      card (new_tables (kmem_mem s) pd lo q) \<le> length ps \<and> length ps < card (new_tables (kmem_mem s) pd lo (Suc q)) \<longrightarrow>
      (\<exists>s'. mappages pd va n pa perm s = Ret (False, s') \<and> as_ok kend s' pd [] \<and>
        (\<forall>x. xlate (kmem_mem s') pd x = (if lo \<le> vpn x \<and> vpn x < q
           then Some ((pa + of_nat (vpn x - lo) * PGSIZE) OR perm OR PTE_P) else xlate (kmem_mem s) pd x))))"
proof (intro conjI allI impI; elim conjE)
  show "\<exists>s'. mappages pd va n pa perm s = Ret (True, s') \<and> as_ok kend s' pd (drop (card (new_tables (kmem_mem s) pd lo (Suc hi))) ps) \<and>
        (\<forall>x. xlate (kmem_mem s') pd x = (if lo \<le> vpn x \<and> vpn x \<le> hi
           then Some ((pa + of_nat (vpn x - lo) * PGSIZE) OR perm OR PTE_P) else xlate (kmem_mem s) pd x))"
    if "\<forall>x. lo \<le> vpn x \<and> vpn x \<le> hi \<longrightarrow> xlate (kmem_mem s) pd x = None" "card (new_tables (kmem_mem s) pd lo (Suc hi)) \<le> length ps"
    using mappages_all [OF assms that] .
  show "mappages pd va n pa perm s = Panic ''remap''"
    if "lo \<le> vpn y" "vpn y \<le> hi" "xlate (kmem_mem s) pd y \<noteq> None" "\<forall>x. lo \<le> vpn x \<and> vpn x < vpn y \<longrightarrow> xlate (kmem_mem s) pd x = None"
      "card (new_tables (kmem_mem s) pd lo (vpn y)) \<le> length ps" for y
    using mappages_remap [OF assms that] .
  show "\<exists>s'. mappages pd va n pa perm s = Ret (False, s') \<and> as_ok kend s' pd [] \<and>
        (\<forall>x. xlate (kmem_mem s') pd x = (if lo \<le> vpn x \<and> vpn x < q
           then Some ((pa + of_nat (vpn x - lo) * PGSIZE) OR perm OR PTE_P) else xlate (kmem_mem s) pd x))"
    if "lo \<le> q" "q \<le> hi" "\<forall>x. lo \<le> vpn x \<and> vpn x < q \<longrightarrow> xlate (kmem_mem s) pd x = None"
      "card (new_tables (kmem_mem s) pd lo q) \<le> length ps" "length ps < card (new_tables (kmem_mem s) pd lo (Suc q))" for q
    using mappages_no_memory [OF assms that] .
qed

theorem mappages_correct_witness:
  "(\<exists>s'. mappages 0x80402000 0x2000 0x1000 0x500000 6 one_mapping = Ret (True, s') \<and> as_ok 0x80115000 s' 0x80402000 [0x80400000] \<and>
     xlate (kmem_mem s') 0x80402000 0x2ABC = Some 0x500007 \<and> xlate (kmem_mem s') 0x80402000 0x1ABC = Some 0x401007) \<and>
   mappages 0x80402000 0 0x2000 0x500000 6 one_mapping = Panic ''remap'' \<and>
   (\<exists>s'. mappages 0x80402000 0x7FF000 0x2000 0x500000 6 one_mapping = Ret (False, s') \<and> as_ok 0x80115000 s' 0x80402000 [] \<and>
     xlate (kmem_mem s') 0x80402000 0x7FF123 = Some 0x500007)"
proof (intro conjI)
  let ?m = "kmem_mem one_mapping" and ?pd = "0x80402000 :: uint"
  have t: "tables ?m ?pd = {0}" unfolding tables_def one_mapping_tables by (auto intro: exI [of _ 0] simp: PDX_def)
  have "{2..<Suc 2} = {2}" "{2047..<2048} = {2047 :: nat}" "{2047..<Suc 2048} = {2047, 2048}" by auto
  then have c: "new_tables ?m ?pd 2 (Suc 2) = {}" "new_tables ?m ?pd 0 1 = {}" "new_tables ?m ?pd 2047 2048 = {1}"
    "new_tables ?m ?pd 2047 (Suc 2048) = {1, 2}" unfolding new_tables_def t by auto
  have h: "0 < (0x1000 :: uint)" "unat (0x2000 :: uint) + unat (0x1000 :: uint) \<le> 4294967296" "2 = vpn 0x2000" "2 = vpn (0x2000 + 0x1000 - 1)"
    by (simp_all add: vpn_def)
  obtain s' where "mappages ?pd 0x2000 0x1000 0x500000 6 one_mapping = Ret (True, s')"
    "as_ok 0x80115000 s' ?pd [0x80400000]" and x: "\<And>x. xlate (kmem_mem s') ?pd x = (if 2 \<le> vpn x \<and> vpn x \<le> 2
       then Some ((0x500000 + of_nat (vpn x - 2) * PGSIZE) OR 6 OR PTE_P) else xlate ?m ?pd x)"
    using mappages_correct [OF one_mapping_ok(1) h, THEN conjunct1, of "0x500000" 6, unfolded c] by (auto simp: one_mapping_tables)
  moreover have "xlate (kmem_mem s') ?pd 0x2ABC = Some 0x500007" "xlate (kmem_mem s') ?pd 0x1ABC = Some 0x401007"
    using x [of "0x2ABC"] x [of "0x1ABC"] by (simp_all add: vpn_def one_mapping_tables)
  ultimately show "\<exists>s'. mappages ?pd 0x2000 0x1000 0x500000 6 one_mapping = Ret (True, s') \<and> as_ok 0x80115000 s' ?pd [0x80400000] \<and>
     xlate (kmem_mem s') ?pd 0x2ABC = Some 0x500007 \<and> xlate (kmem_mem s') ?pd 0x1ABC = Some 0x401007" by blast
  have h: "0 < (0x2000 :: uint)" "unat (0 :: uint) + unat (0x2000 :: uint) \<le> 4294967296" "0 = vpn 0" "1 = vpn (0 + 0x2000 - 1)"
    by (simp_all add: vpn_def)
  show "mappages ?pd 0 0x2000 0x500000 6 one_mapping = Panic ''remap''"
    using mappages_correct [OF one_mapping_ok(1) h, THEN conjunct2, THEN conjunct1, rule_format, of "0x1000" "0x500000" 6] c(2)
    by (simp add: vpn_def one_mapping_tables)
  have h: "0 < (0x2000 :: uint)" "unat (0x7FF000 :: uint) + unat (0x2000 :: uint) \<le> 4294967296" "2047 = vpn 0x7FF000" "2048 = vpn (0x7FF000 + 0x2000 - 1)"
    by (simp_all add: vpn_def)
  obtain s' where "mappages ?pd 0x7FF000 0x2000 0x500000 6 one_mapping = Ret (False, s')" "as_ok 0x80115000 s' ?pd []"
    and x: "\<And>x. xlate (kmem_mem s') ?pd x = (if 2047 \<le> vpn x \<and> vpn x < 2048
       then Some ((0x500000 + of_nat (vpn x - 2047) * PGSIZE) OR 6 OR PTE_P) else xlate ?m ?pd x)"
    using mappages_correct [OF one_mapping_ok(1) h, of "0x500000" 6, THEN conjunct2, THEN conjunct2, THEN spec [of _ 2048], unfolded c]
    by (auto simp: one_mapping_tables)
  moreover have "xlate (kmem_mem s') ?pd 0x7FF123 = Some 0x500007" using x [of "0x7FF123"] by (simp add: vpn_def)
  ultimately show "\<exists>s'. mappages ?pd 0x7FF000 0x2000 0x500000 6 one_mapping = Ret (False, s') \<and> as_ok 0x80115000 s' ?pd [] \<and>
     xlate (kmem_mem s') ?pd 0x7FF123 = Some 0x500007" by blast
qed

end
