(* ===== verification/Barrier.thy ===== *)
theory Barrier
  imports Ipc Ring "HOL-Library.Signed_Division"
begin

text \<open>
  The message queues and the barrier of the second kernel, \<^verbatim>\<open>src/a2/sysproc.c\<close>. Each process id has a
  circular queue of indices into a pool of message buffers; \<^verbatim>\<open>send\<close> and \<^verbatim>\<open>recv\<close> go through it. A barrier
  lets the last of a number of processes wake the others. Arguments, sleeping and waking are as in the
  first kernel. The call \<^verbatim>\<open>sigsend\<close>, whose source is not in the repository, is a parameter.
\<close>

abbreviation "num_message_buffers \<equiv> (1000 :: nat)"
abbreviation "max_queue_elements \<equiv> (500 :: cint)"

record a2kernel = systable +
  kern_lock :: bool
  buffers :: "uchar list list"
  from_pids :: "cint list"
  to_pids :: "cint list"
  queue :: "cint list list"
  qhead :: "cint list"
  qtail :: "cint list"
  wait_queue :: "cint list"
  msg_lock :: bool
  bar_lock :: bool
  num_procs :: cint
  arrived :: cint
  bar_pids :: "cint list"
  scheds :: cint
  pid_to_count :: cint
  counting :: cint

subsection \<open>Queues\<close>

text \<open>The remainder of the C operator on signed integers.\<close>

definition crem :: "cint \<Rightarrow> cint \<Rightarrow> cint" where
  "crem a b = word_of_int (sint a smod sint b)"

definition enque :: "cint \<Rightarrow> cint \<Rightarrow> 'a a2kernel_scheme \<Rightarrow> 'a a2kernel_scheme kres" where
  "enque p index s =
     kbind (aget (queue s) (sint p)) (\<lambda>row.
     kbind (aget (qtail s) (sint p)) (\<lambda>t.
     kbind (aset row (sint t) index) (\<lambda>row.
       Ret (s\<lparr>queue := (queue s)[nat (sint p) := row],
              qtail := (qtail s)[nat (sint p) := crem (t + 1) max_queue_elements]\<rparr>))))"

definition deque :: "cint \<Rightarrow> 'a a2kernel_scheme \<Rightarrow> (cint \<times> 'a a2kernel_scheme) kres" where
  "deque p s =
     kbind (aget (qhead s) (sint p)) (\<lambda>h.
     kbind (aget (qtail s) (sint p)) (\<lambda>t.
       if h = t then Ret (-1, s)
       else
         kbind (aget (queue s) (sint p)) (\<lambda>row.
         kbind (aget row (sint h)) (\<lambda>result.
           Ret (result, s\<lparr>qhead := (qhead s)[nat (sint p) := crem (h + 1) max_queue_elements]\<rparr>)))))"

subsection \<open>Messages\<close>

definition kern_acquire :: "'a a2kernel_scheme \<Rightarrow> 'a a2kernel_scheme kres" where
  "kern_acquire s = kbind (lock_acquire (kern_lock s)) (\<lambda>h. Ret (s\<lparr>kern_lock := h\<rparr>))"

definition kern_release :: "'a a2kernel_scheme \<Rightarrow> 'a a2kernel_scheme kres" where
  "kern_release s = kbind (lock_release (kern_lock s)) (\<lambda>h. Ret (s\<lparr>kern_lock := h\<rparr>))"

definition msg_acquire :: "'a a2kernel_scheme \<Rightarrow> 'a a2kernel_scheme kres" where
  "msg_acquire s = kbind (lock_acquire (msg_lock s)) (\<lambda>h. Ret (s\<lparr>msg_lock := h\<rparr>))"

definition msg_release :: "'a a2kernel_scheme \<Rightarrow> 'a a2kernel_scheme kres" where
  "msg_release s = kbind (lock_release (msg_lock s)) (\<lambda>h. Ret (s\<lparr>msg_lock := h\<rparr>))"

definition a2_send :: "(nat \<Rightarrow> uint) \<Rightarrow> nat \<Rightarrow> 'a a2kernel_scheme \<Rightarrow> (cint \<times> 'a a2kernel_scheme) kres" where
  "a2_send junk cur s =
     (let sender_pid = arg_or_junk junk 0 (argint cur s 0);
          rec_pid = arg_or_junk junk 1 (argint cur s 1);
          ch = arg_or_junk junk 2 (argptr cur s 2 8)
      in kbind (kern_acquire s) (\<lambda>s. kbind (msg_acquire s) (\<lambda>s.
           case first_index (\<lambda>d. sint d \<le> 0) (to_pids s) of
             Some i \<Rightarrow>
               let s = s\<lparr>buffers := (buffers s)[i := read_bytes (kmemory s) ch MSGSIZE],
                         from_pids := (from_pids s)[i := sender_pid],
                         to_pids := (to_pids s)[i := rec_pid]\<rparr>
               in kbind (enque rec_pid (of_nat i) s) (\<lambda>s.
                  kbind (aget (wait_queue s) (sint rec_pid)) (\<lambda>w.
                  kbind (if w = 1
                         then wakeup (ChPid (sint rec_pid)) (s\<lparr>wait_queue := (wait_queue s)[nat (sint rec_pid) := 0]\<rparr>)
                         else Ret s) (\<lambda>s.
                  kbind (msg_release s) (\<lambda>s. kbind (kern_release s) (\<lambda>s. Ret (0, s))))))
           | None \<Rightarrow> kbind (kern_release s) (\<lambda>s. kbind (msg_release s) (\<lambda>s. Ret (-1, s))))))"

text \<open>
  One turn of the loop of \<^verbatim>\<open>recv\<close>: it delivers a message or goes to sleep with \<^verbatim>\<open>kern.lock\<close> released. After
  the wakeup the lock is taken and released and the loop starts again.
\<close>

definition a2_recv_turn :: "uint \<Rightarrow> nat \<Rightarrow> 'a a2kernel_scheme \<Rightarrow> (cint blocking \<times> 'a a2kernel_scheme) kres" where
  "a2_recv_turn ch cur s =
     (let me = pid (procs s ! cur)
      in kbind (kern_acquire s) (\<lambda>s. kbind (msg_acquire s) (\<lambda>s.
         kbind (deque me s) (\<lambda>(val, s).
           if val \<noteq> -1 then
             kbind (aget (buffers s) (sint val)) (\<lambda>b.
             kbind (aset (to_pids s) (sint val) (-1)) (\<lambda>tp.
               let s = (set_mem (write_bytes (kmemory s) ch b) s)\<lparr>to_pids := tp, buffers := (buffers s)[nat (sint val) := b[0 := 32]]\<rparr>
               in kbind (kern_release s) (\<lambda>s. kbind (msg_release s) (\<lambda>s. Ret (Done 0, s)))))
           else
             kbind (msg_release s) (\<lambda>s.
             kbind (aset (wait_queue s) (sint me) 1) (\<lambda>wq.
             kbind (sleep_enter (Some cur) (ChPid (sint me)) (Some (kern_lock s)) (s\<lparr>wait_queue := wq\<rparr>)) (\<lambda>(lk, s).
               Ret (Sleeping (ChPid (sint me)), s\<lparr>kern_lock := the lk\<rparr>))))))))"

definition a2_recv :: "(nat \<Rightarrow> uint) \<Rightarrow> nat \<Rightarrow> 'a a2kernel_scheme \<Rightarrow> (cint blocking \<times> 'a a2kernel_scheme) kres" where
  "a2_recv junk cur s = a2_recv_turn (arg_or_junk junk 0 (argptr cur s 0 8)) cur s"

definition a2_recv_resume :: "uint \<Rightarrow> nat \<Rightarrow> 'a a2kernel_scheme \<Rightarrow> (cint blocking \<times> 'a a2kernel_scheme) kres" where
  "a2_recv_resume ch cur s =
     kbind (sleep_exit cur (Some (kern_lock s)) s) (\<lambda>(lk, s).
     kbind (kern_release (s\<lparr>kern_lock := the lk\<rparr>)) (a2_recv_turn ch cur))"

primrec a2_send_multi_loop :: "(cint \<Rightarrow> uint \<Rightarrow> 'a a2kernel_scheme \<Rightarrow> (cint \<times> 'a a2kernel_scheme) kres) \<Rightarrow>
    uint \<Rightarrow> uint \<Rightarrow> nat \<Rightarrow> nat \<Rightarrow> 'a a2kernel_scheme \<Rightarrow> (cint \<times> 'a a2kernel_scheme) kres" where
  "a2_send_multi_loop sigsend pids ch t 0 s =
     kbind (kern_release s) (\<lambda>s. kbind (msg_release s) (\<lambda>s. Ret (0, s)))"
| "a2_send_multi_loop sigsend pids ch t (Suc n) s =
     kbind (sigsend (load32 (kmemory s) (pids + 4 * of_nat t)) ch s) (\<lambda>(result, s).
       if sint result < 0 then kbind (kern_release s) (\<lambda>s. kbind (msg_release s) (\<lambda>s. Ret (-1, s)))
       else a2_send_multi_loop sigsend pids ch (t + 1) n s)"

definition a2_send_multi :: "(cint \<Rightarrow> uint \<Rightarrow> 'a a2kernel_scheme \<Rightarrow> (cint \<times> 'a a2kernel_scheme) kres) \<Rightarrow>
    (nat \<Rightarrow> uint) \<Rightarrow> nat \<Rightarrow> 'a a2kernel_scheme \<Rightarrow> (cint \<times> 'a a2kernel_scheme) kres" where
  "a2_send_multi sigsend junk cur s =
     (let pids = arg_or_junk junk 1 (argptr cur s 1 64);
          ch = arg_or_junk junk 2 (argptr cur s 2 8);
          num = arg_or_junk junk 3 (argint cur s 3)
      in kbind (kern_acquire s) (\<lambda>s. kbind (msg_acquire s) (\<lambda>s.
           a2_send_multi_loop sigsend pids ch 0 (nat (sint num)) s)))"

subsection \<open>Timer\<close>

text \<open>The argument of the C functions is never fetched: it is the value on the kernel stack.\<close>

definition sys_start_timer :: "cint \<Rightarrow> 'a a2kernel_scheme \<Rightarrow> cint \<times> 'a a2kernel_scheme" where
  "sys_start_timer p s = (0, s\<lparr>scheds := 0, pid_to_count := p, counting := 1\<rparr>)"

definition sys_end_timer :: "cint \<Rightarrow> 'a a2kernel_scheme \<Rightarrow> cint \<times> 'a a2kernel_scheme" where
  "sys_end_timer p s = (scheds s * 10, s\<lparr>counting := 0\<rparr>)"

subsection \<open>The barrier\<close>

definition bar_acquire :: "'a a2kernel_scheme \<Rightarrow> 'a a2kernel_scheme kres" where
  "bar_acquire s = kbind (lock_acquire (bar_lock s)) (\<lambda>h. Ret (s\<lparr>bar_lock := h\<rparr>))"

definition bar_release :: "'a a2kernel_scheme \<Rightarrow> 'a a2kernel_scheme kres" where
  "bar_release s = kbind (lock_release (bar_lock s)) (\<lambda>h. Ret (s\<lparr>bar_lock := h\<rparr>))"

definition sys_barrier_init :: "(nat \<Rightarrow> uint) \<Rightarrow> nat \<Rightarrow> 'a a2kernel_scheme \<Rightarrow> (cint \<times> 'a a2kernel_scheme) kres" where
  "sys_barrier_init junk cur s =
     (let p = arg_or_junk junk 0 (argint cur s 0)
      in kbind (bar_acquire s) (\<lambda>s.
         kbind (bar_release (s\<lparr>num_procs := p, arrived := 0\<rparr>)) (\<lambda>s. Ret (0, s))))"

text \<open>The loop that wakes the processes from position \<open>i\<close> on, \<open>n\<close> to go.\<close>

primrec wake_all :: "nat \<Rightarrow> nat \<Rightarrow> 'a a2kernel_scheme \<Rightarrow> 'a a2kernel_scheme kres" where
  "wake_all i 0 s = Ret s"
| "wake_all i (Suc n) s =
     kbind (aget (bar_pids s) (int i)) (\<lambda>p. kbind (wakeup (ChPid (sint p)) s) (wake_all (i + 1) n))"

definition sys_barrier :: "nat \<Rightarrow> 'a a2kernel_scheme \<Rightarrow> (cint blocking \<times> 'a a2kernel_scheme) kres" where
  "sys_barrier cur s =
     kbind (bar_acquire s) (\<lambda>s.
       let s = s\<lparr>arrived := arrived s + 1\<rparr>; me = pid (procs s ! cur)
       in if sint (arrived s) < sint (num_procs s) then
            kbind (aset (bar_pids s) (sint (arrived s - 1)) me) (\<lambda>bp.
            kbind (sleep_enter (Some cur) (ChPid (sint me)) (Some (bar_lock s)) (s\<lparr>bar_pids := bp\<rparr>)) (\<lambda>(lk, s).
              Ret (Sleeping (ChPid (sint me)), s\<lparr>bar_lock := the lk\<rparr>)))
          else
            kbind (wake_all 0 (nat (sint (num_procs s))) (s\<lparr>arrived := 0\<rparr>)) (\<lambda>s.
            kbind (bar_release s) (\<lambda>s. Ret (Done 0, s))))"

definition sys_barrier_resume :: "nat \<Rightarrow> 'a a2kernel_scheme \<Rightarrow> (cint \<times> 'a a2kernel_scheme) kres" where
  "sys_barrier_resume cur s =
     kbind (sleep_exit cur (Some (bar_lock s)) s) (\<lambda>(lk, s).
     kbind (bar_release (s\<lparr>bar_lock := the lk\<rparr>)) (\<lambda>s. Ret (0, s)))"

subsection \<open>What the queues hold\<close>

definition q_ok :: "'a a2kernel_scheme \<Rightarrow> bool" where
  "q_ok s \<longleftrightarrow> length (queue s) = NPROC \<and> (\<forall>row\<in>set (queue s). length row = 500) \<and>
     length (qhead s) = NPROC \<and> (\<forall>h\<in>set (qhead s). unat h < 500) \<and> length (qtail s) = NPROC \<and> (\<forall>t\<in>set (qtail s). unat t < 500)"

definition pending :: "nat \<Rightarrow> 'a a2kernel_scheme \<Rightarrow> cint list" where
  "pending p s = ht_contents (queue s ! p) (unat (qhead s ! p)) (unat (qtail s ! p))"

lemma smod_nat: "int k smod int n = int (k mod n)"
  by (simp add: signed_modulo_int_def zmod_int sgn_if)

lemma array_word:
  assumes "unat (x :: cint) < 2147483648"
  shows "aget xs (sint x) = (if unat x < length xs then Ret (xs ! unat x) else Fault ''index out of bounds'')"
    "aset xs (sint x) v = (if unat x < length xs then Ret (xs[unat x := v]) else Fault ''index out of bounds'')"
  unfolding aget_def aset_def sint_unat_less [OF assms] by (simp_all del: int_nat_eq of_nat_unat)

lemma crem_next:
  assumes "unat t < 500"
  shows "unat (crem (t + 1) max_queue_elements) = (unat t + 1) mod 500"
proof -
  have u: "unat (t + 1) = unat t + 1" using assms by (subst unat_add_no_wrap) simp_all
  then have "sint (t + 1) = int (unat t + 1)" using assms sint_unat_less [of "t + 1"] by simp
  then have "crem (t + 1) max_queue_elements = of_nat ((unat t + 1) mod 500)"
    using smod_nat [of "unat t + 1" 500] by (simp add: crem_def del: of_nat_Suc of_nat_add)
  moreover have "(unat t + 1) mod 500 < 500" by simp
  ultimately show ?thesis using unat_of_nat_32 [of "(unat t + 1) mod 500"] by simp
qed

text \<open>A send to a negative id indexes the queues out of bounds.\<close>

lemma enque_negative_pid: "sint p < 0 \<Longrightarrow> enque p v s = Fault ''index out of bounds''"
  by (simp add: enque_def aget_def)

lemma q_ok_cells:
  assumes "q_ok s" "p < NPROC"
  shows "p < length (queue s)" "p < length (qhead s)" "p < length (qtail s)" "length (queue s ! p) = 500"
    "unat (qhead s ! p) < 500" "unat (qtail s ! p) < 500"
proof -
  show l: "p < length (queue s)" "p < length (qhead s)" "p < length (qtail s)" using assms by (simp_all add: q_ok_def)
  show "length (queue s ! p) = 500" using assms(1) l(1) nth_mem by (auto simp: q_ok_def)
  show "unat (qhead s ! p) < 500" "unat (qtail s ! p) < 500" using assms(1) l(2,3) nth_mem by (auto simp: q_ok_def)
qed

lemma pending_facts:
  assumes "q_ok s" "i < NPROC"
  shows "pending i s = [] \<longleftrightarrow> qhead s ! i = qtail s ! i" "length (pending i s) \<le> 499"
proof -
  note c = q_ok_cells [OF assms]
  show "pending i s = [] \<longleftrightarrow> qhead s ! i = qtail s ! i"
    using ht_empty [of "unat (qhead s ! i)" "queue s ! i" "unat (qtail s ! i)"] c(4-6) by (simp add: pending_def word_unat_eq_iff)
  show "length (pending i s) \<le> 499" using ht_length_less [OF c(5,6)] c(4) by (simp add: pending_def)
qed

lemma q_ok_upd:
  assumes "q_ok s" "length row = 500" "unat t < 500" "unat h < 500"
  shows "q_ok (s\<lparr>queue := (queue s)[p := row], qtail := (qtail s)[p := t]\<rparr>)" "q_ok (s\<lparr>qhead := (qhead s)[p := h]\<rparr>)"
  using assms by (auto simp: q_ok_def dest!: set_update_subset_insert [THEN subsetD])

lemma enque_eq:
  assumes "q_ok s" "sint p = int i" "i < NPROC"
  shows "\<exists>s'. enque p v s = Ret s' \<and> q_ok s' \<and> (\<forall>j. j \<noteq> i \<longrightarrow> pending j s' = pending j s) \<and>
    pending i s' = (if length (pending i s) < 499 then pending i s @ [v] else [])"
proof -
  note c = q_ok_cells [OF assms(1,3)]
  let ?t = "unat (qtail s ! i)" and ?h = "unat (qhead s ! i)" and ?row = "queue s ! i"
  let ?s = "s\<lparr>queue := (queue s)[i := ?row[?t := v]], qtail := (qtail s)[i := crem (qtail s ! i + 1) max_queue_elements]\<rparr>"
  have "enque p v s = Ret ?s" using c assms(2) by (simp add: enque_def array_word)
  moreover have "q_ok ?s" using q_ok_upd(1) [OF assms(1)] crem_next [OF c(6)] c(4,6) by simp
  moreover have "pending j ?s = pending j s" if "j \<noteq> i" for j using that by (simp add: pending_def)
  moreover have "pending i ?s = (if length (pending i s) < 499 then pending i s @ [v] else [])"
  proof -
    have e: "pending i ?s = ht_contents (?row[?t := v]) ?h ((?t + 1) mod length ?row)"
      using c(1,3,4) crem_next [OF c(6)] by (simp add: pending_def)
    have "ht_length 500 ?h ?t < 500" using c(5,6) by (rule ht_length_less)
    then show ?thesis unfolding e
      using ht_put [of ?h ?row ?t v] ht_put_full [of ?h ?row ?t v] c(4-6) by (cases "ht_length 500 ?h ?t < 499") (auto simp: pending_def)
  qed
  ultimately show ?thesis by blast
qed

lemma deque_eq:
  assumes "q_ok s" "sint p = int i" "i < NPROC"
  shows "\<exists>s'. deque p s = Ret (if pending i s = [] then -1 else hd (pending i s), s') \<and> q_ok s' \<and>
    (\<forall>j. j \<noteq> i \<longrightarrow> pending j s' = pending j s) \<and> pending i s' = tl (pending i s)"
proof -
  note c = q_ok_cells [OF assms(1,3)]
  let ?t = "qtail s ! i" and ?h = "qhead s ! i" and ?row = "queue s ! i"
  note m = pending_facts(1) [OF assms(1,3)]
  show ?thesis
  proof (cases "?h = ?t")
    case True
    then show ?thesis using c assms m by (intro exI [of _ s]) (simp add: deque_def aget_def)
  next
    case False
    let ?s = "s\<lparr>qhead := (qhead s)[i := crem (?h + 1) max_queue_elements]\<rparr>"
    have g: "pending i s = ?row ! unat ?h # pending i ?s"
      using ht_get [of "unat ?h" ?row "unat ?t"] False c crem_next [OF c(5)] by (simp add: pending_def word_unat_eq_iff)
    have "deque p s = Ret (?row ! unat ?h, ?s)" using c assms(2) False by (simp add: deque_def array_word)
    moreover have "q_ok ?s" using q_ok_upd(2) [OF assms(1) c(4,6)] crem_next [OF c(5)] by simp
    moreover have "pending j ?s = pending j s" if "j \<noteq> i" for j using that by (simp add: pending_def)
    ultimately show ?thesis unfolding g by auto
  qed
qed

text \<open>The queue of a process as a bounded queue: the interface holds as long as nothing is put on 499 indices.\<close>

definition kval :: "'a kres \<Rightarrow> 'a" where
  "kval r = (case r of Ret x \<Rightarrow> x)"

lemma kval_Ret [simp]: "kval (Ret x) = x"
  by (simp add: kval_def)

interpretation a2_queue: bounded_queue "\<lambda>v s. kval (enque p v s)" "\<lambda>s. kval (deque p s)"
  "\<lambda>s. length (pending (nat (sint p)) s) = 499" "\<lambda>s. qhead s ! nat (sint p) = qtail s ! nat (sint p)"
  "pending (nat (sint p))" 499 "\<lambda>s. q_ok s \<and> 0 \<le> sint p \<and> sint p < int NPROC" for p
proof (unfold_locales, goal_cases)
  case (4 s b)
  then have "nat (sint p) < NPROC" by linarith
  with 4 pending_facts(2) [of s "nat (sint p)"] enque_eq [of s p "nat (sint p)" b] show ?case by auto
next
  case (5 s b s')
  then have "nat (sint p) < NPROC" by linarith
  with 5 pending_facts(1) [of s "nat (sint p)"] deque_eq [of s p "nat (sint p)"] show ?case by auto
qed (auto simp: pending_facts nat_less_iff)

text \<open>
  C23. The queue of a process stays in its array: for an id below \<^verbatim>\<open>NPROC\<close>, \<^verbatim>\<open>enque\<close> and \<^verbatim>\<open>deque\<close> keep every index in
  range and touch no other queue. \<^verbatim>\<open>deque\<close> returns the oldest index, -1 when there is none. \<^verbatim>\<open>enque\<close>
  appends while fewer than 499 indices are pending; the next one makes the queue empty and loses all of them.
\<close>

theorem queue_bounds:
  assumes "q_ok s" "sint p = int i" "i < NPROC"
  shows "(\<exists>s'. enque p v s = Ret s' \<and> q_ok s' \<and> (\<forall>j. j \<noteq> i \<longrightarrow> pending j s' = pending j s) \<and>
      pending i s' = (if length (pending i s) < 499 then pending i s @ [v] else [])) \<and>
    (\<exists>s'. deque p s = Ret (if pending i s = [] then -1 else hd (pending i s), s') \<and> q_ok s' \<and>
      (\<forall>j. j \<noteq> i \<longrightarrow> pending j s' = pending j s) \<and> pending i s' = tl (pending i s)) \<and> length (pending i s) \<le> 499"
  using enque_eq [OF assms] deque_eq [OF assms] a2_queue.cap_bound [of s p] assms by auto

text \<open>The state in which the kernel starts.\<close>

definition a2_boot :: a2kernel where
  "a2_boot = \<lparr>ptlock = False, procs = replicate NPROC empty_proc, initproc = None, nextpid = 1, kmem = two_pages,
     trace = 0, countCalls = replicate 32 0, kern_lock = False, buffers = replicate num_message_buffers (replicate 8 32),
     from_pids = replicate num_message_buffers 0, to_pids = replicate num_message_buffers 0, queue = replicate NPROC (replicate 500 0),
     qhead = replicate NPROC 0, qtail = replicate NPROC 0, wait_queue = replicate NPROC 0, msg_lock = False, bar_lock = False,
     num_procs = 0, arrived = 0, bar_pids = replicate NPROC 0, scheds = 0, pid_to_count = 0, counting = 0\<rparr>"

lemma a2_boot_ok: "q_ok a2_boot" "i < NPROC \<Longrightarrow> pending i a2_boot = []"
  by (simp_all add: a2_boot_def q_ok_def pending_def ht_contents_def ht_length_def)

theorem queue_bounds_witness:
  "\<exists>s'. enque 3 7 a2_boot = Ret s' \<and> pending 3 s' = [7] \<and> q_ok s'"
  using queue_bounds [of a2_boot 3 3 7] a2_boot_ok(1) a2_boot_ok(2) [of 3] by auto

subsection \<open>The barrier opens when the last process arrives\<close>

text \<open>The processes of a list of slots call \<^verbatim>\<open>barrier\<close> one after the other; the scheduler frees the table's lock after a sleep.\<close>

primrec arrive :: "nat list \<Rightarrow> 'a a2kernel_scheme \<Rightarrow> 'a a2kernel_scheme kres" where
  "arrive [] s = Ret s"
| "arrive (c # cs) s = kbind (sys_barrier c s) (\<lambda>(r, s). arrive cs (s\<lparr>ptlock := False\<rparr>))"

lemma arrive_append: "arrive (cs @ ds) s = kbind (arrive cs s) (arrive ds)"
  by (induction cs arbitrary: s) (simp_all add: kbind_assoc split_def)

abbreviation asleep :: "proc \<Rightarrow> bool" where
  "asleep p \<equiv> pstate p = SLEEPING \<and> pchan p = ChPid (sint (pid p))"

text \<open>The state after \<open>cs\<close> have arrived, from \<open>s\<close>.\<close>

definition waiting_at :: "nat list \<Rightarrow> 'a a2kernel_scheme \<Rightarrow> 'a a2kernel_scheme \<Rightarrow> bool" where
  "waiting_at cs s u \<longleftrightarrow> \<not> bar_lock u \<and> \<not> ptlock u \<and> num_procs u = num_procs s \<and> arrived u = of_nat (length cs) \<and>
     length (bar_pids u) = NPROC \<and> length (procs u) = length (procs s) \<and>
     (\<forall>j<length cs. bar_pids u ! j = pid (procs s ! (cs ! j))) \<and>
     (\<forall>i<length (procs s). pid (procs u ! i) = pid (procs s ! i) \<and> (if i \<in> set cs then asleep (procs u ! i) else procs u ! i = procs s ! i))"

lemma barrier_sleeps:
  assumes "waiting_at cs s u" "sint (num_procs s) = int n" "Suc (length cs) < n" "n \<le> NPROC" "c < length (procs s)" "c \<notin> set cs"
  shows "\<exists>t. arrive [c] u = Ret t \<and> waiting_at (cs @ [c]) s t"
proof -
  let ?k = "length cs"
  have a: "arrived u + 1 = of_nat (Suc ?k)" "arrived u = of_nat ?k" using assms(1) by (simp_all add: waiting_at_def)
  have i: "sint (arrived u + 1) = int (Suc ?k)" unfolding a(1) using assms(3,4) by (intro sint_of_nat_small) simp
  have i': "sint (arrived u) = int ?k" unfolding a(2) using assms(3,4) by (intro sint_of_nat_small) simp
  let ?p = "procs u ! c"
  let ?t = "upd_proc c (\<lambda>p. p\<lparr>pchan := ChPid (sint (pid ?p)), pstate := SLEEPING\<rparr>) (u\<lparr>arrived := arrived u + 1, bar_pids := (bar_pids u)[?k := pid ?p]\<rparr>)"
  have "arrive [c] u = Ret ?t"
    using assms i i' by (simp add: sys_barrier_def bar_acquire_def Let_def waiting_at_def aset_def sleep_enter_def sched_checks_def sleep_mark_def pt_acquire_def upd_proc_def)
  moreover have "waiting_at (cs @ [c]) s ?t"
    using assms a by (auto simp: waiting_at_def nth_append nth_list_update upd_proc_def)
  ultimately show ?thesis by blast
qed

lemma arrive_sleeps:
  assumes "waiting_at [] s s" "sint (num_procs s) = int n" "length cs < n" "n \<le> NPROC" "\<forall>c\<in>set cs. c < length (procs s)" "distinct cs"
  shows "\<exists>t. arrive cs s = Ret t \<and> waiting_at cs s t"
  using assms(3,5,6)
proof (induction cs rule: rev_induct)
  case Nil
  then show ?case using assms(1) by simp
next
  case (snoc c cs)
  then obtain u where "arrive cs s = Ret u" "waiting_at cs s u" by auto
  then show ?case using snoc.prems barrier_sleeps [of cs s u n c] assms(2,4) by (auto simp: arrive_append)
qed

lemma wake_all_eq:
  assumes "\<not> ptlock s" "i + n \<le> length (bar_pids s)"
  shows "\<exists>t. wake_all i n s = Ret t \<and> \<not> ptlock t \<and> bar_lock t = bar_lock s \<and> arrived t = arrived s \<and> length (procs t) = length (procs s) \<and>
    (\<forall>c<length (procs s). procs t ! c =
      (if pstate (procs s ! c) = SLEEPING \<and> (\<exists>j<n. pchan (procs s ! c) = ChPid (sint (bar_pids s ! (i + j))))
       then (procs s ! c)\<lparr>pstate := RUNNABLE\<rparr> else procs s ! c))"
  using assms
proof (induction n arbitrary: i s)
  case 0
  then show ?case by simp
next
  case (Suc n)
  let ?s = "wakeup1 (ChPid (sint (bar_pids s ! i))) s"
  have b: "bar_pids ?s = bar_pids s" "bar_lock ?s = bar_lock s" "arrived ?s = arrived s" by (simp_all add: wakeup1_def)
  have "wake_all i (Suc n) s = wake_all (i + 1) n ?s" using Suc.prems by (simp add: aget_def wakeup_eq)
  moreover obtain t where "wake_all (i + 1) n ?s = Ret t" "\<not> ptlock t" "bar_lock t = bar_lock s" "arrived t = arrived s" "length (procs t) = length (procs s)"
    and t: "\<And>c. c < length (procs s) \<Longrightarrow> procs t ! c = (if pstate (procs ?s ! c) = SLEEPING \<and>
      (\<exists>j<n. pchan (procs ?s ! c) = ChPid (sint (bar_pids s ! (i + 1 + j)))) then (procs ?s ! c)\<lparr>pstate := RUNNABLE\<rparr> else procs ?s ! c)"
    using Suc.IH [of ?s "i + 1"] Suc.prems by (auto simp: b)
  moreover have "procs t ! c = (if pstate (procs s ! c) = SLEEPING \<and> (\<exists>j<Suc n. pchan (procs s ! c) = ChPid (sint (bar_pids s ! (i + j))))
       then (procs s ! c)\<lparr>pstate := RUNNABLE\<rparr> else procs s ! c)" if "c < length (procs s)" for c
    unfolding t [OF that] wakeup1_nth [OF that] by (auto simp: Ex_less_Suc2)
  ultimately show ?case by auto
qed

lemma barrier_wakes:
  assumes "waiting_at cs s u" "sint (num_procs s) = int n" "n = Suc (length cs)" "n \<le> NPROC"
  shows "\<exists>t. arrive [c] u = Ret t \<and> arrived t = 0 \<and> \<not> bar_lock t \<and> (\<forall>d<length (procs s). procs t ! d =
    (if pstate (procs u ! d) = SLEEPING \<and> (\<exists>j<n. pchan (procs u ! d) = ChPid (sint (bar_pids u ! j)))
     then (procs u ! d)\<lparr>pstate := RUNNABLE\<rparr> else procs u ! d))"
proof -
  let ?u = "u\<lparr>bar_lock := True, arrived := 0\<rparr>"
  have u: "\<not> bar_lock u" "\<not> ptlock u" "num_procs u = num_procs s" "arrived u + 1 = of_nat n" "length (bar_pids u) = NPROC" "length (procs u) = length (procs s)"
    using assms(1,3) by (simp_all add: waiting_at_def)
  have i: "sint (arrived u + 1) = int n" unfolding u(4) using assms(4) by (intro sint_of_nat_small) simp
  obtain t where t: "wake_all 0 n ?u = Ret t" "bar_lock t" "arrived t = 0" "\<forall>d<length (procs s). procs t ! d =
    (if pstate (procs u ! d) = SLEEPING \<and> (\<exists>j<n. pchan (procs u ! d) = ChPid (sint (bar_pids u ! j)))
     then (procs u ! d)\<lparr>pstate := RUNNABLE\<rparr> else procs u ! d)"
    using wake_all_eq [of ?u 0 n] u(2,5,6) assms(4) by auto
  have "arrive [c] u = Ret (t\<lparr>bar_lock := False, ptlock := False\<rparr>)"
    using u(1,3) i assms(2) t(1,2) by (simp add: sys_barrier_def bar_acquire_def bar_release_def Let_def)
  then show ?thesis using t(3,4) by (intro exI [of _ "t\<lparr>bar_lock := False, ptlock := False\<rparr>"]) simp
qed

text \<open>
  C19. The barrier opens when the last process arrives and not before: of the processes that call \<^verbatim>\<open>barrier\<close> after
  \<^verbatim>\<open>barrier_init\<close> with their number, all but the last sleep, and with the last none is asleep, the counter is zero
  again for the next round, and the calls of the woken processes return 0.
\<close>

theorem barrier_opens:
  fixes s :: "'a a2kernel_scheme"
  assumes "\<not> bar_lock s" "\<not> ptlock s" "length (bar_pids s) = NPROC" "arrived s = 0" "sint (num_procs s) = int (length cs)"
    "cs \<noteq> []" "length cs \<le> NPROC" "distinct cs" "\<forall>c\<in>set cs. c < length (procs s) \<and> pstate (procs s ! c) \<noteq> SLEEPING"
  shows "(\<forall>k<length cs. \<exists>t. arrive (take k cs) s = Ret t \<and>
       (\<forall>c\<in>set (take k cs). pstate (procs t ! c) = SLEEPING \<and> pchan (procs t ! c) = ChPid (sint (pid (procs t ! c))))) \<and>
    (\<exists>t. arrive cs s = Ret t \<and> arrived t = 0 \<and> (\<forall>c\<in>set cs. pstate (procs t ! c) \<noteq> SLEEPING) \<and>
       (\<forall>c. \<exists>t'. sys_barrier_resume c (t\<lparr>ptlock := True\<rparr>) = Ret (0, t')))"
proof (intro conjI allI impI)
  have w: "waiting_at [] s s" using assms(1-4) by (simp add: waiting_at_def)
  have r: "\<exists>t. arrive ds s = Ret t \<and> waiting_at ds s t" if "set ds \<subseteq> set cs" "length ds < length cs" "distinct ds" for ds
    using arrive_sleeps [OF w assms(5) that(2) assms(7)] that(1,3) assms(9) by blast
  show "\<exists>t. arrive (take k cs) s = Ret t \<and>
       (\<forall>c\<in>set (take k cs). pstate (procs t ! c) = SLEEPING \<and> pchan (procs t ! c) = ChPid (sint (pid (procs t ! c))))" if k: "k < length cs" for k
  proof -
    obtain t where "arrive (take k cs) s = Ret t" "waiting_at (take k cs) s t"
      using r [of "take k cs"] k assms(8) set_take_subset [of k cs] by auto
    then show ?thesis using assms(9) in_set_takeD [of _ k cs] by (intro exI [of _ t]) (auto simp: waiting_at_def)
  qed
  define ds c where "ds = butlast cs" and "c = last cs"
  have cs: "cs = ds @ [c]" using assms(6) by (simp add: ds_def c_def)
  obtain u where u: "arrive ds s = Ret u" "waiting_at ds s u" using r [of ds] assms(8) by (auto simp: cs)
  obtain t where t: "arrive cs s = Ret t" "arrived t = 0" "\<not> bar_lock t"
    and p: "\<And>d. d < length (procs s) \<Longrightarrow> procs t ! d = (if pstate (procs u ! d) = SLEEPING \<and> (\<exists>j<length cs. pchan (procs u ! d) = ChPid (sint (bar_pids u ! j)))
      then (procs u ! d)\<lparr>pstate := RUNNABLE\<rparr> else procs u ! d)"
    using barrier_wakes [OF u(2) assms(5) _ assms(7), of c] u(1) unfolding cs by (auto simp: arrive_append)
  have "pstate (procs t ! d) \<noteq> SLEEPING" if d: "d \<in> set cs" for d
  proof (cases "d \<in> set ds")
    case True
    then obtain j where j: "j < length ds" "d = ds ! j" by (auto simp: in_set_conv_nth)
    then have "pchan (procs u ! d) = ChPid (sint (bar_pids u ! j))" "j < length cs" using u(2) True assms(9) d by (auto simp: waiting_at_def cs)
    then show ?thesis using p [of d] assms(9) d by auto
  next
    case False
    then have "procs u ! d = procs s ! d" using u(2) assms(9) d by (simp add: waiting_at_def)
    then show ?thesis using p [of d] assms(9) d by simp
  qed
  moreover have "\<exists>t'. sys_barrier_resume c (t\<lparr>ptlock := True\<rparr>) = Ret (0, t')" for c
    using t(3) by (simp add: sys_barrier_resume_def sleep_exit_def bar_release_def pt_release_def Let_def upd_proc_def)
  ultimately show "\<exists>t. arrive cs s = Ret t \<and> arrived t = 0 \<and> (\<forall>c\<in>set cs. pstate (procs t ! c) \<noteq> SLEEPING) \<and>
       (\<forall>c. \<exists>t'. sys_barrier_resume c (t\<lparr>ptlock := True\<rparr>) = Ret (0, t'))"
    using t(1,2) by blast
qed

text \<open>Three processes meet at the barrier.\<close>

definition barrier_state :: a2kernel where
  "barrier_state = a2_boot\<lparr>procs := map (\<lambda>i. empty_proc\<lparr>pstate := RUNNING, pid := of_nat i + 1\<rparr>) [0..<3], num_procs := 3\<rparr>"

theorem barrier_opens_witness:
  "(\<exists>t. arrive [2, 0] barrier_state = Ret t \<and> pstate (procs t ! 2) = SLEEPING \<and> pstate (procs t ! 0) = SLEEPING) \<and>
   (\<exists>t. arrive [2, 0, 1] barrier_state = Ret t \<and> (\<forall>c\<in>{0, 1, 2}. pstate (procs t ! c) \<noteq> SLEEPING))"
proof -
  have b: "\<not> bar_lock barrier_state" "\<not> ptlock barrier_state" "length (bar_pids barrier_state) = NPROC" "arrived barrier_state = 0"
    "sint (num_procs barrier_state) = int (length [2, 0, 1 :: nat])" "[2, 0, 1 :: nat] \<noteq> []" "length [2, 0, 1 :: nat] \<le> NPROC" "distinct [2, 0, 1 :: nat]"
    "\<forall>c\<in>set [2, 0, 1]. c < length (procs barrier_state) \<and> pstate (procs barrier_state ! c) \<noteq> SLEEPING"
    by (simp_all add: barrier_state_def a2_boot_def)
  note t = barrier_opens [OF b]
  obtain t1 where "arrive (take 2 [2, 0, 1]) barrier_state = Ret t1" "\<forall>c\<in>set (take 2 [2, 0, 1]). pstate (procs t1 ! c) = SLEEPING"
    using conjunct1 [OF t, rule_format, of 2] by auto
  moreover obtain t2 where "arrive [2, 0, 1] barrier_state = Ret t2" "\<forall>c\<in>set [2, 0, 1]. pstate (procs t2 ! c) \<noteq> SLEEPING"
    using t by blast
  ultimately show ?thesis by (intro conjI exI [of _ t1] exI [of _ t2]) simp_all
qed

end
