(* ===== verification/Grep.thy ===== *)
theory Grep
  imports Prelude
begin

text \<open>
  The text search program, \<^verbatim>\<open>src/xv6A1/grep.c\<close>. A C string is the list of its bytes before the terminating
  zero, so that the end of a list is the zero byte. The matcher is shown equivalent to a declarative
  reading of patterns as sets of strings. What the system call \<^verbatim>\<open>read\<close> delivers is a parameter.
\<close>

subsection \<open>The matcher\<close>

function matchhere :: "uchar list \<Rightarrow> uchar list \<Rightarrow> bool" and matchstar :: "uchar \<Rightarrow> uchar list \<Rightarrow> uchar list \<Rightarrow> bool" where
  "matchhere re tx =
     (case re of
        [] \<Rightarrow> True
      | c # re1 \<Rightarrow>
          if re1 \<noteq> [] \<and> hd re1 = 42 then matchstar c (tl re1) tx
          else if c = 36 \<and> re1 = [] then tx = []
          else if tx \<noteq> [] \<and> (c = 46 \<or> c = hd tx) then matchhere re1 (tl tx)
          else False)"
| "matchstar c re tx =
     (if matchhere re tx then True
      else case tx of
             [] \<Rightarrow> False
           | x # tx \<Rightarrow> if x = c \<or> c = 46 then matchstar c re tx else False)"
  by pat_completeness auto
termination
  by (relation "measures [case_sum (\<lambda>(re, tx). length re) (\<lambda>(c, re, tx). Suc (length re)),
        case_sum (\<lambda>(re, tx). length tx) (\<lambda>(c, re, tx). length tx)]") auto

declare matchhere.simps [simp del] matchstar.simps [simp del]

text \<open>The loop of \<^verbatim>\<open>match\<close>.\<close>

fun match_from :: "uchar list \<Rightarrow> uchar list \<Rightarrow> bool" where
  "match_from re tx = (if matchhere re tx then True else case tx of [] \<Rightarrow> False | x # tx \<Rightarrow> match_from re tx)"

declare match_from.simps [simp del]

definition match :: "uchar list \<Rightarrow> uchar list \<Rightarrow> bool" where
  "match re tx = (if re \<noteq> [] \<and> hd re = 94 then matchhere (tl re) tx else match_from re tx)"

subsection \<open>The program\<close>

text \<open>The distance to the first newline, which \<^verbatim>\<open>strchr\<close> finds only before a zero byte.\<close>

definition newline_at :: "uchar list \<Rightarrow> nat option" where
  "newline_at p = first_index (\<lambda>c. c = 10) (takeWhile (\<lambda>c. c \<noteq> 0) p)"

lemma newline_at_less: "newline_at p = Some k \<Longrightarrow> k < length p"
  unfolding newline_at_def using first_index_Some [of "\<lambda>c. c = 10" "takeWhile (\<lambda>c. c \<noteq> 0) p" k] length_takeWhile_le [of "\<lambda>c. c \<noteq> 0" p]
  by linarith

text \<open>The inner loop on the bytes from \<open>p\<close> to the end of the buffer: what is written, and the bytes left.\<close>

function grep_lines :: "uchar list \<Rightarrow> uchar list \<Rightarrow> uchar list \<times> uchar list" where
  "grep_lines re p =
     (case newline_at p of
        None \<Rightarrow> ([], p)
      | Some k \<Rightarrow>
          let (out, rest) = grep_lines re (drop (k + 1) p)
          in (if match re (take k p) then take (k + 1) p @ out else out, rest))"
  by pat_completeness auto
termination
  by (relation "measure (\<lambda>(re, p). length p)") (auto dest: newline_at_less)

declare grep_lines.simps [simp del]

text \<open>
  The outer loop: \<open>rd f n\<close> is the result of a \<^verbatim>\<open>read\<close> of at most \<open>n\<close> bytes from the descriptor \<open>f\<close>, no bytes at the end
  of the file or on an error. When the buffer has no newline its bytes are dropped.
\<close>

partial_function (option) grep_loop :: "('f \<Rightarrow> nat \<Rightarrow> uchar list \<times> 'f) \<Rightarrow> uchar list \<Rightarrow> uchar list \<Rightarrow> 'f \<Rightarrow> (uchar list \<times> 'f) option" where
  "grep_loop rd re buf f =
     (let (bs, f) = rd f (1024 - length buf - 1)
      in if bs = [] then Some ([], f)
         else
           let (out, rest) = grep_lines re (buf @ bs)
           in Option.bind (grep_loop rd re (if length rest = length (buf @ bs) then [] else rest) f)
                (\<lambda>(out', f). Some (out @ out', f)))"

definition grep :: "('f \<Rightarrow> nat \<Rightarrow> uchar list \<times> 'f) \<Rightarrow> uchar list \<Rightarrow> 'f \<Rightarrow> (uchar list \<times> 'f) option" where
  "grep rd re f = grep_loop rd re [] f"

subsection \<open>Patterns as sets of strings\<close>

datatype item = Lit uchar | Any | Rep item

primrec denot :: "item \<Rightarrow> uchar list set" where
  "denot (Lit c) = {[c]}"
| "denot Any = {[x] | x. True}"
| "denot (Rep i) = {concat ws | ws. set ws \<subseteq> denot i}"

primrec seq_denot :: "item list \<Rightarrow> uchar list set" where
  "seq_denot [] = {[]}"
| "seq_denot (i # is) = {u @ v | u v. u \<in> denot i \<and> v \<in> seq_denot is}"

definition atom :: "uchar \<Rightarrow> item" where
  "atom c = (if c = 46 then Any else Lit c)"

text \<open>The items of a pattern, and whether a final dollar sign ties it to the end of the text.\<close>

fun items :: "uchar list \<Rightarrow> item list \<times> bool" where
  "items [] = ([], False)"
| "items [c] = (if c = 36 then ([], True) else ([atom c], False))"
| "items (c # d # re) =
     (if d = 42 then (case items re of (is, e) \<Rightarrow> (Rep (atom c) # is, e))
      else (case items (d # re) of (is, e) \<Rightarrow> (atom c # is, e)))"

text \<open>A prefix of the text is in the language, all of it when the pattern is tied to the end.\<close>

definition here :: "item list \<times> bool \<Rightarrow> uchar list \<Rightarrow> bool" where
  "here p tx \<longleftrightarrow> (\<exists>v w. tx = v @ w \<and> v \<in> seq_denot (fst p) \<and> (snd p \<longrightarrow> w = []))"

lemma here_Nil: "here ([], e) tx \<longleftrightarrow> (e \<longrightarrow> tx = [])"
  by (auto simp: here_def)

lemma here_Cons: "here (i # is, e) tx \<longleftrightarrow> (\<exists>u v. tx = u @ v \<and> u \<in> denot i \<and> here (is, e) v)"
proof
  assume "here (i # is, e) tx"
  then obtain u v w where "tx = u @ (v @ w)" "u \<in> denot i" "v \<in> seq_denot is" "e \<longrightarrow> w = []"
    unfolding here_def fst_conv snd_conv seq_denot.simps mem_Collect_eq by (metis append_assoc)
  then show "\<exists>u v. tx = u @ v \<and> u \<in> denot i \<and> here (is, e) v" unfolding here_def fst_conv snd_conv by blast
next
  assume "\<exists>u v. tx = u @ v \<and> u \<in> denot i \<and> here (is, e) v"
  then obtain u v w where "tx = (u @ v) @ w" "u \<in> denot i" "v \<in> seq_denot is" "e \<longrightarrow> w = []" by (auto simp: here_def)
  then show "here (i # is, e) tx" unfolding here_def fst_conv snd_conv seq_denot.simps mem_Collect_eq by blast
qed

lemma atom_denot: "u \<in> denot (atom c) \<longleftrightarrow> (\<exists>x. u = [x] \<and> (x = c \<or> c = 46))"
  by (auto simp: atom_def)

lemma atom_split: "(\<exists>x y. a # t = x @ y \<and> x \<in> denot (atom c) \<and> P y) \<longleftrightarrow> (a = c \<or> c = 46) \<and> P t"
  unfolding atom_denot by (rule iffI, auto) (metis append_Cons append_Nil)+

lemma here_atom: "here (atom c # is, e) tx \<longleftrightarrow> tx \<noteq> [] \<and> (c = 46 \<or> c = hd tx) \<and> here (is, e) (tl tx)"
proof (cases tx)
  case Nil
  then show ?thesis by (auto simp: here_Cons atom_denot)
next
  case (Cons a t)
  show ?thesis unfolding Cons here_Cons atom_split by auto
qed

lemma rep_unfold: "u \<in> denot (Rep i) \<longleftrightarrow> u = [] \<or> (\<exists>x y. u = x @ y \<and> x \<in> denot i \<and> y \<in> denot (Rep i))"
proof
  assume "u \<in> denot (Rep i)"
  then obtain ws where "u = concat ws" "set ws \<subseteq> denot i" by auto
  then show "u = [] \<or> (\<exists>x y. u = x @ y \<and> x \<in> denot i \<and> y \<in> denot (Rep i))" by (cases ws) auto
next
  assume "u = [] \<or> (\<exists>x y. u = x @ y \<and> x \<in> denot i \<and> y \<in> denot (Rep i))"
  then show "u \<in> denot (Rep i)"
  proof
    assume "u = []"
    then show ?thesis by (auto intro: exI [of _ "[]"])
  next
    assume "\<exists>x y. u = x @ y \<and> x \<in> denot i \<and> y \<in> denot (Rep i)"
    then obtain x ws where "u = x @ concat ws" "x \<in> denot i" "set ws \<subseteq> denot i" by auto
    then show ?thesis by (auto intro!: exI [of _ "x # ws"])
  qed
qed

lemma here_rep: "here (Rep (atom c) # is, e) tx \<longleftrightarrow>
  here (is, e) tx \<or> (tx \<noteq> [] \<and> (hd tx = c \<or> c = 46) \<and> here (Rep (atom c) # is, e) (tl tx))"
proof (cases tx)
  case Nil
  then show ?thesis using rep_unfold [of "[]" "atom c"] by (auto simp: here_Cons simp del: denot.simps)
next
  case (Cons a t)
  have "[] \<in> denot (Rep (atom c))" using rep_unfold [of "[]" "atom c"] by blast
  moreover have "a # u \<in> denot (Rep (atom c)) \<longleftrightarrow> (a = c \<or> c = 46) \<and> u \<in> denot (Rep (atom c))" for u
    using rep_unfold [of "a # u" "atom c"] unfolding atom_split by blast
  ultimately show ?thesis unfolding Cons here_Cons [of "Rep (atom c)"] by (auto simp del: denot.simps simp: Cons_eq_append_conv)
qed

lemma matchhere_iff: "matchhere re tx \<longleftrightarrow> here (items re) tx"
  and matchstar_iff: "matchstar c re tx \<longleftrightarrow> here (Rep (atom c) # fst (items re), snd (items re)) tx"
proof (induction re tx and c re tx rule: matchhere_matchstar.induct)
  case (1 re tx)
  show ?case
  proof (cases re rule: items.cases)
    case 1
    then show ?thesis by (simp add: matchhere.simps here_Nil)
  next
    case (2 c)
    then show ?thesis using "1.IH" by (auto simp: matchhere.simps here_Nil here_atom)
  next
    case (3 c d r)
    show ?thesis
    proof (cases "d = 42")
      case True
      then have "matchhere re tx = matchstar c r tx" using 3 by (simp add: matchhere.simps)
      also have "\<dots> = here (items re) tx" using "1.IH"(1) [of c "d # r"] 3 True by (simp add: split_def)
      finally show ?thesis .
    next
      case False
      then have "matchhere re tx \<longleftrightarrow> tx \<noteq> [] \<and> (c = 46 \<or> c = hd tx) \<and> matchhere (d # r) (tl tx)" using 3 by (subst matchhere.simps) auto
      also have "\<dots> = here (items re) tx" using "1.IH"(2) [of c "d # r"] 3 False by (auto simp: split_def here_atom)
      finally show ?thesis .
    qed
  qed
next
  case (2 c re tx)
  show ?case
  proof (cases tx)
    case Nil
    then show ?thesis using 2(1) here_rep [of c "fst (items re)" "snd (items re)" tx] by (simp add: matchstar.simps)
  next
    case (Cons x t)
    then have "matchstar c re tx \<longleftrightarrow> matchhere re tx \<or> (x = c \<or> c = 46) \<and> matchstar c re t" by (subst matchstar.simps) simp
    then show ?thesis using 2 here_rep [of c "fst (items re)" "snd (items re)" tx] Cons
      by (cases "matchhere re tx"; cases "x = c \<or> c = 46") auto
  qed
qed

lemma match_from_iff: "match_from re tx \<longleftrightarrow> (\<exists>u v. tx = u @ v \<and> here (items re) v)"
proof (induction tx)
  case Nil
  then show ?case by (simp add: match_from.simps matchhere_iff)
next
  case (Cons x tx)
  then show ?case by (auto simp: match_from.simps [of re "x # tx"] matchhere_iff Cons_eq_append_conv)
qed

text \<open>
  C16. \<^verbatim>\<open>match\<close> decides the patterns it documents: a pattern is a sequence of characters, dots and starred characters or
  dots, tied to the start of the text by a leading circumflex and to its end by a final dollar sign, and it matches a text
  when some part of the text is in its language and lies at the ends it is tied to.
\<close>

theorem match_correct:
  "match re tx \<longleftrightarrow> (\<exists>u v w. tx = u @ v @ w \<and> (re \<noteq> [] \<and> hd re = 94 \<longrightarrow> u = []) \<and>
     v \<in> seq_denot (fst (items (if re \<noteq> [] \<and> hd re = 94 then tl re else re))) \<and>
     (snd (items (if re \<noteq> [] \<and> hd re = 94 then tl re else re)) \<longrightarrow> w = []))"
  unfolding match_def matchhere_iff match_from_iff by (auto simp: here_def)

theorem match_correct_witness: "match [94, 97, 42, 98] [97, 97, 98, 99]"
proof -
  have "items [97, 42, 98] = ([Rep (Lit 97), Lit 98], False)" by (simp add: atom_def)
  moreover have "[97, 97] \<in> denot (Rep (Lit 97))" by (simp, rule exI [of _ "[[97], [97]]"]) simp
  then have "[97, 97, 98] \<in> seq_denot [Rep (Lit 97), Lit 98]" by (simp del: denot.simps(3))
  ultimately show ?thesis
    unfolding match_correct [of "[94, 97, 42, 98]" "[97, 97, 98, 99]"]
    by (intro exI [of _ "[]"] exI [of _ "[97, 97, 98]"] exI [of _ "[99]"]) simp
qed

subsection \<open>Lines\<close>

text \<open>A descriptor that delivers given pieces, one for each \<^verbatim>\<open>read\<close>.\<close>

fun rd_pieces :: "uchar list list \<Rightarrow> nat \<Rightarrow> uchar list \<times> uchar list list" where
  "rd_pieces [] n = ([], [])"
| "rd_pieces (c # cs) n = (if length c \<le> n then (c, cs) else (take n c, drop n c # cs))"

text \<open>The complete lines of the buffer are written exactly when they match; what follows the last newline is left.\<close>

lemma newline_at_line: "0 \<notin> set l \<Longrightarrow> 10 \<notin> set l \<Longrightarrow> newline_at (l @ 10 # r) = Some (length l)"
  by (induction l) (auto simp: newline_at_def)

lemma newline_at_none: "10 \<notin> set r \<Longrightarrow> newline_at r = None"
  unfolding newline_at_def first_index_None by (auto dest: set_takeWhileD)

lemma grep_lines_spec:
  assumes "\<forall>l\<in>set ls. 0 \<notin> set l \<and> 10 \<notin> set l" "10 \<notin> set r"
  shows "grep_lines re (concat (map (\<lambda>l. l @ [10]) ls) @ r) = (concat (map (\<lambda>l. l @ [10]) (filter (match re) ls)), r)"
  using assms(1)
proof (induction ls)
  case Nil
  then show ?case using newline_at_none [OF assms(2)] by (simp add: grep_lines.simps)
next
  case (Cons l ls)
  then show ?case using newline_at_line [of l "concat (map (\<lambda>l. l @ [10]) ls) @ r"] by (subst grep_lines.simps) simp
qed

text \<open>A line that arrives in two pieces is not found, although it matches.\<close>

lemma grep_loses_split_line:
  "match [97, 98, 99] [97, 98, 99]"
  "grep rd_pieces [97, 98, 99] [[97, 98, 99, 10]] = Some ([97, 98, 99, 10], [])"
  "grep rd_pieces [97, 98, 99] [[97, 98], [99, 10]] = Some ([], [])"
proof -
  have m: "match [97, 98, 99] [97, 98, 99]" "\<not> match [97, 98, 99] [99]"
    by (simp_all add: match_def match_from.simps matchhere.simps)
  then show "match [97, 98, 99] [97, 98, 99]" by simp
  have "grep_lines [97, 98, 99] [97, 98, 99, 10] = ([97, 98, 99, 10], [])" "grep_lines [97, 98, 99] [97, 98] = ([], [97, 98])"
    "grep_lines [97, 98, 99] [99, 10] = ([], [])"
    using grep_lines_spec [of "[[97, 98, 99]]" "[]" "[97, 98, 99]"] grep_lines_spec [of "[]" "[97, 98]" "[97, 98, 99]"]
      grep_lines_spec [of "[[99]]" "[]" "[97, 98, 99]"] m by simp_all
  then show "grep rd_pieces [97, 98, 99] [[97, 98, 99, 10]] = Some ([97, 98, 99, 10], [])"
    "grep rd_pieces [97, 98, 99] [[97, 98], [99, 10]] = Some ([], [])"
    by (simp_all add: grep_def grep_loop.simps Let_def)
qed

end
