(* ===== verification/Format.thy ===== *)
theory Format
  imports Prelude
begin

text \<open>
  Formatted output and number conversion: \<^verbatim>\<open>printf\<close> of the user library in \<^verbatim>\<open>src/xv6A1/printf.c\<close>, \<^verbatim>\<open>cprintf\<close> of the kernel
  in \<^verbatim>\<open>src/xv6A1/console.c\<close>, and \<^verbatim>\<open>atoi\<close> of \<^verbatim>\<open>src/xv6A1/ulib.c\<close>. The result of printing is the list of bytes sent,
  in order. A C string is the list of its bytes before the zero; \<open>str a\<close> is the string at address \<open>a\<close>, and \<open>ap k\<close> the
  word of the stack that holds argument \<open>k\<close>.
\<close>

subsection \<open>Numbers\<close>

text \<open>The loop that divides by the base, least digit first; the base is 10 or 16 in every call.\<close>

function digits_loop :: "uint \<Rightarrow> uint \<Rightarrow> uint list" where
  "digits_loop base x = (x mod base) # (if x div base \<noteq> 0 \<and> 2 \<le> base then digits_loop base (x div base) else [])"
  by pat_completeness auto
termination
proof (relation "measure (\<lambda>(base, x). unat x)", goal_cases)
  case 1
  then show ?case by simp
next
  case (2 base x)
  then have "2 \<le> unat base" "0 < unat x" by (auto simp: word_le_nat_alt unat_gt_0)
  then show ?case by (simp add: unat_div)
qed

declare digits_loop.simps [simp del]

text \<open>\<^verbatim>\<open>"0123456789ABCDEF"\<close> and \<^verbatim>\<open>"0123456789abcdef"\<close>.\<close>

definition upper_digits :: "uchar list" where
  "upper_digits = [48, 49, 50, 51, 52, 53, 54, 55, 56, 57, 65, 66, 67, 68, 69, 70]"

definition lower_digits :: "uchar list" where
  "lower_digits = [48, 49, 50, 51, 52, 53, 54, 55, 56, 57, 97, 98, 99, 100, 101, 102]"

definition printint :: "cint \<Rightarrow> uint \<Rightarrow> bool \<Rightarrow> uchar list" where
  "printint xx base sg =
     (let neg = (sg \<and> sint xx < 0);
          x = (if neg then - xx else xx);
          buf = map (\<lambda>d. upper_digits ! unat d) (digits_loop base x) @ (if neg then [45] else [])
      in rev buf)"

definition cons_printint :: "cint \<Rightarrow> uint \<Rightarrow> bool \<Rightarrow> uchar list" where
  "cons_printint xx base sign =
     (let sign = (sign \<and> sint xx < 0);
          x = (if sign then - xx else xx);
          buf = map (\<lambda>d. lower_digits ! unat d) (digits_loop base x) @ (if sign then [45] else [])
      in rev buf)"

text \<open>The loop of \<^verbatim>\<open>atoi\<close> with the number so far.\<close>

fun atoi_loop :: "cint \<Rightarrow> uchar list \<Rightarrow> cint" where
  "atoi_loop n [] = n"
| "atoi_loop n (c # s) = (if 48 \<le> c \<and> c \<le> 57 then atoi_loop (n * 10 + ucast c - 48) s else n)"

definition atoi :: "uchar list \<Rightarrow> cint" where
  "atoi s = atoi_loop 0 s"

subsection \<open>Format strings\<close>

definition null_string :: "uchar list" where
  "null_string = [40, 110, 117, 108, 108, 41]"

text \<open>\<open>st\<close> says that the last byte was a percent sign, \<open>k\<close> is the next argument.\<close>

fun printf_loop :: "(uint \<Rightarrow> uchar list) \<Rightarrow> (nat \<Rightarrow> uint) \<Rightarrow> bool \<Rightarrow> nat \<Rightarrow> uchar list \<Rightarrow> uchar list" where
  "printf_loop str ap st k [] = []"
| "printf_loop str ap st k (c # fmt) =
     (if \<not> st then
        if c = 37 then printf_loop str ap True k fmt else c # printf_loop str ap False k fmt
      else if c = 100 then printint (ap k) 10 True @ printf_loop str ap False (k + 1) fmt
      else if c = 120 \<or> c = 112 then printint (ap k) 16 False @ printf_loop str ap False (k + 1) fmt
      else if c = 115 then (if ap k = 0 then null_string else str (ap k)) @ printf_loop str ap False (k + 1) fmt
      else if c = 99 then ucast (ap k) # printf_loop str ap False (k + 1) fmt
      else if c = 37 then c # printf_loop str ap False k fmt
      else 37 # c # printf_loop str ap False k fmt)"

definition printf :: "(uint \<Rightarrow> uchar list) \<Rightarrow> (nat \<Rightarrow> uint) \<Rightarrow> uchar list \<Rightarrow> uchar list" where
  "printf str ap fmt = printf_loop str ap False 0 fmt"

text \<open>The loop of \<^verbatim>\<open>cprintf\<close>.\<close>

fun cprintf_loop :: "(uint \<Rightarrow> uchar list) \<Rightarrow> (nat \<Rightarrow> uint) \<Rightarrow> nat \<Rightarrow> uchar list \<Rightarrow> uchar list" where
  "cprintf_loop str ap k [] = []"
| "cprintf_loop str ap k [c] = (if c \<noteq> 37 then [c] else [])"
| "cprintf_loop str ap k (b # c # fmt) =
     (if b \<noteq> 37 then b # cprintf_loop str ap k (c # fmt)
      else if c = 100 then cons_printint (ap k) 10 True @ cprintf_loop str ap (k + 1) fmt
      else if c = 120 \<or> c = 112 then cons_printint (ap k) 16 False @ cprintf_loop str ap (k + 1) fmt
      else if c = 115 then (if ap k = 0 then null_string else str (ap k)) @ cprintf_loop str ap (k + 1) fmt
      else if c = 37 then 37 # cprintf_loop str ap k fmt
      else 37 # c # cprintf_loop str ap k fmt)"

subsection \<open>What is printed reads back\<close>

primrec digits_value :: "nat \<Rightarrow> uint list \<Rightarrow> nat" where
  "digits_value b [] = 0"
| "digits_value b (d # ds) = unat d + b * digits_value b ds"

lemma digits_loop_spec:
  assumes "2 \<le> base"
  shows "digits_value (unat base) (digits_loop base x) = unat x \<and> (\<forall>d\<in>set (digits_loop base x). d < base)"
  using assms
proof (induction base x rule: digits_loop.induct)
  case (1 base x)
  have b: "x mod base < base" using 1(2) by (simp add: word_less_nat_alt word_le_nat_alt unat_mod)
  have x: "unat (x mod base) + unat base * unat (x div base) = unat x" by (simp add: unat_mod unat_div)
  show ?case
  proof (cases "x div base = 0")
    case True
    then show ?thesis using b x by (simp add: digits_loop.simps)
  next
    case False
    then show ?thesis using 1 b x by (simp add: digits_loop.simps [of base x])
  qed
qed

definition dig :: "uint \<Rightarrow> uchar" where
  "dig d = upper_digits ! unat d"

lemma dig_range:
  assumes "d < 10"
  shows "48 \<le> dig d" "dig d \<le> 57" "ucast (dig d) = d + 48"
proof -
  have "unat d < 10" using assms by (simp add: word_less_nat_alt)
  then have "d \<in> {0, 1, 2, 3, 4, 5, 6, 7, 8, 9}" by (auto simp: word_unat_eq_iff)
  then show "48 \<le> dig d" "dig d \<le> 57" "ucast (dig d) = d + 48" by (auto simp: dig_def upper_digits_def)
qed

lemma atoi_loop_digits: "\<forall>d\<in>set ds. d < 10 \<Longrightarrow> atoi_loop n (map dig ds @ ys) = atoi_loop (foldl (\<lambda>n d. n * 10 + d) n ds) ys"
proof (induction ds arbitrary: n)
  case (Cons d ds)
  then show ?case using dig_range [of d] by simp
qed simp

lemma foldl_value: "foldl (\<lambda>n d. n * 10 + d) n (rev ds) = n * 10 ^ length ds + of_nat (digits_value 10 ds)" for n :: cint
  by (induction ds) (simp_all add: algebra_simps)

lemma digits_loop_length:
  assumes "2 \<le> base" "unat x < unat base ^ Suc k"
  shows "length (digits_loop base x) \<le> Suc k"
  using assms(2)
proof (induction k arbitrary: x)
  case 0
  then have "x div base = 0" by (simp add: word_unat_eq_iff unat_div)
  then show ?case by (simp add: digits_loop.simps)
next
  case (Suc k)
  then have "unat (x div base) < unat base ^ Suc k" using assms(1) by (simp add: unat_div div_less_iff_less_mult word_le_nat_alt algebra_simps)
  then show ?case using Suc.IH [of "x div base"] by (simp add: digits_loop.simps [of base x])
qed

text \<open>Neither base overruns the 16 bytes of the buffer.\<close>

lemma printint_fits: "length (printint n 10 sg) \<le> 11" "length (printint n 16 sg) \<le> 9"
proof -
  have d: "length (digits_loop 10 x) \<le> 10" "length (digits_loop 16 x) \<le> 8" for x
    using digits_loop_length [of 10 x 9] digits_loop_length [of 16 x 7] unat_less_32 [of x] by (auto simp del: unat_less_32)
  show "length (printint n 10 sg) \<le> 11" "length (printint n 16 sg) \<le> 9"
    using d [of n] d [of "- n"] by (auto simp: printint_def Let_def)
qed

text \<open>
  C25. A number printed with \<^verbatim>\<open>%d\<close> reads back: \<^verbatim>\<open>atoi\<close> of the digits that \<^verbatim>\<open>printint\<close> writes for a number that is not negative is
  the number, for all 31 bit values.
\<close>

theorem atoi_printint:
  assumes "0 \<le> sint n"
  shows "atoi (printint n 10 True) = n"
proof -
  note d = digits_loop_spec [of 10 n]
  have "printint n 10 True = map dig (rev (digits_loop 10 n))"
    using assms by (simp add: printint_def Let_def not_less dig_def [abs_def] rev_map)
  moreover have "\<forall>d\<in>set (rev (digits_loop 10 n)). d < 10" using d by simp
  ultimately have "atoi (printint n 10 True) = foldl (\<lambda>n d. n * 10 + d) 0 (rev (digits_loop 10 n))"
    using atoi_loop_digits [of "rev (digits_loop 10 n)" 0 "[]"] by (simp add: atoi_def)
  also have "\<dots> = of_nat (digits_value 10 (digits_loop 10 n))" by (simp add: foldl_value)
  also have "digits_value 10 (digits_loop 10 n) = unat n" using d by simp
  finally show ?thesis by simp
qed

theorem atoi_printint_witness: "0 \<le> sint (2024 :: cint) \<and> atoi (printint 2024 10 True) = 2024"
  using atoi_printint [of 2024] by simp

end
