(* ===== verification/Console.thy ===== *)
theory Console
  imports Fs Format Ring
begin

text \<open>
  The console, \<^verbatim>\<open>src/xv6A1/console.c\<close>, and the keyboard, \<^verbatim>\<open>src/xv6A1/kbd.c\<close>: characters are sent to the serial line and
  to the screen, key presses are turned into characters, and an interrupt edits the input line in a
  ring that \<^verbatim>\<open>consoleread\<close> empties line by line. The serial line is the list of bytes sent; the screen is the array of
  cells and the cursor register of the display.
\<close>

record consst = fsst +
  cons_lock :: bool
  cons_locking :: bool
  panicked :: bool
  in_buf :: "uchar list"
  in_r :: uint
  in_w :: uint
  in_e :: uint
  uart_out :: "uchar list"
  crt :: "16 word list"
  cursor :: "16 word"

abbreviation "INPUT_BUF \<equiv> (128 :: nat)"
abbreviation "BACKSPACE \<equiv> (0x100 :: cint)"

subsection \<open>Output\<close>

text \<open>The screen scrolls by a row: rows 1 to 23 move up and the rest of the last row is cleared.\<close>

definition scroll_up :: "16 word list \<Rightarrow> nat \<Rightarrow> 16 word list" where
  "scroll_up cells pos =
     (let cells = take (23 * 80) (drop 80 cells) @ drop (23 * 80) cells
      in take pos cells @ replicate (24 * 80 - pos) 0 @ drop (max pos (24 * 80)) cells)"

text \<open>What a character does to the position and the cells, before scrolling.\<close>

definition cga_move :: "cint \<Rightarrow> nat \<Rightarrow> 16 word list \<Rightarrow> (nat \<times> 16 word list) kres" where
  "cga_move c pos cells =
     (if c = 10 then Ret (pos + (80 - pos mod 80), cells)
      else if c = BACKSPACE then Ret (if pos > 0 then pos - 1 else pos, cells)
      else kbind (aset cells (int pos) (ucast (c AND 0xFF) OR 0x0700)) (\<lambda>cells. Ret (pos + 1, cells)))"

definition cgaputc :: "cint \<Rightarrow> 'a consst_scheme \<Rightarrow> 'a consst_scheme kres" where
  "cgaputc c s =
     kbind (cga_move c (unat (cursor s)) (crt s)) (\<lambda>(pos, cells).
       if pos > 25 * 80 then Panic ''pos under/overflow''
       else
         let (pos, cells) = (if pos div 80 \<ge> 24 then (pos - 80, scroll_up cells (pos - 80)) else (pos, cells))
         in kbind (aset cells (int pos) 0x0720) (\<lambda>cells. Ret (s\<lparr>crt := cells, cursor := of_nat pos\<rparr>)))"

definition consputc :: "cint \<Rightarrow> 'a consst_scheme \<Rightarrow> 'a consst_scheme kres" where
  "consputc c s =
     (if panicked s then Spin
      else cgaputc c (s\<lparr>uart_out := uart_out s @ (if c = BACKSPACE then [8, 32, 8] else [ucast c])\<rparr>))"

primrec cons_write :: "uchar list \<Rightarrow> 'a consst_scheme \<Rightarrow> 'a consst_scheme kres" where
  "cons_write [] s = Ret s"
| "cons_write (c # cs) s = kbind (consputc (ucast c) s) (cons_write cs)"

definition cons_acquire :: "'a consst_scheme \<Rightarrow> 'a consst_scheme kres" where
  "cons_acquire s = kbind (lock_acquire (cons_lock s)) (\<lambda>h. Ret (s\<lparr>cons_lock := h\<rparr>))"

definition cons_release :: "'a consst_scheme \<Rightarrow> 'a consst_scheme kres" where
  "cons_release s = kbind (lock_release (cons_lock s)) (\<lambda>h. Ret (s\<lparr>cons_lock := h\<rparr>))"

text \<open>A null format is \<open>None\<close>.\<close>

definition cprintf :: "(uint \<Rightarrow> uchar list) \<Rightarrow> (nat \<Rightarrow> uint) \<Rightarrow> uchar list option \<Rightarrow> 'a consst_scheme \<Rightarrow> 'a consst_scheme kres" where
  "cprintf str ap fmt s =
     (let locking = cons_locking s
      in kbind (if locking then cons_acquire s else Ret s) (\<lambda>s.
           case fmt of
             None \<Rightarrow> Panic ''null fmt''
           | Some fmt \<Rightarrow>
               kbind (cons_write (cprintf_loop str ap 0 fmt) s) (\<lambda>s.
                 if locking then cons_release s else Ret s)))"

definition consolewrite :: "nat \<Rightarrow> nat \<Rightarrow> uchar list \<Rightarrow> cint \<Rightarrow> 'a consst_scheme \<Rightarrow> (cint \<times> 'a consst_scheme) kres" where
  "consolewrite cur i buf n s =
     kbind (iunlock cur i s) (\<lambda>s.
     kbind (cons_acquire s) (\<lambda>s.
     kbind (cons_write (take (nat (sint n)) buf) s) (\<lambda>s.
     kbind (cons_release s) (\<lambda>s.
     kbind (ilock cur i s) (\<lambda>s. Ret (n, s))))))"

subsection \<open>The keyboard\<close>

abbreviation "SHIFT \<equiv> (1 :: uint)"
abbreviation "CTL \<equiv> (2 :: uint)"
abbreviation "CAPSLOCK \<equiv> (8 :: uint)"
abbreviation "E0ESC \<equiv> (64 :: uint)"

definition table :: "uint list \<Rightarrow> (nat \<times> uint) list \<Rightarrow> nat \<Rightarrow> uint" where
  "table row cells i = (if i < length row then row ! i else case map_of cells i of Some v \<Rightarrow> v | None \<Rightarrow> 0)"

definition shiftcode :: "nat \<Rightarrow> uint" where
  "shiftcode = table [] [(0x1D, 2), (0x2A, 1), (0x36, 1), (0x38, 4), (0x9D, 2), (0xB8, 4)]"

definition togglecode :: "nat \<Rightarrow> uint" where
  "togglecode = table [] [(0x3A, 8), (0x45, 16), (0x46, 32)]"

definition normalmap :: "nat \<Rightarrow> uint" where
  "normalmap = table
     [0, 0x1B, 49, 50, 51, 52, 53, 54, 55, 56, 57, 48, 45, 61, 8, 9,
      113, 119, 101, 114, 116, 121, 117, 105, 111, 112, 91, 93, 10, 0, 97, 115,
      100, 102, 103, 104, 106, 107, 108, 59, 39, 96, 0, 92, 122, 120, 99, 118,
      98, 110, 109, 44, 46, 47, 0, 42, 0, 32, 0, 0, 0, 0, 0, 0,
      0, 0, 0, 0, 0, 0, 0, 55, 56, 57, 45, 52, 53, 54, 43, 49,
      50, 51, 48, 46, 0, 0, 0, 0]
     [(0x9C, 10), (0xB5, 47), (0xC8, 0xE2), (0xD0, 0xE3), (0xC9, 0xE6), (0xD1, 0xE7),
      (0xCB, 0xE4), (0xCD, 0xE5), (0x97, 0xE0), (0xCF, 0xE1), (0xD2, 0xE8), (0xD3, 0xE9)]"

definition shiftmap :: "nat \<Rightarrow> uint" where
  "shiftmap = table
     [0, 0x1B, 33, 64, 35, 36, 37, 94, 38, 42, 40, 41, 95, 43, 8, 9,
      81, 87, 69, 82, 84, 89, 85, 73, 79, 80, 123, 125, 10, 0, 65, 83,
      68, 70, 71, 72, 74, 75, 76, 58, 34, 126, 0, 124, 90, 88, 67, 86,
      66, 78, 77, 60, 62, 63, 0, 42, 0, 32, 0, 0, 0, 0, 0, 0,
      0, 0, 0, 0, 0, 0, 0, 55, 56, 57, 45, 52, 53, 54, 43, 49,
      50, 51, 48, 46, 0, 0, 0, 0]
     [(0x9C, 10), (0xB5, 47), (0xC8, 0xE2), (0xD0, 0xE3), (0xC9, 0xE6), (0xD1, 0xE7),
      (0xCB, 0xE4), (0xCD, 0xE5), (0x97, 0xE0), (0xCF, 0xE1), (0xD2, 0xE8), (0xD3, 0xE9)]"

text \<open>The entry \<^verbatim>\<open>C('/')\<close> is -17, the byte 239.\<close>

definition ctlmap :: "nat \<Rightarrow> uint" where
  "ctlmap = table
     [0, 0, 0, 0, 0, 0, 0, 0, 0, 0, 0, 0, 0, 0, 0, 0,
      17, 23, 5, 18, 20, 25, 21, 9, 15, 16, 0, 0, 13, 0, 1, 19,
      4, 6, 7, 8, 10, 11, 12, 0, 0, 0, 0, 28, 26, 24, 3, 22,
      2, 14, 13, 0, 0, 239, 0, 0]
     [(0x9C, 13), (0xB5, 239), (0xC8, 0xE2), (0xD0, 0xE3), (0xC9, 0xE6), (0xD1, 0xE7),
      (0xCB, 0xE4), (0xCD, 0xE5), (0x97, 0xE0), (0xCF, 0xE1), (0xD2, 0xE8), (0xD3, 0xE9)]"

text \<open>\<^verbatim>\<open>kbdgetc\<close> on the byte at the data port, \<open>None\<close> when the status port shows no data: the result and the new \<^verbatim>\<open>shift\<close>.\<close>

definition kbdgetc :: "uchar option \<Rightarrow> uint \<Rightarrow> cint \<times> uint" where
  "kbdgetc port shift =
     (case port of
        None \<Rightarrow> (-1, shift)
      | Some b \<Rightarrow>
          let data = ucast b :: uint
          in if data = 0xE0 then (0, shift OR E0ESC)
             else if data AND 0x80 \<noteq> 0 then
               let data = (if shift AND E0ESC \<noteq> 0 then data else data AND 0x7F)
               in (0, shift AND NOT (shiftcode (unat data) OR E0ESC))
             else
               let (data, shift) = (if shift AND E0ESC \<noteq> 0 then (data OR 0x80, shift AND NOT E0ESC) else (data, shift));
                   shift = shift OR shiftcode (unat data);
                   shift = shift XOR togglecode (unat data);
                   c = (if shift AND (CTL OR SHIFT) = 0 then normalmap
                        else if shift AND (CTL OR SHIFT) = 1 then shiftmap else ctlmap) (unat data);
                   c = (if shift AND CAPSLOCK \<noteq> 0 then
                          if 97 \<le> c \<and> c \<le> 122 then c + (65 - 97)
                          else if 65 \<le> c \<and> c \<le> 90 then c + (97 - 65) else c
                        else c)
               in (c, shift))"

text \<open>The characters that \<^verbatim>\<open>consoleintr\<close> gets from \<^verbatim>\<open>kbdgetc\<close> while the controller has bytes.\<close>

primrec kbd_chars :: "uchar list \<Rightarrow> uint \<Rightarrow> cint list \<times> uint" where
  "kbd_chars [] shift = ([], shift)"
| "kbd_chars (b # bs) shift =
     (let (c, shift) = kbdgetc (Some b) shift; (cs, shift) = kbd_chars bs shift in (c # cs, shift))"

subsection \<open>Input\<close>

text \<open>The loop that kills a line; at most \<open>k\<close> characters are being edited.\<close>

primrec kill_line :: "nat \<Rightarrow> 'a consst_scheme \<Rightarrow> 'a consst_scheme kres" where
  "kill_line 0 s = Ret s"
| "kill_line (Suc k) s =
     (if in_e s \<noteq> in_w s \<and> in_buf s ! (unat (in_e s - 1) mod INPUT_BUF) \<noteq> 10
      then kbind (consputc BACKSPACE (s\<lparr>in_e := in_e s - 1\<rparr>)) (kill_line k)
      else Ret s)"

definition wake_reader :: "'a consst_scheme \<Rightarrow> 'a consst_scheme kres" where
  "wake_reader s = kbind (wakeup ChInput (lbio s)) (\<lambda>b. Ret (s\<lparr>lbio := b\<rparr>))"

definition console_char :: "cint \<Rightarrow> 'a consst_scheme \<Rightarrow> 'a consst_scheme kres" where
  "console_char c s =
     (if c = 21 then kill_line (unat (in_e s - in_w s)) s
      else if c = 8 \<or> c = 127 then
        (if in_e s \<noteq> in_w s then consputc BACKSPACE (s\<lparr>in_e := in_e s - 1\<rparr>) else Ret s)
      else if c \<noteq> 0 \<and> in_e s - in_r s < of_nat INPUT_BUF then
        let c = (if c = 13 then 10 else c);
            s = s\<lparr>in_buf := (in_buf s)[unat (in_e s) mod INPUT_BUF := ucast c], in_e := in_e s + 1\<rparr>
        in kbind (consputc c s) (\<lambda>s.
             if c = 10 \<or> c = 4 \<or> in_e s = in_r s + of_nat INPUT_BUF
             then wake_reader (s\<lparr>in_w := in_e s\<rparr>) else Ret s)
      else Ret s)"

text \<open>The loop over the characters; the result says whether the process listing was asked for.\<close>

primrec consoleintr_loop :: "cint list \<Rightarrow> bool \<Rightarrow> 'a consst_scheme \<Rightarrow> (bool \<times> 'a consst_scheme) kres" where
  "consoleintr_loop [] dump s = Ret (dump, s)"
| "consoleintr_loop (c # cs) dump s =
     (if c = 16 then consoleintr_loop cs True s
      else kbind (console_char c s) (consoleintr_loop cs dump))"

definition consoleintr :: "cint list \<Rightarrow> 'a consst_scheme \<Rightarrow> (bool \<times> 'a consst_scheme) kres" where
  "consoleintr cs s =
     kbind (cons_acquire s) (\<lambda>s.
     kbind (consoleintr_loop cs False s) (\<lambda>(dump, s).
     kbind (cons_release s) (\<lambda>s. Ret (dump, s))))"

text \<open>A read that sleeps has copied up to \<open>dst\<close> and has \<open>n\<close> bytes to go.\<close>

datatype cread = CDone cint | CSleep uint nat

definition cread_end :: "nat \<Rightarrow> nat \<Rightarrow> cint \<Rightarrow> 'a consst_scheme \<Rightarrow> (cread \<times> 'a consst_scheme) kres" where
  "cread_end cur i r s = kbind (cons_release s) (\<lambda>s. kbind (ilock cur i s) (\<lambda>s. Ret (CDone r, s)))"

primrec consoleread_loop :: "nat \<Rightarrow> nat \<Rightarrow> uint \<Rightarrow> uint \<Rightarrow> nat \<Rightarrow> 'a consst_scheme \<Rightarrow> (cread \<times> 'a consst_scheme) kres" where
  "consoleread_loop cur i target dst 0 s = cread_end cur i target s"
| "consoleread_loop cur i target dst (Suc n) s =
     (if in_r s = in_w s then
        if killed (procs (lbio s) ! cur) then cread_end cur i (-1) s
        else kbind (sleep_enter (Some cur) ChInput (Some (cons_lock s)) (lbio s)) (\<lambda>(lk, b).
               Ret (CSleep dst (Suc n), s\<lparr>cons_lock := the lk, lbio := b\<rparr>))
      else
        let c = in_buf s ! (unat (in_r s) mod INPUT_BUF); s = s\<lparr>in_r := in_r s + 1\<rparr>
        in if c = 4 then
             cread_end cur i (target - of_nat (Suc n)) (if of_nat (Suc n) < target then s\<lparr>in_r := in_r s - 1\<rparr> else s)
           else
             let s = s\<lparr>lbio := set_mem ((kmemory (lbio s))(dst := c)) (lbio s)\<rparr>
             in if c = 10 then cread_end cur i (target - of_nat n) s
                else consoleread_loop cur i target (dst + 1) n s)"

definition consoleread :: "nat \<Rightarrow> nat \<Rightarrow> uint \<Rightarrow> cint \<Rightarrow> 'a consst_scheme \<Rightarrow> (cread \<times> 'a consst_scheme) kres" where
  "consoleread cur i dst n s =
     kbind (iunlock cur i s) (\<lambda>s.
     kbind (cons_acquire s) (\<lambda>s.
       if 0 < sint n then consoleread_loop cur i n dst (nat (sint n)) s else cread_end cur i 0 s))"

definition consoleread_resume :: "nat \<Rightarrow> nat \<Rightarrow> uint \<Rightarrow> uint \<Rightarrow> nat \<Rightarrow> 'a consst_scheme \<Rightarrow> (cread \<times> 'a consst_scheme) kres" where
  "consoleread_resume cur i target dst n s =
     kbind (sleep_exit cur (Some (cons_lock s)) (lbio s)) (\<lambda>(lk, b).
       consoleread_loop cur i target dst n (s\<lparr>cons_lock := the lk, lbio := b\<rparr>))"

subsection \<open>The screen\<close>

definition screen_ok :: "'a consst_scheme \<Rightarrow> bool" where
  "screen_ok s \<longleftrightarrow> \<not> panicked s \<and> 2000 \<le> length (crt s) \<and> unat (cursor s) < 1920"

lemma length_scroll_up: "1920 \<le> length cells \<Longrightarrow> length (scroll_up cells pos) = length cells"
  by (auto simp: scroll_up_def Let_def max_def min_def)

lemma next_row:
  assumes "p < (1920 :: nat)"
  shows "p + (80 - p mod 80) \<le> 1920"
proof -
  have "p div 80 < 24" "p mod 80 < 80" "80 * (p div 80) + p mod 80 = p" using assms by auto
  then show ?thesis by linarith
qed

text \<open>A character is always accepted: the cursor stays on the first 24 rows and no cell outside the screen is written.\<close>

lemma cga_move_ok:
  assumes "pos < 1920" "2000 \<le> length cells"
  shows "\<exists>q cells'. cga_move c pos cells = Ret (q, cells') \<and> q \<le> 1920 \<and> length cells' = length cells"
proof -
  consider "c = 10" | "c = BACKSPACE" | "c \<noteq> 10" "c \<noteq> BACKSPACE" by blast
  then show ?thesis
  proof cases
    case 1
    then show ?thesis using next_row [OF assms(1)] by (simp add: cga_move_def)
  qed (use assms in \<open>auto simp: cga_move_def aset_def\<close>)
qed

lemma consputc_ok:
  assumes "screen_ok s"
  shows "\<exists>u cells k. consputc c s = Ret (s\<lparr>uart_out := u, crt := cells, cursor := k\<rparr>) \<and> length cells = length (crt s) \<and> unat k < 1920"
proof -
  let ?u = "uart_out s @ (if c = BACKSPACE then [8, 32, 8] else [ucast c])"
  obtain pos cells where p: "cga_move c (unat (cursor s)) (crt s) = Ret (pos, cells)" "pos \<le> 1920" "length cells = length (crt s)"
    using cga_move_ok [of "unat (cursor s)" "crt s" c] assms unfolding screen_ok_def by blast
  obtain q cs where qe: "(if 24 \<le> pos div 80 then (pos - 80, scroll_up cells (pos - 80)) else (pos, cells)) = (q, cs)" by (rule prod.exhaust)
  have q: "q < 1920" "length cs = length (crt s)"
    using p(2,3) qe assms length_scroll_up [of cells "pos - 80"] by (auto simp: screen_ok_def split: if_splits)
  then have "consputc c s = Ret (s\<lparr>uart_out := ?u, crt := cs[q := 0x0720], cursor := of_nat q\<rparr>)"
    using p assms by (simp add: consputc_def cgaputc_def screen_ok_def Let_def qe aset_def)
  moreover have "unat (of_nat q :: 16 word) = q" using q(1) by (simp add: unat_of_nat take_bit_nat_eq_self)
  ultimately show ?thesis using q by (intro exI [of _ ?u] exI [of _ "cs[q := 0x0720]"] exI [of _ "of_nat q"]) simp
qed

subsection \<open>The input line\<close>

definition committed :: "'a consst_scheme \<Rightarrow> uchar list" where
  "committed s = ring_contents (in_buf s) (in_r s) (in_w s)"

definition editing :: "'a consst_scheme \<Rightarrow> uchar list" where
  "editing s = ring_contents (in_buf s) (in_w s) (in_e s)"

definition input_ok :: "'a consst_scheme \<Rightarrow> bool" where
  "input_ok s \<longleftrightarrow> length (in_buf s) = INPUT_BUF \<and> unat (in_e s - in_r s) \<le> INPUT_BUF \<and>
     unat (in_w s - in_r s) \<le> unat (in_e s - in_r s) \<and> 10 \<notin> set (editing s)"

text \<open>Line editing on the bytes given to readers and the bytes still being edited.\<close>

definition edit_step :: "cint \<Rightarrow> uchar list \<times> uchar list \<Rightarrow> uchar list \<times> uchar list" where
  "edit_step c = (\<lambda>(com, ed).
     if c = 16 then (com, ed)
     else if c = 21 then (com, [])
     else if c = 8 \<or> c = 127 then (com, butlast ed)
     else if c \<noteq> 0 \<and> length com + length ed < INPUT_BUF then
       let b = (if c = 13 then 10 else ucast c); ed = ed @ [b]
       in if b = 10 \<or> b = 4 \<or> length com + length ed = INPUT_BUF then (com @ ed, []) else (com, ed)
     else (com, ed))"

lemma input_lengths:
  assumes "input_ok s"
  shows "unat (in_e s - in_r s) = length (committed s) + length (editing s)"
    "ring_contents (in_buf s) (in_r s) (in_e s) = committed s @ editing s" "length (editing s) = unat (in_e s - in_w s)"
    "editing s = [] \<longleftrightarrow> in_e s = in_w s"
proof -
  have w: "unat (in_w s - in_r s) \<le> unat (in_e s - in_r s)" using assms by (simp add: input_ok_def)
  show "unat (in_e s - in_r s) = length (committed s) + length (editing s)" "length (editing s) = unat (in_e s - in_w s)"
    using ring_between [OF w] w by (simp_all add: committed_def editing_def)
  then show "editing s = [] \<longleftrightarrow> in_e s = in_w s" using length_0_conv [of "editing s"] by (simp add: unat_eq_0)
  show "ring_contents (in_buf s) (in_r s) (in_e s) = committed s @ editing s"
    unfolding committed_def editing_def by (rule ring_split [OF w])
qed

lemma input_drop:
  assumes "input_ok s" "in_e s \<noteq> in_w s" "t = s\<lparr>in_e := in_e s - 1, uart_out := u, crt := cells, cursor := k\<rparr>"
  shows "input_ok t" "committed t = committed s" "editing t = butlast (editing s)"
proof -
  have n: "in_w s \<noteq> in_e s" using assms(2) by simp
  show e: "editing t = butlast (editing s)" using ring_drop_last(2) [OF n] by (simp add: assms(3) editing_def)
  show "committed t = committed s" by (simp add: assms(3) committed_def)
  have "in_r s \<noteq> in_e s" using input_lengths(1,4) [OF assms(1)] assms(2) by auto
  then have "unat (in_e s - 1 - in_r s) = unat (in_e s - in_r s) - 1" by (rule ring_drop_last(1))
  moreover have "unat (in_w s - in_r s) < unat (in_e s - in_r s)"
    using input_lengths(1,4) [OF assms(1)] assms(2) by (simp add: committed_def)
  ultimately show "input_ok t" using assms(1) e in_set_butlastD [of 10 "editing s"] by (auto simp: input_ok_def assms(3))
qed

lemma input_put:
  assumes "input_ok s" "unat (in_e s - in_r s) < INPUT_BUF"
    "t = s\<lparr>in_buf := (in_buf s)[unat (in_e s) mod INPUT_BUF := b], in_e := in_e s + 1, uart_out := u, crt := cells, cursor := k\<rparr>"
  shows "unat (in_e t - in_r t) = Suc (unat (in_e s - in_r s))" "unat (in_w t - in_r t) \<le> unat (in_e t - in_r t)"
    "committed t = committed s" "editing t = editing s @ [b]"
proof -
  have l: "length (in_buf s) = INPUT_BUF" using assms(1) by (simp add: input_ok_def)
  have wf: "ring_wf (in_buf s) (in_r s) (in_e s)" using assms(1,2) by (simp add: ring_wf_def l)
  have lt: "unat (in_e s - in_r s) < length (in_buf s)" using assms(2) l by simp
  note p = ring_put(2) [OF wf lt, of b, unfolded l]
  then have "length (ring_contents (in_buf t) (in_r t) (in_e t)) = Suc (unat (in_e s - in_r s))" by (simp add: assms(3))
  then show u: "unat (in_e t - in_r t) = Suc (unat (in_e s - in_r s))" by simp
  show w: "unat (in_w t - in_r t) \<le> unat (in_e t - in_r t)" using assms(1) unfolding u by (simp add: assms(3) input_ok_def)
  have "committed t @ editing t = (committed s @ editing s) @ [b]"
    using ring_split [OF w, of "in_buf t"] p input_lengths(2) [OF assms(1)] by (simp add: assms(3) committed_def editing_def)
  moreover have "length (committed t) = length (committed s)" by (simp add: committed_def assms(3))
  ultimately show "committed t = committed s" "editing t = editing s @ [b]" by (simp_all add: append_assoc)
qed

lemma screen_ok_upd: "screen_ok (s\<lparr>uart_out := u, crt := cells, cursor := k\<rparr>) \<longleftrightarrow> \<not> panicked s \<and> 2000 \<le> length cells \<and> unat k < 1920"
  by (simp add: screen_ok_def)

text \<open>What a step of the interrupt handler keeps.\<close>

definition kept :: "'a consst_scheme \<Rightarrow> 'a consst_scheme \<Rightarrow> bool" where
  "kept s t \<longleftrightarrow> input_ok t \<and> screen_ok t \<and> cons_lock t = cons_lock s \<and> ptlock (lbio t) = ptlock (lbio s)"

lemma kill_line_eq:
  assumes "input_ok s" "screen_ok s" "length (editing s) = k"
  shows "\<exists>t. kill_line k s = Ret t \<and> kept s t \<and> committed t = committed s \<and> editing t = []"
  using assms
proof (induction k arbitrary: s)
  case 0
  then show ?case by (simp add: kept_def)
next
  case (Suc k)
  have ne: "in_e s \<noteq> in_w s" using Suc.prems(3) input_lengths(4) [OF Suc.prems(1)] by auto
  have e: "editing s \<noteq> []" using Suc.prems(3) by auto
  have "last (editing s) = in_buf s ! (unat (in_e s - 1) mod INPUT_BUF)"
    using ring_last [OF ne [symmetric], of "in_buf s"] Suc.prems(1) by (simp add: editing_def input_ok_def)
  moreover have "last (editing s) \<noteq> 10" using Suc.prems(1) last_in_set [OF e] by (auto simp: input_ok_def)
  moreover obtain u cells j where c: "consputc BACKSPACE (s\<lparr>in_e := in_e s - 1\<rparr>) = Ret (s\<lparr>in_e := in_e s - 1, uart_out := u, crt := cells, cursor := j\<rparr>)"
    "length cells = length (crt s)" "unat j < 1920"
    using consputc_ok [of "s\<lparr>in_e := in_e s - 1\<rparr>" BACKSPACE] Suc.prems(2) by (auto simp: screen_ok_def)
  let ?t = "s\<lparr>in_e := in_e s - 1, uart_out := u, crt := cells, cursor := j\<rparr>"
  note d = input_drop [OF Suc.prems(1) ne refl, where u = u and cells = cells and k = j]
  have "screen_ok ?t" using Suc.prems(2) c(2,3) by (simp add: screen_ok_def)
  then obtain t where "kill_line k ?t = Ret t" "kept ?t t" "committed t = committed s" "editing t = []"
    using Suc.IH [OF d(1)] d(2,3) Suc.prems(3) by auto
  ultimately show ?case using ne c(1) by (auto simp: kept_def)
qed

lemma ring_full: "e = r + of_nat INPUT_BUF \<longleftrightarrow> unat (e - r) = INPUT_BUF" for e r :: uint
proof -
  have "unat (e - r) = INPUT_BUF \<longleftrightarrow> e - r = 128" using word_unat_eq_iff [of "e - r" 128] by simp
  then show ?thesis by (auto simp: diff_eq_eq add.commute)
qed

lemma ucast_byte: "c < 256 \<Longrightarrow> n < 256 \<Longrightarrow> (ucast c = (of_nat n :: uchar)) \<longleftrightarrow> c = of_nat n" for c :: cint
  by (simp add: word_unat_eq_iff unsigned_ucast_eq unat_of_nat take_bit_nat_eq_self word_less_nat_alt)

text \<open>Giving the line to the readers.\<close>

lemma commit_line:
  assumes "length (in_buf s) = INPUT_BUF" "unat (in_e s - in_r s) \<le> INPUT_BUF" "unat (in_w s - in_r s) \<le> unat (in_e s - in_r s)"
    "screen_ok s" "\<not> ptlock (lbio s)"
  shows "\<exists>t. wake_reader (s\<lparr>in_w := in_e s\<rparr>) = Ret t \<and> kept s t \<and> committed t = committed s @ editing s \<and> editing t = []"
proof -
  let ?t = "s\<lparr>in_w := in_e s, lbio := wakeup1 ChInput (lbio s)\<rparr>"
  have "wake_reader (s\<lparr>in_w := in_e s\<rparr>) = Ret ?t" using assms(5) by (simp add: wake_reader_def wakeup_eq)
  moreover have e: "committed ?t = committed s @ editing s" "editing ?t = []"
    using ring_split [OF assms(3), of "in_buf s"] by (simp_all add: committed_def editing_def) (simp add: ring_contents_def)
  moreover have "kept s ?t" using assms(1,2,4) e(2) by (simp add: kept_def input_ok_def screen_ok_def)
  ultimately show ?thesis by blast
qed

lemma console_put:
  assumes "input_ok s" "screen_ok s" "\<not> ptlock (lbio s)" "c < 256" "c \<notin> {0, 8, 16, 21, 127}" "unat (in_e s - in_r s) < INPUT_BUF"
  shows "\<exists>t. console_char c s = Ret t \<and> kept s t \<and> (committed t, editing t) = edit_step c (committed s, editing s)"
proof -
  define d where "d = (if c = 13 then 10 else c)"
  define b where "b = (ucast d :: uchar)"
  have "d < 256" using assms(4) by (simp add: d_def)
  then have b: "b = (if c = 13 then 10 else ucast c)" "b = 10 \<longleftrightarrow> d = 10" "b = 4 \<longleftrightarrow> d = 4"
    using ucast_byte [of d 10] ucast_byte [of d 4] by (simp_all add: b_def) (simp_all add: d_def)
  let ?s = "s\<lparr>in_buf := (in_buf s)[unat (in_e s) mod INPUT_BUF := b], in_e := in_e s + 1\<rparr>"
  obtain u cells j where c: "consputc d ?s = Ret (?s\<lparr>uart_out := u, crt := cells, cursor := j\<rparr>)" "length cells = length (crt s)" "unat j < 1920"
    using consputc_ok [of ?s d] assms(2) by (auto simp: screen_ok_def)
  define t where "t = ?s\<lparr>uart_out := u, crt := cells, cursor := j\<rparr>"
  have ts: "t = s\<lparr>in_buf := (in_buf s)[unat (in_e s) mod INPUT_BUF := b], in_e := in_e s + 1, uart_out := u, crt := cells, cursor := j\<rparr>" by (simp add: t_def)
  note p = input_put [OF assms(1,6) ts]
  have k: "length (in_buf t) = INPUT_BUF" "unat (in_e t - in_r t) \<le> INPUT_BUF" "screen_ok t" "\<not> ptlock (lbio t)" "cons_lock t = cons_lock s" "lbio t = lbio s"
    using assms(1-3,6) p(1) c(2,3) by (simp_all add: ts input_ok_def screen_ok_def)
  let ?full = "d = 10 \<or> d = 4 \<or> in_e t = in_r t + of_nat INPUT_BUF"
  have l: "in_e t = in_r t + of_nat INPUT_BUF \<longleftrightarrow> length (committed s) + length (editing s @ [b]) = INPUT_BUF"
    unfolding ring_full p(1) using input_lengths(1) [OF assms(1)] by simp
  have e: "console_char c s = (if ?full then wake_reader (t\<lparr>in_w := in_e t\<rparr>) else Ret t)"
    using assms(5,6) c(1) by (simp add: console_char_def Let_def d_def [symmetric] b_def [symmetric] t_def [symmetric] word_less_nat_alt)
  have a: "edit_step c (committed s, editing s) = (if ?full then (committed s @ editing s @ [b], []) else (committed s, editing s @ [b]))"
    using assms(5,6) input_lengths(1) [OF assms(1)] unfolding edit_step_def l b(2,3) [symmetric]
    by (simp add: Let_def b(1) [symmetric])
  show ?thesis
  proof (cases ?full)
    case True
    then show ?thesis using commit_line [OF k(1,2) p(2) k(3,4)] k(5,6) unfolding e a by (auto simp: kept_def p(3,4))
  next
    case False
    then have "kept s t" using k p assms(1) b(2) by (auto simp: kept_def input_ok_def)
    with False show ?thesis unfolding e a by (simp add: p(3,4))
  qed
qed

lemma console_char_eq:
  assumes "input_ok s" "screen_ok s" "\<not> ptlock (lbio s)" "c < 256" "c \<noteq> 16"
  shows "\<exists>t. console_char c s = Ret t \<and> kept s t \<and> (committed t, editing t) = edit_step c (committed s, editing s)"
proof -
  consider "c = 21" | "c = 8 \<or> c = 127" | "c \<notin> {8, 16, 21, 127}" "c = 0 \<or> \<not> unat (in_e s - in_r s) < INPUT_BUF"
    | "c \<notin> {0, 8, 16, 21, 127}" "unat (in_e s - in_r s) < INPUT_BUF" using assms(5) by blast
  then show ?thesis
  proof cases
    case 1
    then show ?thesis using kill_line_eq [OF assms(1,2)] input_lengths(3) [OF assms(1)] by (simp add: console_char_def edit_step_def)
  next
    case 2
    show ?thesis
    proof (cases "in_e s = in_w s")
      case True
      then have "editing s = []" using input_lengths(4) [OF assms(1)] by simp
      then show ?thesis using 2 True assms by (auto simp: console_char_def edit_step_def kept_def)
    next
      case False
      obtain u cells j where c: "consputc BACKSPACE (s\<lparr>in_e := in_e s - 1\<rparr>) = Ret (s\<lparr>in_e := in_e s - 1, uart_out := u, crt := cells, cursor := j\<rparr>)"
        "length cells = length (crt s)" "unat j < 1920"
        using consputc_ok [of "s\<lparr>in_e := in_e s - 1\<rparr>" BACKSPACE] assms(2) by (auto simp: screen_ok_def)
      then show ?thesis using 2 False input_drop [OF assms(1) False refl, where u = u and cells = cells and k = j] assms(2)
        by (auto simp: console_char_def edit_step_def kept_def screen_ok_def)
    qed
  next
    case 3
    then show ?thesis using assms input_lengths(1) [OF assms(1)]
      by (auto simp: console_char_def edit_step_def kept_def word_less_nat_alt)
  next
    case 4
    then show ?thesis using console_put [OF assms(1-4)] by simp
  qed
qed

lemma edit_step_dump: "edit_step 16 = id"
  by (auto simp: edit_step_def)

lemma consoleintr_loop_eq:
  assumes "input_ok s" "screen_ok s" "\<not> ptlock (lbio s)" "\<forall>c\<in>set cs. c < 256"
  shows "\<exists>t. consoleintr_loop cs d s = Ret (d \<or> 16 \<in> set cs, t) \<and> kept s t \<and>
    (committed t, editing t) = fold edit_step cs (committed s, editing s)"
  using assms
proof (induction cs arbitrary: d s)
  case Nil
  then show ?case by (simp add: kept_def)
next
  case (Cons c cs)
  show ?case
  proof (cases "c = 16")
    case True
    then show ?thesis using Cons.IH [OF Cons.prems(1-3), of True] Cons.prems(4) edit_step_dump by auto
  next
    case False
    obtain u where u: "console_char c s = Ret u" "kept s u" "(committed u, editing u) = edit_step c (committed s, editing s)"
      using console_char_eq [OF Cons.prems(1-3) _ False] Cons.prems(4) by auto
    then have "input_ok u" "screen_ok u" "\<not> ptlock (lbio u)" using Cons.prems(3) by (simp_all add: kept_def)
    then obtain t where "consoleintr_loop cs d u = Ret (d \<or> 16 \<in> set cs, t)" "kept u t"
      "(committed t, editing t) = fold edit_step cs (committed u, editing u)" using Cons.IH Cons.prems(4) by fastforce
    with u False show ?thesis by (auto simp: kept_def)
  qed
qed

text \<open>
  C14. The interrupt handler is a line editor: from a state whose ring is in order, with the console lock and the
  process table lock free, \<^verbatim>\<open>consoleintr\<close> on any characters ends without a panic and with the lock free again; the bytes given to
  readers and the bytes being edited are those of the abstract editor (backspace drops the last byte being edited and never one
  already given to readers, control-U drops them all, newline, control-D and a full ring give the line to the readers), and the process
  listing is asked for exactly when control-P is typed.
\<close>

theorem consoleintr_edits_line:
  assumes "input_ok s" "screen_ok s" "\<not> cons_lock s" "\<not> ptlock (lbio s)" "\<forall>c\<in>set cs. c < 256"
  shows "\<exists>t. consoleintr cs s = Ret (16 \<in> set cs, t) \<and> input_ok t \<and> screen_ok t \<and> \<not> cons_lock t \<and>
    (committed t, editing t) = fold edit_step cs (committed s, editing s)"
proof -
  let ?s = "s\<lparr>cons_lock := True\<rparr>"
  have q: "input_ok ?s" "screen_ok ?s" "\<not> ptlock (lbio ?s)" "committed ?s = committed s" "editing ?s = editing s"
    using assms by (simp_all add: input_ok_def screen_ok_def committed_def editing_def)
  obtain t where t: "consoleintr_loop cs False ?s = Ret (16 \<in> set cs, t)" "kept ?s t"
    "(committed t, editing t) = fold edit_step cs (committed s, editing s)"
    using consoleintr_loop_eq [OF q(1-3) assms(5), of False] q(4,5) by auto
  let ?t = "t\<lparr>cons_lock := False\<rparr>"
  have "consoleintr cs s = Ret (16 \<in> set cs, ?t)"
    using assms(3) t by (simp add: consoleintr_def cons_acquire_def cons_release_def lock_acquire_def lock_release_def kept_def)
  moreover have "input_ok ?t" "screen_ok ?t" "committed ?t = committed t" "editing ?t = editing t"
    using t(2) by (simp_all add: kept_def input_ok_def screen_ok_def committed_def editing_def)
  ultimately show ?thesis using t(3) by (intro exI [of _ ?t]) simp
qed

text \<open>A console with an empty ring and the cursor at the top of an empty screen.\<close>

definition console0 :: consst where
  "console0 = \<lparr>lbio = bio0, lg_lock = False, lg_start = 2, lg_size = 30, outstanding = 0, committing = False, lg_dev = 1, lh = [],
     sb = \<lparr>sb_size = 0, sb_nblocks = 0, sb_ninodes = 0, sb_nlog = 0, sb_logstart = 0, sb_inodestart = 0, sb_bmapstart = 0\<rparr>, ic_lock = False, inodes = [],
     cons_lock = False, cons_locking = True, panicked = False, in_buf = replicate INPUT_BUF 0, in_r = 0, in_w = 0, in_e = 0,
     uart_out = [], crt = replicate 2000 0, cursor = 0\<rparr>"

theorem consoleintr_edits_line_witness:
  "\<exists>t. consoleintr [108, 120, 8, 115, 13, 97] console0 = Ret (False, t) \<and> committed t = [108, 115, 10] \<and> editing t = [97]"
proof -
  have "input_ok console0" "screen_ok console0" "\<not> cons_lock console0" "\<not> ptlock (lbio console0)"
    "committed console0 = []" "editing console0 = []"
    by (simp_all add: input_ok_def screen_ok_def console0_def bio0_def committed_def editing_def ring_contents_def)
  then show ?thesis using consoleintr_edits_line [of console0 "[108, 120, 8, 115, 13, 97]"] by (auto simp: edit_step_def Let_def)
qed

subsection \<open>Reading a line\<close>

lemma committed_Cons:
  assumes "length (in_buf s) = INPUT_BUF" "unat (in_w s - in_r s) \<le> INPUT_BUF" "committed s = c # cs"
  shows "in_r s \<noteq> in_w s" "in_buf s ! (unat (in_r s) mod INPUT_BUF) = c" "ring_contents (in_buf s) (in_r s + 1) (in_w s) = cs"
    "unat (in_w s - (in_r s + 1)) \<le> INPUT_BUF"
proof -
  show ne: "in_r s \<noteq> in_w s" using assms(3) by (auto simp: committed_def ring_contents_def)
  have "ring_wf (in_buf s) (in_r s) (in_w s)" using assms(1,2) by (simp add: ring_wf_def)
  note g = ring_get [OF this ne]
  show "in_buf s ! (unat (in_r s) mod INPUT_BUF) = c" "ring_contents (in_buf s) (in_r s + 1) (in_w s) = cs"
    using g(2) assms(1,3) by (simp_all add: committed_def)
  show "unat (in_w s - (in_r s + 1)) \<le> INPUT_BUF" using g(1) assms(1) by (simp add: ring_wf_def)
qed

text \<open>A reader whose buffer is large enough gets the first committed line up to its newline, and the rest stays for the next read.\<close>

lemma consoleread_line:
  assumes "length (in_buf s) = INPUT_BUF" "unat (in_w s - in_r s) \<le> INPUT_BUF" "committed s = l @ 10 # rest"
    "10 \<notin> set l" "4 \<notin> set l" "length l < n"
  shows "\<exists>t. consoleread_loop cur i target dst n s = cread_end cur i (target - of_nat (n - Suc (length l))) t \<and> committed t = rest \<and>
    editing t = editing s \<and> kmemory (lbio t) = write_bytes (kmemory (lbio s)) dst (l @ [10])"
  using assms
proof (induction l arbitrary: s dst n)
  case Nil
  then obtain m where n: "n = Suc m" by (cases n) auto
  have "committed s = 10 # rest" using Nil.prems(3) by simp
  note g = committed_Cons [OF Nil.prems(1,2) this]
  let ?t = "s\<lparr>in_r := in_r s + 1, lbio := set_mem ((kmemory (lbio s))(dst := 10)) (lbio s)\<rparr>"
  show ?case using g by (intro exI [of _ ?t]) (simp add: n Let_def committed_def editing_def)
next
  case (Cons c l)
  then obtain m where n: "n = Suc m" by (cases n) auto
  have "committed s = c # (l @ 10 # rest)" using Cons.prems(3) by simp
  note g = committed_Cons [OF Cons.prems(1,2) this]
  let ?s = "s\<lparr>in_r := in_r s + 1, lbio := set_mem ((kmemory (lbio s))(dst := c)) (lbio s)\<rparr>"
  have "consoleread_loop cur i target dst n s = consoleread_loop cur i target (dst + 1) m ?s"
    using g(1,2) Cons.prems(4,5) by (simp add: n Let_def)
  moreover have "committed ?s = l @ 10 # rest" "editing ?s = editing s" using g(3) by (simp_all add: committed_def editing_def)
  ultimately show ?case using Cons.IH [of ?s m "dst + 1"] g(4) Cons.prems by (simp add: n fun_upd_def)
qed

end
