(* ===== verification/Maekawa.thy ===== *)
theory Maekawa
  imports Prelude Ring
begin

text \<open>
  The distributed mutual exclusion program of the second assignment, \<^verbatim>\<open>src/a2/maekawa.c\<close>. The processes form a square; the
  quorum of a process is its row and its column. A process asks its quorum for votes, gives its own vote to one
  process at a time and passes it on when a release arrives. All messages are plain integers: a request and a reply both are the process id
  of the asking process, and a release is the number 100.

  A process is a state machine whose states are the calls of \<^verbatim>\<open>recv\<close> and \<^verbatim>\<open>barrier\<close> and the sections between them; a
  system is a process for each number below the size of the group, with a mailbox for each. \<^verbatim>\<open>recv\<close> may take any message of the
  mailbox, so nothing depends on the order in which the kernel delivers; the barrier opens when the whole group has arrived.
  Process ids and messages are integers; a message is the one \<^verbatim>\<open>int\<close> that the program reads, the second half of the eight
  bytes that the kernel copies is not modelled.
\<close>

subsection \<open>The queue of a process\<close>

record simple_queue =
  queue :: "int list"
  head :: nat
  tail :: nat

definition empty_queue :: simple_queue where
  "empty_queue = \<lparr>queue = replicate 100 0, head = 0, tail = 0\<rparr>"

definition enque :: "int \<Rightarrow> simple_queue \<Rightarrow> simple_queue" where
  "enque v q = q\<lparr>queue := (queue q)[tail q := v], tail := (tail q + 1) mod 100\<rparr>"

definition deque :: "simple_queue \<Rightarrow> int \<times> simple_queue" where
  "deque q =
     (if head q = tail q then (-1, q)
      else (queue q ! head q, q\<lparr>head := (head q + 1) mod 100\<rparr>))"

subsection \<open>The program of a process\<close>

text \<open>The group: \<^verbatim>\<open>P\<close>, \<^verbatim>\<open>P1\<close> and the id of the first process. The table \<^verbatim>\<open>proc_pids\<close> relies on consecutive ids.\<close>

record mcfg =
  mP :: int
  mP1 :: int
  parent_pid :: int

definition grid_size :: "int \<Rightarrow> nat" where
  "grid_size P = (if P = 4 then 2 else if P = 9 then 3 else if P = 16 then 4 else if P = 25 then 5 else 0)"

abbreviation side :: "mcfg \<Rightarrow> nat" where
  "side c \<equiv> grid_size (mP c)"

abbreviation group :: "mcfg \<Rightarrow> nat" where
  "group c \<equiv> side c * side c"

text \<open>The entry of row \<open>i\<close> and column \<open>j\<close> has number \<open>side * i + j\<close>.\<close>

definition proc_pids :: "mcfg \<Rightarrow> nat \<Rightarrow> int" where
  "proc_pids c k = parent_pid c + int k"

definition quorum :: "nat \<Rightarrow> nat \<Rightarrow> nat list" where
  "quorum sz n = filter (\<lambda>k. k div sz = n div sz \<or> k mod sz = n mod sz) [0..<sz * sz]"

datatype mpc =
    Ask nat | AskBarrier nat | Barrier1 | First | Rest nat | Barrier2 | Votes | Critical | Release | Serve | Finished

record node =
  pc :: mpc
  que :: simple_queue
  num :: nat
  procs_done :: nat

text \<open>
  Asking the quorum, when it is the turn of the process, and sending the releases. The messages sent are pairs of a destination
  and a value.
\<close>

definition ask_turn :: "mcfg \<Rightarrow> nat \<Rightarrow> nat \<Rightarrow> node \<Rightarrow> node \<times> (int \<times> int) list" where
  "ask_turn c n k nd =
     (nd\<lparr>pc := AskBarrier k\<rparr>, if k = n then map (\<lambda>x. (proc_pids c x, proc_pids c n)) (quorum (side c) n) else [])"

definition release_turn :: "mcfg \<Rightarrow> nat \<Rightarrow> node \<Rightarrow> node \<times> (int \<times> int) list" where
  "release_turn c n nd = (nd\<lparr>pc := Serve\<rparr>, map (\<lambda>x. (proc_pids c x, 100)) (quorum (side c) n))"

definition act :: "mcfg \<Rightarrow> nat \<Rightarrow> node \<Rightarrow> (node \<times> (int \<times> int) list) option" where
  "act c n nd =
     (case pc nd of
        Ask k \<Rightarrow> Some (ask_turn c n k nd)
      | Critical \<Rightarrow> Some (nd\<lparr>pc := Release\<rparr>, [])
      | Release \<Rightarrow> Some (release_turn c n nd)
      | _ \<Rightarrow> None)"

text \<open>A release passes the vote on.\<close>

definition pass_vote :: "node \<Rightarrow> node \<times> (int \<times> int) list" where
  "pass_vote nd = (let (t, q) = deque (que nd) in (nd\<lparr>que := q, procs_done := procs_done nd + 1\<rparr>, [(t, t)]))"

definition rest_pc :: "mcfg \<Rightarrow> nat \<Rightarrow> mpc" where
  "rest_pc c p = (if p < 2 * side c - 2 then Rest p else Barrier2)"

definition rest_turn :: "mcfg \<Rightarrow> nat \<Rightarrow> int \<Rightarrow> node \<Rightarrow> node" where
  "rest_turn c p m nd =
     (if m = -1 then nd\<lparr>pc := Barrier2\<rparr> else nd\<lparr>que := enque m (que nd), pc := rest_pc c (p + 1)\<rparr>)"

definition vote_turn :: "mcfg \<Rightarrow> nat \<Rightarrow> int \<Rightarrow> node \<Rightarrow> node \<times> (int \<times> int) list" where
  "vote_turn c n m nd =
     (if m = proc_pids c n then (nd\<lparr>num := num nd + 1\<rparr>, [])
      else if m = 100 then pass_vote nd
      else (nd\<lparr>que := enque m (que nd)\<rparr>, []))"

definition votes_loop :: "mcfg \<Rightarrow> nat \<Rightarrow> int \<Rightarrow> node \<Rightarrow> node \<times> (int \<times> int) list" where
  "votes_loop c n m nd =
     (if m = -1 then (nd, [])
      else
        let (nd, out) = vote_turn c n m nd
        in (if num nd = 2 * side c - 1 then nd\<lparr>pc := if int n < mP1 c then Release else Critical\<rparr> else nd, out))"

definition serve_loop :: "mcfg \<Rightarrow> int \<Rightarrow> node \<Rightarrow> node \<times> (int \<times> int) list" where
  "serve_loop c m nd =
     (if m = -1 then (nd, [])
      else
        let (nd, out) = (if m = 100 then pass_vote nd else (nd, []))
        in (if 2 * side c - 1 \<le> procs_done nd then nd\<lparr>pc := Finished\<rparr> else nd, out))"

definition recv_msg :: "mcfg \<Rightarrow> nat \<Rightarrow> int \<Rightarrow> node \<Rightarrow> (node \<times> (int \<times> int) list) option" where
  "recv_msg c n m nd =
     (case pc nd of
        First \<Rightarrow> Some (nd\<lparr>pc := rest_pc c 0\<rparr>, [(m, m)])
      | Rest p \<Rightarrow> Some (rest_turn c p m nd, [])
      | Votes \<Rightarrow> Some (votes_loop c n m nd)
      | Serve \<Rightarrow> Some (serve_loop c m nd)
      | _ \<Rightarrow> None)"

lemmas turn_defs = act_def ask_turn_def release_turn_def recv_msg_def rest_turn_def votes_loop_def serve_loop_def

definition at_barrier :: "mpc \<Rightarrow> bool" where
  "at_barrier p = (case p of AskBarrier k \<Rightarrow> True | Barrier1 \<Rightarrow> True | Barrier2 \<Rightarrow> True | _ \<Rightarrow> False)"

definition leave :: "mcfg \<Rightarrow> mpc \<Rightarrow> mpc" where
  "leave c p =
     (case p of
        AskBarrier k \<Rightarrow> if k + 1 < group c then Ask (k + 1) else Barrier1
      | Barrier1 \<Rightarrow> First
      | Barrier2 \<Rightarrow> Votes
      | _ \<Rightarrow> p)"

subsection \<open>The system\<close>

record msys =
  nodes :: "nat \<Rightarrow> node"
  mail :: "nat \<Rightarrow> int list"

definition minit :: msys where
  "minit = \<lparr>nodes = (\<lambda>n. \<lparr>pc = Ask 0, que = empty_queue, num = 0, procs_done = 0\<rparr>), mail = (\<lambda>n. [])\<rparr>"

text \<open>
  A message whose addressee is not in the group changes no mailbox of the group. The program sends such a message: after the last
  release it sends to the id -1. The kernel has no defined behaviour for it (\<open>enque\<close> of theory \<open>Barrier\<close> faults there);
  this model of the program takes the mail service to drop it.
\<close>

definition deliver :: "mcfg \<Rightarrow> (int \<times> int) list \<Rightarrow> (nat \<Rightarrow> int list) \<Rightarrow> nat \<Rightarrow> int list" where
  "deliver c out ml = (\<lambda>k. ml k @ map snd (filter (\<lambda>(d, v). d = proc_pids c k) out))"

definition drop_nth :: "nat \<Rightarrow> 'b list \<Rightarrow> 'b list" where
  "drop_nth i xs = take i xs @ drop (Suc i) xs"

datatype event = Act nat | Recv nat nat | Open

definition mstep :: "mcfg \<Rightarrow> event \<Rightarrow> msys \<Rightarrow> msys option" where
  "mstep c e s =
     (case e of
        Act n \<Rightarrow>
          if n < group c then
            case act c n (nodes s n) of
              None \<Rightarrow> None
            | Some (nd, out) \<Rightarrow> Some \<lparr>nodes = (nodes s)(n := nd), mail = deliver c out (mail s)\<rparr>
          else None
      | Recv n i \<Rightarrow>
          if n < group c \<and> i < length (mail s n) then
            case recv_msg c n (mail s n ! i) (nodes s n) of
              None \<Rightarrow> None
            | Some (nd, out) \<Rightarrow>
                Some \<lparr>nodes = (nodes s)(n := nd), mail = deliver c out ((mail s)(n := drop_nth i (mail s n)))\<rparr>
          else None
      | Open \<Rightarrow>
          if list_all (\<lambda>n. at_barrier (pc (nodes s n))) [0..<group c]
          then Some (s\<lparr>nodes := \<lambda>n. (nodes s n)\<lparr>pc := leave c (pc (nodes s n))\<rparr>\<rparr>)
          else None)"

inductive mreach :: "mcfg \<Rightarrow> msys \<Rightarrow> bool" for c where
  start: "mreach c minit"
| step: "mreach c s \<Longrightarrow> mstep c e s = Some t \<Longrightarrow> mreach c t"

subsection \<open>Votes in a quorum system\<close>

text \<open>
  The interface to quorums: each process is in its own quorum, membership is symmetric, quorums have \<open>K\<close> members and any two of them meet.
  The counting facts of the protocol follow from this alone.
\<close>

text \<open>
  \<open>H j x\<close> is the number of messages with the id of \<open>x\<close> that \<open>j\<close> has in its mailbox or in its queue, and \<open>g j x\<close> the number of
  times \<open>j\<close> has given its vote to \<open>x\<close>. A process other than \<open>x\<close> has seen at most the request of \<open>x\<close>; \<open>x\<close> itself has seen its own request and the votes of the others.
\<close>

definition balanced :: "nat \<Rightarrow> (nat \<Rightarrow> nat set) \<Rightarrow> (nat \<Rightarrow> bool) \<Rightarrow> (nat \<Rightarrow> nat) \<Rightarrow> (nat \<Rightarrow> nat \<Rightarrow> nat) \<Rightarrow> (nat \<Rightarrow> nat \<Rightarrow> nat) \<Rightarrow> bool" where
  "balanced N Q asked nm H g \<longleftrightarrow>
     (\<forall>j<N. \<forall>x<N. j \<noteq> x \<longrightarrow> H j x + g j x \<le> of_bool (asked x \<and> j \<in> Q x)) \<and>
     (\<forall>x<N. nm x + H x x \<le> of_bool (asked x) + (\<Sum>j\<in>{..<N} - {x}. g j x))"

definition inc :: "nat \<Rightarrow> nat \<Rightarrow> (nat \<Rightarrow> nat \<Rightarrow> nat) \<Rightarrow> nat \<Rightarrow> nat \<Rightarrow> nat" where
  "inc n x f = (\<lambda>j y. f j y + of_bool (j = n \<and> y = x))"

definition dec :: "nat \<Rightarrow> nat \<Rightarrow> (nat \<Rightarrow> nat \<Rightarrow> nat) \<Rightarrow> nat \<Rightarrow> nat \<Rightarrow> nat" where
  "dec n x f = (\<lambda>j y. f j y - of_bool (j = n \<and> y = x))"

lemma balancedI:
  assumes "\<And>j x. j < N \<Longrightarrow> x < N \<Longrightarrow> j \<noteq> x \<Longrightarrow> H j x + g j x \<le> of_bool (asked x \<and> j \<in> Q x)"
    "\<And>x. x < N \<Longrightarrow> nm x + H x x \<le> of_bool (asked x) + (\<Sum>j\<in>{..<N} - {x}. g j x)"
  shows "balanced N Q asked nm H g"
  using assms unfolding balanced_def by blast

lemma balancedD:
  assumes "balanced N Q asked nm H g"
  shows "j < N \<Longrightarrow> x < N \<Longrightarrow> j \<noteq> x \<Longrightarrow> H j x + g j x \<le> of_bool (asked x \<and> j \<in> Q x)"
    "x < N \<Longrightarrow> nm x + H x x \<le> of_bool (asked x) + (\<Sum>j\<in>{..<N} - {x}. g j x)"
  using assms unfolding balanced_def by blast+

lemma sum_single: "finite A \<Longrightarrow> (\<Sum>j\<in>A. of_bool (j = n \<and> P)) = (of_bool (n \<in> A \<and> P) :: nat)"
  by (cases P) (simp_all add: of_bool_def)

lemma sum_inc_col: "(\<Sum>j\<in>{..<N} - {y}. inc n x g j y) = (\<Sum>j\<in>{..<N} - {y}. g j y) + of_bool (n \<in> {..<N} - {y} \<and> y = x)"
  unfolding inc_def sum.distrib by (subst sum_single) simp_all

lemma sum_inc_row:
  assumes "x < N"
  shows "(\<Sum>y<N. inc n x g j y) = (\<Sum>y<N. g j y) + of_bool (j = n)"
proof -
  have "(\<Sum>y<N. of_bool (j = n \<and> y = x)) = (\<Sum>y<N. of_bool (y = x \<and> j = n))" by (simp add: conj_commute)
  then show ?thesis using assms unfolding inc_def sum.distrib by (subst (asm) sum_single) simp_all
qed

lemma balanced_drop:
  assumes "balanced N Q asked nm H g"
  shows "balanced N Q asked nm (dec n x H) g"
proof (rule balancedI)
  fix j y assume "j < N" "y < N" "j \<noteq> y"
  then show "dec n x H j y + g j y \<le> of_bool (asked y \<and> j \<in> Q y)" using balancedD(1) [OF assms, of j y] by (simp add: dec_def)
next
  fix y assume "y < N"
  then show "nm y + dec n x H y y \<le> of_bool (asked y) + (\<Sum>j\<in>{..<N} - {y}. g j y)" using balancedD(2) [OF assms, of y] by (simp add: dec_def)
qed

lemma balanced_vote:
  assumes "balanced N Q asked nm H g" "1 \<le> H n n"
  shows "balanced N Q asked (nm(n := nm n + 1)) (dec n n H) g"
proof (rule balancedI)
  fix j y assume "j < N" "y < N" "j \<noteq> y"
  then show "dec n n H j y + g j y \<le> of_bool (asked y \<and> j \<in> Q y)" using balancedD(1) [OF assms(1), of j y] by (simp add: dec_def)
next
  fix y assume "y < N"
  then show "(nm(n := nm n + 1)) y + dec n n H y y \<le> of_bool (asked y) + (\<Sum>j\<in>{..<N} - {y}. g j y)"
    using balancedD(2) [OF assms(1), of y] assms(2) by (cases "y = n") (simp_all add: dec_def)
qed

lemma balanced_grant:
  assumes "balanced N Q asked nm H g" "1 \<le> H n x" "n < N"
  shows "balanced N Q asked nm (inc x x (dec n x H)) (inc n x g)"
proof (rule balancedI)
  fix j y assume "j < N" "y < N" "j \<noteq> y"
  then show "inc x x (dec n x H) j y + inc n x g j y \<le> of_bool (asked y \<and> j \<in> Q y)"
    using balancedD(1) [OF assms(1), of j y] assms(2) by (cases "j = n \<and> y = x") (auto simp: inc_def dec_def)
next
  fix y assume "y < N"
  then show "nm y + inc x x (dec n x H) y y \<le> of_bool (asked y) + (\<Sum>j\<in>{..<N} - {y}. inc n x g j y)"
    unfolding sum_inc_col using balancedD(2) [OF assms(1), of y] assms(2,3)
    by (cases "y = x"; cases "n = y") (simp_all add: inc_def dec_def)
qed

lemma balanced_ask:
  assumes "balanced N Q asked nm H g" "\<not> asked n" "n \<in> Q n"
  shows "balanced N Q (asked(n := True)) nm (\<lambda>j x. H j x + of_bool (x = n \<and> j \<in> Q n)) g"
proof (rule balancedI)
  fix j y assume "j < N" "y < N" "j \<noteq> y"
  then show "H j y + of_bool (y = n \<and> j \<in> Q n) + g j y \<le> of_bool ((asked(n := True)) y \<and> j \<in> Q y)"
    using balancedD(1) [OF assms(1), of j y] assms(2) by (cases "y = n") simp_all
next
  fix y assume "y < N"
  then show "nm y + (H y y + of_bool (y = n \<and> y \<in> Q n)) \<le> of_bool ((asked(n := True)) y) + (\<Sum>j\<in>{..<N} - {y}. g j y)"
    using balancedD(2) [OF assms(1), of y] assms(2,3) by (cases "y = n") simp_all
qed

locale quorum_system =
  fixes N :: nat and Q :: "nat \<Rightarrow> nat set" and K :: nat
  assumes Q_group: "n < N \<Longrightarrow> Q n \<subseteq> {..<N}"
    and Q_self: "n < N \<Longrightarrow> n \<in> Q n"
    and Q_sym: "j < N \<Longrightarrow> x < N \<Longrightarrow> j \<in> Q x \<longleftrightarrow> x \<in> Q j"
    and Q_card: "n < N \<Longrightarrow> card (Q n) = K"
    and Q_meet: "a < N \<Longrightarrow> b < N \<Longrightarrow> Q a \<inter> Q b \<noteq> {}"
begin

lemma Q_finite: "n < N \<Longrightarrow> finite (Q n)"
  using Q_group finite_subset by blast

lemma card_others: "n < N \<Longrightarrow> card (Q n - {n}) = K - 1"
  using Q_card Q_self Q_finite by simp

lemma K_pos: "n < N \<Longrightarrow> 0 < K"
  using Q_self [of n] Q_finite [of n] card_gt_0_iff [of "Q n"] Q_card [of n] by auto

lemma sum_others:
  assumes "n < N" "\<And>j. j < N \<Longrightarrow> j \<noteq> n \<Longrightarrow> f j \<le> of_bool (j \<in> Q n)"
  shows "(\<Sum>j\<in>{..<N} - {n}. f j) \<le> K - 1"
proof -
  have "(\<Sum>j\<in>{..<N} - {n}. f j) \<le> (\<Sum>j\<in>{..<N} - {n}. of_bool (j \<in> Q n))" by (rule sum_mono) (use assms(2) in auto)
  also have "\<dots> = card (Q n - {n})"
    using Q_group [OF assms(1)] by (auto simp: of_bool_def sum.If_cases Int_def intro: arg_cong [where f = card])
  finally show ?thesis using card_others [OF assms(1)] by simp
qed

text \<open>A process that has counted \<open>K\<close> votes has the vote of each other member of its quorum, and nothing with its id is left in its mailbox or queue.\<close>

lemma all_votes:
  assumes "balanced N Q asked nm H g" "x < N" "nm x = K"
  shows "H x x = 0" "\<forall>j\<in>Q x - {x}. 1 \<le> g j x"
proof -
  have le: "g j x \<le> of_bool (j \<in> Q x)" if "j < N" "j \<noteq> x" for j
  proof -
    have "H j x + g j x \<le> of_bool (asked x \<and> j \<in> Q x)" by (rule balancedD(1) [OF assms(1) that(1) assms(2) that(2)])
    then show ?thesis by (cases "asked x") auto
  qed
  have "K + H x x \<le> of_bool (asked x) + (\<Sum>j\<in>{..<N} - {x}. g j x)" using balancedD(2) [OF assms(1,2)] assms(3) by simp
  moreover have up: "(\<Sum>j\<in>{..<N} - {x}. g j x) \<le> K - 1" by (rule sum_others [OF assms(2) le])
  ultimately have e: "H x x = 0" "(\<Sum>j\<in>{..<N} - {x}. g j x) = K - 1" using K_pos [OF assms(2)] by (cases "asked x"; simp)+
  show "H x x = 0" by (rule e)
  show "\<forall>j\<in>Q x - {x}. 1 \<le> g j x"
  proof (rule ballI, rule ccontr)
    fix i assume i: "i \<in> Q x - {x}" "\<not> 1 \<le> g i x"
    then have "i < N" using Q_group [OF assms(2)] by auto
    have "(\<Sum>j\<in>{..<N} - {x}. (g(i := \<lambda>_. 1)) j x) \<le> K - 1" using le i by (intro sum_others [OF assms(2)]) auto
    moreover have "(\<Sum>j\<in>{..<N} - {x}. g j x) < (\<Sum>j\<in>{..<N} - {x}. (g(i := \<lambda>_. 1)) j x)"
      using i \<open>i < N\<close> by (intro sum_strict_mono_ex1) auto
    ultimately show False using e(2) by simp
  qed
qed

text \<open>Two processes that hold all the votes of their quorums have released: a member of both quorums has voted for more processes than it has seen releases.\<close>

lemma votes_conflict:
  assumes "a < N" "b < N" "a \<noteq> b" "a \<notin> F" "b \<notin> F" "F \<subseteq> {..<N}"
    "\<And>z j. z \<in> insert a (insert b F) \<Longrightarrow> j \<in> Q z \<Longrightarrow> 1 \<le> g j z"
    "\<And>j. j < N \<Longrightarrow> (\<Sum>x<N. g j x) \<le> 1 + card (F \<inter> Q j)"
  shows False
proof -
  obtain j where j: "j \<in> Q a" "j \<in> Q b" using Q_meet [OF assms(1,2)] by blast
  then have "j < N" using Q_group [OF assms(1)] by auto
  let ?S = "insert a (insert b (F \<inter> Q j))"
  have fin: "finite F" using assms(6) finite_subset by blast
  have "1 \<le> g j z" if "z \<in> ?S" for z using that assms(6,7) j Q_sym [OF \<open>j < N\<close>] by auto
  then have "card ?S \<le> (\<Sum>x\<in>?S. g j x)" using sum_mono [of ?S "\<lambda>_. 1" "g j"] by simp
  also have "\<dots> \<le> (\<Sum>x<N. g j x)" using assms(1,2,6) by (intro sum_mono2) auto
  also have "\<dots> \<le> 1 + card (F \<inter> Q j)" by (rule assms(8) [OF \<open>j < N\<close>])
  finally show False using fin assms(3-5) by simp
qed

end

text \<open>Rows and columns of a square.\<close>

lemma square_index:
  fixes r c sz :: nat
  assumes "r < sz" "c < sz"
  shows "(r * sz + c) div sz = r" "(r * sz + c) mod sz = c" "r * sz + c < sz * sz"
proof -
  show "(r * sz + c) div sz = r" "(r * sz + c) mod sz = c" using assms by auto
  have "(r + 1) * sz \<le> sz * sz" using assms(1) by (intro mult_le_mono1) simp
  then show "r * sz + c < sz * sz" using assms(2) by simp
qed

lemma index_square: "n < sz * sz \<Longrightarrow> n div sz < sz \<and> n mod sz < (sz :: nat) \<and> n div sz * sz + n mod sz = n"
  by (cases "sz = 0") (simp_all add: less_mult_imp_div_less)

lemma set_quorum: "set (quorum sz n) = {k. k < sz * sz \<and> (k div sz = n div sz \<or> k mod sz = n mod sz)}"
  by (auto simp: quorum_def)

lemma quorum_lines:
  assumes "n < sz * sz"
  shows "set (quorum sz n) = (\<lambda>y. n div sz * sz + y) ` {..<sz} \<union> (\<lambda>x. x * sz + n mod sz) ` {..<sz}"
proof (intro equalityI subsetI)
  fix k assume "k \<in> set (quorum sz n)"
  then have "k div sz = n div sz \<or> k mod sz = n mod sz" "k div sz < sz" "k mod sz < sz" "k = k div sz * sz + k mod sz"
    using index_square [of k sz] by (auto simp: set_quorum)
  then show "k \<in> (\<lambda>y. n div sz * sz + y) ` {..<sz} \<union> (\<lambda>x. x * sz + n mod sz) ` {..<sz}"
    by (metis (no_types, lifting) UnI1 UnI2 image_eqI lessThan_iff)
next
  fix k assume "k \<in> (\<lambda>y. n div sz * sz + y) ` {..<sz} \<union> (\<lambda>x. x * sz + n mod sz) ` {..<sz}"
  then show "k \<in> set (quorum sz n)" using index_square [OF assms] square_index by (auto simp: set_quorum)
qed

lemma card_quorum:
  assumes "n < sz * sz"
  shows "card (set (quorum sz n)) = 2 * sz - 1"
proof -
  let ?R = "(\<lambda>y. n div sz * sz + y) ` {..<sz}" and ?C = "(\<lambda>x. x * sz + n mod sz) ` {..<sz}"
  note n = index_square [OF assms]
  have inj: "inj_on (\<lambda>x. x * sz + n mod sz) {..<sz}" using n by (auto simp: inj_on_def)
  have "?R \<inter> ?C = {n}"
  proof (intro equalityI subsetI)
    fix k assume "k \<in> ?R \<inter> ?C"
    then obtain x y where "k = n div sz * sz + y" "y < sz" "k = x * sz + n mod sz" "x < sz" by blast
    then have "k div sz = n div sz" "k mod sz = n mod sz"
      using n square_index(1) [of "n div sz" sz y] square_index(2) [of x sz "n mod sz"] by simp_all
    then show "k \<in> {n}" by (metis div_mult_mod_eq singletonI)
  next
    fix k assume "k \<in> {n}"
    then show "k \<in> ?R \<inter> ?C" using n by (auto intro: rev_image_eqI)
  qed
  then have "card (?R \<union> ?C) + 1 = sz + sz"
    using card_Un_Int [of ?R ?C] card_image [OF inj] card_image [of "\<lambda>y. n div sz * sz + y" "{..<sz}"] by simp
  then show ?thesis using quorum_lines [OF assms] by simp
qed

interpretation grid: quorum_system "sz * sz" "\<lambda>n. set (quorum sz n)" "2 * sz - 1" for sz :: nat
proof unfold_locales
  fix a b assume ab: "a < sz * sz" "b < sz * sz"
  have "a div sz * sz + b mod sz \<in> set (quorum sz a) \<inter> set (quorum sz b)"
    using square_index [of "a div sz" sz "b mod sz"] index_square [OF ab(1)] index_square [OF ab(2)] by (simp add: set_quorum)
  then show "set (quorum sz a) \<inter> set (quorum sz b) \<noteq> {}" by blast
qed (auto simp: set_quorum card_quorum [unfolded set_quorum])

subsection \<open>The invariant of the protocol\<close>

text \<open>Whether process \<open>n\<close> has asked; the number of barriers passed; the messages taken as requests before the last barrier.\<close>

fun asked :: "nat \<Rightarrow> mpc \<Rightarrow> bool" where
  "asked n (Ask k) = (n < k)"
| "asked n (AskBarrier k) = (n \<le> k)"
| "asked n _ = True"

fun phase :: "nat \<Rightarrow> mpc \<Rightarrow> nat" where
  "phase N (Ask k) = k"
| "phase N (AskBarrier k) = k"
| "phase N Barrier1 = N"
| "phase N First = N + 1"
| "phase N (Rest p) = N + 1"
| "phase N Barrier2 = N + 1"
| "phase N _ = N + 2"

fun taken :: "nat \<Rightarrow> mpc \<Rightarrow> nat" where
  "taken K (Rest p) = Suc p"
| "taken K Barrier2 = K"
| "taken K _ = 0"

fun turn_ok :: "nat \<Rightarrow> mpc \<Rightarrow> bool" where
  "turn_ok N (Ask k) = (k < N)"
| "turn_ok N (AskBarrier k) = (k < N)"
| "turn_ok N _ = True"

definition released :: "mpc \<Rightarrow> bool" where
  "released p \<longleftrightarrow> p \<in> {Serve, Finished}"

definition holds :: "mpc \<Rightarrow> bool" where
  "holds p \<longleftrightarrow> p \<in> {Critical, Release, Serve, Finished}"

definition late :: "mpc \<Rightarrow> bool" where
  "late p \<longleftrightarrow> p = Votes \<or> holds p"

definition voted :: "mpc \<Rightarrow> bool" where
  "voted p \<longleftrightarrow> late p \<or> 0 < taken 1 p"

lemmas stage_defs = released_def holds_def late_def voted_def

text \<open>
  The state as functions of the processes: their positions \<open>P\<close>, the votes counted \<open>nm\<close>, the releases handled \<open>dn\<close>, the messages with a given
  id held \<open>H\<close>, those of them in the queue \<open>qc\<close>, and the releases in the mailbox \<open>R\<close>.
\<close>

definition votes_inv :: "nat \<Rightarrow> (nat \<Rightarrow> nat set) \<Rightarrow> nat \<Rightarrow> (nat \<Rightarrow> mpc) \<Rightarrow> (nat \<Rightarrow> nat) \<Rightarrow> (nat \<Rightarrow> nat) \<Rightarrow>
    (nat \<Rightarrow> nat \<Rightarrow> nat) \<Rightarrow> (nat \<Rightarrow> nat \<Rightarrow> nat) \<Rightarrow> (nat \<Rightarrow> nat) \<Rightarrow> (nat \<Rightarrow> nat \<Rightarrow> nat) \<Rightarrow> bool" where
  "votes_inv N Q K P nm dn H qc R g \<longleftrightarrow>
     balanced N Q (\<lambda>x. asked x (P x)) nm H g \<and>
     (\<forall>j<N. (\<Sum>x<N. g j x) \<le> of_bool (voted (P j)) + dn j) \<and>
     (\<forall>j<N. dn j + R j \<le> card {x \<in> Q j. released (P x)}) \<and>
     (\<forall>x<N. \<forall>y<N. phase N (P x) = phase N (P y)) \<and>
     (\<forall>x<N. taken K (P x) \<le> (\<Sum>y<N. qc x y + g x y)) \<and>
     (\<forall>x<N. late (P x) \<longrightarrow> 1 \<le> g x x + qc x x) \<and>
     (\<forall>x<N. holds (P x) \<longrightarrow> (\<forall>j\<in>Q x. 1 \<le> g j x)) \<and>
     (\<forall>j<N. \<forall>x<N. qc j x \<le> H j x) \<and>
     (\<forall>x<N. turn_ok N (P x))"

lemma votes_invI:
  assumes "balanced N Q (\<lambda>x. asked x (P x)) nm H g"
    "\<And>j. j < N \<Longrightarrow> (\<Sum>x<N. g j x) \<le> of_bool (voted (P j)) + dn j"
    "\<And>j. j < N \<Longrightarrow> dn j + R j \<le> card {x \<in> Q j. released (P x)}"
    "\<And>x y. x < N \<Longrightarrow> y < N \<Longrightarrow> phase N (P x) = phase N (P y)"
    "\<And>x. x < N \<Longrightarrow> taken K (P x) \<le> (\<Sum>y<N. qc x y + g x y)"
    "\<And>x. x < N \<Longrightarrow> late (P x) \<Longrightarrow> 1 \<le> g x x + qc x x"
    "\<And>x j. x < N \<Longrightarrow> holds (P x) \<Longrightarrow> j \<in> Q x \<Longrightarrow> 1 \<le> g j x"
    "\<And>j x. j < N \<Longrightarrow> x < N \<Longrightarrow> qc j x \<le> H j x"
    "\<And>x. x < N \<Longrightarrow> turn_ok N (P x)"
  shows "votes_inv N Q K P nm dn H qc R g"
  unfolding votes_inv_def by (intro conjI allI impI ballI assms)

lemma votes_invD:
  assumes "votes_inv N Q K P nm dn H qc R g"
  shows "balanced N Q (\<lambda>x. asked x (P x)) nm H g"
    "j < N \<Longrightarrow> (\<Sum>x<N. g j x) \<le> of_bool (voted (P j)) + dn j"
    "j < N \<Longrightarrow> dn j + R j \<le> card {x \<in> Q j. released (P x)}"
    "x < N \<Longrightarrow> y < N \<Longrightarrow> phase N (P x) = phase N (P y)"
    "x < N \<Longrightarrow> taken K (P x) \<le> (\<Sum>y<N. qc x y + g x y)"
    "x < N \<Longrightarrow> late (P x) \<Longrightarrow> 1 \<le> g x x + qc x x"
    "x < N \<Longrightarrow> holds (P x) \<Longrightarrow> i \<in> Q x \<Longrightarrow> 1 \<le> g i x"
    "j < N \<Longrightarrow> x < N \<Longrightarrow> qc j x \<le> H j x"
    "x < N \<Longrightarrow> turn_ok N (P x)"
  using assms unfolding votes_inv_def by blast+

text \<open>Leaving a barrier.\<close>

lemma leave_stage:
  "at_barrier p \<Longrightarrow> \<not> released (leave c p)"
  "at_barrier p \<Longrightarrow> \<not> released p"
  "at_barrier p \<Longrightarrow> \<not> holds (leave c p)"
  "at_barrier p \<Longrightarrow> taken K (leave c p) = 0"
  "at_barrier p \<Longrightarrow> late (leave c p) \<Longrightarrow> p = Barrier2"
  "at_barrier p \<Longrightarrow> voted p \<Longrightarrow> voted (leave c p)"
  by (cases p; simp add: at_barrier_def leave_def stage_defs split: if_splits)+

lemma leave_phase:
  "at_barrier p \<Longrightarrow> turn_ok (group c) p \<Longrightarrow> turn_ok (group c) (leave c p)"
  "at_barrier p \<Longrightarrow> turn_ok (group c) p \<Longrightarrow> n < group c \<Longrightarrow> asked n (leave c p) = asked n p"
  "at_barrier p \<Longrightarrow> turn_ok (group c) p \<Longrightarrow> phase (group c) (leave c p) = phase (group c) p + 1"
  by (cases p; auto simp: at_barrier_def leave_def)+

text \<open>A change of position that keeps what the counts depend on.\<close>

lemma votes_inv_move:
  assumes "votes_inv N Q K P nm dn H qc R g" "n < N"
    "asked n p = asked n (P n)" "voted (P n) \<Longrightarrow> voted p" "released p = released (P n)" "phase N p = phase N (P n)"
    "taken K p \<le> (\<Sum>y<N. qc n y + g n y)" "late p \<Longrightarrow> late (P n)" "holds p \<Longrightarrow> \<forall>j\<in>Q n. 1 \<le> g j n" "turn_ok N p"
  shows "votes_inv N Q K (P(n := p)) nm dn H qc R g"
proof -
  note D = votes_invD [OF assms(1)]
  show ?thesis
  proof (rule votes_invI)
    have "(\<lambda>x. asked x ((P(n := p)) x)) = (\<lambda>x. asked x (P x))" using assms(3) by auto
    then show "balanced N Q (\<lambda>x. asked x ((P(n := p)) x)) nm H g" using D(1) by simp
    fix j assume j: "j < N"
    show "(\<Sum>x<N. g j x) \<le> of_bool (voted ((P(n := p)) j)) + dn j" using D(2) [OF j] assms(4) by (cases "voted (P j)") auto
    have "{x \<in> Q j. released ((P(n := p)) x)} = {x \<in> Q j. released (P x)}" using assms(5) by auto
    then show "dn j + R j \<le> card {x \<in> Q j. released ((P(n := p)) x)}" using D(3) [OF j] by simp
  next
    fix x assume x: "x < N"
    have e: "phase N ((P(n := p)) z) = phase N (P n)" if "z < N" for z using D(4) [OF that assms(2)] assms(6) by simp
    show "phase N ((P(n := p)) x) = phase N ((P(n := p)) y)" if "y < N" for y unfolding e [OF x] e [OF that] by (rule refl)
    show "taken K ((P(n := p)) x) \<le> (\<Sum>y<N. qc x y + g x y)" using D(5) [OF x] assms(7) by simp
    show "1 \<le> g x x + qc x x" if "late ((P(n := p)) x)" using D(6) [OF x] assms(8) that by (cases "x = n") simp_all
    show "1 \<le> g j x" if "holds ((P(n := p)) x)" "j \<in> Q x" for j using D(7) [OF x] assms(9) that by (cases "x = n") simp_all
    show "turn_ok N ((P(n := p)) x)" using D(9) [OF x] assms(10) by simp
  qed (rule D(8))
qed

context quorum_system
begin

lemma votes_inv_enque:
  assumes "votes_inv N Q K P nm dn H qc R g" "x < N" "qc n x < H n x"
  shows "votes_inv N Q K P nm dn H (inc n x qc) R g"
proof -
  note D = votes_invD [OF assms(1)]
  have le: "qc j y \<le> inc n x qc j y" for j y by (simp add: inc_def)
  show ?thesis
  proof (rule votes_invI)
    fix y assume y: "y < N"
    have "(\<Sum>z<N. qc y z + g y z) \<le> (\<Sum>z<N. inc n x qc y z + g y z)" by (intro sum_mono add_right_mono le)
    with D(5) [OF y] show "taken K (P y) \<le> (\<Sum>z<N. inc n x qc y z + g y z)" by (rule le_trans)
    show "1 \<le> g y y + inc n x qc y y" if "late (P y)" using D(6) [OF y that] by (simp add: inc_def)
    show "inc n x qc j y \<le> H j y" if "j < N" for j using D(8) [OF that y] assms(3) by (auto simp: inc_def)
  qed (fact D)+
qed

lemma votes_inv_drop:
  assumes "votes_inv N Q K P nm dn H qc R g" "qc n x < H n x"
  shows "votes_inv N Q K P nm dn (dec n x H) qc R g"
proof -
  note D = votes_invD [OF assms(1)]
  show ?thesis
  proof (rule votes_invI)
    show "qc j y \<le> dec n x H j y" if "j < N" "y < N" for j y using D(8) [OF that] assms(2) by (auto simp: dec_def)
    show "balanced N Q (\<lambda>x. asked x (P x)) nm (dec n x H) g" by (rule balanced_drop [OF D(1)])
  qed (fact D)+
qed

lemma votes_inv_vote:
  assumes "votes_inv N Q K P nm dn H qc R g" "qc n n < H n n"
  shows "votes_inv N Q K P (nm(n := nm n + 1)) dn (dec n n H) qc R g"
proof -
  note D = votes_invD [OF assms(1)]
  show ?thesis
  proof (rule votes_invI)
    show "qc j y \<le> dec n n H j y" if "j < N" "y < N" for j y using D(8) [OF that] assms(2) by (auto simp: dec_def)
    show "balanced N Q (\<lambda>x. asked x (P x)) (nm(n := nm n + 1)) (dec n n H) g" using assms(2) by (intro balanced_vote [OF D(1)]) simp
  qed (fact D)+
qed

text \<open>A release is handled, with nobody waiting or with the vote passed on.\<close>

lemma votes_inv_released:
  assumes "votes_inv N Q K P nm dn H qc R g" "1 \<le> R n"
  shows "votes_inv N Q K P nm (dn(n := dn n + 1)) H qc (R(n := R n - 1)) g"
proof -
  note D = votes_invD [OF assms(1)]
  show ?thesis
  proof (rule votes_invI)
    fix j assume j: "j < N"
    show "(\<Sum>x<N. g j x) \<le> of_bool (voted (P j)) + (dn(n := dn n + 1)) j" using D(2) [OF j] by (cases "j = n") simp_all
    show "(dn(n := dn n + 1)) j + (R(n := R n - 1)) j \<le> card {x \<in> Q j. released (P x)}" using D(3) [OF j] assms(2) by auto
  qed (fact D)+
qed

lemma votes_inv_grant:
  assumes "votes_inv N Q K P nm dn H qc R g" "n < N" "x < N" "late (P n)" "1 \<le> qc n x" "1 \<le> R n"
  shows "votes_inv N Q K P nm (dn(n := dn n + 1)) (inc x x (dec n x H)) (dec n x qc) (R(n := R n - 1)) (inc n x g)"
proof -
  note D = votes_invD [OF assms(1)]
  have h: "1 \<le> H n x" using D(8) [OF assms(2,3)] assms(5) by simp
  show ?thesis
  proof (rule votes_invI)
    show "balanced N Q (\<lambda>x. asked x (P x)) nm (inc x x (dec n x H)) (inc n x g)" by (rule balanced_grant [OF D(1) h assms(2)])
    fix j assume j: "j < N"
    show "(\<Sum>y<N. inc n x g j y) \<le> of_bool (voted (P j)) + (dn(n := dn n + 1)) j"
      unfolding sum_inc_row [OF assms(3)] using D(2) [OF j] by (cases "j = n") simp_all
    show "(dn(n := dn n + 1)) j + (R(n := R n - 1)) j \<le> card {x \<in> Q j. released (P x)}" using D(3) [OF j] assms(6) by auto
    show "taken K (P j) \<le> (\<Sum>y<N. dec n x qc j y + inc n x g j y)"
    proof (cases "j = n")
      case True
      then show ?thesis using assms(4) by (auto simp: stage_defs)
    next
      case False
      then show ?thesis using D(5) [OF j] by (simp add: dec_def inc_def)
    qed
    show "1 \<le> inc n x g j j + dec n x qc j j" if "late (P j)" using D(6) [OF j that] assms(5) by (simp add: inc_def dec_def)
    show "1 \<le> inc n x g i j" if "holds (P j)" "i \<in> Q j" for i using D(7) [OF j that] by (simp add: inc_def)
    show "dec n x qc i j \<le> inc x x (dec n x H) i j" if "i < N" for i using D(8) [OF that j] by (simp add: inc_def dec_def)
  qed (fact D)+
qed

lemma votes_inv_first:
  assumes "votes_inv N Q K P nm dn H qc R g" "n < N" "x < N" "P n = First" "qc n x < H n x"
  shows "votes_inv N Q K (P(n := Rest 0)) nm dn (inc x x (dec n x H)) qc R (inc n x g)"
proof -
  note D = votes_invD [OF assms(1)]
  have h: "1 \<le> H n x" using assms(5) by simp
  have f: "\<not> voted (P n)" "voted (Rest 0)" "\<not> released (P n)" "\<not> released (Rest 0)" "\<not> late (Rest 0)" "\<not> holds (Rest 0)"
    using assms(4) by (simp_all add: stage_defs)
  have "(\<lambda>x. asked x ((P(n := Rest 0)) x)) = (\<lambda>x. asked x (P x))" using assms(4) by auto
  then have a: "balanced N Q (\<lambda>x. asked x ((P(n := Rest 0)) x)) nm (inc x x (dec n x H)) (inc n x g)"
    using balanced_grant [OF D(1) h assms(2)] by simp
  show ?thesis
  proof (rule votes_invI)
    fix j assume j: "j < N"
    show "(\<Sum>y<N. inc n x g j y) \<le> of_bool (voted ((P(n := Rest 0)) j)) + dn j"
      unfolding sum_inc_row [OF assms(3)] using D(2) [OF j] f by (cases "j = n") simp_all
    have "{x \<in> Q j. released ((P(n := Rest 0)) x)} = {x \<in> Q j. released (P x)}" using f(3,4) by auto
    then show "dn j + R j \<le> card {x \<in> Q j. released ((P(n := Rest 0)) x)}" using D(3) [OF j] by simp
    have e: "phase N ((P(n := Rest 0)) z) = phase N (P n)" if "z < N" for z using D(4) [OF that assms(2)] assms(4) by simp
    show "phase N ((P(n := Rest 0)) j) = phase N ((P(n := Rest 0)) y)" if "y < N" for y unfolding e [OF j] e [OF that] by (rule refl)
    have "(\<Sum>y<N. qc j y + inc n x g j y) = (\<Sum>y<N. qc j y + g j y) + of_bool (j = n)"
      using sum_inc_row [OF assms(3), of n g j] by (simp add: sum.distrib)
    then show "taken K ((P(n := Rest 0)) j) \<le> (\<Sum>y<N. qc j y + inc n x g j y)" using D(5) [OF j] assms(4) by simp
    show "1 \<le> inc n x g j j + qc j j" if "late ((P(n := Rest 0)) j)" using D(6) [OF j] that f(5) by (cases "j = n") (simp_all add: inc_def)
    show "1 \<le> inc n x g i j" if "holds ((P(n := Rest 0)) j)" "i \<in> Q j" for i using D(7) [OF j _ that(2)] that(1) f(6) by (cases "j = n") (simp_all add: inc_def)
    show "qc i j \<le> inc x x (dec n x H) i j" if "i < N" for i using D(8) [OF that j] assms(5) by (auto simp: inc_def dec_def)
    show "turn_ok N ((P(n := Rest 0)) j)" using D(9) [OF j] by simp
  qed (rule a)
qed

lemma votes_inv_ask:
  assumes "votes_inv N Q K P nm dn H qc R g" "n < N" "P n = Ask n"
  shows "votes_inv N Q K (P(n := AskBarrier n)) nm dn (\<lambda>j x. H j x + of_bool (x = n \<and> j \<in> Q n)) qc R g"
proof -
  note D = votes_invD [OF assms(1)]
  let ?P = "P(n := AskBarrier n)"
  have a: "(\<lambda>x. asked x (?P x)) = (\<lambda>x. asked x (P x))(n := True)" by auto
  have f: "voted (?P j) = voted (P j)" "late (?P j) = late (P j)" "holds (?P j) = holds (P j)" "released (?P j) = released (P j)"
    "taken K (?P j) = taken K (P j)" "phase N (?P j) = phase N (P j)" "turn_ok N (?P j) = turn_ok N (P j)" for j
    using assms(3) by (cases "j = n"; simp add: stage_defs)+
  show ?thesis
  proof (rule votes_invI)
    show "balanced N Q (\<lambda>x. asked x (?P x)) nm (\<lambda>j x. H j x + of_bool (x = n \<and> j \<in> Q n)) g"
      unfolding a using assms(3) by (intro balanced_ask D(1) Q_self assms(2)) simp
    show "qc j x \<le> H j x + of_bool (x = n \<and> j \<in> Q n)" if "j < N" "x < N" for j x by (rule le_trans [OF D(8) [OF that]]) simp
  qed (unfold f, (fact D)+)
qed

lemma votes_inv_release:
  assumes "votes_inv N Q K P nm dn H qc R g" "n < N" "P n = Release"
  shows "votes_inv N Q K (P(n := Serve)) nm dn H qc (\<lambda>j. R j + of_bool (j \<in> Q n)) g"
proof -
  note D = votes_invD [OF assms(1)]
  let ?P = "P(n := Serve)"
  have f: "voted (?P j) = voted (P j)" "late (?P j) = late (P j)" "holds (?P j) = holds (P j)" "asked j (?P j) = asked j (P j)"
    "taken K (?P j) = taken K (P j)" "phase N (?P j) = phase N (P j)" "turn_ok N (?P j) = turn_ok N (P j)" for j
    using assms(3) by (cases "j = n"; simp add: stage_defs)+
  show ?thesis
  proof (rule votes_invI)
    fix j assume j: "j < N"
    have fin: "finite {x \<in> Q j. released (P x)}" using Q_finite [OF j] by simp
    have "{x \<in> Q j. released (?P x)} = {x \<in> Q j. released (P x)} \<union> (if n \<in> Q j then {n} else {})" by (auto simp: released_def)
    moreover have "n \<notin> {x \<in> Q j. released (P x)}" using assms(3) by (simp add: released_def)
    ultimately have "card {x \<in> Q j. released (?P x)} = card {x \<in> Q j. released (P x)} + of_bool (j \<in> Q n)"
      using fin Q_sym [OF j assms(2)] by simp
    then show "dn j + (R j + of_bool (j \<in> Q n)) \<le> card {x \<in> Q j. released (?P x)}" using D(3) [OF j] by simp
  qed (unfold f, (fact D)+)
qed

lemma votes_inv_enter:
  assumes "votes_inv N Q K P nm dn H qc R g" "n < N" "P n = Votes" "nm n = K" "p = Critical \<or> p = Release"
  shows "votes_inv N Q K (P(n := p)) nm dn H qc R g"
proof (rule votes_inv_move [OF assms(1,2)])
  note D = votes_invD [OF assms(1)]
  note v = all_votes [OF D(1) assms(2,4)]
  have "late (P n)" using assms(3) by (simp add: stage_defs)
  then have "1 \<le> g n n + qc n n" by (rule D(6) [OF assms(2)])
  moreover have "qc n n = 0" using D(8) [OF assms(2,2)] v(1) by simp
  ultimately show "\<forall>j\<in>Q n. 1 \<le> g j n" using v(2) by auto
qed (use assms(3,5) in \<open>auto simp: stage_defs\<close>)

text \<open>When all have left the last barrier, each process has taken its own request: the others in its quorum have sent one request less than it has taken.\<close>

lemma own_request:
  assumes "votes_inv N Q K P nm dn H qc R g" "n < N" "P n = Barrier2"
  shows "1 \<le> g n n + qc n n"
proof -
  note D = votes_invD [OF assms(1)]
  have "K \<le> (\<Sum>y<N. qc n y + g n y)" using D(5) [OF assms(2)] assms(3) by simp
  also have "\<dots> = (qc n n + g n n) + (\<Sum>y\<in>{..<N} - {n}. qc n y + g n y)" using assms(2) by (simp add: sum.remove)
  also have "(\<Sum>y\<in>{..<N} - {n}. qc n y + g n y) \<le> K - 1"
  proof (rule sum_others [OF assms(2)])
    fix y assume y: "y < N" "y \<noteq> n"
    then have "qc n y + g n y \<le> of_bool (asked y (P y) \<and> n \<in> Q y)"
      using balancedD(1) [OF D(1) assms(2) y(1)] D(8) [OF assms(2) y(1)] by auto
    then show "qc n y + g n y \<le> of_bool (y \<in> Q n)" using Q_sym [OF assms(2) y(1)] by (cases "asked y (P y)") auto
  qed
  finally show ?thesis using K_pos [OF assms(2)] by simp
qed

lemma votes_inv_open:
  assumes "votes_inv N Q K P nm dn H qc R g" "\<And>n. n < N \<Longrightarrow> at_barrier (P n)" "N = group c"
  shows "votes_inv N Q K (\<lambda>n. leave c (P n)) nm dn H qc R g"
proof -
  note D = votes_invD [OF assms(1)]
  have b: "\<not> released (leave c (P n))" "\<not> released (P n)" "\<not> holds (leave c (P n))" "taken K (leave c (P n)) = 0"
    "late (leave c (P n)) \<Longrightarrow> P n = Barrier2" "voted (P n) \<Longrightarrow> voted (leave c (P n))" "turn_ok N (leave c (P n))"
    "asked n (leave c (P n)) = asked n (P n)" "phase N (leave c (P n)) = phase N (P n) + 1" if n: "n < N" for n
    using leave_stage [OF assms(2) [OF n]] leave_phase [OF assms(2) [OF n]] D(9) [OF n] n unfolding assms(3) by blast+
  have q: "x < N" if "j < N" "x \<in> Q j" for x j using Q_group that by blast
  show ?thesis
  proof (rule votes_invI)
    show "balanced N Q (\<lambda>x. asked x (leave c (P x))) nm H g"
      using D(1) b(8) unfolding balanced_def by simp
    fix j assume j: "j < N"
    show "(\<Sum>x<N. g j x) \<le> of_bool (voted (leave c (P j))) + dn j" using D(2) [OF j] b(6) [OF j] by (cases "voted (P j)") auto
    have "{x \<in> Q j. released (leave c (P x))} = {x \<in> Q j. released (P x)}" using b(1,2) q [OF j] by auto
    then show "dn j + R j \<le> card {x \<in> Q j. released (leave c (P x))}" using D(3) [OF j] by simp
    show "phase N (leave c (P j)) = phase N (leave c (P y))" if "y < N" for y
      unfolding b(9) [OF j] b(9) [OF that] using D(4) [OF j that] by (rule arg_cong)
    show "1 \<le> g j j + qc j j" if "late (leave c (P j))" using own_request [OF assms(1) j b(5) [OF j that]] .
  qed (use b(3,4,7) D(8) in simp_all)
qed

text \<open>The queue of a process never holds more than twice the size of a quorum.\<close>

lemma queue_bound:
  assumes "votes_inv N Q K P nm dn H qc R g" "n < N"
  shows "(\<Sum>y<N. qc n y) \<le> 2 * K"
proof -
  note D = votes_invD [OF assms(1)]
  have le: "H j x + g j x \<le> of_bool (j \<in> Q x)" if "j < N" "x < N" "j \<noteq> x" for j x
    using balancedD(1) [OF D(1) that] by (cases "asked x (P x)") auto
  have "g j n \<le> of_bool (j \<in> Q n)" if "j < N" "j \<noteq> n" for j using le [OF that(1) assms(2) that(2)] by simp
  then have "(\<Sum>j\<in>{..<N} - {n}. g j n) \<le> K - 1" by (rule sum_others [OF assms(2)])
  then have "qc n n \<le> K" using balancedD(2) [OF D(1) assms(2)] D(8) [OF assms(2,2)] K_pos [OF assms(2)] by (cases "asked n (P n)") auto
  moreover have "(\<Sum>y\<in>{..<N} - {n}. qc n y) \<le> K - 1"
  proof (rule sum_others [OF assms(2)])
    fix y assume "y < N" "y \<noteq> n"
    then show "qc n y \<le> of_bool (y \<in> Q n)" using le [of n y] D(8) [of n y] Q_sym [of n y] assms(2) by simp
  qed
  moreover have "(\<Sum>y<N. qc n y) = qc n n + (\<Sum>y\<in>{..<N} - {n}. qc n y)" using assms(2) by (simp add: sum.remove)
  ultimately show ?thesis by simp
qed

lemma mutual_exclusion:
  assumes "votes_inv N Q K P nm dn H qc R g" "a < N" "b < N" "a \<noteq> b" "P a \<in> {Critical, Release}" "P b \<in> {Critical, Release}"
  shows False
proof (rule votes_conflict [of a b "{x. x < N \<and> released (P x)}" g])
  note D = votes_invD [OF assms(1)]
  show "1 \<le> g j z" if "z \<in> insert a (insert b {x. x < N \<and> released (P x)})" "j \<in> Q z" for z j
    using that assms(2,3,5,6) by (intro D(7)) (auto simp: stage_defs)
  fix j assume j: "j < N"
  have "{x \<in> Q j. released (P x)} = {x. x < N \<and> released (P x)} \<inter> Q j" using Q_group [OF j] by auto
  then show "(\<Sum>x<N. g j x) \<le> 1 + card ({x. x < N \<and> released (P x)} \<inter> Q j)"
    using D(2) [OF j] D(3) [OF j] by (cases "voted (P j)") auto
qed (use assms(2-6) in \<open>auto simp: stage_defs\<close>)

end

subsection \<open>The invariant on the states of the program\<close>

definition waiters :: "node \<Rightarrow> int list" where
  "waiters nd = ht_contents (queue (que nd)) (head (que nd)) (tail (que nd))"

definition queue_ok :: "node \<Rightarrow> bool" where
  "queue_ok nd \<longleftrightarrow> length (queue (que nd)) = 100 \<and> head (que nd) < 100 \<and> tail (que nd) < 100"

definition group_pids :: "mcfg \<Rightarrow> int set" where
  "group_pids c = proc_pids c ` {..<group c}"

definition cfg_ok :: "mcfg \<Rightarrow> bool" where
  "cfg_ok c \<longleftrightarrow> mP c \<in> {4, 9, 16, 25} \<and> 0 < parent_pid c \<and> (100 < parent_pid c \<or> parent_pid c + mP c \<le> 100)"

definition counts :: "mcfg \<Rightarrow> (nat \<Rightarrow> int list) \<Rightarrow> nat \<Rightarrow> nat \<Rightarrow> nat" where
  "counts c ml j x = (if x < group c then count_list (ml j) (proc_pids c x) else 0)"

definition system_inv :: "mcfg \<Rightarrow> (nat \<Rightarrow> mpc) \<Rightarrow> (nat \<Rightarrow> nat) \<Rightarrow> (nat \<Rightarrow> nat) \<Rightarrow> (nat \<Rightarrow> int list) \<Rightarrow> (nat \<Rightarrow> int list) \<Rightarrow> (nat \<Rightarrow> nat \<Rightarrow> nat) \<Rightarrow> bool" where
  "system_inv c P nm dn ml wt g \<longleftrightarrow>
     votes_inv (group c) (\<lambda>n. set (quorum (side c) n)) (2 * side c - 1) P nm dn
       (\<lambda>j x. counts c ml j x + counts c wt j x) (counts c wt) (\<lambda>j. count_list (ml j) 100) g"

definition minv :: "mcfg \<Rightarrow> msys \<Rightarrow> bool" where
  "minv c s \<longleftrightarrow>
     (\<forall>j<group c. queue_ok (nodes s j) \<and> set (waiters (nodes s j)) \<subseteq> group_pids c \<and> set (mail s j) \<subseteq> insert 100 (group_pids c)) \<and>
     (\<exists>g. system_inv c (\<lambda>n. pc (nodes s n)) (\<lambda>n. num (nodes s n)) (\<lambda>n. procs_done (nodes s n)) (mail s) (\<lambda>n. waiters (nodes s n)) g)"

lemma proc_pids_inj [simp]: "proc_pids c x = proc_pids c y \<longleftrightarrow> x = y"
  by (simp add: proc_pids_def)

lemma cfg_facts:
  assumes "cfg_ok c"
  shows "2 \<le> side c" "side c \<le> 5" "int (group c) = mP c" "x < group c \<Longrightarrow> proc_pids c x \<noteq> 100" "proc_pids c x \<noteq> -1"
proof -
  show s: "2 \<le> side c" "side c \<le> 5" and p: "int (group c) = mP c" using assms by (auto simp: cfg_ok_def grid_size_def)
  show "proc_pids c x \<noteq> 100" if "x < group c"
  proof -
    have "int x < mP c" using that p by linarith
    then show ?thesis using assms by (auto simp: cfg_ok_def proc_pids_def)
  qed
  show "proc_pids c x \<noteq> -1" using assms by (auto simp: cfg_ok_def proc_pids_def)
qed

lemma count_drop_nth: "i < length xs \<Longrightarrow> count_list (drop_nth i xs) v = count_list xs v - of_bool (xs ! i = v)"
  using arg_cong [OF id_take_nth_drop [of i xs], of "\<lambda>l. count_list l v"] by (simp add: drop_nth_def)

lemma set_drop_nth: "set (drop_nth i xs) \<subseteq> set xs"
  by (auto simp: drop_nth_def dest: in_set_takeD in_set_dropD)

lemma enque_waiters:
  assumes "queue_ok nd" "length (waiters nd) < 99"
  shows "queue_ok (nd\<lparr>que := enque v (que nd)\<rparr>)" "waiters (nd\<lparr>que := enque v (que nd)\<rparr>) = waiters nd @ [v]"
  using assms ht_put [of "head (que nd)" "queue (que nd)" "tail (que nd)" v] by (auto simp: queue_ok_def waiters_def enque_def)

lemma deque_waiters:
  assumes "queue_ok nd" "deque (que nd) = (t, q)"
  shows "queue_ok (nd\<lparr>que := q\<rparr>)"
    "waiters nd = [] \<Longrightarrow> t = -1 \<and> q = que nd" "waiters nd = v # vs \<Longrightarrow> t = v \<and> waiters (nd\<lparr>que := q\<rparr>) = vs"
proof -
  have e: "waiters nd = [] \<longleftrightarrow> head (que nd) = tail (que nd)"
    using assms(1) ht_empty [of "head (que nd)" "queue (que nd)" "tail (que nd)"] by (simp add: queue_ok_def waiters_def)
  show "waiters nd = [] \<Longrightarrow> t = -1 \<and> q = que nd" using assms(2) e by (auto simp: deque_def)
  show "queue_ok (nd\<lparr>que := q\<rparr>)" using assms by (auto simp: deque_def queue_ok_def split: if_splits)
  show "t = v \<and> waiters (nd\<lparr>que := q\<rparr>) = vs" if "waiters nd = v # vs"
  proof -
    have "head (que nd) \<noteq> tail (que nd)" using e that by auto
    then show ?thesis using assms that ht_get [of "head (que nd)" "queue (que nd)" "tail (que nd)"]
      by (auto simp: deque_def queue_ok_def waiters_def)
  qed
qed

text \<open>A release that finds nobody waiting, as the last one always does, makes the program send to process -1.\<close>

lemma last_release_sends_to_nobody: "queue_ok nd \<Longrightarrow> waiters nd = [] \<Longrightarrow> snd (pass_vote nd) = [(-1, -1)]"
  using deque_waiters(2) [of nd "fst (deque (que nd))" "snd (deque (que nd))"] by (auto simp: pass_vote_def split: prod.splits)

lemma waiters_simps [simp]:
  "waiters (nd\<lparr>pc := p\<rparr>) = waiters nd" "waiters (nd\<lparr>num := k\<rparr>) = waiters nd" "waiters (nd\<lparr>procs_done := k\<rparr>) = waiters nd"
  "queue_ok (nd\<lparr>pc := p\<rparr>) = queue_ok nd" "queue_ok (nd\<lparr>num := k\<rparr>) = queue_ok nd" "queue_ok (nd\<lparr>procs_done := k\<rparr>) = queue_ok nd"
  by (simp_all add: waiters_def queue_ok_def)

text \<open>How the mailboxes and queues change, as changes of the counts.\<close>

lemma counts_take:
  assumes "i < length (ml n)" "ml n ! i = proc_pids c x" "x < group c"
  shows "counts c (ml(n := drop_nth i (ml n))) = dec n x (counts c ml)" "1 \<le> counts c ml n x"
proof -
  show "counts c (ml(n := drop_nth i (ml n))) = dec n x (counts c ml)"
    using assms by (intro ext) (auto simp: counts_def dec_def count_drop_nth)
  show "1 \<le> counts c ml n x" using assms nth_mem [OF assms(1)] by (simp add: counts_def Suc_le_eq count_list_0_iff flip: neq0_conv)
qed

lemma counts_take_release:
  assumes "cfg_ok c" "i < length (ml n)" "ml n ! i = 100"
  shows "counts c (ml(n := drop_nth i (ml n))) = counts c ml"
    "(\<lambda>j. count_list ((ml(n := drop_nth i (ml n))) j) 100) = (\<lambda>j. count_list (ml j) 100)(n := count_list (ml n) 100 - 1)"
    "1 \<le> count_list (ml n) 100"
proof -
  show "counts c (ml(n := drop_nth i (ml n))) = counts c ml"
    using assms cfg_facts(4) [OF assms(1)] by (intro ext) (auto simp: counts_def count_drop_nth dest: sym)
  show "(\<lambda>j. count_list ((ml(n := drop_nth i (ml n))) j) 100) = (\<lambda>j. count_list (ml j) 100)(n := count_list (ml n) 100 - 1)"
    using assms by (intro ext) (auto simp: count_drop_nth)
  show "1 \<le> count_list (ml n) 100" using assms(3) nth_mem [OF assms(2)] by (simp add: Suc_le_eq count_list_0_iff flip: neq0_conv)
qed

lemma releases_take:
  assumes "cfg_ok c" "i < length (ml n)" "ml n ! i = proc_pids c x" "x < group c"
  shows "(\<lambda>j. count_list ((ml(n := drop_nth i (ml n))) j) 100) = (\<lambda>j. count_list (ml j) 100)"
  using assms cfg_facts(4) [OF assms(1,4)] by (intro ext) (auto simp: count_drop_nth)

lemma counts_put: "x < group c \<Longrightarrow> counts c (ml(n := ml n @ [proc_pids c x])) = inc n x (counts c ml)"
  by (intro ext) (auto simp: counts_def inc_def)

lemma counts_head: "wt n = proc_pids c x # vs \<Longrightarrow> x < group c \<Longrightarrow> counts c (wt(n := vs)) = dec n x (counts c wt) \<and> 1 \<le> counts c wt n x"
  by (auto simp: counts_def dec_def intro!: ext)

lemma counts_shift:
  "1 \<le> M n x \<Longrightarrow> (\<lambda>j y. dec n x M j y + inc n x q j y) = (\<lambda>j y. M j y + q j y)"
  "1 \<le> M n x \<Longrightarrow> (\<lambda>j y. dec n x M j y + q j y) = dec n x (\<lambda>j y. M j y + q j y)"
  "1 \<le> q n x \<Longrightarrow> (\<lambda>j y. inc x x M j y + dec n x q j y) = inc x x (dec n x (\<lambda>j y. M j y + q j y))"
  "1 \<le> M n x \<Longrightarrow> (\<lambda>j y. inc x x (dec n x M) j y + q j y) = inc x x (dec n x (\<lambda>j y. M j y + q j y))"
  by (intro ext; auto simp: inc_def dec_def)+

lemma deliver_vote: "deliver c [(proc_pids c x, v)] ml = ml(x := ml x @ [v])"
  by (intro ext) (auto simp: deliver_def)

lemma deliver_none: "deliver c [] ml = ml" "cfg_ok c \<Longrightarrow> deliver c [(-1, v)] ml = ml"
  using cfg_facts(5) [of c] by (auto simp: deliver_def not_sym [OF cfg_facts(5)] intro!: ext)

lemma deliver_all:
  assumes "distinct xs"
  shows "deliver c (map (\<lambda>x. (proc_pids c x, v)) xs) ml k = ml k @ (if k \<in> set xs then [v] else [])"
proof -
  have "map snd (filter (\<lambda>(d, v). d = proc_pids c k) (map (\<lambda>x. (proc_pids c x, v)) xs)) = map (\<lambda>_. v) (filter (\<lambda>x. x = k) xs)"
    by (induction xs) auto
  also have "filter (\<lambda>x. x = k) xs = (if k \<in> set xs then [k] else [])" using assms by (induction xs) (auto simp: filter_empty_conv)
  finally show ?thesis by (simp add: deliver_def)
qed

lemma distinct_quorum: "distinct (quorum sz n)"
  by (simp add: quorum_def)

lemma system_take:
  assumes "cfg_ok c" "system_inv c P nm dn ml wt g" "i < length (ml n)" "ml n ! i = proc_pids c x" "n < group c" "x < group c"
  shows "system_inv c P nm dn (ml(n := drop_nth i (ml n))) (wt(n := wt n @ [proc_pids c x])) g"
    "system_inv c P nm dn (ml(n := drop_nth i (ml n))) wt g"
    "x = n \<Longrightarrow> system_inv c P (nm(n := nm n + 1)) dn (ml(n := drop_nth i (ml n))) wt g"
    "P n = First \<Longrightarrow> system_inv c (P(n := Rest 0)) nm dn (deliver c [(proc_pids c x, proc_pids c x)] (ml(n := drop_nth i (ml n)))) wt (inc n x g)"
proof -
  note t = counts_take [of i ml n c x, OF assms(3,4,6)] releases_take [of c i ml n x, OF assms(1,3,4,6)]
  note I = assms(2) [unfolded system_inv_def]
  have lt: "counts c wt n x < counts c ml n x + counts c wt n x" using t(2) by simp
  show "system_inv c P nm dn (ml(n := drop_nth i (ml n))) (wt(n := wt n @ [proc_pids c x])) g"
    unfolding system_inv_def t(1,3) counts_put [OF assms(6)] counts_shift(1) [where M = "counts c ml", OF t(2)]
    by (rule grid.votes_inv_enque [OF I assms(6) lt])
  show "system_inv c P nm dn (ml(n := drop_nth i (ml n))) wt g"
    unfolding system_inv_def t(1,3) counts_shift(2) [where M = "counts c ml", OF t(2)] by (rule grid.votes_inv_drop [OF I lt])
  show "system_inv c P (nm(n := nm n + 1)) dn (ml(n := drop_nth i (ml n))) wt g" if "x = n"
    unfolding system_inv_def t(1,3) counts_shift(2) [where M = "counts c ml", OF t(2)] using grid.votes_inv_vote [OF I] lt that by simp
  have r: "(\<lambda>j. count_list ((f(x := f x @ [proc_pids c x])) j) 100) = (\<lambda>j. count_list (f j) 100)" for f
    using cfg_facts(4) [OF assms(1,6)] by auto
  show "system_inv c (P(n := Rest 0)) nm dn (deliver c [(proc_pids c x, proc_pids c x)] (ml(n := drop_nth i (ml n)))) wt (inc n x g)" if "P n = First"
    unfolding deliver_vote system_inv_def r counts_put [OF assms(6)] t(1,3) counts_shift(4) [where M = "counts c ml", OF t(2)]
    by (rule grid.votes_inv_first [OF I assms(5,6) that lt])
qed

lemma system_release_seen:
  assumes "cfg_ok c" "system_inv c P nm dn ml wt g" "i < length (ml n)" "ml n ! i = 100" "n < group c" "late (P n)"
  shows "system_inv c P nm (dn(n := dn n + 1)) (ml(n := drop_nth i (ml n))) wt g"
    "wt n = proc_pids c x # vs \<Longrightarrow> x < group c \<Longrightarrow> system_inv c P nm (dn(n := dn n + 1))
       (deliver c [(proc_pids c x, proc_pids c x)] (ml(n := drop_nth i (ml n)))) (wt(n := vs)) (inc n x g)"
proof -
  note t = counts_take_release [of c i ml n, OF assms(1,3,4)]
  note I = assms(2) [unfolded system_inv_def]
  show "system_inv c P nm (dn(n := dn n + 1)) (ml(n := drop_nth i (ml n))) wt g"
    unfolding system_inv_def t(1,2) by (rule grid.votes_inv_released [OF I t(3)])
  assume w: "wt n = proc_pids c x # vs" and x: "x < group c"
  note h = counts_head [of wt n c x vs, OF w x, THEN conjunct1] counts_head [of wt n c x vs, OF w x, THEN conjunct2]
  have r: "(\<lambda>j. count_list ((f(x := f x @ [proc_pids c x])) j) 100) = (\<lambda>j. count_list (f j) 100)" for f
    using cfg_facts(4) [OF assms(1) x] by auto
  show "system_inv c P nm (dn(n := dn n + 1)) (deliver c [(proc_pids c x, proc_pids c x)] (ml(n := drop_nth i (ml n)))) (wt(n := vs)) (inc n x g)"
    unfolding deliver_vote system_inv_def r counts_put [OF x] t(1,2) h(1) counts_shift(3) [where q = "counts c wt", OF h(2)]
    by (rule grid.votes_inv_grant [OF I assms(5) x assms(6) h(2) t(3)])
qed

lemma system_enter:
  assumes "system_inv c P nm dn ml wt g" "n < group c" "P n = Votes" "nm n = 2 * side c - 1" "p = Critical \<or> p = Release"
  shows "system_inv c (P(n := p)) nm dn ml wt g"
  unfolding system_inv_def by (rule grid.votes_inv_enter [OF assms(1) [unfolded system_inv_def] assms(2-5)])

lemma system_leave:
  assumes "system_inv c P nm dn ml wt g" "n < group c" "P n = Critical \<and> p = Release \<or> P n = Serve \<and> p = Finished \<or> P n = Ask k \<and> k \<noteq> n \<and> p = AskBarrier k"
  shows "system_inv c (P(n := p)) nm dn ml wt g"
proof -
  note I = assms(1) [unfolded system_inv_def]
  note D = votes_invD [OF I]
  have "holds p \<Longrightarrow> holds (P n)" using assms(3) by (auto simp: stage_defs)
  then have "holds p \<Longrightarrow> \<forall>j\<in>set (quorum (side c) n). 1 \<le> g j n" using D(7) [OF assms(2)] by blast
  then show ?thesis unfolding system_inv_def using assms(3) D(9) [OF assms(2)] by (intro votes_inv_move [OF I assms(2)]) (auto simp: stage_defs)
qed

lemma system_rest:
  assumes "cfg_ok c" "system_inv c P nm dn ml wt g" "i < length (ml n)" "ml n ! i = proc_pids c x" "n < group c" "x < group c" "P n = Rest p"
  shows "system_inv c (P(n := rest_pc c (p + 1))) nm dn (ml(n := drop_nth i (ml n))) (wt(n := wt n @ [proc_pids c x])) g"
proof -
  note I = system_take(1) [OF assms(1-6), unfolded system_inv_def]
  have "Suc p \<le> (\<Sum>y<group c. counts c wt n y + g n y)"
    using votes_invD(5) [OF assms(2) [unfolded system_inv_def] assms(5)] assms(7) by simp
  moreover have "(\<Sum>y<group c. counts c (wt(n := wt n @ [proc_pids c x])) n y + g n y) = Suc (\<Sum>y<group c. counts c wt n y + g n y)"
    using sum_inc_row [OF assms(6), of n "counts c wt" n] unfolding counts_put [OF assms(6)] by (simp add: sum.distrib)
  ultimately have "taken (2 * side c - 1) (rest_pc c (p + 1)) \<le> (\<Sum>y<group c. counts c (wt(n := wt n @ [proc_pids c x])) n y + g n y)"
    by (auto simp: rest_pc_def)
  then show ?thesis unfolding system_inv_def using assms(7)
    by (intro votes_inv_move [OF I assms(5)]) (auto simp: stage_defs rest_pc_def split: if_splits)
qed

text \<open>No release is in a mailbox before the last barrier has opened.\<close>

lemma no_early_release:
  assumes "system_inv c P nm dn ml wt g" "n < group c" "phase (group c) (P n) < group c + 2" "i < length (ml n)"
  shows "ml n ! i \<noteq> 100"
proof
  note D = votes_invD [OF assms(1) [unfolded system_inv_def]]
  assume "ml n ! i = 100"
  then have "0 < count_list (ml n) 100" using nth_mem [OF assms(4)] by (simp add: count_list_0_iff flip: neq0_conv)
  then have "0 < card {x \<in> set (quorum (side c) n). released (P x)}" using D(3) [OF assms(2)] by linarith
  then obtain x where x: "x \<in> set (quorum (side c) n)" "released (P x)" by (auto simp: card_gt_0_iff)
  then have "phase (group c) (P x) = group c + 2" by (auto simp: released_def)
  moreover have "phase (group c) (P x) = phase (group c) (P n)" using x(1) by (intro D(4) [OF _ assms(2)]) (simp add: set_quorum)
  ultimately show False using assms(3) by simp
qed

lemma waiters_bound:
  assumes "cfg_ok c" "system_inv c P nm dn ml wt g" "n < group c" "set (wt n) \<subseteq> group_pids c"
  shows "length (wt n) < 99"
proof -
  have "length (wt n) = sum (count_list (wt n)) (group_pids c)" using assms(4) by (intro sum_count_set [symmetric]) (simp_all add: group_pids_def)
  also have "\<dots> = (\<Sum>y<group c. count_list (wt n) (proc_pids c y))" unfolding group_pids_def by (simp add: sum.reindex inj_on_def)
  also have "\<dots> = (\<Sum>y<group c. counts c wt n y)" by (simp add: counts_def)
  also have "\<dots> \<le> 2 * (2 * side c - 1)" by (rule grid.queue_bound [OF assms(2) [unfolded system_inv_def] assms(3)])
  finally show ?thesis using cfg_facts(2) [OF assms(1)] by simp
qed

subsection \<open>Every step keeps the invariant\<close>

lemma upd_same: "(\<lambda>k. F (f k))(n := F (f n)) = (\<lambda>k. F (f k))"
  by auto

lemma minv_updI:
  assumes "minv c s" "queue_ok nd" "set (waiters nd) \<subseteq> group_pids c" "\<And>j. j < group c \<Longrightarrow> set (ml j) \<subseteq> insert 100 (group_pids c)"
    "system_inv c ((\<lambda>k. pc (nodes s k))(n := pc nd)) ((\<lambda>k. num (nodes s k))(n := num nd))
       ((\<lambda>k. procs_done (nodes s k))(n := procs_done nd)) ml ((\<lambda>k. waiters (nodes s k))(n := waiters nd)) g"
  shows "minv c \<lparr>nodes = (nodes s)(n := nd), mail = ml\<rparr>"
proof -
  have e: "(\<lambda>k. F (((nodes s)(n := nd)) k)) = (\<lambda>k. F (nodes s k))(n := F nd)" for F :: "node \<Rightarrow> 'z" by auto
  have "queue_ok (((nodes s)(n := nd)) j) \<and> set (waiters (((nodes s)(n := nd)) j)) \<subseteq> group_pids c" if "j < group c" for j
    using assms(1-3) that by (auto simp: minv_def)
  with assms(4,5) show ?thesis unfolding minv_def msys.simps e by blast
qed

lemma minvD:
  assumes "minv c s" "n < group c"
  shows "queue_ok (nodes s n)" "set (waiters (nodes s n)) \<subseteq> group_pids c" "set (mail s n) \<subseteq> insert 100 (group_pids c)"
  using assms by (simp_all add: minv_def)

lemma deliver_group:
  assumes "\<And>j. j < group c \<Longrightarrow> set (ml j) \<subseteq> A" "snd ` set out \<subseteq> A" "j < group c"
  shows "set (deliver c out ml j) \<subseteq> A"
  using assms by (fastforce simp: deliver_def)

lemma minv_init: "cfg_ok c \<Longrightarrow> minv c minit"
proof -
  assume c: "cfg_ok c"
  have "0 < group c" using cfg_facts(1) [OF c] by simp
  then have "system_inv c (\<lambda>n. Ask 0) (\<lambda>n. 0) (\<lambda>n. 0) (\<lambda>n. []) (\<lambda>n. []) (\<lambda>j x. 0)"
    by (auto simp: system_inv_def votes_inv_def balanced_def counts_def stage_defs)
  moreover have "waiters \<lparr>pc = Ask 0, que = empty_queue, num = 0, procs_done = 0\<rparr> = []"
    by (simp add: waiters_def empty_queue_def ht_contents_def ht_length_def)
  ultimately show ?thesis by (auto simp: minv_def minit_def queue_ok_def empty_queue_def)
qed

lemma minv_open:
  assumes "minv c s" "mstep c Open s = Some t"
  shows "minv c t"
proof -
  have a: "at_barrier (pc (nodes s n))" if "n < group c" for n using assms(2) that by (auto simp: mstep_def list_all_iff split: if_splits)
  obtain g where "system_inv c (\<lambda>n. pc (nodes s n)) (\<lambda>n. num (nodes s n)) (\<lambda>n. procs_done (nodes s n)) (mail s) (\<lambda>n. waiters (nodes s n)) g"
    using assms(1) by (auto simp: minv_def)
  then have "system_inv c (\<lambda>n. leave c (pc (nodes s n))) (\<lambda>n. num (nodes s n)) (\<lambda>n. procs_done (nodes s n)) (mail s) (\<lambda>n. waiters (nodes s n)) g"
    unfolding system_inv_def using a by (intro grid.votes_inv_open) simp_all
  moreover have "t = s\<lparr>nodes := \<lambda>n. (nodes s n)\<lparr>pc := leave c (pc (nodes s n))\<rparr>\<rparr>" using assms(2) by (simp add: mstep_def split: if_splits)
  ultimately show ?thesis unfolding minv_def using minvD [OF assms(1)] by (intro conjI allI impI exI [of _ g]) simp_all
qed

lemma minv_act:
  assumes "cfg_ok c" "minv c s" "mstep c (Act n) s = Some t"
  shows "minv c t"
proof -
  let ?nd = "nodes s n"
  obtain nd out where n: "n < group c" "act c n ?nd = Some (nd, out)" "t = \<lparr>nodes = (nodes s)(n := nd), mail = deliver c out (mail s)\<rparr>"
    using assms(3) by (auto simp: mstep_def split: if_splits option.splits)
  note D = minvD [OF assms(2)]
  obtain g where g: "system_inv c (\<lambda>n. pc (nodes s n)) (\<lambda>n. num (nodes s n)) (\<lambda>n. procs_done (nodes s n)) (mail s) (\<lambda>n. waiters (nodes s n)) g"
    using assms(2) by (auto simp: minv_def)
  note I = g [unfolded system_inv_def]
  have nd: "nd = ?nd\<lparr>pc := pc nd\<rparr>" "set (map snd out) \<subseteq> insert 100 (group_pids c)"
    using n(1,2) by (auto simp: turn_defs group_pids_def split: mpc.splits if_splits)
  have c: "counts c (deliver c (map (\<lambda>x. (proc_pids c x, v)) (quorum (side c) n)) (mail s)) =
      (\<lambda>j x. counts c (mail s) j x + of_bool (x < group c \<and> v = proc_pids c x \<and> j \<in> set (quorum (side c) n)))"
    "(\<lambda>j. count_list (deliver c (map (\<lambda>x. (proc_pids c x, v)) (quorum (side c) n)) (mail s) j) 100) =
      (\<lambda>j. count_list (mail s j) 100 + of_bool (v = 100 \<and> j \<in> set (quorum (side c) n)))" for v
    by (intro ext, auto simp: counts_def deliver_all [OF distinct_quorum])+
  have "system_inv c ((\<lambda>k. pc (nodes s k))(n := pc nd)) (\<lambda>k. num (nodes s k)) (\<lambda>k. procs_done (nodes s k)) (deliver c out (mail s)) (\<lambda>k. waiters (nodes s k)) g"
  proof (cases "pc ?nd = Ask n \<or> pc ?nd = Release")
    case False
    then have o: "out = []" "pc ?nd = Critical \<and> pc nd = Release \<or> pc ?nd = Serve \<and> pc nd = Finished \<or> (\<exists>k. pc ?nd = Ask k \<and> k \<noteq> n \<and> pc nd = AskBarrier k)"
      using n(2) by (auto simp: turn_defs split: mpc.splits if_splits)
    then show ?thesis unfolding o(1) deliver_none(1) using system_leave [OF g n(1)] by blast
  next
    case True
    then show ?thesis
    proof
      assume a: "pc ?nd = Ask n"
      then have o: "pc nd = AskBarrier n" "out = map (\<lambda>x. (proc_pids c x, proc_pids c n)) (quorum (side c) n)" using n(2) by (auto simp: turn_defs)
      have h: "(\<lambda>j x. counts c (mail s) j x + of_bool (x < group c \<and> proc_pids c n = proc_pids c x \<and> j \<in> set (quorum (side c) n)) + counts c w j x) =
          (\<lambda>j x. counts c (mail s) j x + counts c w j x + of_bool (x = n \<and> j \<in> set (quorum (side c) n)))" for w
        using n(1) by (intro ext) auto
      show ?thesis unfolding system_inv_def o c h using cfg_facts(4) [OF assms(1) n(1)] grid.votes_inv_ask [OF I n(1) a] by simp
    next
      assume a: "pc ?nd = Release"
      then have o: "pc nd = Serve" "out = map (\<lambda>x. (proc_pids c x, 100)) (quorum (side c) n)" using n(2) by (auto simp: turn_defs)
      have h: "(\<lambda>j x. counts c (mail s) j x + of_bool (x < group c \<and> 100 = proc_pids c x \<and> j \<in> set (quorum (side c) n)) + counts c w j x) =
          (\<lambda>j x. counts c (mail s) j x + counts c w j x)" for w
        using cfg_facts(4) [OF assms(1)] by (intro ext) (auto dest: sym)
      show ?thesis unfolding system_inv_def o c h using grid.votes_inv_release [OF I n(1) a] by simp
    qed
  qed
  moreover have "num nd = num ?nd" "procs_done nd = procs_done ?nd" "waiters nd = waiters ?nd" "queue_ok nd"
    using D(1) [OF n(1)] by (subst nd(1), simp)+
  ultimately show ?thesis unfolding n(3) using D(2) [OF n(1)] nd(2) deliver_group [OF D(3)]
    by (intro minv_updI [OF assms(2), where g = g]) (simp_all add: upd_same)
qed

text \<open>What a process becomes on a message, with the mailboxes that result.\<close>

definition after :: "mcfg \<Rightarrow> msys \<Rightarrow> nat \<Rightarrow> node \<Rightarrow> (nat \<Rightarrow> int list) \<Rightarrow> bool" where
  "after c s n nd ml \<longleftrightarrow> queue_ok nd \<and> set (waiters nd) \<subseteq> group_pids c \<and> (\<forall>j<group c. set (ml j) \<subseteq> insert 100 (group_pids c)) \<and>
     (\<exists>g. system_inv c ((\<lambda>k. pc (nodes s k))(n := pc nd)) ((\<lambda>k. num (nodes s k))(n := num nd))
       ((\<lambda>k. procs_done (nodes s k))(n := procs_done nd)) ml ((\<lambda>k. waiters (nodes s k))(n := waiters nd)) g)"

lemma after_minv: "minv c s \<Longrightarrow> after c s n nd ml \<Longrightarrow> minv c \<lparr>nodes = (nodes s)(n := nd), mail = ml\<rparr>"
  unfolding after_def by (blast intro: minv_updI)

lemma after_enter:
  assumes "after c s n nd ml" "n < group c" "pc nd = Votes" "num nd = 2 * side c - 1" "p = Critical \<or> p = Release"
  shows "after c s n (nd\<lparr>pc := p\<rparr>) ml"
proof -
  obtain g where g: "system_inv c ((\<lambda>k. pc (nodes s k))(n := pc nd)) ((\<lambda>k. num (nodes s k))(n := num nd))
       ((\<lambda>k. procs_done (nodes s k))(n := procs_done nd)) ml ((\<lambda>k. waiters (nodes s k))(n := waiters nd)) g"
    using assms(1) unfolding after_def by blast
  show ?thesis using system_enter [OF g assms(2) _ _ assms(5)] assms(1,3,4) by (auto simp: after_def)
qed

lemma after_finish:
  assumes "after c s n nd ml" "n < group c" "pc nd = Serve"
  shows "after c s n (nd\<lparr>pc := Finished\<rparr>) ml"
proof -
  obtain g where g: "system_inv c ((\<lambda>k. pc (nodes s k))(n := pc nd)) ((\<lambda>k. num (nodes s k))(n := num nd))
       ((\<lambda>k. procs_done (nodes s k))(n := procs_done nd)) ml ((\<lambda>k. waiters (nodes s k))(n := waiters nd)) g"
    using assms(1) unfolding after_def by blast
  show ?thesis using system_leave [OF g assms(2), of Finished] assms(1,3) by (auto simp: after_def)
qed

lemma taken_mail:
  assumes "minv c s" "j < group c"
  shows "set (((mail s)(n := drop_nth i (mail s n))) j) \<subseteq> insert 100 (group_pids c)"
  using minvD(3) [OF assms] set_drop_nth [of i "mail s n"] by auto

lemma after_pid:
  assumes "cfg_ok c" "minv c s" "n < group c" "i < length (mail s n)" "mail s n ! i = proc_pids c x" "x < group c"
  defines "ml \<equiv> (mail s)(n := drop_nth i (mail s n))" and "nd \<equiv> nodes s n"
  shows "after c s n (nd\<lparr>que := enque (proc_pids c x) (que nd)\<rparr>) ml" "after c s n nd ml"
    "x = n \<Longrightarrow> after c s n (nd\<lparr>num := num nd + 1\<rparr>) ml"
    "pc nd = First \<Longrightarrow> after c s n (nd\<lparr>pc := Rest 0\<rparr>) (deliver c [(proc_pids c x, proc_pids c x)] ml)"
    "pc nd = Rest p \<Longrightarrow> after c s n (nd\<lparr>que := enque (proc_pids c x) (que nd), pc := rest_pc c (p + 1)\<rparr>) ml"
proof -
  obtain g where g: "system_inv c (\<lambda>n. pc (nodes s n)) (\<lambda>n. num (nodes s n)) (\<lambda>n. procs_done (nodes s n)) (mail s) (\<lambda>n. waiters (nodes s n)) g"
    using assms(2) by (auto simp: minv_def)
  note D = minvD [OF assms(2,3)]
  note E = enque_waiters [OF D(1) waiters_bound [OF assms(1) g assms(3) D(2)], of "proc_pids c x"]
  have px: "proc_pids c x \<in> group_pids c" using assms(6) by (simp add: group_pids_def)
  have M: "set (ml j) \<subseteq> insert 100 (group_pids c)" if "j < group c" for j using taken_mail [OF assms(2) that] by (simp add: ml_def)
  note T = system_take [OF assms(1) g assms(4,5,3,6)] system_rest [OF assms(1) g assms(4,5,3,6)]
  show "after c s n (nd\<lparr>que := enque (proc_pids c x) (que nd)\<rparr>) ml"
    using D E px M T(1) unfolding after_def by (auto simp: nd_def upd_same ml_def)
  show "after c s n nd ml" using D M T(2) unfolding after_def by (auto simp: nd_def upd_same ml_def)
  show "after c s n (nd\<lparr>num := num nd + 1\<rparr>) ml" if "x = n" using D M T(3) [OF that] unfolding after_def by (auto simp: nd_def upd_same ml_def)
  show "after c s n (nd\<lparr>pc := Rest 0\<rparr>) (deliver c [(proc_pids c x, proc_pids c x)] ml)" if "pc nd = First"
    using D M deliver_group [of c ml "insert 100 (group_pids c)"] px T(4) that unfolding after_def by (auto simp: nd_def upd_same ml_def)
  show "after c s n (nd\<lparr>que := enque (proc_pids c x) (que nd), pc := rest_pc c (p + 1)\<rparr>) ml" if "pc nd = Rest p"
    using D E px M T(5) that unfolding after_def by (auto simp: nd_def upd_same ml_def)
qed

lemma after_release:
  assumes "cfg_ok c" "minv c s" "n < group c" "i < length (mail s n)" "mail s n ! i = 100" "late (pc (nodes s n))" "pass_vote (nodes s n) = (nd, out)"
  shows "after c s n nd (deliver c out ((mail s)(n := drop_nth i (mail s n))))" "pc nd = pc (nodes s n)" "num nd = num (nodes s n)"
proof -
  let ?nd = "nodes s n" and ?ml = "(mail s)(n := drop_nth i (mail s n))"
  obtain g where g: "system_inv c (\<lambda>n. pc (nodes s n)) (\<lambda>n. num (nodes s n)) (\<lambda>n. procs_done (nodes s n)) (mail s) (\<lambda>n. waiters (nodes s n)) g"
    using assms(2) by (auto simp: minv_def)
  note D = minvD [OF assms(2,3)]
  obtain t q where q: "deque (que ?nd) = (t, q)" by fastforce
  then have nd: "nd = ?nd\<lparr>que := q, procs_done := procs_done ?nd + 1\<rparr>" "out = [(t, t)]" using assms(7) by (auto simp: pass_vote_def)
  then show "pc nd = pc ?nd" "num nd = num ?nd" by simp_all
  note Q = deque_waiters [OF D(1) q]
  have M: "set (?ml j) \<subseteq> insert 100 (group_pids c)" if "j < group c" for j by (rule taken_mail [OF assms(2) that])
  show "after c s n nd (deliver c out ?ml)"
  proof (cases "waiters ?nd")
    case Nil
    then have "t = -1" "q = que ?nd" using Q(2) by simp_all
    then show ?thesis using D M system_release_seen(1) [OF assms(1) g assms(4,5,3,6)] assms(1)
      unfolding after_def nd by (auto simp: upd_same deliver_none(2))
  next
    case (Cons v vs)
    then obtain x where x: "v = proc_pids c x" "x < group c" using D(2) by (auto simp: group_pids_def)
    then have w: "t = proc_pids c x" "waiters (?nd\<lparr>que := q\<rparr>) = vs" using Q(3) [OF Cons] by simp_all
    have "set (deliver c out ?ml j) \<subseteq> insert 100 (group_pids c)" if "j < group c" for j
      using M x(2) that unfolding nd(2) w(1) by (intro deliver_group) (auto simp: group_pids_def)
    moreover have "waiters ?nd = proc_pids c x # vs" using Cons x(1) by simp
    note system_release_seen(2) [OF assms(1) g assms(4,5,3,6) this x(2)]
    ultimately show ?thesis using D(2) Q(1) w Cons unfolding after_def nd by (auto simp: upd_same)
  qed
qed

lemma minv_recv:
  assumes "cfg_ok c" "minv c s" "mstep c (Recv n i) s = Some t"
  shows "minv c t"
proof -
  let ?nd = "nodes s n" and ?ml = "(mail s)(n := drop_nth i (mail s n))" and ?m = "mail s n ! i"
  obtain nd out where n: "n < group c" "i < length (mail s n)" "recv_msg c n ?m ?nd = Some (nd, out)" "t = \<lparr>nodes = (nodes s)(n := nd), mail = deliver c out ?ml\<rparr>"
    using assms(3) by (auto simp: mstep_def split: if_splits option.splits)
  obtain g where g: "system_inv c (\<lambda>n. pc (nodes s n)) (\<lambda>n. num (nodes s n)) (\<lambda>n. procs_done (nodes s n)) (mail s) (\<lambda>n. waiters (nodes s n)) g"
    using assms(2) by (auto simp: minv_def)
  have m: "?m = 100 \<or> (\<exists>x<group c. ?m = proc_pids c x)" using minvD(3) [OF assms(2) n(1)] nth_mem [OF n(2)] by (auto simp: group_pids_def)
  note A = after_pid [OF assms(1,2) n(1,2)] and R = after_release [OF assms(1,2) n(1,2)]
  have early: "\<exists>x<group c. ?m = proc_pids c x" if "pc ?nd = First \<or> pc ?nd = Rest p" for p
    using m no_early_release [OF g n(1) _ n(2)] that by auto
  have ne: "?m \<noteq> -1" using m cfg_facts(5) [OF assms(1)] by auto
  have "after c s n nd (deliver c out ?ml)"
  proof (cases "pc ?nd")
    case First
    then show ?thesis using A(4) early n(3) cfg_facts(1) [OF assms(1)] by (auto simp: turn_defs rest_pc_def)
  next
    case (Rest p)
    then show ?thesis using A(5) early n(3) ne by (auto simp: turn_defs deliver_none)
  next
    case Votes
    obtain nd' where v: "vote_turn c n ?m ?nd = (nd', out)" "nd = (if num nd' = 2 * side c - 1 then nd'\<lparr>pc := if int n < mP1 c then Release else Critical\<rparr> else nd')"
      using n(3) ne Votes by (auto simp: turn_defs Let_def split: prod.splits)
    consider "?m = 100" | "?m = proc_pids c n" | x where "x < group c" "x \<noteq> n" "?m = proc_pids c x" using m by blast
    then have "after c s n nd' (deliver c out ?ml) \<and> pc nd' = Votes"
    proof cases
      case 1
      then have p: "pass_vote ?nd = (nd', out)" using v(1) cfg_facts(4) [OF assms(1) n(1)] by (simp add: vote_turn_def)
      have "late (pc ?nd)" using Votes by (simp add: late_def)
      from R [OF 1 this p] show ?thesis using Votes by simp
    next
      case 2
      then show ?thesis using v(1) A(3) [OF 2 n(1)] Votes by (auto simp: vote_turn_def deliver_none)
    next
      case 3
      then show ?thesis using v(1) A(1) [OF 3(3,1)] Votes cfg_facts(4) [OF assms(1) 3(1)] by (auto simp: vote_turn_def deliver_none)
    qed
    then show ?thesis using after_enter [of c s n nd'] n(1) v(2) by auto
  next
    case Serve
    obtain nd' where v: "(if ?m = 100 then pass_vote ?nd else (?nd, [])) = (nd', out)" "nd = (if 2 * side c - 1 \<le> procs_done nd' then nd'\<lparr>pc := Finished\<rparr> else nd')"
      using n(3) ne Serve by (auto simp: turn_defs Let_def split: prod.splits)
    have "after c s n nd' (deliver c out ?ml) \<and> pc nd' = Serve"
    proof (cases "?m = 100")
      case True
      then have p: "pass_vote ?nd = (nd', out)" using v(1) by simp
      have "late (pc ?nd)" using Serve by (simp add: stage_defs)
      from R [OF True this p] show ?thesis using Serve by simp
    next
      case False
      then show ?thesis using m A(2) v(1) Serve by (auto simp: deliver_none)
    qed
    then show ?thesis using after_finish [of c s n nd'] n(1) v(2) by auto
  qed (use n(3) in \<open>simp_all add: turn_defs\<close>)
  then show ?thesis unfolding n(4) by (rule after_minv [OF assms(2)])
qed

lemma mreach_minv: "mreach c s \<Longrightarrow> cfg_ok c \<Longrightarrow> minv c s"
proof (induction rule: mreach.induct)
  case (step s e t)
  then show ?case using minv_act minv_recv minv_open by (cases e) blast+
qed (rule minv_init)

text \<open>
  C2. The program keeps mutual exclusion: in every state that a group of 4, 9, 16 or 25 processes can reach, none of which has the
  process id 100, the number that stands for a release, whatever the order in which messages are delivered, two different processes
  are never both between the last vote and the sending of the releases.
\<close>

theorem maekawa_mutual_exclusion:
  assumes "mreach c s" "cfg_ok c" "a < group c" "b < group c" "a \<noteq> b" "pc (nodes s a) \<in> {Critical, Release}"
  shows "pc (nodes s b) \<notin> {Critical, Release}"
proof
  assume "pc (nodes s b) \<in> {Critical, Release}"
  moreover obtain g where "system_inv c (\<lambda>n. pc (nodes s n)) (\<lambda>n. num (nodes s n)) (\<lambda>n. procs_done (nodes s n)) (mail s) (\<lambda>n. waiters (nodes s n)) g"
    using mreach_minv [OF assms(1,2)] by (auto simp: minv_def)
  ultimately show False using grid.mutual_exclusion assms(3-6) unfolding system_inv_def by blast
qed

text \<open>A run of four processes, with messages taken in the order of arrival, in which the first process gets the votes of its quorum.\<close>

primrec mrun :: "mcfg \<Rightarrow> event list \<Rightarrow> msys \<Rightarrow> msys option" where
  "mrun c [] s = Some s"
| "mrun c (e # es) s = (case mstep c e s of None \<Rightarrow> None | Some t \<Rightarrow> mrun c es t)"

lemma mrun_reach: "mrun c es s = Some t \<Longrightarrow> mreach c s \<Longrightarrow> mreach c t"
  by (induction es arbitrary: s) (auto split: option.splits intro: mreach.step)

definition four :: mcfg where
  "four = \<lparr>mP = 4, mP1 = 0, parent_pid = 3\<rparr>"

definition tab :: "msys \<Rightarrow> node list \<Rightarrow> int list list \<Rightarrow> bool" where
  "tab s nds boxes \<longleftrightarrow> map (nodes s) [0, 1, 2, 3] = nds \<and> map (mail s) [0, 1, 2, 3] = boxes"

abbreviation fresh :: "mpc \<Rightarrow> node" where
  "fresh p \<equiv> \<lparr>pc = p, que = empty_queue, num = 0, procs_done = 0\<rparr>"

lemmas run_simps = mstep_def turn_defs vote_turn_def rest_pc_def at_barrier_def leave_def deliver_def drop_nth_def proc_pids_def Let_def tab_def

lemma four_side: "grid_size (mP four) = 2" "mP1 four = 0" "parent_pid four = 3"
  by (simp_all add: four_def grid_size_def)

lemma q4: "quorum 2 0 = [0, 1, 2]" "quorum 2 (Suc 0) = [0, 1, 3]" "quorum 2 2 = [0, 2, 3]" "quorum 2 3 = [1, 2, 3]" "[0..<4] = [0, 1, 2, 3]"
  by code_simp+

lemma ask_round:
  assumes "tab s [fresh (Ask k), fresh (Ask k), fresh (Ask k), fresh (Ask k)] [a, b, c, d]" "k < 4"
  shows "\<exists>t. mrun four [Act 0, Act 1, Act 2, Act 3, Open] s = Some t \<and>
    tab t (let p = fresh (if k < 3 then Ask (Suc k) else Barrier1) in [p, p, p, p])
      [if k \<noteq> 3 then a @ [3 + int k] else a, if k \<noteq> 2 then b @ [3 + int k] else b, if k \<noteq> 1 then c @ [3 + int k] else c, if k \<noteq> 0 then d @ [3 + int k] else d]"
proof -
  have "k = 0 \<or> k = 1 \<or> k = 2 \<or> k = 3" using assms(2) by auto
  then show ?thesis using assms(1) by (elim disjE) (simp_all add: run_simps four_side q4)
qed

abbreviation waits :: "mpc \<Rightarrow> int list \<Rightarrow> node" where
  "waits p vs \<equiv> \<lparr>pc = p, que = fold enque vs empty_queue, num = 0, procs_done = 0\<rparr>"

lemma first_round:
  assumes "tab s [fresh Barrier1, fresh Barrier1, fresh Barrier1, fresh Barrier1] [[3, 4, 5], [3, 4, 6], [3, 5, 6], [4, 5, 6]]"
  shows "\<exists>t. mrun four [Open, Recv 0 0, Recv 1 0, Recv 2 0, Recv 3 0] s = Some t \<and>
    tab t [waits (Rest 0) [], waits (Rest 0) [], waits (Rest 0) [], waits (Rest 0) []] [[4, 5, 3, 3, 3], [4, 6, 4], [5, 6], [5, 6]]"
  using assms by (simp add: run_simps four_side q4)

lemma rest_round:
  assumes "tab s [waits (Rest 0) [], waits (Rest 0) [], waits (Rest 0) [], waits (Rest 0) []] [[4, 5, 3, 3, 3], [4, 6, 4], [5, 6], [5, 6]]"
  shows "\<exists>t. mrun four [Recv 0 0, Recv 0 0, Recv 1 0, Recv 1 0, Recv 2 0, Recv 2 0, Recv 3 0, Recv 3 0] s = Some t \<and>
    tab t [waits Barrier2 [4, 5], waits Barrier2 [4, 6], waits Barrier2 [5, 6], waits Barrier2 [5, 6]] [[3, 3, 3], [4], [], []]"
  using assms by (simp add: run_simps four_side q4)

lemma votes_round:
  assumes "tab s [waits Barrier2 [4, 5], waits Barrier2 [4, 6], waits Barrier2 [5, 6], waits Barrier2 [5, 6]] [[3, 3, 3], [4], [], []]"
  shows "\<exists>t. mrun four [Open, Recv 0 0, Recv 0 0, Recv 0 0] s = Some t \<and> pc (nodes t 0) = Critical"
  using assms by (simp add: run_simps four_side q4)

lemma mrun_append: "mrun c es s = Some t \<Longrightarrow> mrun c (es @ fs) s = mrun c fs t"
  by (induction es arbitrary: s) (auto split: option.splits)

lemma four_run: "\<exists>es t. mrun four es minit = Some t \<and> pc (nodes t 0) = Critical"
proof -
  let ?asks = "[Act 0, Act 1, Act 2, Act 3, Open]"
  have "tab minit [fresh (Ask 0), fresh (Ask 0), fresh (Ask 0), fresh (Ask 0)] [[], [], [], []]" by (simp add: tab_def minit_def)
  from ask_round [OF this] obtain s1 where s1: "mrun four ?asks minit = Some s1"
    "tab s1 [fresh (Ask 1), fresh (Ask 1), fresh (Ask 1), fresh (Ask 1)] [[3], [3], [3], []]" by (auto simp: Let_def)
  from ask_round [OF s1(2)] obtain s2 where s2: "mrun four ?asks s1 = Some s2"
    "tab s2 [fresh (Ask 2), fresh (Ask 2), fresh (Ask 2), fresh (Ask 2)] [[3, 4], [3, 4], [3], [4]]" by (auto simp: Let_def numeral_2_eq_2)
  from ask_round [OF s2(2)] obtain s3 where s3: "mrun four ?asks s2 = Some s3"
    "tab s3 [fresh (Ask 3), fresh (Ask 3), fresh (Ask 3), fresh (Ask 3)] [[3, 4, 5], [3, 4], [3, 5], [4, 5]]" by (auto simp: Let_def)
  from ask_round [OF s3(2)] obtain s4 where s4: "mrun four ?asks s3 = Some s4"
    "tab s4 [fresh Barrier1, fresh Barrier1, fresh Barrier1, fresh Barrier1] [[3, 4, 5], [3, 4, 6], [3, 5, 6], [4, 5, 6]]" by (auto simp: Let_def)
  obtain es5 s5 where s5: "mrun four es5 s4 = Some s5"
    "tab s5 [waits (Rest 0) [], waits (Rest 0) [], waits (Rest 0) [], waits (Rest 0) []] [[4, 5, 3, 3, 3], [4, 6, 4], [5, 6], [5, 6]]"
    using first_round [OF s4(2)] by blast
  obtain es6 s6 where s6: "mrun four es6 s5 = Some s6"
    "tab s6 [waits Barrier2 [4, 5], waits Barrier2 [4, 6], waits Barrier2 [5, 6], waits Barrier2 [5, 6]] [[3, 3, 3], [4], [], []]"
    using rest_round [OF s5(2)] by blast
  obtain es7 s7 where s7: "mrun four es7 s6 = Some s7" "pc (nodes s7 0) = Critical" using votes_round [OF s6(2)] by blast
  have "mrun four (?asks @ ?asks @ ?asks @ ?asks @ es5 @ es6 @ es7) minit = Some s7"
    using s7(1) unfolding mrun_append [OF s1(1)] mrun_append [OF s2(1)] mrun_append [OF s3(1)] mrun_append [OF s4(1)] mrun_append [OF s5(1)] mrun_append [OF s6(1)] .
  with s7(2) show ?thesis by blast
qed

theorem maekawa_mutual_exclusion_witness:
  "\<exists>s. mreach four s \<and> pc (nodes s 0) = Critical \<and> (\<forall>b\<in>{1, 2, 3}. pc (nodes s b) \<notin> {Critical, Release})"
proof -
  obtain es s where s: "mrun four es minit = Some s" "pc (nodes s 0) = Critical" using four_run by blast
  then have r: "mreach four s" using mrun_reach mreach.start by blast
  have "cfg_ok four" "group four = 4" by (simp_all add: cfg_ok_def four_def grid_size_def)
  then have "pc (nodes s b) \<notin> {Critical, Release}" if "b \<in> {1, 2, 3}" for b
    using maekawa_mutual_exclusion [OF r, of 0 b] s(2) that by auto
  with r s(2) show ?thesis by blast
qed

end
