(* ===== verification/Shell.thy ===== *)
theory Shell
  imports Prelude
begin

text \<open>
  The parser of the shell, \<^verbatim>\<open>src/xv6A1/sh.c\<close>. The command line is the list of its bytes, without a zero; a pointer into it is a
  position, and the end of the list stands for the terminating zero. A word is a pair of positions, as the fields \<^verbatim>\<open>argv\<close> and \<^verbatim>\<open>eargv\<close> are,
  until \<^verbatim>\<open>nulterminate\<close> ends the words in place.

  The recursion of the parser goes from a position to a later one. Where this depends on the result of an earlier call, the definitions test it and
  give \<^const>\<open>Spin\<close> if it fails; it never does.
\<close>

subsection \<open>Commands\<close>

datatype 'w cmd =
    Exec "'w list"
  | Redir "'w cmd" 'w int int
  | Pipe "'w cmd" "'w cmd"
  | Lst "'w cmd" "'w cmd"
  | Back "'w cmd"

type_synonym ptrs = "nat \<times> nat"

abbreviation "MAXARGS \<equiv> (10 :: nat)"
abbreviation "O_RDONLY \<equiv> (0 :: int)"
abbreviation "O_WRONLY_CREATE \<equiv> (0x201 :: int)"

subsection \<open>Tokens\<close>

definition whitespace :: "uchar list" where
  "whitespace = [32, 9, 13, 10, 11]"

definition symbols :: "uchar list" where
  "symbols = [60, 124, 62, 38, 59, 40, 41]"

definition ch :: "uchar list \<Rightarrow> nat \<Rightarrow> uchar" where
  "ch b p = (if p < length b then b ! p else 0)"

definition skip :: "uchar list \<Rightarrow> nat \<Rightarrow> nat" where
  "skip b p = p + length (takeWhile (\<lambda>c. c \<in> set whitespace) (drop p b))"

definition word_end :: "uchar list \<Rightarrow> nat \<Rightarrow> nat" where
  "word_end b p = p + length (takeWhile (\<lambda>c. c \<notin> set whitespace \<and> c \<notin> set symbols) (drop p b))"

text \<open>The token, where it starts and ends, and the position after it.\<close>

definition gettoken :: "uchar list \<Rightarrow> nat \<Rightarrow> uchar \<times> nat \<times> nat \<times> nat" where
  "gettoken b p =
     (let q = skip b p; c = ch b q;
          (ret, e) =
            (if c = 0 then (0, q)
             else if c \<in> {124, 40, 41, 59, 38, 60} then (c, q + 1)
             else if c = 62 then (if ch b (q + 1) = 62 then (43, q + 2) else (c, q + 1))
             else (97, word_end b q))
      in (ret, q, e, skip b e))"

definition after_token :: "uchar list \<Rightarrow> nat \<Rightarrow> nat" where
  "after_token b p = (case gettoken b p of (tok, q, e, p') \<Rightarrow> p')"

definition peek :: "uchar list \<Rightarrow> nat \<Rightarrow> uchar list \<Rightarrow> nat \<times> bool" where
  "peek b p toks = (let s = skip b p in (s, ch b s \<noteq> 0 \<and> ch b s \<in> set toks))"

subsection \<open>Progress\<close>

lemma skip_bounds: "p \<le> skip b p" "p \<le> length b \<Longrightarrow> skip b p \<le> length b"
  using length_takeWhile_le [of "\<lambda>c. c \<in> set whitespace" "drop p b"] by (auto simp: skip_def)

lemma word_end_bounds: "p \<le> word_end b p" "p \<le> length b \<Longrightarrow> word_end b p \<le> length b"
  using length_takeWhile_le [of "\<lambda>c. c \<notin> set whitespace \<and> c \<notin> set symbols" "drop p b"] by (auto simp: word_end_def)

lemma ch_nonzero: "ch b p \<noteq> 0 \<Longrightarrow> p < length b"
  by (simp add: ch_def split: if_splits)

lemma skip_stops: "ch b (skip b p) \<notin> set whitespace"
proof -
  let ?w = "takeWhile (\<lambda>c. c \<in> set whitespace) (drop p b)"
  have "skip b p < length b \<Longrightarrow> b ! skip b p \<notin> set whitespace"
    using nth_length_takeWhile [of "\<lambda>c. c \<in> set whitespace" "drop p b"] by (simp add: skip_def)
  then show ?thesis by (simp add: ch_def whitespace_def)
qed

lemma skip_here: "ch b p \<notin> set whitespace \<Longrightarrow> skip b p = p"
  by (cases "p < length b") (simp_all add: skip_def ch_def Cons_nth_drop_Suc [symmetric])

lemma word_end_progress:
  assumes "p < length b" "b ! p \<notin> set whitespace" "b ! p \<notin> set symbols"
  shows "p < word_end b p"
  using assms by (simp add: word_end_def Cons_nth_drop_Suc [symmetric])

lemma gettoken_progress:
  assumes "gettoken b p = (tok, q, e, p')" "p \<le> length b"
  shows "p \<le> q" "q \<le> e" "e \<le> p'" "p' \<le> length b" "tok \<noteq> 0 \<Longrightarrow> q < e"
proof -
  have q: "q = skip b p" "p' = skip b e" using assms(1) by (auto simp: gettoken_def Let_def split: prod.splits if_splits)
  have c: "ch b q \<notin> set whitespace" unfolding q by (rule skip_stops)
  show "p \<le> q" "e \<le> p'" using skip_bounds by (simp_all add: q)
  have "q \<le> length b" using skip_bounds(2) [OF assms(2)] by (simp add: q)
  moreover have "q < e \<and> e \<le> length b" if z: "ch b q \<noteq> 0"
  proof -
    have "q < length b" by (rule ch_nonzero [OF z])
    moreover have "q < word_end b q \<and> word_end b q \<le> length b" if "ch b q \<notin> set symbols"
      using word_end_progress [of q b] word_end_bounds(2) [of q b] c that calculation by (auto simp: ch_def)
    ultimately show ?thesis using assms(1) z ch_nonzero [of b "q + 1"]
      by (auto simp: gettoken_def Let_def q(1) [symmetric] symbols_def split: if_splits prod.splits)
  qed
  moreover have "e = q \<and> tok = 0" if "ch b q = 0"
    using assms(1) that by (auto simp: gettoken_def Let_def q(1) [symmetric])
  ultimately show "q \<le> e" "p' \<le> length b" "tok \<noteq> 0 \<Longrightarrow> q < e" using skip_bounds(2) [of e b] unfolding q(2)
    by (cases "ch b q = 0"; auto)+
qed

lemma after_token_progress:
  assumes "peek b p toks = (p1, True)"
  shows "p \<le> p1" "p1 < after_token b p1" "after_token b p1 \<le> length b" "p1 < length b"
proof -
  have p1: "p1 = skip b p" "ch b p1 \<noteq> 0" using assms(1) by (auto simp: peek_def Let_def)
  show "p \<le> p1" using skip_bounds(1) by (simp add: p1)
  show l: "p1 < length b" by (rule ch_nonzero [OF p1(2)])
  obtain tok q e p' where g: "gettoken b p1 = (tok, q, e, p')" using prod_cases4 by blast
  have "skip b p1 = p1" using skip_stops [of b p] p1(1) by (simp add: skip_here)
  then have "tok \<noteq> 0" using g p1(2) by (auto simp: gettoken_def Let_def split: if_splits prod.splits)
  then show "p1 < after_token b p1" "after_token b p1 \<le> length b"
    using gettoken_progress [OF g] l by (auto simp: after_token_def g)
qed

lemma redir_progress:
  assumes "snd (peek b p toks)" "(t, q, e, p3) = gettoken b (after_token b (fst (peek b p toks)))"
  shows "p < p3" "p3 \<le> length b"
proof -
  have "peek b p toks = (fst (peek b p toks), True)" using assms(1) by (simp add: prod_eq_iff)
  note a = after_token_progress [OF this]
  show "p < p3" "p3 \<le> length b" using a gettoken_progress(1-4) [OF assms(2) [symmetric]] by linarith+
qed

subsection \<open>The parser\<close>

text \<open>The loop of \<^verbatim>\<open>parseredirs\<close> gives the redirections in their order; they are added around a command.\<close>

definition add_redirs :: "'w cmd \<Rightarrow> ('w \<times> int \<times> int) list \<Rightarrow> 'w cmd" where
  "add_redirs c rs = foldl (\<lambda>c (f, mode, fd). Redir c f mode fd) c rs"

function parseredirs :: "uchar list \<Rightarrow> nat \<Rightarrow> ((ptrs \<times> int \<times> int) list \<times> nat) kres" where
  "parseredirs b p =
     (let p1 = fst (peek b p [60, 62])
      in if snd (peek b p [60, 62]) then
           let tok = fst (gettoken b p1)
           in case gettoken b (after_token b p1) of
                (t, q, eq, p2) \<Rightarrow>
                  if t \<noteq> 97 then Panic ''missing file for redirection''
                  else kbind (parseredirs b p2) (\<lambda>(rs, p3).
                    Ret (((q, eq), if tok = 60 then (O_RDONLY, 0) else (O_WRONLY_CREATE, 1)) # rs, p3))
         else Ret ([], p1))"
  by pat_completeness auto
termination
  by (relation "measure (\<lambda>(b, p). length b - p)") (auto dest: redir_progress intro!: diff_less_mono2 less_le_trans [OF redir_progress])

declare parseredirs.simps [simp del]

lemma parseredirs_end: "\<not> snd (peek b p [60, 62]) \<Longrightarrow> parseredirs b p = Ret ([], fst (peek b p [60, 62]))"
  by (subst parseredirs.simps) simp

lemma parseredirs_step:
  assumes "snd (peek b p [60, 62])" "gettoken b (after_token b (fst (peek b p [60, 62]))) = (t, q, e, p2)"
  shows "parseredirs b p = (if t \<noteq> 97 then Panic ''missing file for redirection''
    else kbind (parseredirs b p2) (\<lambda>(rs, p3).
      Ret (((q, e), if fst (gettoken b (fst (peek b p [60, 62]))) = 60 then (O_RDONLY, 0) else (O_WRONLY_CREATE, 1)) # rs, p3)))"
  using assms by (subst parseredirs.simps) (simp add: Let_def)

lemma parseredirs_bounds: "parseredirs b p = Ret (rs, p') \<Longrightarrow> p \<le> p' \<and> (p \<le> length b \<longrightarrow> p' \<le> length b)"
proof (induction b p arbitrary: rs p' rule: parseredirs.induct)
  case (1 b p)
  show ?case
  proof (cases "snd (peek b p [60, 62])")
    case False
    then show ?thesis using 1(2) skip_bounds by (auto simp: parseredirs_end peek_def Let_def)
  next
    case True
    obtain t q e p2 where g: "gettoken b (after_token b (fst (peek b p [60, 62]))) = (t, q, e, p2)" using prod_cases4 by blast
    obtain rs1 where "parseredirs b p2 = Ret (rs1, p')" "t = 97" using 1(2) by (auto simp: parseredirs_step [OF True g] kbind_Ret_iff split: if_splits)
    then show ?thesis using 1(1) [OF refl True refl g [symmetric] refl refl] redir_progress [OF True g [symmetric]] by auto
  qed
qed

text \<open>The loop of \<^verbatim>\<open>parseexec\<close> over the arguments.\<close>

lemma gettoken_inside:
  assumes "gettoken b p = (tok, q, e, p')" "tok \<noteq> 0"
  shows "p < length b"
proof -
  have "ch b (skip b p) \<noteq> 0" using assms by (auto simp: gettoken_def Let_def)
  then show ?thesis using ch_nonzero skip_bounds(1) le_less_trans by blast
qed

lemma arg_progress:
  assumes "(t, q, e, p1) = gettoken b (fst (peek b p toks))" "t \<noteq> 0" "parseredirs b p1 = Ret (rs, p2)"
  shows "p < p2" "p2 \<le> length b"
proof -
  have "p \<le> fst (peek b p toks)" using skip_bounds(1) by (simp add: peek_def Let_def)
  moreover have "fst (peek b p toks) < length b" by (rule gettoken_inside [OF assms(1) [symmetric] assms(2)])
  moreover note gettoken_progress [OF assms(1) [symmetric] less_imp_le [OF calculation(2)]] parseredirs_bounds [OF assms(3)]
  ultimately show "p < p2" "p2 \<le> length b" using assms(2) by auto
qed

lemma back_progress: "snd (peek b p toks) \<Longrightarrow> p < after_token b (fst (peek b p toks)) \<and> after_token b (fst (peek b p toks)) \<le> length b"
  using after_token_progress [of b p toks "fst (peek b p toks)"] by (auto simp: prod_eq_iff)

function exec_loop :: "uchar list \<Rightarrow> ptrs list \<Rightarrow> (ptrs \<times> int \<times> int) list \<Rightarrow> nat \<Rightarrow> (ptrs list \<times> (ptrs \<times> int \<times> int) list \<times> nat) kres" where
  "exec_loop b args rs p =
     (let p1 = fst (peek b p [124, 41, 38, 59])
      in if snd (peek b p [124, 41, 38, 59]) then Ret (args, rs, p1)
         else case gettoken b p1 of
                (tok, q, eq, p2) \<Rightarrow>
                  if tok = 0 then Ret (args, rs, p2)
                  else if tok \<noteq> 97 then Panic ''syntax''
                  else if MAXARGS \<le> length args + 1 then Panic ''too many args''
                  else kbind (parseredirs b p2) (\<lambda>(rs', p3). exec_loop b (args @ [(q, eq)]) (rs @ rs') p3))"
  by pat_completeness auto
termination
  by (relation "measure (\<lambda>(b, args, rs, p). length b - p)") (auto dest: arg_progress intro!: diff_less_mono2 less_le_trans [OF arg_progress])

declare exec_loop.simps [simp del]

lemma back_less: "snd (peek b p toks) \<Longrightarrow> length b - after_token b (fst (peek b p toks)) < length b - p"
  using back_progress [of b p toks] by linarith

lemma peek_le: "length b - fst (peek b p toks) \<le> length b - p"
  using skip_bounds(1) [of p b] by (simp add: peek_def Let_def)

text \<open>The loop of \<^verbatim>\<open>parseline\<close> over the signs for background execution.\<close>

function back_loop :: "uchar list \<Rightarrow> ptrs cmd \<Rightarrow> nat \<Rightarrow> ptrs cmd \<times> nat" where
  "back_loop b c p =
     (let p1 = fst (peek b p [38])
      in if snd (peek b p [38]) then back_loop b (Back c) (after_token b p1) else (c, p1))"
  by pat_completeness auto
termination
  by (relation "measure (\<lambda>(b, c, p). length b - p)") (auto simp: back_less)

declare back_loop.simps [simp del]

lemma back_loop_bounds: "back_loop b c p = (c', p') \<Longrightarrow> p \<le> p' \<and> (p \<le> length b \<longrightarrow> p' \<le> length b)"
proof (induction b c p rule: back_loop.induct)
  case (1 b c p)
  then show ?case using back_progress [of b p "[38]"] skip_bounds [of p b]
    by (subst (asm) (2) back_loop.simps) (auto simp: peek_def Let_def split: if_splits)
qed

function parseline :: "uchar list \<Rightarrow> nat \<Rightarrow> (ptrs cmd \<times> nat) kres"
  and parsepipe :: "uchar list \<Rightarrow> nat \<Rightarrow> (ptrs cmd \<times> nat) kres"
  and parseexec :: "uchar list \<Rightarrow> nat \<Rightarrow> (ptrs cmd \<times> nat) kres"
  and parseblock :: "uchar list \<Rightarrow> nat \<Rightarrow> (ptrs cmd \<times> nat) kres" where
  "parseline b p =
     kbind (parsepipe b p) (\<lambda>(c, p1).
       case back_loop b c p1 of
         (c, p2) \<Rightarrow>
           let p3 = fst (peek b p2 [59])
           in if snd (peek b p2 [59]) then
                let p4 = after_token b p3
                in if p < p4 \<and> p < length b then kbind (parseline b p4) (\<lambda>(d, p5). Ret (Lst c d, p5)) else Spin
              else Ret (c, p3))"
| "parsepipe b p =
     kbind (parseexec b p) (\<lambda>(c, p1).
       let p2 = fst (peek b p1 [124])
       in if snd (peek b p1 [124]) then
            let p3 = after_token b p2
            in if p < p3 \<and> p < length b then kbind (parsepipe b p3) (\<lambda>(d, p4). Ret (Pipe c d, p4)) else Spin
          else Ret (c, p2))"
| "parseexec b p =
     (let p1 = fst (peek b p [40])
      in if snd (peek b p [40]) then parseblock b p1
         else
           kbind (parseredirs b p1) (\<lambda>(rs, p2).
           kbind (exec_loop b [] rs p2) (\<lambda>(args, rs, p3).
             Ret (add_redirs (Exec args) rs, p3))))"
| "parseblock b p =
     (let p1 = fst (peek b p [40])
      in if \<not> snd (peek b p [40]) then Panic ''parseblock''
         else
           kbind (parseline b (after_token b p1)) (\<lambda>(c, p2).
             let p3 = fst (peek b p2 [41])
             in if \<not> snd (peek b p2 [41]) then Panic ''syntax - missing )''
                else
                  kbind (parseredirs b (after_token b p3)) (\<lambda>(rs, p4). Ret (add_redirs c rs, p4))))"
  by pat_completeness auto
termination
proof (relation "measures [case_sum (case_sum (\<lambda>(b, p). length b - p) (\<lambda>(b, p). length b - p)) (case_sum (\<lambda>(b, p). length b - p) (\<lambda>(b, p). length b - p)),
    case_sum (case_sum (\<lambda>_. 3) (\<lambda>_. 2)) (case_sum (\<lambda>_. 1) (\<lambda>_. 0 :: nat))]")
qed (use peek_le in \<open>auto simp: back_less intro: le_neq_implies_less\<close>)

text \<open>The words are ended in place.\<close>

definition nul_at :: "nat \<Rightarrow> uchar list \<Rightarrow> uchar list" where
  "nul_at p buf = buf[p := 0]"

primrec nulterminate :: "ptrs cmd \<Rightarrow> uchar list \<Rightarrow> uchar list" where
  "nulterminate (Exec args) buf = fold (\<lambda>(q, eq). nul_at eq) args buf"
| "nulterminate (Redir c f mode fd) buf = nul_at (snd f) (nulterminate c buf)"
| "nulterminate (Pipe l r) buf = nulterminate r (nulterminate l buf)"
| "nulterminate (Lst l r) buf = nulterminate r (nulterminate l buf)"
| "nulterminate (Back c) buf = nulterminate c buf"

text \<open>The command, and the buffer in which its words are ended.\<close>

definition parsecmd :: "uchar list \<Rightarrow> (ptrs cmd \<times> uchar list) kres" where
  "parsecmd b =
     kbind (parseline b 0) (\<lambda>(c, p).
       if fst (peek b p []) \<noteq> length b then Panic ''syntax'' else Ret (c, nulterminate c (b @ [0])))"

declare parseline.simps [simp del] parsepipe.simps [simp del] parseexec.simps [simp del] parseblock.simps [simp del]

subsection \<open>The parser returns\<close>

definition returns :: "uchar list \<Rightarrow> nat \<Rightarrow> ('x \<times> nat) kres \<Rightarrow> bool" where
  "returns b p r \<longleftrightarrow> (case r of Ret (x, p') \<Rightarrow> p \<le> p' \<and> p' \<le> length b | Panic m \<Rightarrow> True | _ \<Rightarrow> False)"

lemma returns_simps [simp]:
  "returns b p (Ret (x, p')) \<longleftrightarrow> p \<le> p' \<and> p' \<le> length b" "returns b p (Panic m)" "\<not> returns b p Spin"
  by (simp_all add: returns_def)

lemma returns_bind:
  assumes "returns b p m" "\<And>x p'. m = Ret (x, p') \<Longrightarrow> p \<le> p' \<Longrightarrow> p' \<le> length b \<Longrightarrow> returns b p (f (x, p'))"
  shows "returns b p (kbind m f)"
  using assms by (cases m) (auto simp: returns_def)

lemma returns_mono: "returns b q r \<Longrightarrow> p \<le> q \<Longrightarrow> returns b p r"
  by (auto simp: returns_def split: kres.splits)

lemma peek_bounds: "p \<le> fst (peek b p toks)" "p \<le> length b \<Longrightarrow> fst (peek b p toks) \<le> length b"
  using skip_bounds by (simp_all add: peek_def Let_def)

lemma parseredirs_returns: "p \<le> length b \<Longrightarrow> returns b p (parseredirs b p)"
proof (induction b p rule: parseredirs.induct)
  case (1 b p)
  show ?case
  proof (cases "snd (peek b p [60, 62])")
    case False
    then show ?thesis using 1(2) peek_bounds by (simp add: parseredirs_end)
  next
    case True
    obtain t q e p2 where g: "gettoken b (after_token b (fst (peek b p [60, 62]))) = (t, q, e, p2)" using prod_cases4 by blast
    note pr = redir_progress [OF True g [symmetric]]
    have "returns b p (parseredirs b p2)" if "t = 97"
      using 1(1) [OF refl True refl g [symmetric] refl refl] that pr returns_mono [of b p2 _ p] by auto
    then show ?thesis unfolding parseredirs_step [OF True g] by (auto intro!: returns_bind split: prod.splits)
  qed
qed

lemma exec_loop_returns: "p \<le> length b \<Longrightarrow> returns b p (kbind (exec_loop b args rs p) (\<lambda>(args, rs, p). Ret (f args rs, p)))"
proof (induction b args rs p rule: exec_loop.induct)
  case (1 b args rs p)
  let ?p1 = "fst (peek b p [124, 41, 38, 59])"
  have p1: "p \<le> ?p1" "?p1 \<le> length b" using peek_bounds 1(2) by auto
  show ?case
  proof (cases "snd (peek b p [124, 41, 38, 59])")
    case True
    then show ?thesis using p1 by (subst exec_loop.simps) simp
  next
    case False
    obtain t q e p2 where g: "gettoken b ?p1 = (t, q, e, p2)" using prod_cases4 by blast
    note pr = gettoken_progress [OF g p1(2)]
    have "returns b p (kbind (parseredirs b p2) (\<lambda>x. kbind (case x of (rs', p3) \<Rightarrow> exec_loop b (args @ [(q, e)]) (rs @ rs') p3) (\<lambda>(args, rs, p). Ret (f args rs, p))))"
      if "t = 97" "length args + 1 < MAXARGS"
    proof (rule returns_bind)
      show "returns b p (parseredirs b p2)" using pr(1-3) p1(1) by (intro returns_mono [OF parseredirs_returns [OF pr(4)]]) linarith
      fix rs' p3 assume r: "parseredirs b p2 = Ret (rs', p3)" "p \<le> p3" "p3 \<le> length b"
      show "returns b p (kbind (case (rs', p3) of (rs', p3) \<Rightarrow> exec_loop b (args @ [(q, e)]) (rs @ rs') p3) (\<lambda>(args, rs, p). Ret (f args rs, p)))"
        using 1(1) [OF refl False g [symmetric] refl refl _ _ _ r(1) refl r(3)] that r(2) returns_mono [of b p3 _ p] by simp
    qed
    then show ?thesis using False p1 pr by (subst exec_loop.simps) (auto simp: Let_def g kbind_assoc)
  qed
qed

lemma parser_returns:
  "p \<le> length b \<Longrightarrow> returns b p (parseline b p)" "p \<le> length b \<Longrightarrow> returns b p (parsepipe b p)"
  "p \<le> length b \<Longrightarrow> returns b p (parseexec b p)" "p \<le> length b \<Longrightarrow> returns b p (parseblock b p)"
proof (induction b p and b p and b p and b p rule: parseline_parsepipe_parseexec_parseblock.induct)
  case (1 b p)
  show ?case
  proof (subst parseline.simps, rule returns_bind [OF 1(1) [OF 1(3)]])
    fix c p1 assume r: "parsepipe b p = Ret (c, p1)" "p \<le> p1" "p1 \<le> length b"
    obtain c2 p2 where l: "back_loop b c p1 = (c2, p2)" by fastforce
    note p2 = back_loop_bounds [OF l]
    show "returns b p (case (c, p1) of (c, p1) \<Rightarrow> case back_loop b c p1 of (c, p2) \<Rightarrow>
        let p3 = fst (peek b p2 [59]) in if snd (peek b p2 [59]) then let p4 = after_token b p3
          in if p < p4 \<and> p < length b then kbind (parseline b p4) (\<lambda>(d, p5). Ret (Lst c d, p5)) else Spin
        else Ret (c, p3))"
    proof (cases "snd (peek b p2 [59])")
      case True
      note q = back_progress [OF True]
      then have lt: "p < after_token b (fst (peek b p2 [59])) \<and> p < length b" using p2 r(2) by linarith
      have "returns b p (parseline b (after_token b (fst (peek b p2 [59]))))"
        using 1(2) [OF r(1) refl l [symmetric] refl True refl lt] q lt by (intro returns_mono [of b "after_token b (fst (peek b p2 [59]))" _ p]) auto
      then show ?thesis using True lt l by (auto intro!: returns_bind simp: Let_def)
    next
      case False
      then show ?thesis using l p2 r peek_bounds [of p2 b "[59]"] by (auto simp: Let_def)
    qed
  qed
next
  case (2 b p)
  show ?case
  proof (subst parsepipe.simps, rule returns_bind [OF 2(1) [OF 2(3)]])
    fix c p1 assume r: "parseexec b p = Ret (c, p1)" "p \<le> p1" "p1 \<le> length b"
    show "returns b p (case (c, p1) of (c, p1) \<Rightarrow>
        let p2 = fst (peek b p1 [124]) in if snd (peek b p1 [124]) then let p3 = after_token b p2
          in if p < p3 \<and> p < length b then kbind (parsepipe b p3) (\<lambda>(d, p4). Ret (Pipe c d, p4)) else Spin
        else Ret (c, p2))"
    proof (cases "snd (peek b p1 [124])")
      case True
      note q = back_progress [OF True]
      then have lt: "p < after_token b (fst (peek b p1 [124])) \<and> p < length b" using r(2) by linarith
      have "returns b p (parsepipe b (after_token b (fst (peek b p1 [124]))))"
        using 2(2) [OF r(1) refl refl True refl lt] q lt by (intro returns_mono [of b "after_token b (fst (peek b p1 [124]))" _ p]) auto
      then show ?thesis using True lt by (auto intro!: returns_bind simp: Let_def)
    next
      case False
      then show ?thesis using r peek_bounds [of p1 b "[124]"] by (auto simp: Let_def)
    qed
  qed
next
  case (3 b p)
  let ?p1 = "fst (peek b p [40])"
  have p1: "p \<le> ?p1" "?p1 \<le> length b" using peek_bounds 3(2) by auto
  show ?case
  proof (cases "snd (peek b p [40])")
    case True
    then show ?thesis using returns_mono [OF 3(1) [OF refl True p1(2)] p1(1)] by (subst parseexec.simps) (simp add: Let_def)
  next
    case False
    have "returns b p (kbind (parseredirs b ?p1) (\<lambda>(rs, p2). kbind (exec_loop b [] rs p2) (\<lambda>(args, rs, p3). Ret (add_redirs (Exec args) rs, p3))))"
    proof (rule returns_bind)
      show "returns b p (parseredirs b ?p1)" by (rule returns_mono [OF parseredirs_returns [OF p1(2)] p1(1)])
      fix rs p2 assume "p \<le> p2" "p2 \<le> length b"
      then show "returns b p (case (rs, p2) of (rs, p2) \<Rightarrow> kbind (exec_loop b [] rs p2) (\<lambda>(args, rs, p3). Ret (add_redirs (Exec args) rs, p3)))"
        using returns_mono [OF exec_loop_returns [of p2 b "[]" rs "\<lambda>args rs. add_redirs (Exec args) rs"], of p] by simp
    qed
    with False show ?thesis by (subst parseexec.simps) (simp add: Let_def)
  qed
next
  case (4 b p)
  let ?p1 = "fst (peek b p [40])"
  show ?case
  proof (cases "snd (peek b p [40])")
    case True
    note q = back_progress [OF True]
    have l: "returns b p (parseline b (after_token b ?p1))"
      using returns_mono [OF 4(1) [OF refl _ conjunct2 [OF q]], of p] True q by simp
    show ?thesis
    proof (subst parseblock.simps, simp only: True Let_def not_True_eq_False if_False, rule returns_bind [OF l])
      fix c p2 assume r: "p \<le> p2" "p2 \<le> length b"
      show "returns b p (case (c, p2) of (c, p2) \<Rightarrow> if \<not> snd (peek b p2 [41]) then Panic ''syntax - missing )''
          else kbind (parseredirs b (after_token b (fst (peek b p2 [41])))) (\<lambda>(rs, p4). Ret (add_redirs c rs, p4)))"
      proof (cases "snd (peek b p2 [41])")
        case True
        note q = back_progress [OF True]
        have "returns b p (parseredirs b (after_token b (fst (peek b p2 [41]))))"
          using returns_mono [OF parseredirs_returns [OF conjunct2 [OF q]], of p] q r by simp
        then show ?thesis using True by (auto intro!: returns_bind)
      qed simp
    qed
  qed (subst parseblock.simps, simp add: Let_def)
qed

text \<open>
  C17. The parser returns on every command line: \<^verbatim>\<open>parsecmd\<close> gives a command or ends with one of the messages of \<^verbatim>\<open>panic\<close>; in particular the recursion
  of the parser always moves forward.
\<close>

theorem parsecmd_returns:
  "(\<exists>c buf. parsecmd b = Ret (c, buf)) \<or> (\<exists>m. parsecmd b = Panic m)"
proof -
  have "returns b 0 (parseline b 0)" by (rule parser_returns(1)) simp
  then consider c p where "parseline b 0 = Ret (c, p)" | m where "parseline b 0 = Panic m"
    by (cases "parseline b 0") (auto simp: returns_def)
  then show ?thesis
  proof cases
    case (1 c p)
    then show ?thesis by (cases "fst (peek b p []) = length b") (simp_all add: parsecmd_def)
  qed (simp add: parsecmd_def)
qed

text \<open>So the tests for progress can be left out.\<close>

lemma parsepipe_eq:
  assumes "p \<le> length b"
  shows "parsepipe b p =
     kbind (parseexec b p) (\<lambda>(c, p1).
       let p2 = fst (peek b p1 [124])
       in if snd (peek b p1 [124]) then kbind (parsepipe b (after_token b p2)) (\<lambda>(d, p4). Ret (Pipe c d, p4)) else Ret (c, p2))"
  unfolding parsepipe.simps [of b p]
proof (rule kbind_cong [OF refl])
  fix x assume x: "parseexec b p = Ret x"
  obtain c p1 where cp: "x = (c, p1)" by fastforce
  have "p \<le> p1" using parser_returns(3) [OF assms] x cp by simp
  then have "p < after_token b (fst (peek b p1 [124])) \<and> p < length b" if "snd (peek b p1 [124])" using back_progress [OF that] by linarith
  then show "(case x of (c, p1) \<Rightarrow> let p2 = fst (peek b p1 [124]) in if snd (peek b p1 [124]) then let p3 = after_token b p2
        in if p < p3 \<and> p < length b then kbind (parsepipe b p3) (\<lambda>(d, p4). Ret (Pipe c d, p4)) else Spin else Ret (c, p2)) =
      (case x of (c, p1) \<Rightarrow> let p2 = fst (peek b p1 [124])
       in if snd (peek b p1 [124]) then kbind (parsepipe b (after_token b p2)) (\<lambda>(d, p4). Ret (Pipe c d, p4)) else Ret (c, p2))"
    by (simp add: cp Let_def)
qed

lemma parseline_eq:
  assumes "p \<le> length b"
  shows "parseline b p =
     kbind (parsepipe b p) (\<lambda>(c, p1).
       case back_loop b c p1 of (c, p2) \<Rightarrow>
         let p3 = fst (peek b p2 [59])
         in if snd (peek b p2 [59]) then kbind (parseline b (after_token b p3)) (\<lambda>(d, p5). Ret (Lst c d, p5)) else Ret (c, p3))"
  unfolding parseline.simps [of b p]
proof (rule kbind_cong [OF refl])
  fix x assume x: "parsepipe b p = Ret x"
  obtain c p1 where cp: "x = (c, p1)" by fastforce
  obtain c2 p2 where l: "back_loop b c p1 = (c2, p2)" by fastforce
  have "p \<le> p1" using parser_returns(2) [OF assms] x cp by simp
  then have "p < after_token b (fst (peek b p2 [59])) \<and> p < length b" if "snd (peek b p2 [59])"
    using back_progress [OF that] back_loop_bounds [OF l] by linarith
  then show "(case x of (c, p1) \<Rightarrow> case back_loop b c p1 of (c, p2) \<Rightarrow> let p3 = fst (peek b p2 [59]) in if snd (peek b p2 [59])
        then let p4 = after_token b p3 in if p < p4 \<and> p < length b then kbind (parseline b p4) (\<lambda>(d, p5). Ret (Lst c d, p5)) else Spin
        else Ret (c, p3)) =
      (case x of (c, p1) \<Rightarrow> case back_loop b c p1 of (c, p2) \<Rightarrow> let p3 = fst (peek b p2 [59])
         in if snd (peek b p2 [59]) then kbind (parseline b (after_token b p3)) (\<lambda>(d, p5). Ret (Lst c d, p5)) else Ret (c, p3))"
    by (simp add: cp l Let_def)
qed

text \<open>Blanks before a command do not matter.\<close>

lemma peek_skip: "peek b (skip b p) toks = peek b p toks"
  by (simp add: peek_def skip_here [OF skip_stops])

lemma parse_skip:
  "parseredirs b (skip b p) = parseredirs b p" "parseexec b (skip b p) = parseexec b p"
  "p \<le> length b \<Longrightarrow> parsepipe b (skip b p) = parsepipe b p" "p \<le> length b \<Longrightarrow> parseline b (skip b p) = parseline b p"
proof -
  show r: "parseredirs b (skip b p) = parseredirs b p" by (subst (1 2) parseredirs.simps) (simp add: peek_skip)
  show e: "parseexec b (skip b p) = parseexec b p" by (subst (1 2) parseexec.simps) (simp add: peek_skip)
  assume p: "p \<le> length b"
  note p' = skip_bounds(2) [OF p]
  show pp: "parsepipe b (skip b p) = parsepipe b p" unfolding parsepipe_eq [OF p] parsepipe_eq [OF p'] e by (rule refl)
  show "parseline b (skip b p) = parseline b p" unfolding parseline_eq [OF p] parseline_eq [OF p'] pp by (rule refl)
qed

subsection \<open>Printing commands\<close>

definition is_word :: "uchar list \<Rightarrow> bool" where
  "is_word w \<longleftrightarrow> w \<noteq> [] \<and> (\<forall>c\<in>set w. c \<noteq> 0 \<and> c \<notin> set whitespace \<and> c \<notin> set symbols)"

type_synonym redirs = "(uchar list \<times> int \<times> int) list"

definition redir_ok :: "uchar list \<times> int \<times> int \<Rightarrow> bool" where
  "redir_ok r \<longleftrightarrow> is_word (fst r) \<and> (snd r = (O_RDONLY, 0) \<or> snd r = (O_WRONLY_CREATE, 1))"

primrec printable :: "uchar list cmd \<Rightarrow> bool" where
  "printable (Exec ws) = (length ws < MAXARGS \<and> (\<forall>w\<in>set ws. is_word w))"
| "printable (Redir c f mode fd) = (printable c \<and> redir_ok (f, mode, fd))"
| "printable (Pipe l r) = (printable l \<and> printable r)"
| "printable (Lst l r) = (printable l \<and> printable r)"
| "printable (Back c) = printable c"

definition paren :: "bool \<Rightarrow> uchar list \<Rightarrow> uchar list" where
  "paren q s = (if q then [40] @ s @ [41] else s)"

definition print_words :: "uchar list list \<Rightarrow> uchar list" where
  "print_words ws = concat (map (\<lambda>w. 32 # w) ws)"

definition print_redirs :: "redirs \<Rightarrow> uchar list" where
  "print_redirs rs = concat (map (\<lambda>(f, mode, fd). (if fd = 0 then 60 else 62) # f) rs)"

text \<open>Level 0 is a line, 1 a command that may be put in the background, 2 a pipeline and 3 a part of a pipeline.\<close>

primrec print :: "uchar list cmd \<Rightarrow> nat \<Rightarrow> uchar list" where
  "print (Exec ws) k = print_words ws"
| "print (Redir c f mode fd) k = print c 3 @ print_redirs [(f, mode, fd)]"
| "print (Pipe l r) k = paren (2 < k) (print l 3 @ [124] @ print r 2)"
| "print (Lst l r) k = paren (0 < k) (print l 1 @ [59] @ print r 0)"
| "print (Back c) k = paren (1 < k) (print c 1 @ [38])"

definition tok_text :: "uchar list \<Rightarrow> ptrs \<Rightarrow> uchar list" where
  "tok_text b = (\<lambda>(q, e). take (e - q) (drop q b))"

subsection \<open>Reading what is printed\<close>

text \<open>The rest of the line at a position.\<close>

definition rest_is :: "uchar list \<Rightarrow> nat \<Rightarrow> uchar list \<Rightarrow> bool" where
  "rest_is b p s \<longleftrightarrow> 0 \<notin> set b \<and> p \<le> length b \<and> drop p b = s"

definition starts :: "uchar list \<Rightarrow> uchar set \<Rightarrow> bool" where
  "starts s C \<longleftrightarrow> s = [] \<or> hd s \<in> C"

lemma rest_is_append:
  assumes "rest_is b p (x @ s)"
  shows "rest_is b (p + length x) s"
proof -
  have d: "drop p b = x @ s" "p \<le> length b" "0 \<notin> set b" using assms by (simp_all add: rest_is_def)
  then have "length b - p = length x + length s" by (metis length_append length_drop)
  moreover have "drop (length x) (drop p b) = s" unfolding d(1) by simp
  then have "drop (p + length x) b = s" by (simp add: add.commute)
  ultimately show ?thesis using d(2,3) by (simp add: rest_is_def)
qed

lemma rest_is_ch: "rest_is b p s \<Longrightarrow> ch b p = (if s = [] then 0 else hd s)"
  by (auto simp: rest_is_def ch_def hd_drop_conv_nth)

lemma rest_is_nonzero: "rest_is b p s \<Longrightarrow> 0 \<notin> set s"
  by (auto simp: rest_is_def dest: in_set_dropD)

lemma rest_is_end: "rest_is b p s \<Longrightarrow> p + length s = length b"
  by (auto simp: rest_is_def)

lemma peek_rest:
  assumes "rest_is b p s" "starts s (- set whitespace)"
  shows "peek b p toks = (p, s \<noteq> [] \<and> hd s \<in> set toks)" "skip b p = p"
proof -
  have c: "ch b p = (if s = [] then 0 else hd s)" by (rule rest_is_ch [OF assms(1)])
  then show k: "skip b p = p" using assms(2) by (intro skip_here) (auto simp: starts_def whitespace_def)
  show "peek b p toks = (p, s \<noteq> [] \<and> hd s \<in> set toks)"
    using rest_is_nonzero [OF assms(1)] c by (cases s) (auto simp: peek_def k Let_def)
qed

lemma word_rest:
  assumes "rest_is b p (w @ s)" "is_word w" "starts s (set whitespace \<union> set symbols)"
  shows "gettoken b p = (97, p, p + length w, skip b (p + length w))" "tok_text b (p, p + length w) = w"
proof -
  have d: "drop p b = w @ s" using assms(1) by (simp add: rest_is_def)
  then show "tok_text b (p, p + length w) = w" by (simp add: tok_text_def)
  let ?P = "\<lambda>c. c \<notin> set whitespace \<and> c \<notin> set symbols"
  have "takeWhile ?P (w @ s) = w @ takeWhile ?P s" using assms(2) by (intro takeWhile_append2) (auto simp: is_word_def)
  moreover have "takeWhile ?P s = []" using assms(3) by (cases s) (auto simp: starts_def)
  ultimately have e: "word_end b p = p + length w" by (simp add: word_end_def d)
  have c: "ch b p = hd w" "w \<noteq> []" using rest_is_ch [OF assms(1)] assms(2) by (auto simp: is_word_def)
  then have h: "ch b p \<noteq> 0" "ch b p \<notin> set whitespace" "ch b p \<notin> set symbols" using assms(2) by (auto simp: is_word_def)
  then show "gettoken b p = (97, p, p + length w, skip b (p + length w))"
    by (simp add: gettoken_def skip_here e Let_def symbols_def)
qed

text \<open>A symbol is a token of its own.\<close>

lemma symbol_rest:
  assumes "rest_is b p (c # s)" "c \<in> {124, 40, 41, 59, 38, 60, 62}" "c = 62 \<Longrightarrow> starts s (- {62})"
  shows "gettoken b p = (c, p, p + 1, skip b (p + 1))" "after_token b p = skip b (p + 1)"
proof -
  have c: "ch b p = c" using rest_is_ch [OF assms(1)] by simp
  have "rest_is b (p + 1) s" using rest_is_append [of b p "[c]" s] assms(1) by simp
  then have n: "ch b (p + 1) = (if s = [] then 0 else hd s)" by (rule rest_is_ch)
  have "skip b p = p" using c assms(2) by (intro skip_here) (auto simp: whitespace_def)
  then show "gettoken b p = (c, p, p + 1, skip b (p + 1))"
    using assms(2,3) c n by (auto simp: gettoken_def Let_def starts_def)
  then show "after_token b p = skip b (p + 1)" by (simp add: after_token_def)
qed

lemma starts_simps [simp]: "starts [] C" "starts (c # s) C \<longleftrightarrow> c \<in> C" "is_word w \<Longrightarrow> starts (w @ s) C \<longleftrightarrow> hd w \<in> C"
  by (auto simp: starts_def is_word_def)

lemma starts_mono: "starts s C \<Longrightarrow> C \<subseteq> D \<Longrightarrow> starts s D"
  by (auto simp: starts_def)

abbreviation "ends_exec \<equiv> {124, 41, 38, 59} :: uchar set"
abbreviation "ends_pipe \<equiv> {41, 38, 59} :: uchar set"

lemma ends_plain: "ends_exec \<subseteq> - set whitespace" "ends_exec \<subseteq> set whitespace \<union> set symbols" "{60, 62} \<subseteq> set whitespace \<union> set symbols" "{60, 62} \<subseteq> - set whitespace"
  by (auto simp: whitespace_def symbols_def)

lemma is_word_hd:
  assumes "is_word w"
  shows "hd w \<notin> set whitespace" "hd w \<notin> set symbols" "hd w \<noteq> 0"
  using assms by (auto simp: is_word_def)

lemma print_redirs_starts: "starts s C \<Longrightarrow> starts (print_redirs rs @ s) ({60, 62} \<union> C)"
  by (cases rs) (auto simp: print_redirs_def starts_def split: prod.splits)

definition texts :: "uchar list \<Rightarrow> (ptrs \<times> int \<times> int) list \<Rightarrow> redirs" where
  "texts b = map (\<lambda>(f, d). (tok_text b f, d))"

lemma parseredirs_print:
  assumes "rest_is b p (print_redirs rs @ s)" "\<forall>r\<in>set rs. redir_ok r" "starts s ends_exec"
  shows "\<exists>rs'. parseredirs b p = Ret (rs', p + length (print_redirs rs)) \<and> texts b rs' = rs"
  using assms(1,2)
proof (induction rs arbitrary: p)
  case Nil
  have "starts s (- set whitespace)" by (rule starts_mono [OF assms(3) ends_plain(1)])
  then have "peek b p [60, 62] = (p, False)" using peek_rest(1) [of b p s "[60, 62]"] Nil assms(3) by (auto simp: print_redirs_def starts_def)
  then show ?case by (simp add: parseredirs_end texts_def print_redirs_def)
next
  case (Cons r rs)
  obtain f mode fd where r: "r = (f, mode, fd)" by (cases r) auto
  let ?c = "(if fd = 0 then 60 else 62) :: uchar" and ?t = "print_redirs rs @ s"
  have f: "is_word f" "(mode, fd) = (O_RDONLY, 0) \<or> (mode, fd) = (O_WRONLY_CREATE, 1)" using Cons.prems(2) by (auto simp: redir_ok_def r)
  have a: "rest_is b p (?c # f @ ?t)" using Cons.prems(1) by (simp add: r print_redirs_def)
  then have a1: "rest_is b (p + 1) (f @ ?t)" using rest_is_append [of b p "[?c]"] by simp
  then have a2: "rest_is b (p + 1 + length f) ?t" by (rule rest_is_append)
  have st: "starts ?t ({60, 62} \<union> ends_exec)" by (rule print_redirs_starts [OF assms(3)])
  have "starts (f @ ?t) (- {62})" using f(1) is_word_hd(2) [OF f(1)] by (auto simp: symbols_def)
  then have g: "gettoken b p = (?c, p, p + 1, skip b (p + 1))" "after_token b p = skip b (p + 1)" using symbol_rest [OF a] by auto
  have sk: "skip b (p + 1) = p + 1" using f(1) is_word_hd(1) [OF f(1)] by (intro peek_rest(2) [OF a1]) simp
  have sk2: "skip b (p + 1 + length f) = p + 1 + length f"
    by (rule peek_rest(2) [OF a2]) (use starts_mono [OF st] ends_plain(1,4) in blast)
  have w: "gettoken b (p + 1) = (97, p + 1, p + 1 + length f, p + 1 + length f)" "tok_text b (p + 1, p + 1 + length f) = f"
    using word_rest [OF a1 f(1)] starts_mono [OF st] ends_plain(2,3) unfolding sk2 by blast+
  have pk: "peek b p [60, 62] = (p, True)" using peek_rest(1) [OF a, of "[60, 62]"] by (simp add: whitespace_def)
  obtain rs' where "parseredirs b (p + 1 + length f) = Ret (rs', p + 1 + length f + length (print_redirs rs))" "texts b rs' = rs"
    using Cons.IH [OF a2] Cons.prems(2) by auto
  then show ?case using parseredirs_step [of b p 97 "p + 1" "p + 1 + length f" "p + 1 + length f"] pk g w sk f(2)
    by (auto simp: texts_def r print_redirs_def)
qed

lemma exec_loop_end:
  assumes "rest_is b p s" "starts s ends_exec"
  shows "exec_loop b args rs p = Ret (args, rs, p)"
proof -
  have st: "starts s (- set whitespace)" by (rule starts_mono [OF assms(2) ends_plain(1)])
  note pk = peek_rest(1) [OF assms(1) st, of "[124, 41, 38, 59]"] peek_rest(2) [OF assms(1) st]
  show ?thesis
  proof (cases s)
    case Nil
    then have "gettoken b p = (0, p, p, p)" using rest_is_ch [OF assms(1)] pk(2) by (simp add: gettoken_def Let_def)
    then show ?thesis using pk(1) Nil by (subst exec_loop.simps) simp
  next
    case (Cons c t)
    then show ?thesis using pk(1) assms(2) by (subst exec_loop.simps) auto
  qed
qed

lemma blank_word:
  assumes "rest_is b p (32 # w @ t)" "is_word w"
  shows "peek b p toks = (p + 1, hd w \<in> set toks)" "peek b (p + 1) toks = (p + 1, hd w \<in> set toks)"
proof -
  have a: "rest_is b (p + 1) (w @ t)" using rest_is_append [of b p "[32]"] assms(1) by simp
  have "drop p b = 32 # w @ t" using assms(1) by (simp add: rest_is_def)
  moreover have "takeWhile (\<lambda>c. c \<in> set whitespace) (w @ t) = []" using is_word_hd(1) [OF assms(2)] assms(2) by (cases w) (auto simp: is_word_def)
  ultimately have "skip b p = p + 1" by (simp add: skip_def whitespace_def)
  then show "peek b p toks = (p + 1, hd w \<in> set toks)" "peek b (p + 1) toks = (p + 1, hd w \<in> set toks)"
    using peek_rest(1) [OF a, of toks] is_word_hd(1) [OF assms(2)] assms(2) peek_skip [of b p toks] by (auto simp: is_word_def)
qed

lemma exec_words_print:
  assumes "rest_is b p (print_words ws @ print_redirs rs @ s)" "\<forall>w\<in>set ws. is_word w" "\<forall>r\<in>set rs. redir_ok r" "starts s ends_exec"
    "length args + length ws < MAXARGS"
  shows "\<exists>args' rs'. kbind (parseredirs b p) (\<lambda>(r, p1). exec_loop b args (rs0 @ r) p1) =
      Ret (args @ args', rs0 @ rs', p + length (print_words ws) + length (print_redirs rs)) \<and> map (tok_text b) args' = ws \<and> texts b rs' = rs"
  using assms(1,2,5)
proof (induction ws arbitrary: p args rs0)
  case Nil
  then have a: "rest_is b p (print_redirs rs @ s)" by (simp add: print_words_def)
  obtain rs' where "parseredirs b p = Ret (rs', p + length (print_redirs rs))" "texts b rs' = rs"
    using parseredirs_print [OF a assms(3,4)] by blast
  then show ?case using exec_loop_end [OF rest_is_append [OF a] assms(4), of args "rs0 @ rs'"] by (auto simp: print_words_def)
next
  case (Cons w ws)
  let ?t = "print_words ws @ print_redirs rs @ s"
  have w: "is_word w" using Cons.prems(2) by simp
  have a0: "rest_is b p (32 # w @ ?t)" using Cons.prems(1) by (simp add: print_words_def)
  have a: "rest_is b (p + 1) (w @ ?t)" using rest_is_append [of b p "[32]"] a0 by simp
  have a2: "rest_is b (p + 1 + length w) ?t" by (rule rest_is_append [OF a])
  note pk = blank_word [OF a0 w]
  have h: "hd w \<notin> set [60, 62]" "hd w \<notin> set [124, 41, 38, 59]" using is_word_hd(2) [OF w] by (auto simp: symbols_def)
  have "starts ?t (set whitespace \<union> set symbols)"
  proof (cases ws)
    case Nil
    then show ?thesis using starts_mono [OF print_redirs_starts [OF assms(4)]] ends_plain(2,3) by (auto simp: print_words_def)
  qed (simp add: print_words_def whitespace_def)
  note g = word_rest [OF a w this]
  let ?p3 = "skip b (p + 1 + length w)"
  have "kbind (parseredirs b p) (\<lambda>(r, p1). exec_loop b args (rs0 @ r) p1) = exec_loop b args rs0 (p + 1)"
    using pk(1) h(1) by (simp add: parseredirs_end)
  also have "\<dots> = kbind (parseredirs b ?p3) (\<lambda>(r, p1). exec_loop b (args @ [(p + 1, p + 1 + length w)]) (rs0 @ r) p1)"
    using pk(2) h(2) g(1) Cons.prems(3) by (subst exec_loop.simps) (simp add: Let_def)
  also have "parseredirs b ?p3 = parseredirs b (p + 1 + length w)" by (rule parse_skip(1))
  finally have e: "kbind (parseredirs b p) (\<lambda>(r, p1). exec_loop b args (rs0 @ r) p1) =
    kbind (parseredirs b (p + 1 + length w)) (\<lambda>(r, p1). exec_loop b (args @ [(p + 1, p + 1 + length w)]) (rs0 @ r) p1)" .
  obtain args' rs' where "kbind (parseredirs b (p + 1 + length w)) (\<lambda>(r, p1). exec_loop b (args @ [(p + 1, p + 1 + length w)]) (rs0 @ r) p1) =
      Ret ((args @ [(p + 1, p + 1 + length w)]) @ args', rs0 @ rs', p + 1 + length w + length (print_words ws) + length (print_redirs rs))"
      "map (tok_text b) args' = ws" "texts b rs' = rs"
    using Cons.IH [OF a2, of "args @ [(p + 1, p + 1 + length w)]" rs0] Cons.prems(2,3) by auto
  then show ?case unfolding e using g(2)
    by (intro exI [of _ "(p + 1, p + 1 + length w) # args'"] exI [of _ rs']) (simp add: print_words_def)
qed

text \<open>What it means that each of the functions reads a printed command.\<close>

abbreviation text_of :: "uchar list \<Rightarrow> ptrs cmd \<Rightarrow> uchar list cmd" where
  "text_of b \<equiv> map_cmd (tok_text b)"

definition reads_exec :: "uchar list cmd \<Rightarrow> bool" where
  "reads_exec c \<longleftrightarrow> (\<forall>b p rs s. rest_is b p (print c 3 @ print_redirs rs @ s) \<longrightarrow> (\<forall>r\<in>set rs. redir_ok r) \<longrightarrow> starts s ends_exec \<longrightarrow>
     (\<exists>c' rs'. parseexec b p = Ret (add_redirs c' rs', p + length (print c 3) + length (print_redirs rs)) \<and> text_of b c' = c \<and> texts b rs' = rs))"

definition reads_pipe :: "uchar list cmd \<Rightarrow> bool" where
  "reads_pipe c \<longleftrightarrow> (\<forall>b p s. rest_is b p (print c 2 @ s) \<longrightarrow> starts s ends_pipe \<longrightarrow>
     (\<exists>c'. parsepipe b p = Ret (c', p + length (print c 2)) \<and> text_of b c' = c))"

definition reads_back :: "uchar list cmd \<Rightarrow> bool" where
  "reads_back c \<longleftrightarrow> (\<forall>b p s. rest_is b p (print c 1 @ s) \<longrightarrow> starts s ends_pipe \<longrightarrow>
     (\<exists>d p1 c'. parsepipe b p = Ret (d, p1) \<and> back_loop b d p1 = back_loop b c' (p + length (print c 1)) \<and> text_of b c' = c))"

definition reads_line :: "uchar list cmd \<Rightarrow> bool" where
  "reads_line c \<longleftrightarrow> (\<forall>b p s. rest_is b p (print c 0 @ s) \<longrightarrow> starts s {41} \<longrightarrow>
     (\<exists>c'. parseline b p = Ret (c', p + length (print c 0)) \<and> text_of b c' = c))"

lemma peek_ends:
  assumes "rest_is b p s" "starts s C" "C \<subseteq> - set whitespace" "C \<inter> set toks = {}"
  shows "peek b p toks = (p, False)"
  using peek_rest(1) [OF assms(1) starts_mono [OF assms(2,3)], of toks] assms(2,4) by (auto simp: starts_def)

lemma ends_pipe_plain: "ends_pipe \<subseteq> - set whitespace" "{41 :: uchar} \<subseteq> - set whitespace"
  by (auto simp: whitespace_def)

lemma rest_is_le: "rest_is b p s \<Longrightarrow> p \<le> length b"
  by (simp add: rest_is_def)

lemma symbol_next:
  assumes "rest_is b p (c # s)" "c \<in> {124, 40, 41, 59, 38}"
  shows "peek b p toks = (p, c \<in> set toks)" "after_token b p = skip b (p + 1)" "rest_is b (p + 1) s"
proof -
  show "peek b p toks = (p, c \<in> set toks)" using peek_rest(1) [OF assms(1), of toks] assms(2) by (auto simp: whitespace_def)
  show "after_token b p = skip b (p + 1)" using symbol_rest(2) [OF assms(1)] assms(2) by auto
  show "rest_is b (p + 1) s" using rest_is_append [of b p "[c]" s] assms(1) by simp
qed

lemma exec_to_pipe:
  assumes "reads_exec c" "print c 2 = print c 3"
  shows "reads_pipe c"
  unfolding reads_pipe_def
proof (intro allI impI)
  fix b p s assume a: "rest_is b p (print c 2 @ s)" "starts s ends_pipe"
  then have "rest_is b p (print c 3 @ print_redirs [] @ s)" "starts s ends_exec" using assms(2) by (auto simp: print_redirs_def starts_def)
  then obtain c' where c: "parseexec b p = Ret (c', p + length (print c 3))" "text_of b c' = c"
    using assms(1) unfolding reads_exec_def by (fastforce simp: print_redirs_def texts_def add_redirs_def)
  have "peek b (p + length (print c 3)) [124] = (p + length (print c 3), False)"
    using rest_is_append [OF a(1)] assms(2) by (intro peek_ends [OF _ a(2) ends_pipe_plain(1)]) auto
  then show "\<exists>c'. parsepipe b p = Ret (c', p + length (print c 2)) \<and> text_of b c' = c"
    using c assms(2) unfolding parsepipe_eq [OF rest_is_le [OF a(1)]] by simp
qed

lemma pipe_to_back:
  assumes "reads_pipe c" "print c 1 = print c 2"
  shows "reads_back c"
  using assms unfolding reads_back_def reads_pipe_def by metis

lemma back_to_line:
  assumes "reads_back c" "print c 0 = print c 1"
  shows "reads_line c"
  unfolding reads_line_def
proof (intro allI impI)
  fix b p s assume a: "rest_is b p (print c 0 @ s)" "starts s {41}"
  let ?q = "p + length (print c 0)"
  obtain d p1 c' where c: "parsepipe b p = Ret (d, p1)" "back_loop b d p1 = back_loop b c' ?q" "text_of b c' = c"
    using assms a starts_mono [OF a(2), of ends_pipe] unfolding reads_back_def by fastforce
  have pk: "peek b ?q [38] = (?q, False)" "peek b ?q [59] = (?q, False)"
    by (rule peek_ends [OF rest_is_append [OF a(1)] a(2) ends_pipe_plain(2)]; simp)+
  then have "back_loop b c' ?q = (c', ?q)" by (subst back_loop.simps) simp
  then show "\<exists>c'. parseline b p = Ret (c', ?q) \<and> text_of b c' = c"
    using c pk(2) unfolding parseline_eq [OF rest_is_le [OF a(1)]] by simp
qed

lemma line_to_exec:
  assumes "reads_line c" "print c 3 = [40] @ print c 0 @ [41]"
  shows "reads_exec c"
  unfolding reads_exec_def
proof (intro allI impI)
  fix b p rs s assume a: "rest_is b p (print c 3 @ print_redirs rs @ s)" "\<forall>r\<in>set rs. redir_ok r" "starts s ends_exec"
  let ?q = "p + 1 + length (print c 0)"
  have a0: "rest_is b p (40 # print c 0 @ 41 # print_redirs rs @ s)" using a(1) assms(2) by simp
  have o: "peek b p [40] = (p, True)" "after_token b p = skip b (p + 1)" and a1: "rest_is b (p + 1) (print c 0 @ 41 # print_redirs rs @ s)"
    using symbol_next [OF a0] by simp_all
  have a2: "rest_is b ?q (41 # print_redirs rs @ s)" by (rule rest_is_append [OF a1])
  have cl: "peek b ?q [41] = (?q, True)" "after_token b ?q = skip b (?q + 1)" and a3: "rest_is b (?q + 1) (print_redirs rs @ s)"
    using symbol_next [OF a2] by simp_all
  obtain c' where c: "parseline b (p + 1) = Ret (c', ?q)" "text_of b c' = c" using assms(1) a1 unfolding reads_line_def by fastforce
  obtain rs' where r: "parseredirs b (?q + 1) = Ret (rs', ?q + 1 + length (print_redirs rs))" "texts b rs' = rs"
    using parseredirs_print [OF a3 a(2,3)] by blast
  have "parseexec b p = parseblock b p" using o(1) by (subst parseexec.simps) simp
  also have "\<dots> = Ret (add_redirs c' rs', ?q + 1 + length (print_redirs rs))"
    using o cl c(1) r(1) parse_skip(4) [OF rest_is_le [OF a1]] parse_skip(1) [of b "?q + 1"] by (subst parseblock.simps) simp
  finally show "\<exists>c' rs'. parseexec b p = Ret (add_redirs c' rs', p + length (print c 3) + length (print_redirs rs)) \<and> text_of b c' = c \<and> texts b rs' = rs"
    using c(2) r(2) assms(2) by auto
qed

lemma reads_Exec:
  assumes "printable (Exec ws)"
  shows "reads_exec (Exec ws)"
  unfolding reads_exec_def
proof (intro allI impI)
  fix b p rs s assume a: "rest_is b p (print (Exec ws) 3 @ print_redirs rs @ s)" "\<forall>r\<in>set rs. redir_ok r" "starts s ends_exec"
  have a': "rest_is b p (print_words ws @ print_redirs rs @ s)" using a(1) by simp
  have "\<not> snd (peek b p [40])"
  proof (cases ws)
    case Nil
    then have "rest_is b p (print_redirs rs @ s)" using a' by (simp add: print_words_def)
    then have "peek b p [40] = (p, False)"
      by (rule peek_ends [OF _ print_redirs_starts [OF a(3)]]) (use ends_plain(1,4) in auto)
    then show ?thesis by simp
  next
    case (Cons w vs)
    then have "rest_is b p (32 # w @ print_words vs @ print_redirs rs @ s)" "is_word w" using a' assms by (simp_all add: print_words_def)
    from blank_word(1) [OF this, of "[40]"] show ?thesis using is_word_hd(2) [OF \<open>is_word w\<close>] by (auto simp: symbols_def)
  qed
  then have "parseexec b p = kbind (kbind (parseredirs b p) (\<lambda>(r, p1). exec_loop b [] ([] @ r) p1)) (\<lambda>(args, rs, p3). Ret (add_redirs (Exec args) rs, p3))"
    using parse_skip(1) [of b p] by (subst parseexec.simps) (auto simp: peek_def Let_def kbind_assoc intro!: kbind_cong split: prod.splits)
  moreover obtain args' rs' where "kbind (parseredirs b p) (\<lambda>(r, p1). exec_loop b [] ([] @ r) p1) =
      Ret ([] @ args', [] @ rs', p + length (print_words ws) + length (print_redirs rs))" "map (tok_text b) args' = ws" "texts b rs' = rs"
    using exec_words_print [OF a' _ a(2,3), of "[]" "[]"] assms by auto
  ultimately show "\<exists>c' rs'. parseexec b p = Ret (add_redirs c' rs', p + length (print (Exec ws) 3) + length (print_redirs rs)) \<and>
      text_of b c' = Exec ws \<and> texts b rs' = rs"
    by (intro exI [of _ "Exec args'"] exI [of _ rs']) simp
qed

lemma reads_Redir:
  assumes "reads_exec c" "redir_ok (f, mode, fd)"
  shows "reads_exec (Redir c f mode fd)"
  unfolding reads_exec_def
proof (intro allI impI)
  fix b p rs s assume a: "rest_is b p (print (Redir c f mode fd) 3 @ print_redirs rs @ s)" "\<forall>r\<in>set rs. redir_ok r" "starts s ends_exec"
  have e: "print_redirs ((f, mode, fd) # rs) = print_redirs [(f, mode, fd)] @ print_redirs rs" by (simp add: print_redirs_def)
  have a': "rest_is b p (print c 3 @ print_redirs ((f, mode, fd) # rs) @ s)" "\<forall>r\<in>set ((f, mode, fd) # rs). redir_ok r"
    using a(1,2) assms(2) unfolding e by simp_all
  then obtain c' rs' where c: "parseexec b p = Ret (add_redirs c' rs', p + length (print c 3) + length (print_redirs ((f, mode, fd) # rs)))"
      "text_of b c' = c" "texts b rs' = (f, mode, fd) # rs"
    using assms(1) a(3) unfolding reads_exec_def by blast
  then obtain g rs2 where g: "rs' = (g, mode, fd) # rs2" "tok_text b g = f" "texts b rs2 = rs" by (auto simp: texts_def)
  then show "\<exists>c' rs'. parseexec b p = Ret (add_redirs c' rs', p + length (print (Redir c f mode fd) 3) + length (print_redirs rs)) \<and>
      text_of b c' = Redir c f mode fd \<and> texts b rs' = rs"
    using c unfolding e by (intro exI [of _ "Redir c' g mode fd"] exI [of _ rs2]) (simp add: add_redirs_def)
qed

lemma reads_Pipe:
  assumes "reads_exec l" "reads_pipe r"
  shows "reads_pipe (Pipe l r)"
  unfolding reads_pipe_def
proof (intro allI impI)
  fix b p s assume a: "rest_is b p (print (Pipe l r) 2 @ s)" "starts s ends_pipe"
  let ?q = "p + length (print l 3)"
  have a0: "rest_is b p (print l 3 @ print_redirs [] @ 124 # print r 2 @ s)" using a(1) by (simp add: paren_def print_redirs_def)
  then obtain l' where l: "parseexec b p = Ret (l', ?q)" "text_of b l' = l"
    using assms(1) unfolding reads_exec_def by (fastforce simp: print_redirs_def texts_def add_redirs_def)
  have a1: "rest_is b ?q (124 # print r 2 @ s)" using rest_is_append [OF a0] by (simp add: print_redirs_def)
  have t: "peek b ?q [124] = (?q, True)" "after_token b ?q = skip b (?q + 1)" and a2: "rest_is b (?q + 1) (print r 2 @ s)"
    using symbol_next [OF a1] by simp_all
  obtain r' where r: "parsepipe b (?q + 1) = Ret (r', ?q + 1 + length (print r 2))" "text_of b r' = r"
    using assms(2) a2 a(2) unfolding reads_pipe_def by blast
  then show "\<exists>c'. parsepipe b p = Ret (c', p + length (print (Pipe l r) 2)) \<and> text_of b c' = Pipe l r"
    using l t parse_skip(3) [OF rest_is_le [OF a2]] unfolding parsepipe_eq [OF rest_is_le [OF a(1)]]
    by (intro exI [of _ "Pipe l' r'"]) (simp add: paren_def)
qed

lemma reads_Back:
  assumes "reads_back c"
  shows "reads_back (Back c)"
  unfolding reads_back_def
proof (intro allI impI)
  fix b p s assume a: "rest_is b p (print (Back c) 1 @ s)" "starts s ends_pipe"
  let ?q = "p + length (print c 1)"
  have a0: "rest_is b p (print c 1 @ 38 # s)" using a(1) by (simp add: paren_def)
  then obtain d p1 c' where c: "parsepipe b p = Ret (d, p1)" "back_loop b d p1 = back_loop b c' ?q" "text_of b c' = c"
    using assms unfolding reads_back_def by fastforce
  have a1: "rest_is b ?q (38 # s)" by (rule rest_is_append [OF a0])
  have t: "peek b ?q [38] = (?q, True)" "after_token b ?q = skip b (?q + 1)" and a2: "rest_is b (?q + 1) s"
    using symbol_next [OF a1] by simp_all
  have "skip b (?q + 1) = ?q + 1" by (rule peek_rest(2) [OF a2 starts_mono [OF a(2) ends_pipe_plain(1)]])
  then have "back_loop b c' ?q = back_loop b (Back c') (?q + 1)" using t by (subst back_loop.simps) simp
  then show "\<exists>d p1 c'. parsepipe b p = Ret (d, p1) \<and> back_loop b d p1 = back_loop b c' (p + length (print (Back c) 1)) \<and> text_of b c' = Back c"
    using c by (intro exI [of _ d] exI [of _ p1] exI [of _ "Back c'"]) (simp add: paren_def)
qed

lemma reads_Lst:
  assumes "reads_back l" "reads_line r"
  shows "reads_line (Lst l r)"
  unfolding reads_line_def
proof (intro allI impI)
  fix b p s assume a: "rest_is b p (print (Lst l r) 0 @ s)" "starts s {41}"
  let ?q = "p + length (print l 1)"
  have a0: "rest_is b p (print l 1 @ 59 # print r 0 @ s)" using a(1) by (simp add: paren_def)
  then obtain d p1 l' where l: "parsepipe b p = Ret (d, p1)" "back_loop b d p1 = back_loop b l' ?q" "text_of b l' = l"
    using assms(1) unfolding reads_back_def by fastforce
  have a1: "rest_is b ?q (59 # print r 0 @ s)" by (rule rest_is_append [OF a0])
  have t: "peek b ?q [38] = (?q, False)" "peek b ?q [59] = (?q, True)" "after_token b ?q = skip b (?q + 1)" and a2: "rest_is b (?q + 1) (print r 0 @ s)"
    using symbol_next [OF a1] by simp_all
  have "back_loop b l' ?q = (l', ?q)" using t(1) by (subst back_loop.simps) simp
  moreover obtain r' where r: "parseline b (?q + 1) = Ret (r', ?q + 1 + length (print r 0))" "text_of b r' = r"
    using assms(2) a2 a(2) unfolding reads_line_def by blast
  ultimately show "\<exists>c'. parseline b p = Ret (c', p + length (print (Lst l r) 0)) \<and> text_of b c' = Lst l r"
    using l t parse_skip(4) [OF rest_is_le [OF a2]] unfolding parseline_eq [OF rest_is_le [OF a(1)]]
    by (intro exI [of _ "Lst l' r'"]) (simp add: paren_def)
qed

lemma reads_printed: "printable c \<Longrightarrow> reads_exec c \<and> reads_pipe c \<and> reads_back c \<and> reads_line c"
proof (induction c)
  case (Exec ws)
  then show ?case using reads_Exec exec_to_pipe pipe_to_back back_to_line by (metis print.simps(1))
next
  case (Redir c f mode fd)
  then show ?case using reads_Redir [of c] exec_to_pipe pipe_to_back back_to_line by (metis print.simps(2) printable.simps(2))
next
  case (Pipe l r)
  then have "reads_pipe (Pipe l r)" using reads_Pipe by simp
  then show ?case using pipe_to_back [of "Pipe l r"] back_to_line [of "Pipe l r"] line_to_exec [of "Pipe l r"] by (simp add: paren_def)
next
  case (Lst l r)
  then have "reads_line (Lst l r)" using reads_Lst by simp
  then show ?case using line_to_exec [of "Lst l r"] exec_to_pipe [of "Lst l r"] pipe_to_back [of "Lst l r"] by (simp add: paren_def)
next
  case (Back c)
  then have "reads_back (Back c)" using reads_Back by simp
  then show ?case using back_to_line [of "Back c"] line_to_exec [of "Back c"] exec_to_pipe [of "Back c"] by (simp add: paren_def)
qed

subsection \<open>Words are ended in place\<close>

abbreviation breaks :: "uchar \<Rightarrow> bool" where
  "breaks c \<equiv> c \<in> set whitespace \<or> c \<in> set symbols"

definition word_at :: "uchar list \<Rightarrow> ptrs \<Rightarrow> bool" where
  "word_at b = (\<lambda>(q, e). q \<le> e \<and> e \<le> length b \<and> (\<forall>i. q \<le> i \<longrightarrow> i < e \<longrightarrow> \<not> breaks (b ! i)) \<and> (e = length b \<or> breaks (b ! e)))"

lemma gettoken_word:
  assumes "gettoken b p = (97, q, e, p')"
  shows "word_at b (q, e)"
proof -
  let ?P = "\<lambda>c. c \<notin> set whitespace \<and> c \<notin> set symbols"
  have p: "p \<le> length b" using gettoken_inside [OF assms] by simp
  note g = gettoken_progress [OF assms p]
  have e: "e = word_end b q" using assms by (auto simp: gettoken_def Let_def split: if_splits)
  have "?P (b ! i)" if "q \<le> i" "i < e" for i
  proof -
    have "drop q b ! (i - q) \<in> set (takeWhile ?P (drop q b))"
      using that e by (subst takeWhile_nth [symmetric, of "i - q"]) (auto simp: word_end_def intro!: nth_mem)
    then show ?thesis using that g(3,4) set_takeWhileD [of "b ! i" ?P "drop q b"] by auto
  qed
  moreover have "\<not> ?P (b ! e)" if "e < length b"
    using nth_length_takeWhile [of ?P "drop q b"] that unfolding e word_end_def by auto
  ultimately show ?thesis using g(2-4) by (auto simp: word_at_def)
qed

lemma parseredirs_words: "parseredirs b p = Ret (rs, p') \<Longrightarrow> \<forall>r\<in>set rs. word_at b (fst r)"
proof (induction b p arbitrary: rs p' rule: parseredirs.induct)
  case (1 b p)
  show ?case
  proof (cases "snd (peek b p [60, 62])")
    case False
    then show ?thesis using 1(2) by (simp add: parseredirs_end)
  next
    case True
    obtain t q e p2 where g: "gettoken b (after_token b (fst (peek b p [60, 62]))) = (t, q, e, p2)" using prod_cases4 by blast
    obtain rs1 d where r: "parseredirs b p2 = Ret (rs1, p')" "t = 97" "rs = ((q, e), d) # rs1"
      using 1(2) by (auto simp: parseredirs_step [OF True g] kbind_Ret_iff split: if_splits)
    then show ?thesis using 1(1) [OF refl True refl g [symmetric] refl refl] gettoken_word g by auto
  qed
qed

lemma exec_loop_words:
  "exec_loop b args rs p = Ret (args', rs', p') \<Longrightarrow> \<forall>w\<in>set args. word_at b w \<Longrightarrow> \<forall>r\<in>set rs. word_at b (fst r) \<Longrightarrow>
   (\<forall>w\<in>set args'. word_at b w) \<and> (\<forall>r\<in>set rs'. word_at b (fst r))"
proof (induction b args rs p rule: exec_loop.induct)
  case (1 b args rs p)
  let ?p1 = "fst (peek b p [124, 41, 38, 59])"
  show ?case
  proof (cases "snd (peek b p [124, 41, 38, 59])")
    case True
    then show ?thesis using 1(2-4) by (subst (asm) exec_loop.simps) auto
  next
    case False
    obtain t q e p2 where g: "gettoken b ?p1 = (t, q, e, p2)" using prod_cases4 by blast
    show ?thesis
    proof (cases "t = 0")
      case True
      then show ?thesis using False g 1(2-4) by (subst (asm) exec_loop.simps) auto
    next
      case t: False
      obtain rs1 p3 where r: "t = 97" "length args + 1 < MAXARGS" "parseredirs b p2 = Ret (rs1, p3)"
          "exec_loop b (args @ [(q, e)]) (rs @ rs1) p3 = Ret (args', rs', p')"
        using False g t 1(2) by (subst (asm) (2) exec_loop.simps) (auto simp: kbind_Ret_iff split: if_splits)
      have "\<forall>w\<in>set (args @ [(q, e)]). word_at b w" "\<forall>r\<in>set (rs @ rs1). word_at b (fst r)"
        using 1(3,4) gettoken_word [of b ?p1 q e p2] g r(1) parseredirs_words [OF r(3)] by auto
      then show ?thesis using r(1,2) by (intro 1(1) [OF refl False g [symmetric] refl refl t _ _ r(3) refl r(4)]) simp_all
    qed
  qed
qed

lemma set_add_redirs: "set_cmd (add_redirs c rs) = set_cmd c \<union> fst ` set rs"
  by (induction rs arbitrary: c) (auto simp: add_redirs_def)

lemma back_loop_words: "back_loop b c p = (c', p') \<Longrightarrow> set_cmd c' = set_cmd c"
proof (induction b c p rule: back_loop.induct)
  case (1 b c p)
  then show ?case by (subst (asm) (2) back_loop.simps) (auto simp: Let_def split: if_splits)
qed

lemma parser_words:
  "parseline b p = Ret (c, p') \<Longrightarrow> \<forall>w\<in>set_cmd c. word_at b w" "parsepipe b p = Ret (c, p') \<Longrightarrow> \<forall>w\<in>set_cmd c. word_at b w"
  "parseexec b p = Ret (c, p') \<Longrightarrow> \<forall>w\<in>set_cmd c. word_at b w" "parseblock b p = Ret (c, p') \<Longrightarrow> \<forall>w\<in>set_cmd c. word_at b w"
proof (induction b p and b p and b p and b p arbitrary: c p' and c p' and c p' and c p' rule: parseline_parsepipe_parseexec_parseblock.induct)
  case (1 b p)
  obtain c1 p1 where r1: "parsepipe b p = Ret (c1, p1)" using 1(3) by (subst (asm) parseline.simps) (auto simp: kbind_Ret_iff)
  obtain c2 p2 where r2: "back_loop b c1 p1 = (c2, p2)" by fastforce
  note r = r1 r2
  have w: "\<forall>w\<in>set_cmd c2. word_at b w" using 1(1) [OF r(1)] back_loop_words [OF r(2)] by simp
  show ?case
  proof (cases "snd (peek b p2 [59])")
    case True
    let ?p4 = "after_token b (fst (peek b p2 [59]))"
    obtain d where d: "p < ?p4 \<and> p < length b" "parseline b ?p4 = Ret (d, p')" "c = Lst c2 d"
      using 1(3) True r by (subst (asm) (2) parseline.simps) (auto simp: Let_def kbind_Ret_iff split: if_splits)
    then show ?thesis using 1(2) [OF r(1) refl r(2) [symmetric] refl True refl d(1) d(2)] w by auto
  next
    case False
    then show ?thesis using 1(3) r w by (subst (asm) parseline.simps) (auto simp: Let_def)
  qed
next
  case (2 b p)
  obtain c1 p1 where r: "parseexec b p = Ret (c1, p1)" using 2(3) by (subst (asm) parsepipe.simps) (auto simp: kbind_Ret_iff)
  note w = 2(1) [OF r]
  show ?case
  proof (cases "snd (peek b p1 [124])")
    case True
    let ?p3 = "after_token b (fst (peek b p1 [124]))"
    obtain d where d: "p < ?p3 \<and> p < length b" "parsepipe b ?p3 = Ret (d, p')" "c = Pipe c1 d"
      using 2(3) True r by (subst (asm) (2) parsepipe.simps) (auto simp: Let_def kbind_Ret_iff split: if_splits)
    then show ?thesis using 2(2) [OF r refl refl True refl d(1) d(2)] w by auto
  next
    case False
    then show ?thesis using 2(3) r w by (subst (asm) parsepipe.simps) (auto simp: Let_def)
  qed
next
  case (3 b p)
  show ?case
  proof (cases "snd (peek b p [40])")
    case True
    then show ?thesis using 3(1) [OF refl True] 3(2) by (subst (asm) parseexec.simps) (auto simp: Let_def)
  next
    case False
    then obtain rs p2 args rs2 where r: "parseredirs b (fst (peek b p [40])) = Ret (rs, p2)" "exec_loop b [] rs p2 = Ret (args, rs2, p')" "c = add_redirs (Exec args) rs2"
      using 3(2) by (subst (asm) parseexec.simps) (auto simp: Let_def kbind_Ret_iff)
    show ?thesis using exec_loop_words [OF r(2)] parseredirs_words [OF r(1)] by (auto simp: r(3) set_add_redirs)
  qed
next
  case (4 b p)
  show ?case
  proof (cases "snd (peek b p [40])")
    case True
    obtain d p2 rs where r: "parseline b (after_token b (fst (peek b p [40]))) = Ret (d, p2)"
        "parseredirs b (after_token b (fst (peek b p2 [41]))) = Ret (rs, p')" "c = add_redirs d rs"
      using 4(2) True by (subst (asm) parseblock.simps) (auto simp: Let_def kbind_Ret_iff split: if_splits)
    show ?thesis using 4(1) [OF refl _ r(1)] True parseredirs_words [OF r(2)] by (auto simp: r(3) set_add_redirs)
  next
    case False
    then show ?thesis using 4(2) by (subst (asm) parseblock.simps) (auto simp: Let_def)
  qed
qed

definition cstr_at :: "uchar list \<Rightarrow> nat \<Rightarrow> uchar list" where
  "cstr_at buf q = takeWhile (\<lambda>c. c \<noteq> 0) (drop q buf)"

lemma nul_at_nth: "i < length buf \<Longrightarrow> nul_at e buf ! i = (if i = e then 0 else buf ! i)" "length (nul_at e buf) = length buf"
  by (simp_all add: nul_at_def)

lemma fold_nul: "i < length buf \<Longrightarrow> fold (\<lambda>(q, eq). nul_at eq) args buf ! i = (if i \<in> snd ` set args then 0 else buf ! i)"
  "length (fold (\<lambda>(q, eq). nul_at eq) args buf) = length buf"
  by (induction args arbitrary: buf) (simp_all add: nul_at_nth case_prod_beta)

lemma length_nulterminate [simp]: "length (nulterminate c buf) = length buf"
  by (induction c arbitrary: buf) (auto simp: fold_nul nul_at_nth)

lemma nulterminate_nth: "i < length buf \<Longrightarrow> nulterminate c buf ! i = (if i \<in> snd ` set_cmd c then 0 else buf ! i)"
  by (induction c arbitrary: buf) (simp_all add: fold_nul nul_at_nth image_Un)

lemma ended_word:
  assumes "0 \<notin> set b" "\<forall>w\<in>set_cmd c. word_at b w" "(q, e) \<in> set_cmd c"
  shows "cstr_at (nulterminate c (b @ [0])) q = tok_text b (q, e)"
proof -
  let ?buf = "nulterminate c (b @ [0])"
  have w: "q \<le> e" "e \<le> length b" "\<And>i. q \<le> i \<Longrightarrow> i < e \<Longrightarrow> \<not> breaks (b ! i)" using assms(2,3) by (auto simp: word_at_def)
  have "?buf ! i = b ! i" if i: "q \<le> i" "i < e" for i
  proof -
    have "i \<notin> snd ` set_cmd c" using assms(2) w(2,3) i by (fastforce simp: word_at_def)
    then show ?thesis using i w(2) by (simp add: nulterminate_nth nth_append)
  qed
  moreover have "b ! i \<noteq> 0" if "i < length b" for i using assms(1) that nth_mem by metis
  moreover have "?buf ! e = 0" using assms(3) w(2) by (force simp: nulterminate_nth)
  ultimately have "takeWhile (\<lambda>c. c \<noteq> 0) (drop q ?buf) = take (e - q) (drop q ?buf)"
    using w(1,2) by (intro takeWhile_eq_take_P_nth) auto
  also have "\<dots> = take (e - q) (drop q b)"
    using w(1,2) \<open>\<And>i. q \<le> i \<Longrightarrow> i < e \<Longrightarrow> ?buf ! i = b ! i\<close> by (intro nth_equalityI) auto
  finally show ?thesis by (simp add: cstr_at_def tok_text_def)
qed

lemma print_nonzero: "printable c \<Longrightarrow> 0 \<notin> set (print c k)"
  by (induction c arbitrary: k) (auto simp: paren_def print_words_def print_redirs_def is_word_def redir_ok_def)

text \<open>
  C22. Ending the words in place is safe: after \<^verbatim>\<open>parsecmd\<close> the string at the start of every argument and every file name of the command is the text
  between the two positions that the parser recorded, so no terminating zero falls into another word.
\<close>

theorem nulterminate_safe:
  assumes "0 \<notin> set b" "parsecmd b = Ret (c, buf)"
  shows "\<forall>(q, e)\<in>set_cmd c. cstr_at buf q = tok_text b (q, e)"
proof -
  obtain p where "parseline b 0 = Ret (c, p)" "buf = nulterminate c (b @ [0])"
    using assms(2) by (auto simp: parsecmd_def kbind_Ret_iff split: if_splits)
  then show ?thesis using ended_word [OF assms(1)] parser_words(1) by blast
qed

text \<open>
  C15. Every command is what the parser reads back from its printed form: for a command with at most nine arguments for each program, words without blanks and symbols, and the
  redirections of the shell, \<^verbatim>\<open>parsecmd\<close> on the printed command gives the command, with the strings in the buffer as its words.
\<close>

theorem parsecmd_print:
  assumes "printable c"
  shows "\<exists>c' buf. parsecmd (print c 0) = Ret (c', buf) \<and> map_cmd (\<lambda>(q, e). cstr_at buf q) c' = c"
proof -
  let ?b = "print c 0"
  have z: "0 \<notin> set ?b" using print_nonzero [OF assms] by simp
  then have a: "rest_is ?b 0 (?b @ [])" by (simp add: rest_is_def)
  then obtain c' where c: "parseline ?b 0 = Ret (c', length ?b)" "text_of ?b c' = c"
    using reads_printed [OF assms] unfolding reads_line_def by fastforce
  have "rest_is ?b (length ?b) []" using rest_is_append [OF a] by simp
  then have "fst (peek ?b (length ?b) []) = length ?b" using peek_rest(1) [of ?b "length ?b" "[]"] by simp
  then have p: "parsecmd ?b = Ret (c', nulterminate c' (?b @ [0]))" using c(1) by (simp add: parsecmd_def)
  moreover have "map_cmd (\<lambda>(q, e). cstr_at (nulterminate c' (?b @ [0])) q) c' = text_of ?b c'"
    using ended_word [OF z parser_words(1) [OF c(1)]] by (intro cmd.map_cong0) auto
  ultimately show ?thesis using c(2) by auto
qed

text \<open>The line \<^verbatim>\<open>ls>f|(a&;wc<g)\<close>, with blanks before the words.\<close>

definition sample :: "uchar list cmd" where
  "sample = Pipe (Redir (Exec [[108, 115]]) [102] O_WRONLY_CREATE 1) (Lst (Back (Exec [[97]])) (Redir (Exec [[119, 99]]) [103] O_RDONLY 0))"

lemma sample_printable: "printable sample"
  by (simp add: sample_def is_word_def redir_ok_def whitespace_def symbols_def)

theorem parsecmd_print_witness:
  "\<exists>c buf. parsecmd [32, 108, 115, 62, 102, 124, 40, 32, 97, 38, 59, 32, 119, 99, 60, 103, 41] = Ret (c, buf) \<and> map_cmd (\<lambda>(q, e). cstr_at buf q) c = sample"
proof -
  have "print sample 0 = [32, 108, 115, 62, 102, 124, 40, 32, 97, 38, 59, 32, 119, 99, 60, 103, 41]"
    by (simp add: sample_def paren_def print_words_def print_redirs_def)
  with parsecmd_print [OF sample_printable] show ?thesis by simp
qed

theorem nulterminate_safe_witness:
  "\<exists>c buf. parsecmd [97, 32, 98, 59, 99] = Ret (c, buf) \<and> c = Lst (Exec [(0, 1), (2, 3)]) (Exec [(4, 5)]) \<and>
    cstr_at buf 0 = [97] \<and> cstr_at buf 2 = [98] \<and> cstr_at buf 4 = [99]"
proof -
  let ?b = "[97, 32, 98, 59, 99] :: uchar list" and ?c = "Lst (Exec [(0, 1), (2, 3)]) (Exec [(4, 5)])"
  have b: "parsecmd ?b = Ret (?c, [97, 0, 98, 0, 99, 0])" (is "_ = Ret (_, ?buf)") by code_simp
  have "\<forall>(q, e)\<in>set_cmd ?c. cstr_at ?buf q = tok_text ?b (q, e)" by (rule nulterminate_safe [OF _ b]) simp
  then show ?thesis using b by (simp add: tok_text_def)
qed

end
