(* ===== verification/Spec2Isabelle.thy ===== *)
theory Spec2Isabelle
  imports Spinlock Sleep Scheduler Exec Fsfile Icache Pagetable Barrier Grep Console Maekawa Shell
begin

text \<open>
  A verification library for the xv6 kernel of \<^verbatim>\<open>src/xv6A1\<close>, for the calls that the kernel of \<^verbatim>\<open>src/a2\<close> adds to it, and for the
  user programs that have an algorithm of their own.

  \<^bold>\<open>The program.\<close> Processors run processes of a fixed table. They share memory under spin locks; a process that has to wait
  sleeps on a channel and gives up the processor. System calls enter through a table of handlers that fetch their arguments from the
  memory of the caller. Files are kept on a disk behind a buffer cache; every change of the disk goes through a write-ahead log;
  on the log rest the block allocator, the inodes, directories and path names, on these the open files, and on the open files
  the calls of user programs. Pipes, the console and mailboxes pass data between processes.

  \<^bold>\<open>Conventions\<close> (theory \<open>Prelude\<close>). A C function is a function on an explicit state that returns a value of type \<open>kres\<close>: \<open>Ret\<close>
  with the result, \<open>Panic\<close> with the message of the source, \<open>Block\<close> with the channel on which the process goes to sleep, \<open>Spin\<close> where the
  code would loop for ever, \<open>Fault\<close> where the C code has no defined meaning, such as an index outside an array. Where the theorems
  are about waiting (\<^verbatim>\<open>sleep\<close>, \<^verbatim>\<open>wait\<close>, pipes, the console, the mailboxes and the barrier) a function is cut at the
  sleep: \<open>f\<close> runs to the sleep, and \<open>f_resume\<close> is the rest of it, run once the process is scheduled again, when the state may have
  been changed by others. The waits below the file system (\<^verbatim>\<open>acquiresleep\<close>, \<^verbatim>\<open>bget\<close>, \<^verbatim>\<open>begin_op\<close>) are not cut: \<open>Block\<close> says that the call has to
  wait, and nothing is said of how it goes on. Integers are words of their width and wrap around; \<open>sint\<close> reads a signed one. The
  exceptions are counters of C type \<^verbatim>\<open>int\<close> that only go up and down by one (references to an inode or a file, running
  transactions, nested \<^verbatim>\<open>pushcli\<close>): they are integers, and a count that leaves the range of an \<^verbatim>\<open>int\<close> is a \<open>Fault\<close> (\<open>cinc\<close>, \<open>cdec\<close>). A pointer to an element of a
  kernel array is the index of the element. Memory that the code takes apart into bytes is a map from 32 bit addresses to bytes (\<open>Kmemory\<close>), and so
  are the bytes of a disk block (\<open>Blockdata\<close>). The spin lock of a component is a flag that \<open>acquire\<close> sets and \<open>release\<close> clears:
  taking a lock that is held is a panic, as on one processor, and the locale \<open>lock_impl\<close> says what a section between the two keeps.
  States are records that extend each other in the order in which the components use each other: the process table, the system calls,
  the kernel calls, the buffer cache, the log, the file system, the open files.

  \<^bold>\<open>Locks and processes.\<close> \<open>Spinlock\<close> models \<^verbatim>\<open>spinlock.c\<close> for a table of processors, with the nesting of disabled interrupts: in every
  interleaving of the exchanges and stores two processors never hold one lock, and runs refine an abstract lock. \<open>ProcTable\<close> has the process table of \<^verbatim>\<open>proc.c\<close>: allocation of a slot,
  sleep, wakeup and kill. \<open>Scheduler\<close> runs the scheduler loop of any number of processors with the processes they switch to: one processor
  at a time has the table, no process runs on two, and a slot that stays ready is not passed over. \<open>Sleep\<close> runs any number of sleepers, wakers and killers in every
  interleaving and shows that no wakeup is lost. \<open>Process\<close> has fork, exit, wait, sbrk and the first process: no process sleeps in
  wait while a child has exited. \<open>Signal\<close> has the messages that interrupt a process and the return from the handler. \<open>Sleeplock\<close> has the locks
  that sleep.

  \<^bold>\<open>Memory.\<close> \<open>Kstring\<close> has \<^verbatim>\<open>string.c\<close> on overlapping blocks. \<open>Kalloc\<close> has \<^verbatim>\<open>kalloc.c\<close>, the free list threaded through the free pages; free
  and held pages partition the memory through every run. \<open>Vm\<close> has \<^verbatim>\<open>vm.c\<close>, page directories and tables as words in the memory of
  the allocator, and \<open>Pagetable\<close> what they map: \<open>mappages\<close> adds exactly its range, or stops at the first page
  that is mapped or has no table, and \<open>deallocuvm\<close> ends and removes exactly its range.
  \<open>Exec\<close> has \<^verbatim>\<open>exec.c\<close>.

  \<^bold>\<open>System calls and messages.\<close> \<open>Syscall\<close> has \<^verbatim>\<open>syscall.c\<close>: arguments are accepted exactly when they lie in the memory of the process. \<open>Ipc\<close> has \<^verbatim>\<open>sysproc.c\<close>: the mailbox
  as a bag of messages, and the clock. \<open>Barrier\<close> has the queues of messages and the barrier of \<^verbatim>\<open>src/a2/sysproc.c\<close>.

  \<^bold>\<open>Pipes and console.\<close> \<open>Ring\<close> states the contract of a bounded queue as a locale with its lemmas. \<open>Pipe\<close> has \<^verbatim>\<open>pipe.c\<close> and delivers the bytes in
  order under every interleaving; \<open>Barrier\<close> interprets the same locale. \<open>Console\<close> has \<^verbatim>\<open>console.c\<close> and \<^verbatim>\<open>kbd.c\<close>; the interrupt handler refines a
  line editor. \<open>Format\<close> has the conversions of \<^verbatim>\<open>printf.c\<close>, \<^verbatim>\<open>cprintf\<close> and \<^verbatim>\<open>atoi\<close>.

  \<^bold>\<open>Files.\<close> \<open>Bio\<close> has \<^verbatim>\<open>bio.c\<close> and \<^verbatim>\<open>memide.c\<close> and refines an array of blocks (locale \<open>block_store\<close>). \<open>Log\<close> has \<^verbatim>\<open>log.c\<close>: a commit that
  is cut off after any number of disk writes is recovered to all or nothing. \<open>Fs\<close> has \<^verbatim>\<open>fs.c\<close>; \<open>Fsblock\<close> shows the block allocator
  correct, \<open>Fsmap\<close> the map from the blocks of a file to the blocks of the disk, \<open>Fsfile\<close> reading and writing a file as a sequence of bytes, \<open>Icache\<close> the cache of inodes and the elements of paths. \<open>File\<close> has
  \<^verbatim>\<open>file.c\<close> and \<open>Sysfile\<close> the calls of \<^verbatim>\<open>sysfile.c\<close>.

  \<^bold>\<open>User programs.\<close> \<open>Grep\<close> has \<^verbatim>\<open>grep.c\<close>: the matcher decides the language of the patterns. \<open>Shell\<close> has the parser of \<^verbatim>\<open>sh.c\<close>: it returns on every
  line, and reads back what a command prints as. \<open>Maekawa\<close> has \<^verbatim>\<open>src/a2/maekawa.c\<close>: the processes as state machines over their
  messages, in every order of delivery, enter the critical section one at a time; the quorums of the square are an interpretation
  of the locale \<open>quorum_system\<close>.

  \<^bold>\<open>Bounds and loops.\<close> Loops over arrays are structural recursion. Loops bounded by word arithmetic are functions with a termination
  proof on the distance to the bound; there is no fuel. Loops that can run for ever are partial functions into an option, where \<open>None\<close> is a
  loop that does not end and becomes \<open>Spin\<close> (\<open>lrun\<close>): \<^verbatim>\<open>deallocuvm\<close>, whose address can wrap around, the scans of a
  directory, whose size is any word, the scan for the end of a string. The parser of the shell tests that a turn made progress
  and returns \<open>Spin\<close> otherwise. The theorems on \<^verbatim>\<open>deallocuvm\<close> and on the parser show that \<open>Spin\<close> is not reached. The group of processes of
  the mutual exclusion program has 4, 9, 16 or 25 members, the sizes for which the program
  knows the side of the square, and no member has the process id 100, which the program also uses as the message of a release.

  \<^bold>\<open>Not modelled.\<close> The context switch, the entry of traps and the boot code are assembly (\<^verbatim>\<open>swtch.S\<close>, \<^verbatim>\<open>trapasm.S\<close>, \<^verbatim>\<open>entry.S\<close>, \<^verbatim>\<open>entryother.S\<close>,
  \<^verbatim>\<open>bootasm.S\<close>, \<^verbatim>\<open>initcode.S\<close>, \<^verbatim>\<open>usys.S\<close>); they are the points at which the model passes from one function to the next. The drivers
  of the interrupt controllers, the serial line and the timer (\<^verbatim>\<open>lapic.c\<close>, \<^verbatim>\<open>ioapic.c\<close>, \<^verbatim>\<open>picirq.c\<close>, \<^verbatim>\<open>uart.c\<close>) only exchange values with device registers. The Jacobi programs (\<^verbatim>\<open>jacob.c\<close>,
  \<^verbatim>\<open>jacob_linux.c\<close>) compute with floating point numbers. \<^verbatim>\<open>maekawa_linux.c\<close> rests on pipes and processes of another system. The test programs
  (\<^verbatim>\<open>usertests.c\<close> and the small ones) are clients of the calls. Effects of the memory model of the processor, such as reordered stores, and of
  the cache of address translations are outside the model.
\<close>

end
